(* ===== verification/Prelude.thy ===== *)
theory Prelude
  imports Main "HOL-Library.Word" "HOL-Library.Monad_Syntax" "HOL-Library.Multiset"
begin

text \<open>
  Shared vocabulary of the development: 32-bit pointers, the \<open>ASSERT\<close> macro, the
  collections of simplification rules the component theories extend, and the
  generic lemmas on options, lists and words they use.

  An operation that may panic (a failed \<open>ASSERT\<close>, \<open>PANIC\<close>, \<open>NOT_REACHED\<close>), fault (an
  access through a null pointer) or run forever returns an \<open>option\<close>: \<open>None\<close> stands
  for all three, so a statement \<open>f x = Some y\<close> says that the C function returns.
\<close>

unbundle bit_operations_syntax

type_synonym ptr = "32 word"
type_synonym size_t = "32 word"
type_synonym uint8 = "8 word"
type_synonym uint32 = "32 word"
type_synonym uint64 = "64 word"

abbreviation NULL :: ptr where "NULL \<equiv> 0"

named_theorems assert_simps
named_theorems heap_simps

text \<open>The \<open>ASSERT\<close> macro of \<open>src/lib/debug.h\<close>: a failed condition panics.\<close>

definition ASSERT :: "bool \<Rightarrow> unit option" where
  "ASSERT c = (if c then Some () else None)"

lemma ASSERT_True [simp]: "ASSERT True = Some ()"
  by (simp add: ASSERT_def)

lemma ASSERT_False [simp]: "ASSERT False = None"
  by (simp add: ASSERT_def)

lemma ASSERT_holds [simp]: "c \<Longrightarrow> ASSERT c = Some ()"
  by (simp add: ASSERT_def)

lemma ASSERT_eq_Some [simp]: "ASSERT c = Some u \<longleftrightarrow> c"
  by (simp add: ASSERT_def)

lemma ASSERT_eq_None [simp]: "ASSERT c = None \<longleftrightarrow> \<not> c"
  by (simp add: ASSERT_def)

subsection \<open>Comparison functions\<close>

text \<open>
  What \<open>list_less_func\<close> and \<open>hash_less_func\<close> have to satisfy for the ordered
  operations: a strict weak order. Two elements neither of which is less than the
  other are equal for the library.
\<close>

locale strict_weak_order =
  fixes less :: "'a \<Rightarrow> 'a \<Rightarrow> bool"
  assumes asym: "less a b \<Longrightarrow> \<not> less b a"
    and incomp_trans: "\<not> less a b \<Longrightarrow> \<not> less b c \<Longrightarrow> \<not> less a c"
begin

lemma irrefl: "\<not> less a a"
  using asym by blast

lemma less_trans: "less a b \<Longrightarrow> less b c \<Longrightarrow> less a c"
  using asym incomp_trans by blast

lemma ge_less_trans: "\<not> less b a \<Longrightarrow> less b c \<Longrightarrow> less a c"
  using incomp_trans by blast

lemma less_ge_trans: "less a b \<Longrightarrow> \<not> less c b \<Longrightarrow> less a c"
  using incomp_trans by blast

end

subsection \<open>Lists\<close>

lemma find_append_None: "find P ys = None \<Longrightarrow> find P (xs @ ys) = find P xs"
  by (induction xs) simp_all

lemma length_distinct_word:
  fixes xs :: "'a::len word list"
  assumes "distinct xs"
  shows "length xs \<le> 2 ^ LENGTH('a)"
proof -
  have "card (set xs) \<le> card (UNIV :: 'a word set)"
    by (rule card_mono) simp_all
  then show ?thesis using assms by (simp add: distinct_card card_word)
qed

subsection \<open>Counting with words\<close>

lemma unat_lt_2p32: "unat (x :: 32 word) < 2 ^ 32"
proof -
  have "unat x < 2 ^ LENGTH(32)" by (rule unsigned_less)
  then show ?thesis by simp
qed

lemma unat_of_nat32: "n < 2 ^ 32 \<Longrightarrow> unat (of_nat n :: 32 word) = n"
  by (simp add: unsigned_of_nat take_bit_nat_eq_self)

lemma unat_eq_of_nat32: "n < 2 ^ 32 \<Longrightarrow> unat (w :: 32 word) = n \<longleftrightarrow> w = of_nat n"
  by (auto simp: unsigned_of_nat take_bit_nat_eq_self)

lemma unat_Suc_dec:
  fixes w :: "'a::len word"
  assumes "unat w = Suc n"
  shows "w \<noteq> 0" and "unat (w - 1) = n"
proof -
  show w: "w \<noteq> 0" using assms by auto
  show "unat (w - 1) = n" using assms unat_minus_one[OF w] by simp
qed

lemma of_nat_inj32: "i < 2 ^ 32 \<Longrightarrow> j < 2 ^ 32 \<Longrightarrow> (of_nat i :: 32 word) = of_nat j \<longleftrightarrow> i = j"
  using unat_of_nat32 by metis

lemma unat_inc:
  fixes i n :: "'a::len word"
  assumes "i < n"
  shows "unat (i + 1) = Suc (unat i)"
proof -
  have "i \<noteq> - 1" using assms by auto
  then have "1 + i \<noteq> 0" by (metis add_eq_0_iff minus_minus)
  then show ?thesis using unatSuc[of i] by (simp add: add.commute)
qed

lemma word_inc_measure: "(i :: 'a::len word) < n \<Longrightarrow> unat n - unat (i + 1) < unat n - unat i"
  by (simp add: unat_inc word_less_nat_alt diff_less_mono2)

lemma sint_small32:
  assumes "unat (w :: 32 word) < 2 ^ 31"
  shows "sint w = int (unat w)"
proof -
  have "int (unat w) < int (2 ^ 31)" using assms by (rule of_nat_less_iff[THEN iffD2])
  moreover have "- (2 ^ 31) \<le> uint w" by (rule order_trans[OF _ uint_ge_0]) simp
  ultimately have "signed_take_bit 31 (uint w) = uint w" by (intro signed_take_bit_int_eq_self) simp_all
  then show ?thesis by (simp add: sint_uint)
qed

end
