(* ===== verification/Klist.thy ===== *)
theory Klist
  imports Prelude
begin

text \<open>
  Doubly linked lists of \<open>src/lib/kernel/list.c\<close> and \<open>list.h\<close>, at the level of the
  pointers the code manipulates.

  The two members of \<open>struct list_elem\<close> are functions of the element's address. A
  \<open>struct list\<close> at address \<open>l\<close> holds its \<open>head\<close> element at \<open>l\<close> and its \<open>tail\<close> element
  8 bytes further. Every access through a pointer is a call of \<open>rd_prev\<close>, \<open>rd_next\<close>,
  \<open>wr_prev\<close> or \<open>wr_next\<close>, which fault on the null pointer. A comparison function
  \<open>less\<close> with its auxiliary data is a function on element addresses.

  \<open>dlist h l xs\<close> says that the list at \<open>l\<close> is well formed in \<open>h\<close> and that its interior
  elements are \<open>xs\<close>, in order. Each operation has a lemma that gives its result and the
  new list on every well-formed list, with the set of addresses it may write.
\<close>

section \<open>Elements and their links\<close>

record heap =
  elem_prev :: "ptr \<Rightarrow> ptr"
  elem_next :: "ptr \<Rightarrow> ptr"

text \<open>
  \<open>list_head\<close> and \<open>list_tail\<close> are also used as the addresses of the two members, so they are total: their assertion that the list
  is not null is left to the accesses through the result.
\<close>

definition list_head :: "ptr \<Rightarrow> ptr" where
  "list_head l = l"

definition list_tail :: "ptr \<Rightarrow> ptr" where
  "list_tail l = l + 8"

definition rd_prev :: "heap \<Rightarrow> ptr \<Rightarrow> ptr option" where
  "rd_prev h p = (if p = NULL then None else Some (elem_prev h p))"

definition rd_next :: "heap \<Rightarrow> ptr \<Rightarrow> ptr option" where
  "rd_next h p = (if p = NULL then None else Some (elem_next h p))"

definition wr_prev :: "heap \<Rightarrow> ptr \<Rightarrow> ptr \<Rightarrow> heap option" where
  "wr_prev h p v = (if p = NULL then None else Some (h\<lparr>elem_prev := (elem_prev h)(p := v)\<rparr>))"

definition wr_next :: "heap \<Rightarrow> ptr \<Rightarrow> ptr \<Rightarrow> heap option" where
  "wr_next h p v = (if p = NULL then None else Some (h\<lparr>elem_next := (elem_next h)(p := v)\<rparr>))"

definition is_head :: "heap \<Rightarrow> ptr \<Rightarrow> bool" where
  "is_head h e \<longleftrightarrow> e \<noteq> NULL \<and> elem_prev h e = NULL \<and> elem_next h e \<noteq> NULL"

definition is_interior :: "heap \<Rightarrow> ptr \<Rightarrow> bool" where
  "is_interior h e \<longleftrightarrow> e \<noteq> NULL \<and> elem_prev h e \<noteq> NULL \<and> elem_next h e \<noteq> NULL"

definition is_tail :: "heap \<Rightarrow> ptr \<Rightarrow> bool" where
  "is_tail h e \<longleftrightarrow> e \<noteq> NULL \<and> elem_prev h e \<noteq> NULL \<and> elem_next h e = NULL"

section \<open>Initialisation and traversal\<close>

definition list_init :: "heap \<Rightarrow> ptr \<Rightarrow> heap option" where
  "list_init h l = do {
     ASSERT (l \<noteq> NULL);
     h \<leftarrow> wr_prev h (list_head l) NULL;
     h \<leftarrow> wr_next h (list_head l) (list_tail l);
     h \<leftarrow> wr_prev h (list_tail l) (list_head l);
     wr_next h (list_tail l) NULL
   }"

definition list_begin :: "heap \<Rightarrow> ptr \<Rightarrow> ptr option" where
  "list_begin h l = do { ASSERT (l \<noteq> NULL); rd_next h (list_head l) }"

definition list_next :: "heap \<Rightarrow> ptr \<Rightarrow> ptr option" where
  "list_next h e = do { ASSERT (is_head h e \<or> is_interior h e); rd_next h e }"

definition list_end :: "ptr \<Rightarrow> ptr option" where
  "list_end l = do { ASSERT (l \<noteq> NULL); Some (list_tail l) }"

definition list_rbegin :: "heap \<Rightarrow> ptr \<Rightarrow> ptr option" where
  "list_rbegin h l = do { ASSERT (l \<noteq> NULL); rd_prev h (list_tail l) }"

definition list_prev :: "heap \<Rightarrow> ptr \<Rightarrow> ptr option" where
  "list_prev h e = do { ASSERT (is_interior h e \<or> is_tail h e); rd_prev h e }"

definition list_rend :: "ptr \<Rightarrow> ptr option" where
  "list_rend l = do { ASSERT (l \<noteq> NULL); Some (list_head l) }"

definition list_empty :: "heap \<Rightarrow> ptr \<Rightarrow> bool option" where
  "list_empty h l = do { b \<leftarrow> list_begin h l; e \<leftarrow> list_end l; Some (b = e) }"

definition list_front :: "heap \<Rightarrow> ptr \<Rightarrow> ptr option" where
  "list_front h l = do { em \<leftarrow> list_empty h l; ASSERT (\<not> em); rd_next h (list_head l) }"

definition list_back :: "heap \<Rightarrow> ptr \<Rightarrow> ptr option" where
  "list_back h l = do { em \<leftarrow> list_empty h l; ASSERT (\<not> em); rd_prev h (list_tail l) }"

section \<open>Insertion and removal\<close>

definition list_insert :: "heap \<Rightarrow> ptr \<Rightarrow> ptr \<Rightarrow> heap option" where
  "list_insert h before elem = do {
     ASSERT (is_interior h before \<or> is_tail h before);
     ASSERT (elem \<noteq> NULL);
     bp \<leftarrow> rd_prev h before;
     h \<leftarrow> wr_prev h elem bp;
     h \<leftarrow> wr_next h elem before;
     bp \<leftarrow> rd_prev h before;
     h \<leftarrow> wr_next h bp elem;
     wr_prev h before elem
   }"

definition list_splice :: "heap \<Rightarrow> ptr \<Rightarrow> ptr \<Rightarrow> ptr \<Rightarrow> heap option" where
  "list_splice h before first lst = do {
     ASSERT (is_interior h before \<or> is_tail h before);
     if first = lst then Some h else do {
       lst \<leftarrow> list_prev h lst;
       ASSERT (is_interior h first);
       ASSERT (is_interior h lst);
       fp \<leftarrow> rd_prev h first;
       ln \<leftarrow> rd_next h lst;
       h \<leftarrow> wr_next h fp ln;
       ln \<leftarrow> rd_next h lst;
       fp \<leftarrow> rd_prev h first;
       h \<leftarrow> wr_prev h ln fp;
       bp \<leftarrow> rd_prev h before;
       h \<leftarrow> wr_prev h first bp;
       h \<leftarrow> wr_next h lst before;
       bp \<leftarrow> rd_prev h before;
       h \<leftarrow> wr_next h bp first;
       wr_prev h before lst
     }
   }"

definition list_push_front :: "heap \<Rightarrow> ptr \<Rightarrow> ptr \<Rightarrow> heap option" where
  "list_push_front h l elem = do { b \<leftarrow> list_begin h l; list_insert h b elem }"

definition list_push_back :: "heap \<Rightarrow> ptr \<Rightarrow> ptr \<Rightarrow> heap option" where
  "list_push_back h l elem = do { e \<leftarrow> list_end l; list_insert h e elem }"

definition list_remove :: "heap \<Rightarrow> ptr \<Rightarrow> (heap \<times> ptr) option" where
  "list_remove h elem = do {
     ASSERT (is_interior h elem);
     p \<leftarrow> rd_prev h elem;
     n \<leftarrow> rd_next h elem;
     h \<leftarrow> wr_next h p n;
     n \<leftarrow> rd_next h elem;
     p \<leftarrow> rd_prev h elem;
     h \<leftarrow> wr_prev h n p;
     n \<leftarrow> rd_next h elem;
     Some (h, n)
   }"

definition list_pop_front :: "heap \<Rightarrow> ptr \<Rightarrow> (heap \<times> ptr) option" where
  "list_pop_front h l = do {
     front \<leftarrow> list_front h l;
     (h, _) \<leftarrow> list_remove h front;
     Some (h, front)
   }"

definition list_pop_back :: "heap \<Rightarrow> ptr \<Rightarrow> (heap \<times> ptr) option" where
  "list_pop_back h l = do {
     back \<leftarrow> list_back h l;
     (h, _) \<leftarrow> list_remove h back;
     Some (h, back)
   }"

section \<open>Size and reversal\<close>

text \<open>The loop of \<open>list_size\<close>, from element \<open>e\<close> on; \<open>cnt\<close> is a \<open>size_t\<close> and wraps.\<close>

partial_function (option) list_size_loop :: "heap \<Rightarrow> ptr \<Rightarrow> ptr \<Rightarrow> size_t \<Rightarrow> size_t option" where
  "list_size_loop h l e cnt = do {
     en \<leftarrow> list_end l;
     if e \<noteq> en then do {
       e' \<leftarrow> list_next h e;
       list_size_loop h l e' (cnt + 1)
     } else Some cnt
   }"

declare list_size_loop.simps [code]

definition list_size :: "heap \<Rightarrow> ptr \<Rightarrow> size_t option" where
  "list_size h l = do { b \<leftarrow> list_begin h l; list_size_loop h l b 0 }"

text \<open>
  \<open>swap (&e->prev, &e->next)\<close>: the two links of one element. The loop of
  \<open>list_reverse\<close> swaps them and follows the \<open>prev\<close> link, which is the old \<open>next\<close>.
\<close>

definition swap_links :: "heap \<Rightarrow> ptr \<Rightarrow> heap option" where
  "swap_links h e = do {
     t \<leftarrow> rd_prev h e;
     n \<leftarrow> rd_next h e;
     h \<leftarrow> wr_prev h e n;
     wr_next h e t
   }"

partial_function (option) list_reverse_loop :: "heap \<Rightarrow> ptr \<Rightarrow> ptr \<Rightarrow> heap option" where
  "list_reverse_loop h l e = do {
     en \<leftarrow> list_end l;
     if e \<noteq> en then do {
       h \<leftarrow> swap_links h e;
       e' \<leftarrow> rd_prev h e;
       list_reverse_loop h l e'
     } else Some h
   }"

declare list_reverse_loop.simps [code]

definition list_reverse :: "heap \<Rightarrow> ptr \<Rightarrow> heap option" where
  "list_reverse h l = do {
     em \<leftarrow> list_empty h l;
     if \<not> em then do {
       b \<leftarrow> list_begin h l;
       h \<leftarrow> list_reverse_loop h l b;
       \<comment> \<open>\<open>swap (&list->head.next, &list->tail.prev)\<close>\<close>
       t \<leftarrow> rd_next h (list_head l);
       v \<leftarrow> rd_prev h (list_tail l);
       h \<leftarrow> wr_next h (list_head l) v;
       h \<leftarrow> wr_prev h (list_tail l) t;
       \<comment> \<open>\<open>swap (&list->head.next->prev, &list->tail.prev->next)\<close>\<close>
       a \<leftarrow> rd_next h (list_head l);
       b \<leftarrow> rd_prev h (list_tail l);
       t \<leftarrow> rd_prev h a;
       v \<leftarrow> rd_next h b;
       h \<leftarrow> wr_prev h a v;
       wr_next h b t
     } else Some h
   }"

section \<open>The list a heap holds\<close>

text \<open>
  \<open>linked\<close>: consecutive addresses point at each other. \<open>chain\<close>: the addresses are also
  distinct and not null, and the two outer links are null. \<open>dlist\<close>: a chain from the
  head of a \<open>struct list\<close> to its tail.
\<close>

fun linked :: "heap \<Rightarrow> ptr list \<Rightarrow> bool" where
  "linked h (a # b # ns) \<longleftrightarrow> elem_next h a = b \<and> elem_prev h b = a \<and> linked h (b # ns)"
| "linked h _ \<longleftrightarrow> True"

definition chain :: "heap \<Rightarrow> ptr list \<Rightarrow> bool" where
  "chain h ns \<longleftrightarrow> ns \<noteq> [] \<and> distinct ns \<and> NULL \<notin> set ns \<and>
     elem_prev h (hd ns) = NULL \<and> elem_next h (last ns) = NULL \<and> linked h ns"

definition nodes :: "ptr \<Rightarrow> ptr list \<Rightarrow> ptr list" where
  "nodes l xs = list_head l # xs @ [list_tail l]"

definition dlist :: "heap \<Rightarrow> ptr \<Rightarrow> ptr list \<Rightarrow> bool" where
  "dlist h l xs \<longleftrightarrow> chain h (nodes l xs)"

text \<open>A heap that holds one list, for concrete examples.\<close>

definition heap_of_list :: "ptr \<Rightarrow> ptr list \<Rightarrow> heap" where
  "heap_of_list l xs = (let ns = nodes l xs in
     \<lparr>elem_prev = \<lambda>p. case map_of (zip (tl ns) ns) p of None \<Rightarrow> NULL | Some q \<Rightarrow> q,
      elem_next = \<lambda>p. case map_of (zip ns (tl ns)) p of None \<Rightarrow> NULL | Some q \<Rightarrow> q\<rparr>)"

text \<open>Two heaps agree outside a set of addresses.\<close>

definition same_outside :: "ptr set \<Rightarrow> heap \<Rightarrow> heap \<Rightarrow> bool" where
  "same_outside S h h' \<longleftrightarrow>
     (\<forall>p. p \<notin> S \<longrightarrow> elem_prev h' p = elem_prev h p \<and> elem_next h' p = elem_next h p)"

lemma same_outside_refl [simp]: "same_outside S h h"
  by (simp add: same_outside_def)

lemma same_outside_trans: "same_outside S h h' \<Longrightarrow> same_outside S h' h'' \<Longrightarrow> same_outside S h h''"
  by (simp add: same_outside_def)

lemma same_outside_mono: "same_outside S h h' \<Longrightarrow> S \<subseteq> T \<Longrightarrow> same_outside T h h'"
  by (auto simp: same_outside_def)

lemma linked_Cons_Cons: "linked h (a # b # ns) \<longleftrightarrow> elem_next h a = b \<and> elem_prev h b = a \<and> linked h (b # ns)"
  by simp

lemma linked_append:
  "linked h (us @ p # vs) \<longleftrightarrow> linked h (us @ [p]) \<and> linked h (p # vs)"
proof (induction us)
  case (Cons u us)
  then show ?case by (cases us) auto
qed simp

lemma linked_mid:
  "linked h (us @ p # q # vs) \<longleftrightarrow>
     linked h (us @ [p]) \<and> elem_next h p = q \<and> elem_prev h q = p \<and> linked h (q # vs)"
  by (subst linked_append) simp

lemma linked_Cons: "ns \<noteq> [] \<Longrightarrow> linked h (a # ns) \<longleftrightarrow> elem_next h a = hd ns \<and> elem_prev h (hd ns) = a \<and> linked h ns"
  by (cases ns) auto

lemma linked_snoc:
  "ns \<noteq> [] \<Longrightarrow> linked h (ns @ [z]) \<longleftrightarrow> linked h ns \<and> elem_next h (last ns) = z \<and> elem_prev h z = last ns"
  by (cases ns rule: rev_cases) (auto simp: linked_append[of h _ _ "[_]"])

lemma linked_cong:
  "(\<And>x. x \<in> set (butlast ns) \<Longrightarrow> elem_next h' x = elem_next h x) \<Longrightarrow>
   (\<And>x. x \<in> set (tl ns) \<Longrightarrow> elem_prev h' x = elem_prev h x) \<Longrightarrow> linked h' ns = linked h ns"
  by (induction h ns rule: linked.induct) auto

text \<open>
  The parts of a chain a change of links leaves alone: everything up to \<open>p\<close> (its
  \<open>next\<close> link apart) and everything from \<open>q\<close> on (its \<open>prev\<close> link apart).
\<close>

definition kept_upto :: "heap \<Rightarrow> heap \<Rightarrow> ptr list \<Rightarrow> bool" where
  "kept_upto h h' ns \<longleftrightarrow>
     (\<forall>x \<in> set (butlast ns). elem_next h' x = elem_next h x) \<and> (\<forall>x \<in> set ns. elem_prev h' x = elem_prev h x)"

definition kept_from :: "heap \<Rightarrow> heap \<Rightarrow> ptr list \<Rightarrow> bool" where
  "kept_from h h' ns \<longleftrightarrow>
     (\<forall>x \<in> set ns. elem_next h' x = elem_next h x) \<and> (\<forall>x \<in> set (tl ns). elem_prev h' x = elem_prev h x)"

lemma chain_split:
  "chain h (us @ p # q # vs) \<longleftrightarrow>
     distinct (us @ p # q # vs) \<and> NULL \<notin> set (us @ p # q # vs) \<and>
     elem_prev h (hd (us @ [p])) = NULL \<and> elem_next h (last (q # vs)) = NULL \<and>
     linked h (us @ [p]) \<and> elem_next h p = q \<and> elem_prev h q = p \<and> linked h (q # vs)"
  by (auto simp: chain_def linked_mid hd_append)

lemma kept_uptoD:
  assumes "kept_upto h h' (us @ [p])"
  shows "linked h' (us @ [p]) = linked h (us @ [p])"
    and "elem_prev h' (hd (us @ [p])) = elem_prev h (hd (us @ [p]))"
proof -
  show "linked h' (us @ [p]) = linked h (us @ [p])"
    using assms by (intro linked_cong; cases us) (auto simp: kept_upto_def)
  have "hd (us @ [p]) \<in> set (us @ [p])" by (rule hd_in_set) simp
  with assms show "elem_prev h' (hd (us @ [p])) = elem_prev h (hd (us @ [p]))"
    unfolding kept_upto_def by blast
qed

lemma kept_fromD:
  assumes "kept_from h h' (q # vs)"
  shows "linked h' (q # vs) = linked h (q # vs)"
    and "elem_next h' (last (q # vs)) = elem_next h (last (q # vs))"
proof -
  show "linked h' (q # vs) = linked h (q # vs)"
    using assms by (intro linked_cong) (auto simp: kept_from_def dest: in_set_butlastD split: if_splits)
  have "last (q # vs) \<in> set (q # vs)" by (rule last_in_set) simp
  with assms show "elem_next h' (last (q # vs)) = elem_next h (last (q # vs))"
    unfolding kept_from_def by blast
qed

lemma interior_or_tail [simp]:
  "(is_interior h e \<or> is_tail h e) \<longleftrightarrow> e \<noteq> NULL \<and> elem_prev h e \<noteq> NULL"
  by (auto simp: is_interior_def is_tail_def)

lemma head_or_interior [simp]:
  "(is_head h e \<or> is_interior h e) \<longleftrightarrow> e \<noteq> NULL \<and> elem_next h e \<noteq> NULL"
  by (auto simp: is_interior_def is_head_def)

lemmas access_defs = rd_prev_def rd_next_def wr_prev_def wr_next_def

lemma list_insert_chain:
  assumes c: "chain h (us @ p # q # vs)" and e: "e \<notin> set (us @ p # q # vs)" "e \<noteq> NULL"
  shows "\<exists>h'. list_insert h q e = Some h' \<and> chain h' (us @ p # e # q # vs) \<and>
           same_outside {p, q, e} h h'"
proof -
  let ?h = "h\<lparr>elem_prev := (elem_prev h)(e := p, q := e), elem_next := (elem_next h)(e := q, p := e)\<rparr>"
  have l: "linked h (us @ [p])" "elem_next h p = q" "elem_prev h q = p" "linked h (q # vs)"
    using c by (auto simp: chain_def linked_mid)
  have "list_insert h q e = Some ?h"
    using c e l by (auto simp: list_insert_def access_defs chain_def)
  moreover have "kept_upto h ?h (us @ [p])" and "kept_from h ?h (q # vs)"
    using c e by (auto simp: chain_split kept_upto_def kept_from_def)
  ultimately show ?thesis
    using c e l kept_uptoD[of h ?h us p] kept_fromD[of h ?h q vs]
    by (auto simp: chain_split[of _ us p e] chain_split[of _ us p q] same_outside_def simp del: append_Cons)
qed

lemma list_remove_chain:
  assumes c: "chain h (us @ p # e # q # vs)"
  shows "\<exists>h'. list_remove h e = Some (h', q) \<and> chain h' (us @ p # q # vs) \<and> same_outside {p, q} h h'"
proof -
  let ?h = "h\<lparr>elem_prev := (elem_prev h)(q := p), elem_next := (elem_next h)(p := q)\<rparr>"
  have l: "elem_next h p = e" "elem_prev h e = p" "elem_next h e = q" "elem_prev h q = e"
    "linked h (us @ [p])" "linked h (q # vs)"
    using c by (auto simp: chain_split)
  have "list_remove h e = Some (?h, q)"
    using c l by (auto simp: list_remove_def access_defs chain_split is_interior_def)
  moreover have "kept_upto h ?h (us @ [p])" and "kept_from h ?h (q # vs)"
    using c by (auto simp: chain_split kept_upto_def kept_from_def)
  ultimately show ?thesis
    using c l kept_uptoD[of h ?h us p] kept_fromD[of h ?h q vs]
    by (auto simp: chain_split same_outside_def)
qed

text \<open>Positions inside a list: the node before and the node after a gap.\<close>

lemma nodes_gap:
  obtains us p vs where "\<And>cs. nodes l (as @ cs @ bs) = us @ p # cs @ hd (bs @ [list_tail l]) # vs"
proof -
  obtain us p where up: "list_head l # as = us @ [p]"
    by (metis append_butlast_last_id list.distinct(1))
  have q: "bs @ [list_tail l] = hd (bs @ [list_tail l]) # tl (bs @ [list_tail l])"
    by (cases bs) auto
  have "nodes l (as @ cs @ bs) = us @ p # cs @ hd (bs @ [list_tail l]) # tl (bs @ [list_tail l])" for cs
    using up q by (metis (no_types, opaque_lifting) append.assoc append_Cons append_Nil nodes_def)
  from that[OF this] show ?thesis .
qed

lemma list_insert_dlist:
  assumes "dlist h l (as @ bs)" and "e \<notin> set (nodes l (as @ bs))" and "e \<noteq> NULL"
  shows "\<exists>h'. list_insert h (hd (bs @ [list_tail l])) e = Some h' \<and> dlist h' l (as @ e # bs) \<and>
           same_outside (set (nodes l (as @ e # bs))) h h'"
proof -
  obtain us p vs where n: "\<And>cs. nodes l (as @ cs @ bs) = us @ p # cs @ hd (bs @ [list_tail l]) # vs"
    by (rule nodes_gap[of l as bs]) blast
  from list_insert_chain[of h us p "hd (bs @ [list_tail l])" vs e] assms
  show ?thesis
    using n[of "[]"] n[of "[e]"] by (auto simp: dlist_def intro: same_outside_mono)
qed

lemma list_remove_dlist:
  assumes "dlist h l (as @ e # bs)"
  shows "\<exists>h'. list_remove h e = Some (h', hd (bs @ [list_tail l])) \<and> dlist h' l (as @ bs) \<and>
           same_outside (set (nodes l (as @ bs))) h h'"
proof -
  obtain us p vs where n: "\<And>cs. nodes l (as @ cs @ bs) = us @ p # cs @ hd (bs @ [list_tail l]) # vs"
    by (rule nodes_gap[of l as bs]) blast
  from list_remove_chain[of h us p e "hd (bs @ [list_tail l])" vs] assms
  show ?thesis
    using n[of "[]"] n[of "[e]"] by (auto simp: dlist_def intro: same_outside_mono)
qed

section \<open>What the operations do\<close>

lemma dlist_distinct: "dlist h l xs \<Longrightarrow> distinct (nodes l xs)"
  and dlist_nonnull: "dlist h l xs \<Longrightarrow> NULL \<notin> set (nodes l xs)"
  and dlist_list_nonnull: "dlist h l xs \<Longrightarrow> l \<noteq> NULL"
  by (auto simp: dlist_def chain_def nodes_def list_head_def)

lemma dlist_same_outside:
  assumes "dlist h l xs" and "same_outside S h h'" and "set (nodes l xs) \<inter> S = {}"
  shows "dlist h' l xs"
proof -
  have eq: "elem_prev h' p = elem_prev h p" "elem_next h' p = elem_next h p" if "p \<in> set (nodes l xs)" for p
    using that assms(2,3) by (auto simp: same_outside_def)
  have "linked h' (nodes l xs) = linked h (nodes l xs)"
    by (rule linked_cong) (auto intro!: eq dest: in_set_butlastD list.set_sel(2)[rotated] simp: nodes_def)
  with assms(1) show ?thesis
    by (auto simp: dlist_def chain_def eq)
qed

lemma list_init_dlist:
  assumes "l \<noteq> NULL" and "list_tail l \<noteq> NULL"
  shows "\<exists>h'. list_init h l = Some h' \<and> dlist h' l [] \<and> same_outside {list_head l, list_tail l} h h'"
  using assms
  by (auto simp: list_init_def access_defs dlist_def chain_def nodes_def list_head_def list_tail_def
      same_outside_def)

lemma list_begin_dlist [simp]: "dlist h l xs \<Longrightarrow> list_begin h l = Some (hd (xs @ [list_tail l]))"
  by (cases xs) (auto simp: list_begin_def access_defs dlist_def chain_def nodes_def list_head_def)

lemma list_end_dlist [simp]: "dlist h l xs \<Longrightarrow> list_end l = Some (list_tail l)"
  by (simp add: list_end_def dlist_list_nonnull)

lemma list_next_dlist:
  assumes "dlist h l (as @ e # bs)"
  shows "list_next h e = Some (hd (bs @ [list_tail l]))"
proof -
  obtain q vs where q: "bs @ [list_tail l] = q # vs"
    by (cases bs) auto
  then have "nodes l (as @ e # bs) = (list_head l # as) @ e # q # vs"
    by (simp add: nodes_def)
  with assms q show ?thesis
    by (auto simp: list_next_def access_defs dlist_def chain_split simp del: append_Cons)
qed

lemma list_prev_dlist:
  assumes "dlist h l (as @ bs)"
  shows "list_prev h (hd (bs @ [list_tail l])) = Some (last (list_head l # as))"
proof -
  obtain us p where up: "list_head l # as = us @ [p]"
    by (metis append_butlast_last_id list.distinct(1))
  have "nodes l (as @ bs) = us @ p # bs @ [list_tail l]"
    by (metis append.assoc append_Cons append_Nil nodes_def up)
  then show ?thesis
    using assms up by (cases bs) (auto simp: list_prev_def access_defs dlist_def chain_split)
qed

lemma hd_append_tail_iff [simp]:
  "dlist h l (as @ bs) \<Longrightarrow> hd (bs @ [list_tail l]) = list_tail l \<longleftrightarrow> bs = []"
  by (cases bs) (auto dest!: dlist_distinct simp: nodes_def)

lemma list_empty_dlist [simp]: "dlist h l xs \<Longrightarrow> list_empty h l = Some (xs = [])"
  using hd_append_tail_iff[of h l "[]" xs] by (simp add: list_empty_def)

lemma list_front_dlist: "dlist h l xs \<Longrightarrow> list_front h l = (if xs = [] then None else Some (hd xs))"
  using list_begin_dlist[of h l xs]
  by (auto simp: list_front_def list_begin_def dlist_list_nonnull)

lemma list_rbegin_dlist: "dlist h l xs \<Longrightarrow> list_rbegin h l = Some (last (list_head l # xs))"
  using list_prev_dlist[of h l xs "[]"]
  by (auto simp: list_rbegin_def dlist_list_nonnull list_prev_def split: Option.bind_splits)

lemma list_back_dlist: "dlist h l xs \<Longrightarrow> list_back h l = (if xs = [] then None else Some (last xs))"
  using list_rbegin_dlist[of h l xs]
  by (auto simp: list_back_def list_rbegin_def dlist_list_nonnull)

lemma list_push_front_dlist:
  "dlist h l xs \<Longrightarrow> e \<notin> set (nodes l xs) \<Longrightarrow> e \<noteq> NULL \<Longrightarrow>
   \<exists>h'. list_push_front h l e = Some h' \<and> dlist h' l (e # xs) \<and> same_outside (set (nodes l (e # xs))) h h'"
  using list_insert_dlist[of h l "[]" xs e] by (simp add: list_push_front_def)

lemma list_push_back_dlist:
  "dlist h l xs \<Longrightarrow> e \<notin> set (nodes l xs) \<Longrightarrow> e \<noteq> NULL \<Longrightarrow>
   \<exists>h'. list_push_back h l e = Some h' \<and> dlist h' l (xs @ [e]) \<and> same_outside (set (nodes l (xs @ [e]))) h h'"
  using list_insert_dlist[of h l xs "[]" e] by (simp add: list_push_back_def)

lemma list_pop_front_dlist:
  "dlist h l (x # xs) \<Longrightarrow>
   \<exists>h'. list_pop_front h l = Some (h', x) \<and> dlist h' l xs \<and> same_outside (set (nodes l xs)) h h'"
  using list_remove_dlist[of h l "[]" x xs] by (auto simp: list_pop_front_def list_front_dlist)

lemma list_pop_back_dlist:
  "dlist h l (xs @ [x]) \<Longrightarrow>
   \<exists>h'. list_pop_back h l = Some (h', x) \<and> dlist h' l xs \<and> same_outside (set (nodes l xs)) h h'"
  using list_remove_dlist[of h l xs x "[]"] by (auto simp: list_pop_back_def list_back_dlist)

lemma list_pop_front_empty: "dlist h l [] \<Longrightarrow> list_pop_front h l = None"
  by (simp add: list_pop_front_def list_front_dlist)

lemma list_size_loop_dlist:
  "dlist h l (as @ bs) \<Longrightarrow> list_size_loop h l (hd (bs @ [list_tail l])) cnt = Some (cnt + of_nat (length bs))"
proof (induction bs arbitrary: as cnt)
  case Nil
  then show ?case by (subst list_size_loop.simps) simp
next
  case (Cons b bs)
  with hd_append_tail_iff[OF Cons.prems] show ?case
    using Cons.IH[of "as @ [b]"]
    by (subst list_size_loop.simps) (simp add: list_next_dlist)
qed

lemma dlist_length_bound: "dlist h l xs \<Longrightarrow> length xs + 3 \<le> 2 ^ 32"
  using length_distinct_word[of "NULL # nodes l xs"] dlist_distinct[of h l xs] dlist_nonnull[of h l xs]
  by (simp add: nodes_def)

lemma list_size_dlist: "dlist h l xs \<Longrightarrow> \<exists>n. list_size h l = Some n \<and> unat n = length xs"
  using list_size_loop_dlist[of h l "[]" xs 0] dlist_length_bound[of h l xs]
  by (simp add: list_size_def unsigned_of_nat take_bit_nat_eq_self)

text \<open>Reversal: swapping every pair of links reverses a chain.\<close>

definition swapped :: "heap \<Rightarrow> ptr set \<Rightarrow> heap" where
  "swapped h S = h\<lparr>elem_prev := \<lambda>p. if p \<in> S then elem_next h p else elem_prev h p,
                    elem_next := \<lambda>p. if p \<in> S then elem_prev h p else elem_next h p\<rparr>"

lemma linked_rev: "linked h ns \<Longrightarrow> set ns \<subseteq> S \<Longrightarrow> linked (swapped h S) (rev ns)"
proof (induction h ns rule: linked.induct)
  case (1 h a b ns)
  then show ?case
    using linked_append[of "swapped h S" "rev ns" b "[a]"] by (simp add: swapped_def)
qed auto

lemma list_reverse_loop_linked:
  "linked h (bs @ [list_tail l]) \<Longrightarrow> distinct (bs @ [list_tail l]) \<Longrightarrow> NULL \<notin> set bs \<Longrightarrow> l \<noteq> NULL \<Longrightarrow>
   list_reverse_loop h l (hd (bs @ [list_tail l])) = Some (swapped h (set bs))"
proof (induction bs arbitrary: h)
  case Nil
  then show ?case
    by (subst list_reverse_loop.simps) (simp add: list_end_def swapped_def)
next
  case (Cons b bs)
  let ?h = "h\<lparr>elem_prev := (elem_prev h)(b := elem_next h b), elem_next := (elem_next h)(b := elem_prev h b)\<rparr>"
  have nx: "elem_next h b = hd (bs @ [list_tail l])" and l: "linked h (bs @ [list_tail l])"
    using Cons.prems(1) by (cases bs; simp)+
  have "linked ?h (bs @ [list_tail l])"
    using l Cons.prems(2) by (subst linked_cong[of _ _ h]) (auto dest: in_set_butlastD, (cases bs; auto)+)
  then have "list_reverse_loop ?h l (hd (bs @ [list_tail l])) = Some (swapped ?h (set bs))"
    using Cons.prems by (intro Cons.IH) auto
  moreover have "swapped ?h (set bs) = swapped h (set (b # bs))"
    using Cons.prems(2) by (auto simp: swapped_def fun_eq_iff)
  ultimately show ?case
    using Cons.prems nx
    by (subst list_reverse_loop.simps) (simp add: list_end_def swap_links_def access_defs)
qed

lemma list_reverse_dlist:
  assumes "dlist h l xs"
  shows "\<exists>h'. list_reverse h l = Some h' \<and> dlist h' l (rev xs) \<and> same_outside (set (nodes l xs)) h h'"
proof (cases "xs = []")
  case True
  with assms show ?thesis by (simp add: list_reverse_def)
next
  case False
  let ?hd = "list_head l" and ?tl = "list_tail l"
  let ?x = "hd xs" and ?y = "last xs"
  let ?h = "swapped h (set xs)"
  let ?h' = "?h\<lparr>elem_prev := (elem_prev ?h)(?tl := ?x, ?y := ?hd),
                elem_next := (elem_next ?h)(?hd := ?y, ?x := ?tl)\<rparr>"
  have d: "distinct (nodes l xs)" "NULL \<notin> set (nodes l xs)" "l \<noteq> NULL"
    and o: "elem_prev h ?hd = NULL" "elem_next h ?tl = NULL"
    and lk: "linked h (nodes l xs)"
    using assms by (auto simp: dlist_def chain_def nodes_def list_head_def)
  have xy: "?x \<in> set xs" "?y \<in> set xs" using False by auto
  have z: "p \<noteq> NULL \<and> p \<noteq> ?hd \<and> p \<noteq> ?tl" if "p \<in> set xs" for p
    using that d by (auto simp: nodes_def)
  note ne = z[OF xy(1)] z[OF xy(2)]
  have lx: "linked h (xs @ [?tl])" "elem_next h ?hd = ?x" "elem_prev h ?x = ?hd"
    and ly: "linked h xs" "elem_next h ?y = ?tl" "elem_prev h ?tl = ?y"
    using lk False by (auto simp: nodes_def linked_Cons linked_snoc)
  have "list_reverse_loop h l ?x = Some ?h"
    using list_reverse_loop_linked[of h xs l] lx d False by (simp add: nodes_def)
  then have "list_reverse h l = Some ?h'"
    using assms d lx ly ne xy False
    by (auto simp: list_reverse_def access_defs swapped_def nodes_def)
  moreover have lr: "linked ?h' (rev xs)"
  proof -
    have b: "p \<in> set xs \<and> p \<noteq> ?x" if "p \<in> set (tl xs)" for p
      using that d(1) False by (cases xs) (auto simp: nodes_def)
    have t: "p \<in> set xs \<and> p \<noteq> ?y" if "p \<in> set (tl (rev xs))" for p
      using that d(1) False by (cases xs rule: rev_cases) (auto simp: nodes_def)
    have "linked ?h' (rev xs) = linked ?h (rev xs)"
      using d(1) by (intro linked_cong) (auto dest!: b t simp: nodes_def)
    then show ?thesis using linked_rev[OF ly(1)] by simp
  qed
  moreover have "dlist ?h' l (rev xs)"
    using d o False ne xy lr
    by (auto simp: dlist_def chain_def nodes_def linked_Cons linked_snoc hd_rev last_rev swapped_def)
  moreover have "same_outside (set (nodes l xs)) h ?h'"
    using xy by (auto simp: same_outside_def swapped_def nodes_def)
  ultimately show ?thesis by blast
qed

text \<open>Splicing: chains as concatenations of nonempty segments.\<close>

lemma linked_join:
  "A \<noteq> [] \<Longrightarrow> B \<noteq> [] \<Longrightarrow>
   linked h (A @ B) \<longleftrightarrow> linked h A \<and> linked h B \<and> elem_next h (last A) = hd B \<and> elem_prev h (hd B) = last A"
  by (cases A rule: rev_cases; cases B) (auto simp: linked_mid)

lemma linked_segment:
  assumes "distinct S" and "\<And>x. x \<in> set S \<Longrightarrow> x \<noteq> last S \<Longrightarrow> elem_next h' x = elem_next h x"
    and "\<And>x. x \<in> set S \<Longrightarrow> x \<noteq> hd S \<Longrightarrow> elem_prev h' x = elem_prev h x"
  shows "linked h' S = linked h S"
proof (rule linked_cong)
  show "elem_next h' x = elem_next h x" if "x \<in> set (butlast S)" for x
    using that assms(1) by (intro assms(2)) (auto dest: in_set_butlastD, cases S rule: rev_cases, auto)
  show "elem_prev h' x = elem_prev h x" if "x \<in> set (tl S)" for x
    using that assms(1) by (intro assms(3)) (auto dest: list.set_sel(2)[rotated], (cases S; auto)+)
qed

definition splice_heap :: "heap \<Rightarrow> ptr list \<Rightarrow> ptr list \<Rightarrow> ptr list \<Rightarrow> ptr list \<Rightarrow> heap" where
  "splice_heap h A M Q R = h\<lparr>
     elem_prev := (elem_prev h)(hd R := last Q, hd M := last A, hd Q := last M),
     elem_next := (elem_next h)(last Q := hd R, last M := hd Q, last A := hd M)\<rparr>"

lemma ends_neq:
  assumes "distinct (X @ Y)" "X \<noteq> []" "Y \<noteq> []"
  shows "hd X \<noteq> hd Y" "last X \<noteq> last Y" "hd X \<noteq> last Y" "last X \<noteq> hd Y"
proof -
  have ne: "x \<noteq> y" if "x \<in> set X" "y \<in> set Y" for x y
    using that assms(1) by auto
  show "hd X \<noteq> hd Y" "last X \<noteq> last Y" "hd X \<noteq> last Y" "last X \<noteq> hd Y"
    using assms(2,3) by (simp_all add: ne)
qed

lemma chain_splice_heap:
  assumes c: "chain h (A @ Q @ M @ R)" and ne: "A \<noteq> []" "Q \<noteq> []" "M \<noteq> []" "R \<noteq> []"
  shows "chain (splice_heap h A M Q R) (A @ M @ Q @ R)"
proof -
  let ?h = "splice_heap h A M Q R"
  have d: "distinct (A @ Q @ M @ R)" and l: "linked h (A @ Q @ M @ R)"
    using c by (auto simp: chain_def)
  have in_ends: "hd S \<in> set S \<and> last S \<in> set S" if "S \<noteq> []" for S :: "ptr list"
    using that by simp
  note e = in_ends[OF ne(1)] in_ends[OF ne(2)] in_ends[OF ne(3)] in_ends[OF ne(4)]
  have "linked ?h A = linked h A" "linked ?h Q = linked h Q" "linked ?h M = linked h M" "linked ?h R = linked h R"
    using d e by (intro linked_segment; force simp: splice_heap_def)+
  moreover have "elem_next ?h (last A) = hd M" "elem_prev ?h (hd M) = last A"
    "elem_next ?h (last M) = hd Q" "elem_prev ?h (hd Q) = last M"
    "elem_next ?h (last Q) = hd R" "elem_prev ?h (hd R) = last Q"
    "elem_prev ?h (hd A) = elem_prev h (hd A)" "elem_next ?h (last R) = elem_next h (last R)"
    using d e by (force simp: splice_heap_def)+
  ultimately show ?thesis
    using c l ne by (auto simp: chain_def linked_join)
qed

lemma chain_interior:
  assumes c: "chain h (A @ X @ B)" and "A \<noteq> []" "B \<noteq> []" "x \<in> set X"
  shows "elem_next h x \<noteq> NULL" "elem_prev h x \<noteq> NULL" "x \<noteq> NULL"
proof -
  from assms(4) obtain X1 X2 where "X = X1 @ x # X2" by (auto simp: in_set_conv_decomp)
  then have l: "linked h ((A @ X1) @ [x] @ (X2 @ B))"
    using c by (simp add: chain_def)
  have "elem_prev h x = last (A @ X1)" "elem_next h x = hd (X2 @ B)"
    using linked_join[of "A @ X1" "[x] @ (X2 @ B)" h] linked_Cons[of "X2 @ B" h x] l assms(2,3) by simp_all
  moreover have "last (A @ X1) \<in> set (A @ X @ B)" "hd (X2 @ B) \<in> set (A @ X @ B)"
    using \<open>X = X1 @ x # X2\<close> assms(2,3) last_in_set[of "A @ X1"] hd_in_set[of "X2 @ B"] by auto
  moreover have "y \<noteq> NULL" if "y \<in> set (A @ X @ B)" for y
    using c that by (auto simp: chain_def)
  ultimately show "elem_next h x \<noteq> NULL" "elem_prev h x \<noteq> NULL" "x \<noteq> NULL"
    using assms(4) by simp_all
qed


lemma list_splice_eval:
  assumes "elem_prev h q = a" "elem_prev h r = k" "elem_prev h m = b" "elem_next h k = r"
    and "q \<noteq> NULL" "a \<noteq> NULL" "r \<noteq> NULL" "k \<noteq> NULL" "m \<noteq> NULL" "b \<noteq> NULL"
    and "elem_next h m \<noteq> NULL" "elem_prev h k \<noteq> NULL" and "m \<noteq> r" "q \<noteq> r" "q \<noteq> m"
  shows "list_splice h q m r = Some (h\<lparr>elem_prev := (elem_prev h)(r := b, m := a, q := k),
            elem_next := (elem_next h)(b := r, k := q, a := m)\<rparr>)"
  using assms by (simp add: list_splice_def list_prev_def access_defs is_interior_def is_tail_def)

lemma list_splice_chain:
  assumes c: "chain h (A @ Q @ M @ R)" and ne: "A \<noteq> []" "Q \<noteq> []" "M \<noteq> []" "R \<noteq> []"
  shows "list_splice h (hd Q) (hd M) (hd R) = Some (splice_heap h A M Q R)"
proof -
  have d: "distinct (A @ Q @ M @ R)" and l: "linked h (A @ Q @ M @ R)" and n: "NULL \<notin> set (A @ Q @ M @ R)"
    using c by (auto simp: chain_def)
  have lk: "elem_prev h (hd Q) = last A" "elem_prev h (hd M) = last Q"
    "elem_next h (last M) = hd R" "elem_prev h (hd R) = last M"
    using l ne by (auto simp: linked_join)
  have lkM: "elem_next h (hd M) \<noteq> NULL" "elem_prev h (last M) \<noteq> NULL"
    using chain_interior[of h "A @ Q" M R] c ne by auto
  have nn: "hd S \<noteq> NULL" "last S \<noteq> NULL" if "S \<noteq> []" "set S \<subseteq> set (A @ Q @ M @ R)" for S
    using that n hd_in_set[of S] last_in_set[of S] by (metis subsetD)+
  have neq: "hd M \<noteq> hd R" "hd Q \<noteq> hd R" "hd Q \<noteq> hd M"
    using ends_neq[of M R] ends_neq[of Q R] ends_neq[of Q M] d ne by auto
  show ?thesis
    unfolding splice_heap_def using lk lkM neq ne by (intro list_splice_eval nn) auto
qed

lemma splice_heap_outside:
  assumes "A \<noteq> []" "Q \<noteq> []" "M \<noteq> []" "R \<noteq> []" "set (A @ Q @ M @ R) \<subseteq> S"
  shows "same_outside S h (splice_heap h A M Q R)"
proof -
  have i: "hd X \<in> S" "last X \<in> S" if "X \<noteq> []" "set X \<subseteq> set (A @ Q @ M @ R)" for X
    using that assms(5) hd_in_set[of X] last_in_set[of X] by blast+
  have "hd Q \<in> S" "hd M \<in> S" "hd R \<in> S" "last A \<in> S" "last Q \<in> S" "last M \<in> S"
    by (rule i; use assms in auto)+
  then have "p \<noteq> hd Q \<and> p \<noteq> hd M \<and> p \<noteq> hd R \<and> p \<noteq> last A \<and> p \<noteq> last Q \<and> p \<noteq> last M" if "p \<notin> S" for p
    using that by blast
  then show ?thesis
    by (simp add: splice_heap_def same_outside_def)
qed

text \<open>
  \<open>list_splice\<close> moves a nonempty run backwards within one list. (The range is given by its
  first element and the element after its last one.)
\<close>

lemma list_splice_dlist:
  assumes "dlist h l (as @ qs @ ms @ rs)" and "qs \<noteq> []" "ms \<noteq> []"
  shows "\<exists>h'. list_splice h (hd qs) (hd ms) (hd (rs @ [list_tail l])) = Some h' \<and>
           dlist h' l (as @ ms @ qs @ rs) \<and> same_outside (set (nodes l (as @ qs @ ms @ rs))) h h'"
proof -
  have n: "nodes l (as @ xs @ rs) = (list_head l # as) @ xs @ (rs @ [list_tail l])" for xs
    by (simp add: nodes_def)
  let ?A = "list_head l # as" and ?R = "rs @ [list_tail l]"
  have c: "chain h (?A @ qs @ ms @ ?R)"
    using assms(1) n[of "qs @ ms"] by (simp add: dlist_def)
  have "chain (splice_heap h ?A ms qs ?R) (?A @ ms @ qs @ ?R)"
    using chain_splice_heap[OF c] assms by simp
  then have "dlist (splice_heap h ?A ms qs ?R) l (as @ ms @ qs @ rs)"
    using n[of "ms @ qs"] by (simp add: dlist_def)
  moreover have "same_outside (set (nodes l (as @ qs @ ms @ rs))) h (splice_heap h ?A ms qs ?R)"
    using assms by (intro splice_heap_outside) (auto simp: nodes_def)
  ultimately show ?thesis
    using list_splice_chain[OF c] assms by blast
qed

end
