(* ===== verification/Klist_Order.thy ===== *)
theory Klist_Order
  imports Klist
begin

text \<open>
  The ordered operations of \<open>src/lib/kernel/list.c\<close>: \<open>list_sort\<close> (a natural, in-place
  merge sort), \<open>list_insert_ordered\<close>, \<open>list_unique\<close>, \<open>list_max\<close> and \<open>list_min\<close>.

  The pointer-level loops come first. They are shown equal to functions on plain lists
  (\<open>split_run\<close>, \<open>merge\<close>, \<open>sort_pass\<close>), and these are shown to sort stably inside the
  locale \<open>strict_weak_order\<close>. Every loop is a \<open>partial_function\<close>, so that the results
  below include that it ends; for the outer loop of \<open>list_sort\<close> the reason is that the
  number of runs decreases.
\<close>

section \<open>The code\<close>

partial_function (option) is_sorted_loop :: "(ptr \<Rightarrow> ptr \<Rightarrow> bool) \<Rightarrow> heap \<Rightarrow> ptr \<Rightarrow> ptr \<Rightarrow> bool option" where
  "is_sorted_loop lt h a b = do {
     a \<leftarrow> list_next h a;
     if a \<noteq> b then do {
       p \<leftarrow> list_prev h a;
       if lt a p then Some False else is_sorted_loop lt h a b
     } else Some True
   }"

definition is_sorted :: "(ptr \<Rightarrow> ptr \<Rightarrow> bool) \<Rightarrow> heap \<Rightarrow> ptr \<Rightarrow> ptr \<Rightarrow> bool option" where
  "is_sorted lt h a b = (if a \<noteq> b then is_sorted_loop lt h a b else Some True)"

partial_function (option) find_end_loop :: "(ptr \<Rightarrow> ptr \<Rightarrow> bool) \<Rightarrow> heap \<Rightarrow> ptr \<Rightarrow> ptr \<Rightarrow> ptr option" where
  "find_end_loop lt h a b = do {
     a \<leftarrow> list_next h a;
     if a \<noteq> b then do {
       p \<leftarrow> list_prev h a;
       if \<not> lt a p then find_end_loop lt h a b else Some a
     } else Some a
   }"

definition find_end_of_run :: "(ptr \<Rightarrow> ptr \<Rightarrow> bool) \<Rightarrow> heap \<Rightarrow> ptr \<Rightarrow> ptr \<Rightarrow> ptr option" where
  "find_end_of_run lt h a b = do {
     ASSERT (a \<noteq> NULL);
     ASSERT (b \<noteq> NULL);
     ASSERT (a \<noteq> b);
     find_end_loop lt h a b
   }"

partial_function (option) inplace_merge_loop ::
  "(ptr \<Rightarrow> ptr \<Rightarrow> bool) \<Rightarrow> heap \<Rightarrow> ptr \<Rightarrow> ptr \<Rightarrow> ptr \<Rightarrow> heap option" where
  "inplace_merge_loop lt h a0 a1b0 b1 =
     (if a0 \<noteq> a1b0 \<and> a1b0 \<noteq> b1 then
        (if \<not> lt a1b0 a0 then do {
           a0 \<leftarrow> list_next h a0;
           inplace_merge_loop lt h a0 a1b0 b1
         } else do {
           a1b0 \<leftarrow> list_next h a1b0;
           p \<leftarrow> list_prev h a1b0;
           h \<leftarrow> list_splice h a0 p a1b0;
           inplace_merge_loop lt h a0 a1b0 b1
         })
      else Some h)"

definition inplace_merge :: "(ptr \<Rightarrow> ptr \<Rightarrow> bool) \<Rightarrow> heap \<Rightarrow> ptr \<Rightarrow> ptr \<Rightarrow> ptr \<Rightarrow> heap option" where
  "inplace_merge lt h a0 a1b0 b1 = do {
     ASSERT (a0 \<noteq> NULL);
     ASSERT (a1b0 \<noteq> NULL);
     ASSERT (b1 \<noteq> NULL);
     s \<leftarrow> is_sorted lt h a0 a1b0;
     ASSERT s;
     s \<leftarrow> is_sorted lt h a1b0 b1;
     ASSERT s;
     inplace_merge_loop lt h a0 a1b0 b1
   }"

text \<open>The inner \<open>for\<close> loop of \<open>list_sort\<close> from \<open>a0\<close> on, with \<open>output_run_cnt\<close> so far.\<close>

partial_function (option) list_sort_pass ::
  "(ptr \<Rightarrow> ptr \<Rightarrow> bool) \<Rightarrow> heap \<Rightarrow> ptr \<Rightarrow> ptr \<Rightarrow> size_t \<Rightarrow> (heap \<times> size_t) option" where
  "list_sort_pass lt h l a0 cnt = do {
     en \<leftarrow> list_end l;
     if a0 \<noteq> en then do {
       a1b0 \<leftarrow> find_end_of_run lt h a0 en;
       if a1b0 = en then Some (h, cnt + 1)
       else do {
         b1 \<leftarrow> find_end_of_run lt h a1b0 en;
         h \<leftarrow> inplace_merge lt h a0 a1b0 b1;
         list_sort_pass lt h l b1 (cnt + 1)
       }
     } else Some (h, cnt)
   }"

partial_function (option) list_sort_loop :: "(ptr \<Rightarrow> ptr \<Rightarrow> bool) \<Rightarrow> heap \<Rightarrow> ptr \<Rightarrow> heap option" where
  "list_sort_loop lt h l = do {
     b \<leftarrow> list_begin h l;
     (h, cnt) \<leftarrow> list_sort_pass lt h l b 0;
     if cnt > 1 then list_sort_loop lt h l else Some h
   }"

definition list_sort :: "(ptr \<Rightarrow> ptr \<Rightarrow> bool) \<Rightarrow> heap \<Rightarrow> ptr \<Rightarrow> heap option" where
  "list_sort lt h l = do {
     ASSERT (l \<noteq> NULL);
     h \<leftarrow> list_sort_loop lt h l;
     b \<leftarrow> list_begin h l;
     e \<leftarrow> list_end l;
     s \<leftarrow> is_sorted lt h b e;
     ASSERT s;
     Some h
   }"

partial_function (option) insert_ordered_loop ::
  "(ptr \<Rightarrow> ptr \<Rightarrow> bool) \<Rightarrow> heap \<Rightarrow> ptr \<Rightarrow> ptr \<Rightarrow> ptr \<Rightarrow> ptr option" where
  "insert_ordered_loop lt h l elem e = do {
     en \<leftarrow> list_end l;
     if e \<noteq> en \<and> \<not> lt elem e then do {
       e \<leftarrow> list_next h e;
       insert_ordered_loop lt h l elem e
     } else Some e
   }"

definition list_insert_ordered :: "(ptr \<Rightarrow> ptr \<Rightarrow> bool) \<Rightarrow> heap \<Rightarrow> ptr \<Rightarrow> ptr \<Rightarrow> heap option" where
  "list_insert_ordered lt h l elem = do {
     ASSERT (l \<noteq> NULL);
     ASSERT (elem \<noteq> NULL);
     b \<leftarrow> list_begin h l;
     e \<leftarrow> insert_ordered_loop lt h l elem b;
     list_insert h e elem
   }"

partial_function (option) list_unique_loop ::
  "(ptr \<Rightarrow> ptr \<Rightarrow> bool) \<Rightarrow> heap \<Rightarrow> ptr \<Rightarrow> ptr \<Rightarrow> ptr \<Rightarrow> heap option" where
  "list_unique_loop lt h l duplicates elem = do {
     nxt \<leftarrow> list_next h elem;
     en \<leftarrow> list_end l;
     if nxt \<noteq> en then
       (if \<not> lt elem nxt \<and> \<not> lt nxt elem then do {
          (h, _) \<leftarrow> list_remove h nxt;
          h \<leftarrow> (if duplicates \<noteq> NULL then list_push_back h duplicates nxt else Some h);
          list_unique_loop lt h l duplicates elem
        } else list_unique_loop lt h l duplicates nxt)
     else Some h
   }"

definition list_unique :: "(ptr \<Rightarrow> ptr \<Rightarrow> bool) \<Rightarrow> heap \<Rightarrow> ptr \<Rightarrow> ptr \<Rightarrow> heap option" where
  "list_unique lt h l duplicates = do {
     ASSERT (l \<noteq> NULL);
     em \<leftarrow> list_empty h l;
     if em then Some h else do {
       b \<leftarrow> list_begin h l;
       list_unique_loop lt h l duplicates b
     }
   }"

partial_function (option) list_max_loop ::
  "(ptr \<Rightarrow> ptr \<Rightarrow> bool) \<Rightarrow> heap \<Rightarrow> ptr \<Rightarrow> ptr \<Rightarrow> ptr \<Rightarrow> ptr option" where
  "list_max_loop lt h l mx e = do {
     en \<leftarrow> list_end l;
     if e \<noteq> en then do {
       e' \<leftarrow> list_next h e;
       list_max_loop lt h l (if lt mx e then e else mx) e'
     } else Some mx
   }"

definition list_max :: "(ptr \<Rightarrow> ptr \<Rightarrow> bool) \<Rightarrow> heap \<Rightarrow> ptr \<Rightarrow> ptr option" where
  "list_max lt h l = do {
     mx \<leftarrow> list_begin h l;
     en \<leftarrow> list_end l;
     if mx \<noteq> en then do {
       e \<leftarrow> list_next h mx;
       list_max_loop lt h l mx e
     } else Some mx
   }"

partial_function (option) list_min_loop ::
  "(ptr \<Rightarrow> ptr \<Rightarrow> bool) \<Rightarrow> heap \<Rightarrow> ptr \<Rightarrow> ptr \<Rightarrow> ptr \<Rightarrow> ptr option" where
  "list_min_loop lt h l mn e = do {
     en \<leftarrow> list_end l;
     if e \<noteq> en then do {
       e' \<leftarrow> list_next h e;
       list_min_loop lt h l (if lt e mn then e else mn) e'
     } else Some mn
   }"

definition list_min :: "(ptr \<Rightarrow> ptr \<Rightarrow> bool) \<Rightarrow> heap \<Rightarrow> ptr \<Rightarrow> ptr option" where
  "list_min lt h l = do {
     mn \<leftarrow> list_begin h l;
     en \<leftarrow> list_end l;
     if mn \<noteq> en then do {
       e \<leftarrow> list_next h mn;
       list_min_loop lt h l mn e
     } else Some mn
   }"

declare is_sorted_loop.simps [code] find_end_loop.simps [code] inplace_merge_loop.simps [code]
  list_sort_pass.simps [code] list_sort_loop.simps [code] insert_ordered_loop.simps [code]
  list_unique_loop.simps [code] list_max_loop.simps [code] list_min_loop.simps [code]

section \<open>Runs, merging and passes on plain lists\<close>

text \<open>
  \<open>split_run lt x ys\<close> cuts \<open>ys\<close> after the longest prefix that continues a nondecreasing
  run ending in \<open>x\<close>; \<open>merge\<close> prefers its first argument; \<open>sort_pass\<close> is one iteration of
  the outer loop and counts the runs it outputs; \<open>runs\<close> counts maximal nondecreasing runs.
\<close>

fun split_run :: "('a \<Rightarrow> 'a \<Rightarrow> bool) \<Rightarrow> 'a \<Rightarrow> 'a list \<Rightarrow> 'a list \<times> 'a list" where
  "split_run lt x [] = ([], [])"
| "split_run lt x (y # ys) =
     (if lt y x then ([], y # ys) else (let (r, s) = split_run lt y ys in (y # r, s)))"

fun merge :: "('a \<Rightarrow> 'a \<Rightarrow> bool) \<Rightarrow> 'a list \<Rightarrow> 'a list \<Rightarrow> 'a list" where
  "merge lt [] ys = ys"
| "merge lt (x # xs) [] = x # xs"
| "merge lt (x # xs) (y # ys) =
     (if lt y x then y # merge lt (x # xs) ys else x # merge lt xs (y # ys))"

fun runs :: "('a \<Rightarrow> 'a \<Rightarrow> bool) \<Rightarrow> 'a list \<Rightarrow> nat" where
  "runs lt (x # y # ys) = (if lt y x then 1 else 0) + runs lt (y # ys)"
| "runs lt [x] = 1"
| "runs lt [] = 0"

lemma split_run_append: "split_run lt x ys = (r, s) \<Longrightarrow> ys = r @ s"
  by (induction lt x ys arbitrary: r s rule: split_run.induct) (auto split: if_splits prod.splits)

function sort_pass :: "('a \<Rightarrow> 'a \<Rightarrow> bool) \<Rightarrow> 'a list \<Rightarrow> 'a list \<times> nat" where
  "sort_pass lt [] = ([], 0)"
| "sort_pass lt (x # xs) =
     (case split_run lt x xs of
        (r, []) \<Rightarrow> (x # r, 1)
      | (r, y # ys) \<Rightarrow>
          (let (r2, s2) = split_run lt y ys; (zs, n) = sort_pass lt s2
           in (merge lt (x # r) (y # r2) @ zs, n + 1)))"
  by pat_completeness auto
termination
  by (relation "measure (\<lambda>(_, xs). length xs)") (auto dest!: split_run_append[OF sym])

lemma merge_Nil2 [simp]: "merge lt xs [] = xs"
  by (cases xs) simp_all

lemma mset_merge: "mset (merge lt xs ys) = mset xs + mset ys"
  by (induction lt xs ys rule: merge.induct) simp_all

lemma set_merge [simp]: "set (merge lt xs ys) = set xs \<union> set ys"
  using mset_merge[of lt xs ys] by (metis set_mset_mset set_mset_union)

lemma length_merge [simp]: "length (merge lt xs ys) = length xs + length ys"
  by (induction lt xs ys rule: merge.induct) simp_all

lemma runs_Cons_pos: "runs lt (x # xs) \<ge> 1"
  by (induction xs arbitrary: x) auto

lemma runs_append: "runs lt (xs @ ys) \<le> runs lt xs + runs lt ys"
proof (induction lt xs rule: runs.induct)
  case (2 lt x)
  then show ?case by (cases ys) auto
qed auto

lemma split_run_runs:
  "split_run lt x ys = (r, s) \<Longrightarrow> runs lt (x # r) = 1 \<and> runs lt (x # ys) = 1 + runs lt s"
  by (induction lt x ys arbitrary: r s rule: split_run.induct) (auto split: if_splits prod.splits)

context strict_weak_order
begin

abbreviation nondecreasing :: "'a list \<Rightarrow> bool" where
  "nondecreasing \<equiv> sorted_wrt (\<lambda>a b. \<not> less b a)"

lemma not_less_trans: "\<not> less b a \<Longrightarrow> \<not> less c b \<Longrightarrow> \<not> less c a"
  using incomp_trans by blast

lemma nondecreasing_Cons_Cons:
  "nondecreasing (x # y # ys) \<longleftrightarrow> \<not> less y x \<and> nondecreasing (y # ys)"
  using not_less_trans by fastforce

lemma runs_le_1_iff: "runs less xs \<le> 1 \<longleftrightarrow> nondecreasing xs"
proof (induction xs rule: induct_list012)
  case (3 x y ys)
  then show ?case
    using runs_Cons_pos[of less y ys] by (auto simp: nondecreasing_Cons_Cons simp del: sorted_wrt.simps)
qed simp_all

lemma nondecreasing_merge:
  "nondecreasing xs \<Longrightarrow> nondecreasing ys \<Longrightarrow> nondecreasing (merge less xs ys)"
proof (induction xs arbitrary: ys)
  case (Cons x xs)
  note outer = Cons
  show ?case
    using outer(2,3)
  proof (induction ys)
    case (Cons y ys)
    show ?case
    proof (cases "less y x")
      case True
      have "\<not> less z y" if "\<not> less z x" for z
        using that True less_trans by blast
      with True show ?thesis using Cons irrefl[of x] by auto
    next
      case False
      have "\<not> less z x" if "\<not> less z y" for z
        using that False not_less_trans by blast
      with False show ?thesis using Cons outer(1)[of "y # ys"] outer(2) by auto
    qed
  qed simp
qed simp

text \<open>The elements equal to \<open>z\<close> for the order, in their order of appearance.\<close>

abbreviation same_key :: "'a \<Rightarrow> 'a list \<Rightarrow> 'a list" where
  "same_key z \<equiv> filter (\<lambda>y. \<not> less y z \<and> \<not> less z y)"

lemma merge_stable: "nondecreasing xs \<Longrightarrow> same_key z (merge less xs ys) = same_key z xs @ same_key z ys"
proof (induction xs arbitrary: ys)
  case (Cons x xs)
  note outer = Cons
  show ?case
  proof (induction ys)
    case (Cons y ys)
    show ?case
    proof (cases "less y x")
      case True
      moreover have "same_key z (x # xs) = []" if "\<not> less y z" "\<not> less z y"
      proof -
        have "less z w" if "\<not> less w x" for w
          using that True \<open>\<not> less y z\<close> less_ge_trans ge_less_trans by blast
        then show ?thesis using outer(2) irrefl[of x] by (auto simp: filter_empty_conv)
      qed
      ultimately show ?thesis using Cons by auto
    qed (use outer in auto)
  qed simp
qed simp

lemma sort_pass_correct:
  assumes "sort_pass less xs = (ys, n)"
  shows "mset ys = mset xs \<and> same_key z ys = same_key z xs \<and> runs less ys \<le> n \<and> 2 * n \<le> runs less xs + 1 \<and> n \<le> length xs"
  using assms
proof (induction "length xs" arbitrary: xs ys n rule: less_induct)
  case less
  show ?case
  proof (cases xs)
    case (Cons x xs')
    obtain r s where rs: "split_run less x xs' = (r, s)" by force
    note 1 = split_run_append[OF rs] split_run_runs[OF rs]
    show ?thesis
    proof (cases s)
      case Nil
      then show ?thesis using less.prems Cons rs 1 by auto
    next
      case s: (Cons y ys')
      obtain r2 s2 where rs2: "split_run less y ys' = (r2, s2)" by force
      obtain zs m where zs: "sort_pass less s2 = (zs, m)" by force
      note 2 = split_run_append[OF rs2] split_run_runs[OF rs2]
      have sorted: "nondecreasing (x # r)" "nondecreasing (y # r2)"
        using 1 2 runs_le_1_iff by (metis le_refl)+
      have ys: "ys = merge less (x # r) (y # r2) @ zs" "n = m + 1"
        using less.prems Cons rs s rs2 zs by simp_all
      have "length s2 < length xs" using Cons 1 2 s by simp
      from less.hyps[OF this zs] have IH: "mset zs = mset s2" "same_key z zs = same_key z s2"
        "runs less zs \<le> m" "2 * m \<le> runs less s2 + 1" "m \<le> length s2" by auto
      have "runs less (merge less (x # r) (y # r2)) \<le> 1"
        using nondecreasing_merge[OF sorted] runs_le_1_iff by blast
      then have "runs less ys \<le> 1 + runs less zs"
        unfolding ys(1) using runs_append[of less "merge less (x # r) (y # r2)" zs] by linarith
      moreover have "same_key z ys = same_key z xs"
        using merge_stable[OF sorted(1), of z "y # r2"] IH(2) Cons 1 2 s
        by (simp add: ys(1) del: merge.simps filter.simps) (simp add: Cons 1 2 s)
      moreover have "mset ys = mset xs"
        using IH Cons 1 2 s by (simp add: ys(1) mset_merge del: merge.simps)
      ultimately show ?thesis using IH Cons 1 2 s ys by simp
    qed
  qed (use less.prems in simp)
qed

end

section \<open>The loops compute the list functions\<close>

lemma hd_mid_eq_iff:
  assumes "dlist h l (as @ ys @ zs)"
  shows "hd (ys @ zs @ [list_tail l]) = hd (zs @ [list_tail l]) \<longleftrightarrow> ys = []"
proof (cases ys)
  case (Cons y ys')
  have "y \<notin> set (zs @ [list_tail l])"
    using dlist_distinct[OF assms] Cons by (auto simp: nodes_def)
  moreover have "hd (zs @ [list_tail l]) \<in> set (zs @ [list_tail l])"
    by (rule hd_in_set) simp
  ultimately show ?thesis using Cons by auto
qed simp

lemma list_prev_mid: "dlist h l (as @ x # y # bs) \<Longrightarrow> list_prev h y = Some x"
  using list_prev_dlist[of h l "as @ [x]" "y # bs"] by simp

lemma is_sorted_loop_dlist:
  "dlist h l (as @ x # ys @ zs) \<Longrightarrow>
   is_sorted_loop lt h x (hd (zs @ [list_tail l])) = Some (runs lt (x # ys) \<le> 1)"
proof (induction ys arbitrary: as x)
  case Nil
  then show ?case
    using list_next_dlist[of h l as x zs] by (subst is_sorted_loop.simps) simp
next
  case (Cons y ys)
  have "hd (zs @ [list_tail l]) \<noteq> y"
    using hd_mid_eq_iff[of h l "as @ [x]" "y # ys" zs] Cons.prems by auto
  moreover have "list_next h x = Some y" "list_prev h y = Some x"
    using list_next_dlist[of h l as x "y # ys @ zs"] list_prev_mid[of h l as x y "ys @ zs"] Cons.prems by simp_all
  ultimately show ?case
    using Cons.IH[of "as @ [x]" y] Cons.prems runs_Cons_pos[of lt y ys]
    by (subst is_sorted_loop.simps) auto
qed

lemma is_sorted_dlist:
  assumes "dlist h l (as @ xs @ zs)"
  shows "is_sorted lt h (hd (xs @ zs @ [list_tail l])) (hd (zs @ [list_tail l])) = Some (runs lt xs \<le> 1)"
  using assms hd_mid_eq_iff[OF assms] is_sorted_loop_dlist[of h l as _ _ zs lt]
  by (cases xs) (auto simp: is_sorted_def)

lemma find_end_loop_dlist:
  "dlist h l (as @ x # ys) \<Longrightarrow>
   find_end_loop lt h x (list_tail l) = Some (hd (snd (split_run lt x ys) @ [list_tail l]))"
proof (induction ys arbitrary: as x)
  case Nil
  then show ?case
    using list_next_dlist[of h l as x "[]"] by (subst find_end_loop.simps) simp
next
  case (Cons y ys)
  have "list_tail l \<noteq> y"
    using hd_mid_eq_iff[of h l "as @ [x]" "y # ys" "[]"] Cons.prems by auto
  moreover have "list_next h x = Some y" "list_prev h y = Some x"
    using list_next_dlist[of h l as x "y # ys"] list_prev_mid[of h l as x y "ys"] Cons.prems by simp_all
  ultimately show ?case
    using Cons.IH[of "as @ [x]" y] Cons.prems
    by (subst find_end_loop.simps) (auto split: prod.splits)
qed

lemma find_end_of_run_dlist:
  assumes "dlist h l (as @ x # ys)"
  shows "find_end_of_run lt h x (list_tail l) = Some (hd (snd (split_run lt x ys) @ [list_tail l]))"
  using find_end_loop_dlist[OF assms] dlist_distinct[OF assms] dlist_nonnull[OF assms]
  by (auto simp: find_end_of_run_def nodes_def)

lemma inplace_merge_loop_dlist:
  "dlist h l (as @ xs @ ys @ zs) \<Longrightarrow>
   \<exists>h'. inplace_merge_loop lt h (hd (xs @ ys @ zs @ [list_tail l])) (hd (ys @ zs @ [list_tail l]))
          (hd (zs @ [list_tail l])) = Some h' \<and>
        dlist h' l (as @ merge lt xs ys @ zs) \<and> same_outside (set (nodes l (as @ xs @ ys @ zs))) h h'"
proof (induction lt xs ys arbitrary: h as rule: merge.induct)
  case (1 lt ys)
  then show ?case by (subst inplace_merge_loop.simps) auto
next
  case (2 lt x xs)
  then show ?case by (subst inplace_merge_loop.simps) auto
next
  case (3 lt x xs y ys)
  let ?b = "hd (zs @ [list_tail l])"
  have ne: "x \<noteq> y" "y \<noteq> ?b"
    using dlist_distinct[OF 3(3)] hd_mid_eq_iff[of h l "as @ x # xs" "y # ys" zs] 3(3)
    by (auto simp: nodes_def)
  show ?case
  proof (cases "lt y x")
    case True
    have n: "list_next h y = Some (hd (ys @ zs @ [list_tail l]))"
      using list_next_dlist[of h l "as @ x # xs" y "ys @ zs"] 3(3) by simp
    have p: "list_prev h (hd (ys @ zs @ [list_tail l])) = Some y"
      using list_prev_dlist[of h l "as @ x # xs @ [y]" "ys @ zs"] 3(3) by simp
    obtain h1 where h1: "list_splice h x y (hd (ys @ zs @ [list_tail l])) = Some h1"
      "dlist h1 l (as @ y # (x # xs) @ ys @ zs)" "same_outside (set (nodes l (as @ (x # xs) @ (y # ys) @ zs))) h h1"
      using list_splice_dlist[of h l as "x # xs" "[y]" "ys @ zs"] 3(3) by auto
    have eq: "set (nodes l ((as @ [y]) @ (x # xs) @ ys @ zs)) = set (nodes l (as @ (x # xs) @ (y # ys) @ zs))"
      by (auto simp: nodes_def)
    obtain h2 where h2: "inplace_merge_loop lt h1 x (hd (ys @ zs @ [list_tail l])) ?b = Some h2"
      "dlist h2 l (as @ y # merge lt (x # xs) ys @ zs)"
      "same_outside (set (nodes l (as @ (x # xs) @ (y # ys) @ zs))) h1 h2"
      using 3(1)[OF True, of h1 "as @ [y]"] h1(2) unfolding eq by auto
    show ?thesis
      using True n p h1 h2 ne same_outside_trans[OF h1(3) h2(3)]
      by (subst inplace_merge_loop.simps) simp
  next
    case False
    have n: "list_next h x = Some (hd (xs @ y # ys @ zs @ [list_tail l]))"
      using list_next_dlist[of h l as x "xs @ y # ys @ zs"] 3(3) by simp
    then show ?thesis
      using 3(2)[OF False, of h "as @ [x]"] 3(3) False ne
      by (subst inplace_merge_loop.simps) simp
  qed
qed

lemma inplace_merge_dlist:
  assumes "dlist h l (as @ xs @ ys @ zs)" and "runs lt xs \<le> 1" and "runs lt ys \<le> 1"
  shows "\<exists>h'. inplace_merge lt h (hd (xs @ ys @ zs @ [list_tail l])) (hd (ys @ zs @ [list_tail l]))
          (hd (zs @ [list_tail l])) = Some h' \<and>
        dlist h' l (as @ merge lt xs ys @ zs) \<and> same_outside (set (nodes l (as @ xs @ ys @ zs))) h h'"
proof -
  have nn: "hd (us @ [list_tail l]) \<noteq> NULL" if "set us \<subseteq> set (xs @ ys @ zs)" for us
    using dlist_nonnull[OF assms(1)] that by (cases us) (auto simp: nodes_def)
  have "hd (xs @ ys @ zs @ [list_tail l]) \<noteq> NULL" "hd (ys @ zs @ [list_tail l]) \<noteq> NULL" "hd (zs @ [list_tail l]) \<noteq> NULL"
    using nn[of "xs @ ys @ zs"] nn[of "ys @ zs"] nn[of zs] by auto
  then show ?thesis
    using inplace_merge_loop_dlist[OF assms(1), of lt] assms(2,3)
      is_sorted_dlist[of h l as xs "ys @ zs" lt] is_sorted_dlist[of h l "as @ xs" ys zs lt] assms(1)
    by (simp add: inplace_merge_def)
qed

lemma list_sort_pass_dlist:
  assumes "strict_weak_order lt"
  shows "dlist h l (as @ xs) \<Longrightarrow> sort_pass lt xs = (ys, n) \<Longrightarrow>
   \<exists>h'. list_sort_pass lt h l (hd (xs @ [list_tail l])) cnt = Some (h', cnt + of_nat n) \<and>
        dlist h' l (as @ ys) \<and> same_outside (set (nodes l (as @ xs))) h h'"
proof (induction "length xs" arbitrary: xs ys n h as cnt rule: less_induct)
  case less
  show ?case
  proof (cases xs)
    case Nil
    then show ?thesis using less.prems by (subst list_sort_pass.simps) simp
  next
    case (Cons x xs')
    obtain r s where rs: "split_run lt x xs' = (r, s)" by force
    have x: "x \<noteq> list_tail l"
      using hd_append_tail_iff[of h l as xs] less.prems Cons by simp
    have f1: "find_end_of_run lt h x (list_tail l) = Some (hd (s @ [list_tail l]))"
      using find_end_of_run_dlist[of h l as x xs' lt] less.prems Cons rs by simp
    have xs: "xs = (x # r) @ s" using split_run_append[OF rs] Cons by simp
    show ?thesis
    proof (cases s)
      case Nil
      then show ?thesis
        using less.prems Cons rs x f1 xs by (subst list_sort_pass.simps) auto
    next
      case s: (Cons y ys')
      obtain r2 s2 where rs2: "split_run lt y ys' = (r2, s2)" by force
      obtain zs m where zs: "sort_pass lt s2 = (zs, m)" by force
      have y: "y \<noteq> list_tail l"
        using hd_append_tail_iff[of h l "as @ x # r" s] less.prems xs s by simp
      have f2: "find_end_of_run lt h y (list_tail l) = Some (hd (s2 @ [list_tail l]))"
        using find_end_of_run_dlist[of h l "as @ x # r" y ys' lt] less.prems xs s rs2 by simp
      have xs2: "xs = (x # r) @ (y # r2) @ s2" using xs s split_run_append[OF rs2] by simp
      have "runs lt (x # r) \<le> 1" "runs lt (y # r2) \<le> 1"
        using split_run_runs[OF rs] split_run_runs[OF rs2] by simp_all
      then obtain h1 where h1: "inplace_merge lt h x y (hd (s2 @ [list_tail l])) = Some h1"
        "dlist h1 l ((as @ merge lt (x # r) (y # r2)) @ s2)" "same_outside (set (nodes l (as @ xs))) h h1"
        using inplace_merge_dlist[of h l as "x # r" "y # r2" s2 lt] less.prems(1) xs2 by auto
      have "length s2 < length xs" using xs2 by simp
      from less.hyps[OF this h1(2) zs, of "cnt + 1"] obtain h2 where
        h2: "list_sort_pass lt h1 l (hd (s2 @ [list_tail l])) (cnt + 1) = Some (h2, cnt + 1 + of_nat m)"
        "dlist h2 l (as @ merge lt (x # r) (y # r2) @ zs)"
        "same_outside (set (nodes l ((as @ merge lt (x # r) (y # r2)) @ s2))) h1 h2" by auto
      have "set (nodes l ((as @ merge lt (x # r) (y # r2)) @ s2)) = set (nodes l (as @ xs))"
        using xs2 by (simp add: nodes_def del: merge.simps) auto
      with h1(3) h2(3) have "same_outside (set (nodes l (as @ xs))) h h2"
        by (metis same_outside_trans)
      then show ?thesis
        using Cons s rs rs2 zs x y f1 f2 h1 h2 less.prems by (subst list_sort_pass.simps) (auto simp: add_ac)
    qed
  qed
qed

lemma list_sort_loop_dlist:
  assumes "strict_weak_order lt"
  shows "dlist h l xs \<Longrightarrow>
   \<exists>h' ys. list_sort_loop lt h l = Some h' \<and> dlist h' l ys \<and> mset ys = mset xs \<and> runs lt ys \<le> 1 \<and>
        (\<forall>z. filter (\<lambda>y. \<not> lt y z \<and> \<not> lt z y) ys = filter (\<lambda>y. \<not> lt y z \<and> \<not> lt z y) xs) \<and>
        same_outside (set (nodes l xs)) h h'"
proof (induction "runs lt xs" arbitrary: xs h rule: less_induct)
  case less
  obtain ys n where p: "sort_pass lt xs = (ys, n)" by force
  note c = strict_weak_order.sort_pass_correct[OF assms p]
  obtain h1 where h1: "list_sort_pass lt h l (hd (xs @ [list_tail l])) 0 = Some (h1, of_nat n)"
    "dlist h1 l ys" "same_outside (set (nodes l xs)) h h1"
    using list_sort_pass_dlist[OF assms, of h l "[]" xs ys n 0] less.prems p by auto
  have "n < 2 ^ 32" using c dlist_length_bound[OF less.prems] by fastforce
  then have n: "(of_nat n :: size_t) > 1 \<longleftrightarrow> n > 1"
    by (simp add: word_less_nat_alt unsigned_of_nat take_bit_nat_eq_self)
  have eq: "set (nodes l ys) = set (nodes l xs)"
    using c mset_eq_setD[of ys xs] by (simp add: nodes_def)
  show ?case
  proof (cases "n > 1")
    case True
    then have "runs lt ys < runs lt xs" using c by fastforce
    from less.hyps[OF this h1(2)] obtain h2 zs where h2: "list_sort_loop lt h1 l = Some h2" "dlist h2 l zs"
      "mset zs = mset ys" "runs lt zs \<le> 1"
      "\<forall>z. filter (\<lambda>y. \<not> lt y z \<and> \<not> lt z y) zs = filter (\<lambda>y. \<not> lt y z \<and> \<not> lt z y) ys"
      "same_outside (set (nodes l xs)) h1 h2" unfolding eq by blast
    have "list_sort_loop lt h l = Some h2"
      using h1(1) h2(1) n True less.prems by (subst list_sort_loop.simps) simp
    then show ?thesis using h2 c same_outside_trans[OF h1(3) h2(6)] by auto
  next
    case False
    then have "list_sort_loop lt h l = Some h1"
      using h1(1) n less.prems by (subst list_sort_loop.simps) simp
    moreover have "runs lt ys \<le> 1" using c False by force
    ultimately show ?thesis using h1 c by (intro exI[of _ h1] exI[of _ ys]) auto
  qed
qed

text \<open>
  C16. \<open>list_sort\<close> returns, on every well-formed list and for every strict weak order, without
  tripping one of its assertions. It leaves a well-formed list that holds the same
  elements in nondecreasing order, with equal elements in the order they had, and it
  writes no link outside the list.
\<close>

theorem list_sort_correct:
  assumes "strict_weak_order lt" and "dlist h l xs"
  shows "\<exists>h' ys. list_sort lt h l = Some h' \<and> dlist h' l ys \<and> mset ys = mset xs \<and>
           sorted_wrt (\<lambda>a b. \<not> lt b a) ys \<and>
           (\<forall>z. filter (\<lambda>y. \<not> lt y z \<and> \<not> lt z y) ys = filter (\<lambda>y. \<not> lt y z \<and> \<not> lt z y) xs) \<and>
           same_outside (set (nodes l xs)) h h'"
proof -
  obtain h' ys where h': "list_sort_loop lt h l = Some h'" "dlist h' l ys" "mset ys = mset xs"
    "runs lt ys \<le> 1" "\<forall>z. filter (\<lambda>y. \<not> lt y z \<and> \<not> lt z y) ys = filter (\<lambda>y. \<not> lt y z \<and> \<not> lt z y) xs"
    "same_outside (set (nodes l xs)) h h'"
    using list_sort_loop_dlist[OF assms] by blast
  moreover have "list_sort lt h l = Some h'"
    using h' is_sorted_dlist[of h' l "[]" ys "[]" lt] dlist_list_nonnull[OF assms(2)]
    by (simp add: list_sort_def)
  ultimately show ?thesis
    using strict_weak_order.runs_le_1_iff[OF assms(1), of ys] by auto
qed

theorem list_sort_correct_witness:
  "strict_weak_order ((<) :: ptr \<Rightarrow> ptr \<Rightarrow> bool) \<and> dlist (heap_of_list 8 [100, 50, 75]) 8 [100, 50, 75] \<and>
   map_option (\<lambda>h. dlist h 8 [50, 75, 100]) (list_sort (<) (heap_of_list 8 [100, 50, 75]) 8) = Some True \<and>
   (\<exists>h' ys. list_sort (<) (heap_of_list 8 [100, 50, 75]) 8 = Some h' \<and> dlist h' 8 ys \<and> sorted_wrt (\<lambda>a b. \<not> b < a) ys)"
proof -
  have 1: "strict_weak_order ((<) :: ptr \<Rightarrow> ptr \<Rightarrow> bool)" by unfold_locales auto
  have 2: "dlist (heap_of_list 8 [100, 50, 75]) 8 [100, 50, 75]" by code_simp
  have 3: "map_option (\<lambda>h. dlist h 8 [50, 75, 100]) (list_sort (<) (heap_of_list 8 [100, 50, 75]) 8) = Some True"
    by code_simp
  show ?thesis using 1 2 3 list_sort_correct[OF 1 2] by blast
qed

section \<open>Ordered insertion, extrema and removal of duplicates\<close>

lemma insert_ordered_loop_dlist:
  "dlist h l (as @ bs) \<Longrightarrow>
   insert_ordered_loop lt h l e (hd (bs @ [list_tail l])) = Some (hd (dropWhile (\<lambda>x. \<not> lt e x) bs @ [list_tail l]))"
proof (induction bs arbitrary: as)
  case Nil
  then show ?case by (subst insert_ordered_loop.simps) simp
next
  case (Cons b bs)
  then show ?case
    using hd_append_tail_iff[of h l as "b # bs"] list_next_dlist[of h l as b bs] Cons.IH[of "as @ [b]"]
    by (subst insert_ordered_loop.simps) simp
qed

text \<open>\<open>list_insert_ordered\<close> on plain lists.\<close>

definition ordered_insert :: "('a \<Rightarrow> 'a \<Rightarrow> bool) \<Rightarrow> 'a \<Rightarrow> 'a list \<Rightarrow> 'a list" where
  "ordered_insert lt e xs = takeWhile (\<lambda>x. \<not> lt e x) xs @ e # dropWhile (\<lambda>x. \<not> lt e x) xs"

lemma list_insert_ordered_dlist:
  assumes "dlist h l xs" and "e \<notin> set (nodes l xs)" and "e \<noteq> NULL"
  shows "\<exists>h'. list_insert_ordered lt h l e = Some h' \<and> dlist h' l (ordered_insert lt e xs) \<and>
    same_outside (set (nodes l (ordered_insert lt e xs))) h h'"
  using insert_ordered_loop_dlist[of h l "[]" xs lt e] assms dlist_list_nonnull[OF assms(1)]
    list_insert_dlist[of h l "takeWhile (\<lambda>x. \<not> lt e x) xs" "dropWhile (\<lambda>x. \<not> lt e x) xs" e]
  by (simp add: list_insert_ordered_def ordered_insert_def)

context strict_weak_order
begin

lemma nondecreasing_insert:
  assumes "nondecreasing xs"
  shows "nondecreasing (ordered_insert less e xs)"
  using assms unfolding ordered_insert_def
proof (induction xs)
  case (Cons x xs)
  show ?case
  proof (cases "less e x")
    case True
    then have "\<not> less y e" if "\<not> less y x" for y
      using that less_trans by blast
    with True Cons.prems show ?thesis using irrefl by auto
  next
    case False
    moreover have "y \<in> set xs" if "y \<in> set (takeWhile (\<lambda>x. \<not> less e x) xs) \<union> set (dropWhile (\<lambda>x. \<not> less e x) xs)" for y
      using that by (auto dest: set_takeWhileD set_dropWhileD)
    ultimately show ?thesis using Cons by auto
  qed
qed simp

end

lemma list_max_loop_dlist:
  "dlist h l (as @ bs) \<Longrightarrow>
   list_max_loop lt h l m (hd (bs @ [list_tail l])) = Some (fold (\<lambda>e m. if lt m e then e else m) bs m)"
proof (induction bs arbitrary: as m)
  case Nil
  then show ?case by (subst list_max_loop.simps) simp
next
  case (Cons b bs)
  then show ?case
    using hd_append_tail_iff[of h l as "b # bs"] list_next_dlist[of h l as b bs] Cons.IH[of "as @ [b]"]
    by (subst list_max_loop.simps) simp
qed

lemma list_min_loop_dlist:
  "dlist h l (as @ bs) \<Longrightarrow>
   list_min_loop lt h l m (hd (bs @ [list_tail l])) = Some (fold (\<lambda>e m. if lt e m then e else m) bs m)"
proof (induction bs arbitrary: as m)
  case Nil
  then show ?case by (subst list_min_loop.simps) simp
next
  case (Cons b bs)
  then show ?case
    using hd_append_tail_iff[of h l as "b # bs"] list_next_dlist[of h l as b bs] Cons.IH[of "as @ [b]"]
    by (subst list_min_loop.simps) simp
qed

lemma list_max_dlist:
  assumes "dlist h l xs"
  shows "list_max lt h l =
    Some (if xs = [] then list_tail l else fold (\<lambda>e m. if lt m e then e else m) (tl xs) (hd xs))"
  using assms hd_append_tail_iff[of h l "[]" xs] list_next_dlist[of h l "[]" "hd xs" "tl xs"]
    list_max_loop_dlist[of h l "[hd xs]" "tl xs" lt "hd xs"]
  by (cases xs) (auto simp: list_max_def)

lemma list_min_dlist:
  assumes "dlist h l xs"
  shows "list_min lt h l =
    Some (if xs = [] then list_tail l else fold (\<lambda>e m. if lt e m then e else m) (tl xs) (hd xs))"
  using assms hd_append_tail_iff[of h l "[]" xs] list_next_dlist[of h l "[]" "hd xs" "tl xs"]
    list_min_loop_dlist[of h l "[hd xs]" "tl xs" lt "hd xs"]
  by (cases xs) (auto simp: list_min_def)

context strict_weak_order
begin

text \<open>The first of the greatest elements: everything before it is less, nothing after it is greater.\<close>

lemma fold_max_split:
  "\<exists>as bs. x # xs = as @ fold (\<lambda>e m. if less m e then e else m) xs x # bs \<and>
     (\<forall>a\<in>set as. less a (fold (\<lambda>e m. if less m e then e else m) xs x)) \<and>
     (\<forall>b\<in>set bs. \<not> less (fold (\<lambda>e m. if less m e then e else m) xs x) b)"
proof (induction xs rule: rev_induct)
  case (snoc y xs)
  define m where "m = fold (\<lambda>e m. if less m e then e else m) xs x"
  obtain as bs where s: "x # xs = as @ m # bs" "\<forall>a\<in>set as. less a m" "\<forall>b\<in>set bs. \<not> less m b"
    using snoc unfolding m_def by blast
  have m': "fold (\<lambda>e m. if less m e then e else m) (xs @ [y]) x = (if less m y then y else m)"
    by (simp add: m_def)
  show ?case
  proof (cases "less m y")
    case True
    have "less a y" if "less a m \<or> \<not> less m a" for a
      using that True less_trans ge_less_trans by blast
    then have "\<forall>a\<in>set (as @ m # bs). less a y"
      using s(2,3) True by (simp add: ball_Un)
    then have "\<forall>a\<in>set (x # xs). less a y" using s(1) by simp
    then show ?thesis
      using True unfolding m' by (intro exI[of _ "x # xs"] exI[of _ "[]"]) simp
  next
    case False
    then show ?thesis
      using s unfolding m' by (intro exI[of _ as] exI[of _ "bs @ [y]"]) simp
  qed
qed (rule exI[of _ "[]"], simp)

lemma dual: "strict_weak_order (\<lambda>a b. less b a)"
  using asym incomp_trans by unfold_locales blast+

end

text \<open>
  \<open>list_unique\<close> on plain lists: \<open>x\<close> is the last element kept; \<open>dup_split\<close> gives what is kept of
  the rest and what is removed.
\<close>

fun dup_split :: "('a \<Rightarrow> 'a \<Rightarrow> bool) \<Rightarrow> 'a \<Rightarrow> 'a list \<Rightarrow> 'a list \<times> 'a list" where
  "dup_split lt x [] = ([], [])"
| "dup_split lt x (y # ys) =
     (if \<not> lt x y \<and> \<not> lt y x then (let (k, d) = dup_split lt x ys in (k, y # d))
      else (let (k, d) = dup_split lt y ys in (y # k, d)))"

lemma dup_split_mset: "dup_split lt x ys = (k, d) \<Longrightarrow> mset k + mset d = mset ys"
  by (induction lt x ys arbitrary: k d rule: dup_split.induct) (auto split: if_splits prod.splits)

lemma dup_split_adjacent:
  "dup_split lt x ys = (k, d) \<Longrightarrow> successively (\<lambda>a b. lt a b \<or> lt b a) (x # k)"
  by (induction lt x ys arbitrary: k d rule: dup_split.induct) (auto split: if_splits prod.splits)

lemma dup_split_equal:
  "dup_split lt x ys = (k, d) \<Longrightarrow> y \<in> set d \<Longrightarrow> \<exists>z\<in>set (x # k). \<not> lt z y \<and> \<not> lt y z"
  by (induction lt x ys arbitrary: k d rule: dup_split.induct) (fastforce split: if_splits prod.splits)+

lemma list_unique_loop_null:
  "dlist h l (as @ x # ys) \<Longrightarrow> dup_split lt x ys = (k, d) \<Longrightarrow>
   \<exists>h'. list_unique_loop lt h l NULL x = Some h' \<and> dlist h' l (as @ x # k) \<and>
        same_outside (set (nodes l (as @ x # ys))) h h'"
proof (induction lt x ys arbitrary: h as k d rule: dup_split.induct)
  case (1 lt x)
  then show ?case
    using list_next_dlist[of h l as x "[]"] by (subst list_unique_loop.simps) simp
next
  case (2 lt x y ys)
  have n: "list_next h x = Some y" and y: "y \<noteq> list_tail l"
    using list_next_dlist[of h l as x "y # ys"] hd_append_tail_iff[of h l "as @ [x]" "y # ys"] 2(3) by simp_all
  show ?case
  proof (cases "\<not> lt x y \<and> \<not> lt y x")
    case True
    obtain k' d' where kd: "dup_split lt x ys = (k', d')" by force
    obtain h1 where h1: "list_remove h y = Some (h1, hd (ys @ [list_tail l]))" "dlist h1 l (as @ x # ys)"
      "same_outside (set (nodes l (as @ x # ys))) h h1"
      using list_remove_dlist[of h l "as @ [x]" y ys] 2(3) by auto
    obtain h2 where h2: "list_unique_loop lt h1 l NULL x = Some h2" "dlist h2 l (as @ x # k')"
      "same_outside (set (nodes l (as @ x # ys))) h1 h2"
      using 2(1)[OF True h1(2) kd] by blast
    have "same_outside (set (nodes l (as @ x # y # ys))) h h2"
      by (rule same_outside_mono[OF same_outside_trans[OF h1(3) h2(3)]]) (auto simp: nodes_def)
    then show ?thesis
      using True n y h1(1) h2 kd 2(3,4) by (subst list_unique_loop.simps) simp
  next
    case False
    obtain k' d' where kd: "dup_split lt y ys = (k', d')" by force
    show ?thesis
      using 2(2)[OF False, of h "as @ [x]" k' d'] False n y kd 2(3,4)
      by (subst list_unique_loop.simps) auto
  qed
qed


lemma unique_step_dlist:
  assumes l: "dlist h l (as @ x # y # ys)" and d: "dlist h dp ds"
    and disj: "set (nodes l (as @ x # y # ys)) \<inter> set (nodes dp ds) = {}"
  shows "\<exists>h1 h2. list_remove h y = Some (h1, hd (ys @ [list_tail l])) \<and> list_push_back h1 dp y = Some h2 \<and>
     dlist h2 l (as @ x # ys) \<and> dlist h2 dp (ds @ [y]) \<and>
     set (nodes l (as @ x # ys)) \<inter> set (nodes dp (ds @ [y])) = {} \<and>
     same_outside (set (nodes l (as @ x # y # ys)) \<union> set (nodes dp ds)) h h2"
proof -
  let ?N = "set (nodes l (as @ x # y # ys)) \<union> set (nodes dp ds)"
  obtain h1 where h1: "list_remove h y = Some (h1, hd (ys @ [list_tail l]))" "dlist h1 l (as @ x # ys)"
    "same_outside (set (nodes l (as @ x # ys))) h h1"
    using list_remove_dlist[of h l "as @ [x]" y ys] l by auto
  have sub: "set (nodes l (as @ x # ys)) \<subseteq> set (nodes l (as @ x # y # ys))" "y \<in> set (nodes l (as @ x # y # ys))"
    by (auto simp: nodes_def)
  have d1: "dlist h1 dp ds"
    by (rule dlist_same_outside[OF d h1(3)]) (use disj sub in blast)
  have "y \<notin> set (nodes dp ds)" "y \<noteq> NULL"
    using disj sub dlist_nonnull[OF l] by blast+
  then obtain h2 where h2: "list_push_back h1 dp y = Some h2" "dlist h2 dp (ds @ [y])"
    "same_outside (set (nodes dp (ds @ [y]))) h1 h2"
    using list_push_back_dlist[OF d1] by blast
  have ny: "set (nodes dp (ds @ [y])) = insert y (set (nodes dp ds))"
    by (auto simp: nodes_def)
  have dj: "set (nodes l (as @ x # ys)) \<inter> set (nodes dp (ds @ [y])) = {}"
    using disj sub dlist_distinct[OF l] unfolding ny by (auto simp: nodes_def)
  have "same_outside ?N h h1"
    by (rule same_outside_mono[OF h1(3)]) (use sub in blast)
  moreover have "same_outside ?N h1 h2"
    by (rule same_outside_mono[OF h2(3)]) (use sub in \<open>auto simp: ny\<close>)
  ultimately have "same_outside ?N h h2" by (rule same_outside_trans)
  then show ?thesis
    using h1 h2 dj dlist_same_outside[OF h1(2) h2(3) dj] by blast
qed

lemma list_unique_loop_dups:
  "dlist h l (as @ x # ys) \<Longrightarrow> dlist h dp ds \<Longrightarrow>
   set (nodes l (as @ x # ys)) \<inter> set (nodes dp ds) = {} \<Longrightarrow> dup_split lt x ys = (k, d) \<Longrightarrow>
   \<exists>h'. list_unique_loop lt h l dp x = Some h' \<and> dlist h' l (as @ x # k) \<and> dlist h' dp (ds @ d) \<and>
        same_outside (set (nodes l (as @ x # ys)) \<union> set (nodes dp ds)) h h'"
proof (induction lt x ys arbitrary: h as ds k d rule: dup_split.induct)
  case (1 lt x)
  then show ?case
    using list_next_dlist[of h l as x "[]"] by (subst list_unique_loop.simps) simp
next
  case (2 lt x y ys)
  have n: "list_next h x = Some y" and y: "y \<noteq> list_tail l" and dp: "dp \<noteq> NULL"
    using list_next_dlist[of h l as x "y # ys"] hd_append_tail_iff[of h l "as @ [x]" "y # ys"] 2(3)
      dlist_list_nonnull[OF 2(4)] by simp_all
  show ?case
  proof (cases "\<not> lt x y \<and> \<not> lt y x")
    case True
    obtain k' d' where kd: "dup_split lt x ys = (k', d')" by force
    obtain h1 h2 where s: "list_remove h y = Some (h1, hd (ys @ [list_tail l]))" "list_push_back h1 dp y = Some h2"
      "dlist h2 l (as @ x # ys)" "dlist h2 dp (ds @ [y])"
      "set (nodes l (as @ x # ys)) \<inter> set (nodes dp (ds @ [y])) = {}"
      "same_outside (set (nodes l (as @ x # y # ys)) \<union> set (nodes dp ds)) h h2"
      using unique_step_dlist[OF 2(3-5)] by blast
    obtain h3 where h3: "list_unique_loop lt h2 l dp x = Some h3" "dlist h3 l (as @ x # k')"
      "dlist h3 dp ((ds @ [y]) @ d')"
      "same_outside (set (nodes l (as @ x # ys)) \<union> set (nodes dp (ds @ [y]))) h2 h3"
      using 2(1)[OF True s(3-5) kd] by blast
    have eq: "set (nodes l (as @ x # ys)) \<union> set (nodes dp (ds @ [y])) = set (nodes l (as @ x # y # ys)) \<union> set (nodes dp ds)"
      by (auto simp: nodes_def)
    note fr = same_outside_trans[OF s(6) h3(4)[unfolded eq]]
    from fr show ?thesis
      using True n y dp s(1,2) h3 kd 2(6) 2(3) by (subst list_unique_loop.simps) simp
  next
    case False
    obtain k' d' where kd: "dup_split lt y ys = (k', d')" by force
    show ?thesis
      using 2(2)[OF False, of h "as @ [x]" ds k' d'] False n y kd 2(3-6)
      by (subst list_unique_loop.simps) auto
  qed
qed

section \<open>Lists as queues\<close>

text \<open>
  The interface the scheduler, the semaphores and the frame table rely on: a
  \<open>struct list\<close> used with \<open>list_push_back\<close> and \<open>list_pop_front\<close> is a first-in first-out
  queue. \<open>rep\<close> relates a state to the queue it holds and \<open>fresh\<close> says that an element may
  be added.
\<close>

fun push_all :: "('h \<Rightarrow> 'l \<Rightarrow> 'e \<Rightarrow> 'h option) \<Rightarrow> 'h \<Rightarrow> 'l \<Rightarrow> 'e list \<Rightarrow> 'h option" where
  "push_all push h l [] = Some h"
| "push_all push h l (e # es) = do { h \<leftarrow> push h l e; push_all push h l es }"

fun pop_n :: "('h \<Rightarrow> 'l \<Rightarrow> ('h \<times> 'e) option) \<Rightarrow> 'h \<Rightarrow> 'l \<Rightarrow> nat \<Rightarrow> ('h \<times> 'e list) option" where
  "pop_n pop h l 0 = Some (h, [])"
| "pop_n pop h l (Suc n) = do { (h, e) \<leftarrow> pop h l; (h, es) \<leftarrow> pop_n pop h l n; Some (h, e # es) }"

locale fifo_queue =
  fixes rep :: "'h \<Rightarrow> 'l \<Rightarrow> 'e list \<Rightarrow> bool"
    and fresh :: "'l \<Rightarrow> 'e list \<Rightarrow> 'e \<Rightarrow> bool"
    and push :: "'h \<Rightarrow> 'l \<Rightarrow> 'e \<Rightarrow> 'h option"
    and pop :: "'h \<Rightarrow> 'l \<Rightarrow> ('h \<times> 'e) option"
  assumes push_rep: "rep h l xs \<Longrightarrow> fresh l xs e \<Longrightarrow> \<exists>h'. push h l e = Some h' \<and> rep h' l (xs @ [e])"
    and pop_rep: "rep h l (x # xs) \<Longrightarrow> \<exists>h'. pop h l = Some (h', x) \<and> rep h' l xs"
    and pop_empty: "rep h l [] \<Longrightarrow> pop h l = None"
begin

lemma push_all_rep:
  "rep h l xs \<Longrightarrow> (\<And>as e bs. es = as @ e # bs \<Longrightarrow> fresh l (xs @ as) e) \<Longrightarrow>
   \<exists>h'. push_all push h l es = Some h' \<and> rep h' l (xs @ es)"
proof (induction es arbitrary: h xs)
  case (Cons e es)
  obtain h1 where h1: "push h l e = Some h1" "rep h1 l (xs @ [e])"
    using push_rep[OF Cons.prems(1), of e] Cons.prems(2)[of "[]" e es] by auto
  have "fresh l ((xs @ [e]) @ as) e'" if "es = as @ e' # bs" for as e' bs
    using Cons.prems(2)[of "e # as" e' bs] that by simp
  from Cons.IH[OF h1(2) this] h1(1) show ?case by auto
qed simp

lemma pop_n_rep: "rep h l (xs @ ys) \<Longrightarrow> \<exists>h'. pop_n pop h l (length xs) = Some (h', xs) \<and> rep h' l ys"
proof (induction xs arbitrary: h)
  case (Cons x xs)
  then show ?case using pop_rep[of h l x "xs @ ys"] by fastforce
qed simp

end

interpretation klist: fifo_queue dlist "\<lambda>l xs e. e \<notin> set (nodes l xs) \<and> e \<noteq> NULL" list_push_back list_pop_front
  by unfold_locales (use list_push_back_dlist list_pop_front_dlist list_pop_front_empty in blast)+

text \<open>
  C36. A list used through \<open>list_push_back\<close> and \<open>list_pop_front\<close> is a first-in first-out queue:
  new, distinct elements that are appended to any well-formed list come out after
  the elements that were there, in the order they were appended, and the list is empty again.
\<close>

theorem list_fifo:
  assumes "dlist h l xs" and "distinct es" and "set es \<inter> set (nodes l xs) = {}" and "NULL \<notin> set es"
  shows "\<exists>h1 h2. push_all list_push_back h l es = Some h1 \<and> dlist h1 l (xs @ es) \<and>
           pop_n list_pop_front h1 l (length xs + length es) = Some (h2, xs @ es) \<and> dlist h2 l []"
proof -
  have "e \<notin> set (nodes l (xs @ as)) \<and> e \<noteq> NULL" if "es = as @ e # bs" for as e bs
    using assms that by (auto simp: nodes_def)
  then obtain h1 where h1: "push_all list_push_back h l es = Some h1" "dlist h1 l (xs @ es)"
    using klist.push_all_rep[OF assms(1), of es] by blast
  then show ?thesis
    using klist.pop_n_rep[of h1 l "xs @ es" "[]"] by auto
qed

theorem list_fifo_witness:
  "dlist (heap_of_list 8 [100]) 8 [100] \<and>
   (\<exists>h1 h2. push_all list_push_back (heap_of_list 8 [100]) 8 [50, 75] = Some h1 \<and>
      pop_n list_pop_front h1 8 3 = Some (h2, [100, 50, 75]) \<and> dlist h2 8 [])"
proof -
  have 1: "dlist (heap_of_list 8 [100]) 8 [100]" by code_simp
  have 2: "set [50, 75] \<inter> set (nodes 8 [100]) = {}" by (simp add: nodes_def list_head_def list_tail_def)
  have 3: "length [100 :: ptr] + length [50 :: ptr, 75] = 3" by simp
  show ?thesis using 1 list_fifo[OF 1 _ 2] unfolding 3 by (auto simp del: pop_n.simps push_all.simps)
qed

text \<open>
  C35. \<open>list_insert_ordered\<close> returns; the new element goes in front of the first element it is less
  than, so that it follows the elements equal to it; a list in nondecreasing order stays in
  nondecreasing order.
\<close>

theorem list_insert_ordered_correct:
  assumes "strict_weak_order lt" and "dlist h l xs" and "e \<notin> set (nodes l xs)" and "e \<noteq> NULL"
  shows "\<exists>h' ys zs. list_insert_ordered lt h l e = Some h' \<and> xs = ys @ zs \<and> dlist h' l (ys @ e # zs) \<and>
           (\<forall>y\<in>set ys. \<not> lt e y) \<and> (zs \<noteq> [] \<longrightarrow> lt e (hd zs)) \<and>
           (sorted_wrt (\<lambda>a b. \<not> lt b a) xs \<longrightarrow> sorted_wrt (\<lambda>a b. \<not> lt b a) (ys @ e # zs)) \<and>
           same_outside (set (nodes l (ys @ e # zs))) h h'"
  using list_insert_ordered_dlist[OF assms(2-4), of lt] strict_weak_order.nondecreasing_insert[OF assms(1), of xs e]
    hd_dropWhile[of "\<lambda>x. \<not> lt e x" xs] set_takeWhileD[of _ "\<lambda>x. \<not> lt e x" xs]
  unfolding ordered_insert_def by (metis takeWhile_dropWhile_id)

theorem list_insert_ordered_correct_witness:
  "strict_weak_order ((<) :: ptr \<Rightarrow> ptr \<Rightarrow> bool) \<and> dlist (heap_of_list 8 [50, 100]) 8 [50, 100] \<and>
   (\<exists>h'. list_insert_ordered (<) (heap_of_list 8 [50, 100]) 8 75 = Some h' \<and>
      (\<exists>ys. dlist h' 8 ys \<and> sorted_wrt (\<lambda>a b. \<not> b < a) ys))"
proof -
  have 1: "strict_weak_order ((<) :: ptr \<Rightarrow> ptr \<Rightarrow> bool)" by unfold_locales auto
  have 2: "dlist (heap_of_list 8 [50, 100]) 8 [50, 100]" by code_simp
  have 3: "(75 :: ptr) \<notin> set (nodes 8 [50, 100])" by (simp add: nodes_def list_head_def list_tail_def)
  have 4: "(75 :: ptr) \<noteq> NULL" "sorted_wrt (\<lambda>a b. \<not> b < a) [50 :: ptr, 100]" by simp_all
  show ?thesis using 1 2 4(2) list_insert_ordered_correct[OF 1 2 3 4(1)] by blast
qed

text \<open>
  \<open>list_unique\<close> with a second list for the duplicates, both well formed and disjoint, returns.
  The first list keeps its first element and no two adjacent equal elements; each
  removed element is equal to one that is kept; the removed elements are appended to the
  second list, and together the two lists hold exactly what they held before.
\<close>

lemma list_unique_correct:
  assumes "dlist h l xs" and "dlist h dp ds" and "set (nodes l xs) \<inter> set (nodes dp ds) = {}"
  shows "\<exists>h' ks us. list_unique lt h l dp = Some h' \<and> dlist h' l ks \<and> dlist h' dp (ds @ us) \<and>
           mset ks + mset us = mset xs \<and> (xs \<noteq> [] \<longrightarrow> ks \<noteq> [] \<and> hd ks = hd xs) \<and>
           successively (\<lambda>a b. lt a b \<or> lt b a) ks \<and>
           (\<forall>u\<in>set us. \<exists>k\<in>set ks. \<not> lt k u \<and> \<not> lt u k) \<and>
           same_outside (set (nodes l xs) \<union> set (nodes dp ds)) h h'"
proof (cases xs)
  case Nil
  then show ?thesis
    using assms dlist_list_nonnull[OF assms(1)] by (intro exI[of _ h] exI[of _ "[]"]) (simp add: list_unique_def)
next
  case (Cons x ys)
  obtain k d where kd: "dup_split lt x ys = (k, d)" by force
  obtain h' where h': "list_unique_loop lt h l dp x = Some h'" "dlist h' l (x # k)" "dlist h' dp (ds @ d)"
    "same_outside (set (nodes l xs) \<union> set (nodes dp ds)) h h'"
    using list_unique_loop_dups[of h l "[]" x ys dp ds lt k d] kd assms Cons by auto
  moreover have "list_unique lt h l dp = Some h'"
    using h'(1) assms(1) Cons dlist_list_nonnull[OF assms(1)] by (simp add: list_unique_def)
  ultimately show ?thesis
    using dup_split_mset[OF kd] dup_split_adjacent[OF kd] dup_split_equal[OF kd] Cons
    by (intro exI[of _ h'] exI[of _ "x # k"] exI[of _ d]) auto
qed

text \<open>
  \<open>list_max\<close> and \<open>list_min\<close> of a nonempty list return the first of its greatest and of its
  least elements, and the tail element for an empty list.
\<close>

lemma list_max_min_correct:
  assumes "strict_weak_order lt" and "dlist h l xs"
  shows "if xs = [] then list_max lt h l = Some (list_tail l) \<and> list_min lt h l = Some (list_tail l)
    else (\<exists>as m bs. list_max lt h l = Some m \<and> xs = as @ m # bs \<and> (\<forall>a\<in>set as. lt a m) \<and> (\<forall>b\<in>set bs. \<not> lt m b)) \<and>
         (\<exists>as m bs. list_min lt h l = Some m \<and> xs = as @ m # bs \<and> (\<forall>a\<in>set as. lt m a) \<and> (\<forall>b\<in>set bs. \<not> lt b m))"
proof (cases xs)
  case Nil
  then show ?thesis using list_max_dlist[OF assms(2)] list_min_dlist[OF assms(2)] by simp
next
  case xs: (Cons x ys)
  show ?thesis
    using strict_weak_order.fold_max_split[OF assms(1), of x ys]
      strict_weak_order.fold_max_split[OF strict_weak_order.dual[OF assms(1)], of x ys]
      list_max_dlist[OF assms(2), of lt] list_min_dlist[OF assms(2), of lt] unfolding xs by simp
qed

end
