(* ===== verification/Strings.thy ===== *)
theory Strings
  imports Prelude
begin

text \<open>
  Memory blocks and null-terminated strings: \<open>src/lib/string.c\<close>. Memory is a function from
  addresses to bytes; an access through the null pointer is \<open>None\<close>. Pointers and
  sizes wrap as in the code, and every loop that searches for a terminator is a partial
  function, so that the results below include that it ends.

  \<open>cstring m p s\<close> says that a string with the characters \<open>s\<close> is stored at \<open>p\<close>, and
  \<open>bytes_at m p bs\<close> that the bytes \<open>bs\<close> are.
\<close>

section \<open>The code\<close>

type_synonym mem = "ptr \<Rightarrow> uint8"

definition rd8 :: "mem \<Rightarrow> ptr \<Rightarrow> uint8 option" where
  "rd8 m p = (if p = NULL then None else Some (m p))"

definition wr8 :: "mem \<Rightarrow> ptr \<Rightarrow> uint8 \<Rightarrow> mem option" where
  "wr8 m p v = (if p = NULL then None else Some (m(p := v)))"

lemma size_dec_measure: "(sz :: size_t) \<noteq> 0 \<Longrightarrow> unat (sz - 1) < unat sz"
  by (metis unat_0_iff unat_minus_one diff_less neq0_conv zero_less_one)

function copy_fwd :: "mem \<Rightarrow> ptr \<Rightarrow> ptr \<Rightarrow> size_t \<Rightarrow> (mem \<times> ptr) option" where
  "copy_fwd m dst src sz =
     (if sz \<noteq> 0 then do {
        v \<leftarrow> rd8 m src;
        m \<leftarrow> wr8 m dst v;
        copy_fwd m (dst + 1) (src + 1) (sz - 1)
      } else Some (m, dst))"
  by pat_completeness auto
termination
  by (relation "measure (\<lambda>(_, _, _, sz). unat sz)") (simp_all add: size_dec_measure)

function copy_bwd :: "mem \<Rightarrow> ptr \<Rightarrow> ptr \<Rightarrow> size_t \<Rightarrow> (mem \<times> ptr) option" where
  "copy_bwd m dst src sz =
     (if sz \<noteq> 0 then do {
        v \<leftarrow> rd8 m (src - 1);
        m \<leftarrow> wr8 m (dst - 1) v;
        copy_bwd m (dst - 1) (src - 1) (sz - 1)
      } else Some (m, dst))"
  by pat_completeness auto
termination
  by (relation "measure (\<lambda>(_, _, _, sz). unat sz)") (simp_all add: size_dec_measure)

definition memcpy :: "mem \<Rightarrow> ptr \<Rightarrow> ptr \<Rightarrow> size_t \<Rightarrow> (mem \<times> ptr) option" where
  "memcpy m dst0 src0 sz = do {
     ASSERT (dst0 \<noteq> NULL \<or> sz = 0);
     ASSERT (src0 \<noteq> NULL \<or> sz = 0);
     (m, _) \<leftarrow> copy_fwd m dst0 src0 sz;
     Some (m, dst0)
   }"

definition memmove :: "mem \<Rightarrow> ptr \<Rightarrow> ptr \<Rightarrow> size_t \<Rightarrow> (mem \<times> ptr) option" where
  "memmove m dst src sz = do {
     ASSERT (dst \<noteq> NULL \<or> sz = 0);
     ASSERT (src \<noteq> NULL \<or> sz = 0);
     if dst < src then copy_fwd m dst src sz
     else copy_bwd m (dst + sz) (src + sz) sz
   }"

function memcmp_loop :: "mem \<Rightarrow> ptr \<Rightarrow> ptr \<Rightarrow> size_t \<Rightarrow> int option" where
  "memcmp_loop m a b sz =
     (if sz \<noteq> 0 then do {
        x \<leftarrow> rd8 m a;
        y \<leftarrow> rd8 m b;
        if x \<noteq> y then Some (if x > y then 1 else - 1)
        else memcmp_loop m (a + 1) (b + 1) (sz - 1)
      } else Some 0)"
  by pat_completeness auto
termination
  by (relation "measure (\<lambda>(_, _, _, sz). unat sz)") (simp_all add: size_dec_measure)

definition memcmp :: "mem \<Rightarrow> ptr \<Rightarrow> ptr \<Rightarrow> size_t \<Rightarrow> int option" where
  "memcmp m a b sz = do {
     ASSERT (a \<noteq> NULL \<or> sz = 0);
     ASSERT (b \<noteq> NULL \<or> sz = 0);
     memcmp_loop m a b sz
   }"

partial_function (option) strcmp_loop :: "mem \<Rightarrow> ptr \<Rightarrow> ptr \<Rightarrow> int option" where
  "strcmp_loop m a b = do {
     x \<leftarrow> rd8 m a;
     y \<leftarrow> rd8 m b;
     if x \<noteq> 0 \<and> x = y then strcmp_loop m (a + 1) (b + 1)
     else Some (if x < y then - 1 else if x > y then 1 else 0)
   }"

definition strcmp :: "mem \<Rightarrow> ptr \<Rightarrow> ptr \<Rightarrow> int option" where
  "strcmp m a b = do { ASSERT (a \<noteq> NULL); ASSERT (b \<noteq> NULL); strcmp_loop m a b }"

function memchr_loop :: "mem \<Rightarrow> ptr \<Rightarrow> uint8 \<Rightarrow> size_t \<Rightarrow> ptr option" where
  "memchr_loop m block ch sz =
     (if sz \<noteq> 0 then do {
        x \<leftarrow> rd8 m block;
        if x = ch then Some block else memchr_loop m (block + 1) ch (sz - 1)
      } else Some NULL)"
  by pat_completeness auto
termination
  by (relation "measure (\<lambda>(_, _, _, sz). unat sz)") (simp_all add: size_dec_measure)

definition memchr :: "mem \<Rightarrow> ptr \<Rightarrow> 32 word \<Rightarrow> size_t \<Rightarrow> ptr option" where
  "memchr m block ch0 sz = do { ASSERT (block \<noteq> NULL \<or> sz = 0); memchr_loop m block (ucast ch0) sz }"

declare copy_fwd.simps [simp del] copy_bwd.simps [simp del] memcmp_loop.simps [simp del]
  memchr_loop.simps [simp del]

partial_function (option) strchr_loop :: "mem \<Rightarrow> ptr \<Rightarrow> uint8 \<Rightarrow> ptr option" where
  "strchr_loop m s c = do {
     x \<leftarrow> rd8 m s;
     if x = c then Some s
     else if x = 0 then Some NULL
     else strchr_loop m (s + 1) c
   }"

text \<open>\<open>strchr\<close> gets an \<open>int\<close>; the callers below pass a \<open>char\<close>, which it converts back.\<close>

definition strchr :: "mem \<Rightarrow> ptr \<Rightarrow> 32 word \<Rightarrow> ptr option" where
  "strchr m s c0 = do { ASSERT (s \<noteq> NULL); strchr_loop m s (ucast c0) }"

partial_function (option) strcspn_loop :: "mem \<Rightarrow> ptr \<Rightarrow> ptr \<Rightarrow> size_t \<Rightarrow> size_t option" where
  "strcspn_loop m s stop len = do {
     x \<leftarrow> rd8 m (s + len);
     if x \<noteq> 0 then do {
       p \<leftarrow> strchr m stop (scast x);
       if p \<noteq> NULL then Some len else strcspn_loop m s stop (len + 1)
     } else Some len
   }"

definition strcspn :: "mem \<Rightarrow> ptr \<Rightarrow> ptr \<Rightarrow> size_t option" where
  "strcspn m s stop = strcspn_loop m s stop 0"

partial_function (option) strpbrk :: "mem \<Rightarrow> ptr \<Rightarrow> ptr \<Rightarrow> ptr option" where
  "strpbrk m s stop = do {
     x \<leftarrow> rd8 m s;
     if x \<noteq> 0 then do {
       p \<leftarrow> strchr m stop (scast x);
       if p \<noteq> NULL then Some s else strpbrk m (s + 1) stop
     } else Some NULL
   }"

partial_function (option) strrchr_loop :: "mem \<Rightarrow> ptr \<Rightarrow> uint8 \<Rightarrow> ptr \<Rightarrow> ptr option" where
  "strrchr_loop m s c p = do {
     x \<leftarrow> rd8 m s;
     if x \<noteq> 0 then strrchr_loop m (s + 1) c (if x = c then s else p) else Some p
   }"

definition strrchr :: "mem \<Rightarrow> ptr \<Rightarrow> 32 word \<Rightarrow> ptr option" where
  "strrchr m s c0 = strrchr_loop m s (ucast c0) NULL"

partial_function (option) strspn_loop :: "mem \<Rightarrow> ptr \<Rightarrow> ptr \<Rightarrow> size_t \<Rightarrow> size_t option" where
  "strspn_loop m s skip len = do {
     x \<leftarrow> rd8 m (s + len);
     if x \<noteq> 0 then do {
       p \<leftarrow> strchr m skip (scast x);
       if p = NULL then Some len else strspn_loop m s skip (len + 1)
     } else Some len
   }"

definition strspn :: "mem \<Rightarrow> ptr \<Rightarrow> ptr \<Rightarrow> size_t option" where
  "strspn m s skip = strspn_loop m s skip 0"

partial_function (option) strlen_loop :: "mem \<Rightarrow> ptr \<Rightarrow> ptr option" where
  "strlen_loop m p = do {
     x \<leftarrow> rd8 m p;
     if x \<noteq> 0 then strlen_loop m (p + 1) else Some p
   }"

definition strlen :: "mem \<Rightarrow> ptr \<Rightarrow> size_t option" where
  "strlen m s = do { ASSERT (s \<noteq> NULL); p \<leftarrow> strlen_loop m s; Some (p - s) }"

partial_function (option) strnlen_loop :: "mem \<Rightarrow> ptr \<Rightarrow> size_t \<Rightarrow> size_t \<Rightarrow> size_t option" where
  "strnlen_loop m s maxlen len = do {
     x \<leftarrow> rd8 m (s + len);
     if x \<noteq> 0 \<and> len < maxlen then strnlen_loop m s maxlen (len + 1) else Some len
   }"

definition strnlen :: "mem \<Rightarrow> ptr \<Rightarrow> size_t \<Rightarrow> size_t option" where
  "strnlen m s maxlen = strnlen_loop m s maxlen 0"

partial_function (option) strstr_loop :: "mem \<Rightarrow> ptr \<Rightarrow> ptr \<Rightarrow> size_t \<Rightarrow> size_t \<Rightarrow> size_t \<Rightarrow> ptr option" where
  "strstr_loop m haystack needle lst needle_len i =
     (if i \<le> lst then do {
        c \<leftarrow> memcmp m (haystack + i) needle needle_len;
        if c = 0 then Some (haystack + i) else strstr_loop m haystack needle lst needle_len (i + 1)
      } else Some NULL)"

definition strstr :: "mem \<Rightarrow> ptr \<Rightarrow> ptr \<Rightarrow> ptr option" where
  "strstr m haystack needle = do {
     haystack_len \<leftarrow> strlen m haystack;
     needle_len \<leftarrow> strlen m needle;
     if haystack_len \<ge> needle_len
     then strstr_loop m haystack needle (haystack_len - needle_len) needle_len 0
     else Some NULL
   }"

text \<open>
  \<open>strtok_r\<close> returns the new memory, the token and the new value of \<open>*save_ptr\<close>. The variable that
  \<open>save_ptr\<close> points to is passed as a value, so that the assertion that \<open>save_ptr\<close> is not null holds; the result holds what it is set to.
\<close>

partial_function (option) strtok_skip :: "mem \<Rightarrow> ptr \<Rightarrow> ptr \<Rightarrow> (bool \<times> ptr) option" where
  "strtok_skip m delimiters s = do {
     x \<leftarrow> rd8 m s;
     p \<leftarrow> strchr m delimiters (scast x);
     if p \<noteq> NULL then (if x = 0 then Some (True, s) else strtok_skip m delimiters (s + 1))
     else Some (False, s)
   }"

partial_function (option) strtok_span :: "mem \<Rightarrow> ptr \<Rightarrow> ptr \<Rightarrow> ptr option" where
  "strtok_span m delimiters s = do {
     x \<leftarrow> rd8 m s;
     p \<leftarrow> strchr m delimiters (scast x);
     if p = NULL then strtok_span m delimiters (s + 1) else Some s
   }"

definition strtok_r :: "mem \<Rightarrow> ptr \<Rightarrow> ptr \<Rightarrow> ptr \<Rightarrow> (mem \<times> ptr \<times> ptr) option" where
  "strtok_r m s delimiters save = do {
     ASSERT (delimiters \<noteq> NULL);
     let s = (if s = NULL then save else s);
     ASSERT (s \<noteq> NULL);
     (at_end, s) \<leftarrow> strtok_skip m delimiters s;
     if at_end then Some (m, NULL, s)
     else do {
       let token = s;
       s \<leftarrow> strtok_span m delimiters s;
       x \<leftarrow> rd8 m s;
       if x \<noteq> 0 then do {
         m \<leftarrow> wr8 m s 0;
         Some (m, token, s + 1)
       } else Some (m, token, s)
     }
   }"

function memset_loop :: "mem \<Rightarrow> ptr \<Rightarrow> uint8 \<Rightarrow> size_t \<Rightarrow> mem option" where
  "memset_loop m dst v sz =
     (if sz \<noteq> 0 then do {
        m \<leftarrow> wr8 m dst v;
        memset_loop m (dst + 1) v (sz - 1)
      } else Some m)"
  by pat_completeness auto
termination
  by (relation "measure (\<lambda>(_, _, _, sz). unat sz)") (simp_all add: size_dec_measure)

declare memset_loop.simps [simp del]

definition memset :: "mem \<Rightarrow> ptr \<Rightarrow> 32 word \<Rightarrow> size_t \<Rightarrow> (mem \<times> ptr) option" where
  "memset m dst0 v sz = do {
     ASSERT (dst0 \<noteq> NULL \<or> sz = 0);
     m \<leftarrow> memset_loop m dst0 (ucast v) sz;
     Some (m, dst0)
   }"

definition strlcpy :: "mem \<Rightarrow> ptr \<Rightarrow> ptr \<Rightarrow> size_t \<Rightarrow> (mem \<times> size_t) option" where
  "strlcpy m dst src sz = do {
     ASSERT (dst \<noteq> NULL);
     ASSERT (src \<noteq> NULL);
     src_len \<leftarrow> strlen m src;
     if sz > 0 then do {
       let dst_len = (if src_len < sz - 1 then src_len else sz - 1);
       (m, _) \<leftarrow> memcpy m dst src dst_len;
       m \<leftarrow> wr8 m (dst + dst_len) 0;
       Some (m, src_len)
     } else Some (m, src_len)
   }"

definition strlcat :: "mem \<Rightarrow> ptr \<Rightarrow> ptr \<Rightarrow> size_t \<Rightarrow> (mem \<times> size_t) option" where
  "strlcat m dst src sz = do {
     ASSERT (dst \<noteq> NULL);
     ASSERT (src \<noteq> NULL);
     src_len \<leftarrow> strlen m src;
     dst_len \<leftarrow> strlen m dst;
     if sz > 0 \<and> dst_len < sz then do {
       let copy_cnt = (if src_len < sz - dst_len - 1 then src_len else sz - dst_len - 1);
       (m, _) \<leftarrow> memcpy m (dst + dst_len) src copy_cnt;
       m \<leftarrow> wr8 m (dst + dst_len + copy_cnt) 0;
       Some (m, src_len + dst_len)
     } else Some (m, src_len + dst_len)
   }"

declare strcmp_loop.simps [code] strchr_loop.simps [code] strcspn_loop.simps [code] strpbrk.simps [code]
  strrchr_loop.simps [code] strspn_loop.simps [code] strlen_loop.simps [code] strnlen_loop.simps [code]
  strstr_loop.simps [code] strtok_skip.simps [code] strtok_span.simps [code]

section \<open>Blocks of memory\<close>

definition nonnull :: "ptr \<Rightarrow> nat \<Rightarrow> bool" where
  "nonnull p n \<longleftrightarrow> (\<forall>i<n. p + of_nat i \<noteq> NULL)"

definition read_bytes :: "mem \<Rightarrow> ptr \<Rightarrow> nat \<Rightarrow> uint8 list" where
  "read_bytes m p n = map (\<lambda>i. m (p + of_nat i)) [0..<n]"

fun write_bytes :: "mem \<Rightarrow> ptr \<Rightarrow> uint8 list \<Rightarrow> mem" where
  "write_bytes m p [] = m"
| "write_bytes m p (b # bs) = write_bytes (m(p := b)) (p + 1) bs"

text \<open>The four bytes of a 32-bit value in memory, least significant first.\<close>

definition bytes_of_word :: "32 word \<Rightarrow> uint8 list" where
  "bytes_of_word w = map (\<lambda>k. ucast (drop_bit (8 * k) w)) [0..<4]"

definition word_of_bytes :: "uint8 list \<Rightarrow> 32 word" where
  "word_of_bytes bs = (push_bit 24 (ucast (bs ! 3)) OR push_bit 16 (ucast (bs ! 2)) OR push_bit 8 (ucast (bs ! 1)) OR ucast (bs ! 0))"

lemma length_bytes_of_word [simp]: "length (bytes_of_word w) = 4"
  by (simp add: bytes_of_word_def)

lemma word_of_bytes_of_word [simp]: "word_of_bytes (bytes_of_word w) = w"
proof (rule bit_word_eqI)
  fix k assume k: "k < LENGTH(32)"
  consider "k < 8" | "8 \<le> k" "k < 16" | "16 \<le> k" "k < 24" | "24 \<le> k" by linarith
  then show "bit (word_of_bytes (bytes_of_word w)) k = bit w k"
    by cases (use k in \<open>auto simp: word_of_bytes_def bytes_of_word_def bit_or_iff bit_push_bit_iff bit_ucast_iff bit_drop_bit_eq\<close>)
qed

lemma word_of_bytes_append [simp]: "4 \<le> length bs \<Longrightarrow> word_of_bytes (bs @ cs) = word_of_bytes bs"
  by (auto simp: word_of_bytes_def nth_append)

lemma bit_byte_high: "8 \<le> n \<Longrightarrow> \<not> bit (b :: uint8) n"
  using bit_imp_le_length[of b n] by auto

lemma bytes_of_word_of_bytes: "length bs = 4 \<Longrightarrow> bytes_of_word (word_of_bytes bs) = bs"
proof (rule nth_equalityI)
  fix i assume bs: "length bs = 4" and "i < length (bytes_of_word (word_of_bytes bs))"
  then have i: "i = 0 \<or> i = 1 \<or> i = 2 \<or> i = 3" by auto
  show "bytes_of_word (word_of_bytes bs) ! i = bs ! i"
  proof (rule bit_word_eqI)
    fix k assume "k < LENGTH(8)"
    then show "bit (bytes_of_word (word_of_bytes bs) ! i) k = bit (bs ! i) k"
      using i by (auto simp: word_of_bytes_def bytes_of_word_def bit_or_iff bit_push_bit_iff bit_ucast_iff bit_drop_bit_eq bit_byte_high)
  qed
qed simp

lemma nonnull_Suc: "nonnull p (Suc n) \<longleftrightarrow> p \<noteq> NULL \<and> nonnull (p + 1) n"
  by (auto simp: nonnull_def less_Suc_eq_0_disj add.assoc)

lemma nonnull_0 [simp]: "nonnull p 0"
  by (simp add: nonnull_def)

lemma nonnull_mono: "nonnull p n \<Longrightarrow> k \<le> n \<Longrightarrow> nonnull p k"
  by (simp add: nonnull_def)

lemma nonnull_last: "nonnull p (Suc n) \<longleftrightarrow> nonnull p n \<and> p + of_nat n \<noteq> NULL"
  by (auto simp: nonnull_def less_Suc_eq)

lemma length_read_bytes [simp]: "length (read_bytes m p n) = n"
  by (simp add: read_bytes_def)

lemma read_bytes_nth [simp]: "i < n \<Longrightarrow> read_bytes m p n ! i = m (p + of_nat i)"
  by (simp add: read_bytes_def)

lemma read_bytes_Suc: "read_bytes m p (Suc n) = m p # read_bytes m (p + 1) n"
  by (rule nth_equalityI) (auto simp: nth_Cons add.assoc split: nat.splits)

lemma read_bytes_last: "read_bytes m p (Suc n) = read_bytes m p n @ [m (p + of_nat n)]"
  by (simp add: read_bytes_def)

lemma read_bytes_0 [simp]: "read_bytes m p 0 = []"
  by (simp add: read_bytes_def)

lemma read_bytes_upd: "(\<And>i. i < n \<Longrightarrow> p + of_nat i \<noteq> q) \<Longrightarrow> read_bytes (m(q := v)) p n = read_bytes m p n"
  by (rule nth_equalityI) auto

lemma write_bytes_nth:
  assumes "length bs \<le> 2 ^ 32"
  shows "write_bytes m p bs q = (if unat (q - p) < length bs then bs ! unat (q - p) else m q)"
  using assms
proof (induction bs arbitrary: m p)
  case (Cons b bs)
  show ?case
  proof (cases "q = p")
    case True
    then have "unat (q - (p + 1)) = 2 ^ 32 - 1"
      by (simp add: unsigned_minus_1_eq_mask mask_eq_exp_minus_1)
    then show ?thesis using Cons True by simp
  next
    case False
    then have "q - p \<noteq> 0" by simp
    then have "unat (q - p) = Suc (unat (q - (p + 1)))"
      using unat_minus_one[of "q - p"] unat_gt_0[of "q - p"] by (simp add: diff_diff_eq2 diff_diff_eq)
    then show ?thesis using Cons False by simp
  qed
qed simp

lemma write_bytes_same: "(\<And>i. i < length bs \<Longrightarrow> p + of_nat i \<noteq> q) \<Longrightarrow> write_bytes m p bs q = m q"
proof (induction bs arbitrary: m p)
  case (Cons b bs)
  have "p \<noteq> q" using Cons.prems[of 0] by simp
  have 1: "p + 1 + of_nat i \<noteq> q" if "i < length bs" for i
    using Cons.prems[of "Suc i"] that by (simp add: add.assoc)
  show ?case using Cons.IH[of "p + 1" "m(p := b)", OF 1] \<open>p \<noteq> q\<close> by (simp add: fun_upd_def)
qed simp

lemma write_bytes_snoc:
  assumes "length bs < 2 ^ 32"
  shows "write_bytes m p (bs @ [b]) = write_bytes (m(p + of_nat (length bs) := b)) p bs"
proof
  fix q
  have "unat (q - p) = length bs \<longleftrightarrow> q = p + of_nat (length bs)"
    unfolding unat_eq_of_nat32[OF assms] by (auto simp: diff_eq_eq add.commute)
  then show "write_bytes m p (bs @ [b]) q = write_bytes (m(p + of_nat (length bs) := b)) p bs q"
    using assms by (auto simp: write_bytes_nth nth_append)
qed

lemma write_bytes_append: "write_bytes m p (xs @ ys) = write_bytes (write_bytes m p xs) (p + of_nat (length xs)) ys"
  by (induction xs arbitrary: m p) (simp_all add: add_ac)

lemma read_bytes_append: "read_bytes m p (a + b) = read_bytes m p a @ read_bytes m (p + of_nat a) b"
  by (rule nth_equalityI) (auto simp: nth_append add_ac simp flip: of_nat_add)

lemma copy_fwd_correct:
  "unat sz = n \<Longrightarrow> nonnull dst n \<Longrightarrow> nonnull src n \<Longrightarrow>
   (\<And>i j. i < j \<Longrightarrow> j < n \<Longrightarrow> dst + of_nat i \<noteq> src + of_nat j) \<Longrightarrow>
   copy_fwd m dst src sz = Some (write_bytes m dst (read_bytes m src n), dst + sz)"
proof (induction n arbitrary: m dst src sz)
  case 0
  then show ?case by (simp add: copy_fwd.simps unat_0_iff)
next
  case (Suc n)
  note sz = unat_Suc_dec[OF Suc.prems(1)]
  have nn: "src \<noteq> NULL" "dst \<noteq> NULL" "nonnull (dst + 1) n" "nonnull (src + 1) n"
    using Suc.prems(2,3) by (auto simp: nonnull_Suc)
  have ov: "dst + 1 + of_nat i \<noteq> src + 1 + of_nat j" if "i < j" "j < n" for i j
    using Suc.prems(4)[of "Suc i" "Suc j"] that by (simp add: add.assoc)
  have "src + 1 + of_nat i \<noteq> dst" if "i < n" for i
    using Suc.prems(4)[of 0 "Suc i"] that by (auto simp: add.assoc)
  then have "read_bytes (m(dst := m src)) (src + 1) n = read_bytes m (src + 1) n"
    by (rule read_bytes_upd)
  then show ?case
    using Suc.IH[OF sz(2) nn(3,4) ov, of "m(dst := m src)"] sz nn
    by (subst copy_fwd.simps) (simp add: rd8_def wr8_def read_bytes_Suc fun_upd_def)
qed

lemma copy_bwd_correct:
  "unat sz = n \<Longrightarrow> nonnull dst n \<Longrightarrow> nonnull src n \<Longrightarrow>
   (\<And>i j. j < i \<Longrightarrow> i < n \<Longrightarrow> dst + of_nat i \<noteq> src + of_nat j) \<Longrightarrow>
   copy_bwd m (dst + sz) (src + sz) sz = Some (write_bytes m dst (read_bytes m src n), dst)"
proof (induction n arbitrary: m sz)
  case 0
  then show ?case by (simp add: copy_bwd.simps unat_0_iff)
next
  case (Suc n)
  note sz = unat_Suc_dec[OF Suc.prems(1)]
  then have n: "sz - 1 = of_nat n" "n < 2 ^ 32" using unat_lt_2p32[of "sz - 1"] by auto
  have nn: "src + of_nat n \<noteq> NULL" "dst + of_nat n \<noteq> NULL" "nonnull dst n" "nonnull src n"
    using Suc.prems(2,3) by (auto simp: nonnull_last)
  let ?m = "m(dst + of_nat n := m (src + of_nat n))"
  have "src + of_nat i \<noteq> dst + of_nat n" if "i < n" for i
    using Suc.prems(4)[of i n] that by auto
  then have "read_bytes ?m src n = read_bytes m src n" by (rule read_bytes_upd)
  moreover have "copy_bwd ?m (dst + (sz - 1)) (src + (sz - 1)) (sz - 1) =
      Some (write_bytes ?m dst (read_bytes ?m src n), dst)"
    by (rule Suc.IH[OF sz(2) nn(3,4)]) (use Suc.prems(4) in simp)
  ultimately show ?case
    using sz(1) nn n
    by (subst copy_bwd.simps) (simp add: rd8_def wr8_def read_bytes_last write_bytes_snoc flip: add_diff_eq)
qed

lemma nonnull_range:
  assumes "nonnull p n"
  shows "unat p + n \<le> 2 ^ 32"
proof (rule ccontr)
  assume "\<not> ?thesis"
  moreover have "unat p < 2 ^ 32" by (rule unat_lt_2p32)
  ultimately have "2 ^ 32 - unat p < n" by linarith
  then have "p + of_nat (2 ^ 32 - unat p) \<noteq> NULL" using assms by (simp add: nonnull_def)
  moreover have "p + of_nat (2 ^ 32 - unat p) = of_nat (unat p + (2 ^ 32 - unat p))" by simp
  moreover have "unat p + (2 ^ 32 - unat p) = 2 ^ 32" using \<open>unat p < 2 ^ 32\<close> by linarith
  ultimately show False by (simp add: word_of_nat_eq_0_iff)
qed

lemma nonnull_unat: "nonnull p n \<Longrightarrow> i < n \<Longrightarrow> unat (p + of_nat i) = unat p + i"
  using nonnull_range[of p n] unat_of_nat32[of i] by (simp add: unat_word_ariths)

lemma nonnullI:
  assumes "p \<noteq> NULL" and "unat p + n \<le> 2 ^ 32"
  shows "nonnull p n"
  unfolding nonnull_def
proof (intro allI impI notI)
  fix i assume i: "i < n" and 0: "p + of_nat i = NULL"
  have "unat (p + of_nat i) = unat p + i" using i assms(2) unat_of_nat32[of i] by (simp add: unat_word_ariths)
  with 0 assms(1) show False using unat_gt_0[of p] by simp
qed

lemma memcpy_correct:
  assumes "nonnull dst (unat sz)" and "nonnull src (unat sz)"
    and "\<And>i j. i < unat sz \<Longrightarrow> j < unat sz \<Longrightarrow> dst + of_nat i \<noteq> src + of_nat j"
  shows "memcpy m dst src sz = Some (write_bytes m dst (read_bytes m src (unat sz)), dst)"
proof -
  have "dst \<noteq> NULL \<or> sz = 0" "src \<noteq> NULL \<or> sz = 0"
    using assms(1,2) unat_0_iff[of sz] by (cases "unat sz"; simp add: nonnull_Suc)+
  then show ?thesis
    using copy_fwd_correct[OF refl assms(1,2), of m] assms(3) by (simp add: memcpy_def)
qed

lemma memmove_eval:
  assumes "nonnull dst (unat sz)" and "nonnull src (unat sz)"
  shows "memmove m dst src sz =
    Some (write_bytes m dst (read_bytes m src (unat sz)), if dst < src then dst + sz else dst)"
proof -
  have as: "dst \<noteq> NULL \<or> sz = 0" "src \<noteq> NULL \<or> sz = 0"
    using assms unat_0_iff[of sz] by (cases "unat sz"; simp add: nonnull_Suc)+
  have ov: "dst + of_nat i \<noteq> src + of_nat j"
    if "i < unat sz" "j < unat sz" "if dst < src then i < j else j < i" for i j
  proof -
    have "unat (dst + of_nat i) \<noteq> unat (src + of_nat j)"
      using that nonnull_unat[OF assms(1), of i] nonnull_unat[OF assms(2), of j]
      by (auto simp: word_less_nat_alt split: if_splits)
    then show ?thesis by metis
  qed
  show ?thesis
  proof (cases "dst < src")
    case True
    then show ?thesis
      using copy_fwd_correct[OF refl assms, of m] ov as by (simp add: memmove_def)
  next
    case False
    then show ?thesis
      using copy_bwd_correct[OF refl assms, of m] ov as by (simp add: memmove_def)
  qed
qed

lemma memset_loop_eval:
  "unat sz = n \<Longrightarrow> nonnull dst n \<Longrightarrow> memset_loop m dst v sz = Some (write_bytes m dst (replicate n v))"
proof (induction n arbitrary: m dst sz)
  case 0
  then show ?case by (simp add: memset_loop.simps unat_0_iff)
next
  case (Suc n)
  note sz = unat_Suc_dec[OF Suc.prems(1)]
  have "memset_loop (m(dst := v)) (dst + 1) v (sz - 1) = Some (write_bytes (m(dst := v)) (dst + 1) (replicate n v))"
    by (rule Suc.IH[OF sz(2)]) (use Suc.prems(2) in \<open>simp add: nonnull_Suc\<close>)
  then show ?case
    using sz(1) Suc.prems(2) by (subst memset_loop.simps) (simp add: wr8_def nonnull_Suc)
qed

lemma memset_eval:
  assumes "nonnull dst (unat sz)"
  shows "memset m dst v sz = Some (write_bytes m dst (replicate (unat sz) (ucast v)), dst)"
proof -
  have "dst \<noteq> NULL \<or> sz = 0"
    using assms unat_0_iff[of sz] by (cases "unat sz"; simp add: nonnull_Suc)
  then show ?thesis using memset_loop_eval[OF refl assms] by (simp add: memset_def)
qed

fun block_cmp :: "uint8 list \<Rightarrow> uint8 list \<Rightarrow> int" where
  "block_cmp (x # xs) (y # ys) = (if x \<noteq> y then (if x > y then 1 else - 1) else block_cmp xs ys)"
| "block_cmp [] [] = 0"
| "block_cmp [] (y # ys) = - 1"
| "block_cmp (x # xs) [] = 1"

lemma block_cmp_0_iff: "block_cmp xs ys = 0 \<longleftrightarrow> xs = ys"
  by (induction xs ys rule: block_cmp.induct) auto

lemma memcmp_loop_eval:
  "unat sz = n \<Longrightarrow> nonnull a n \<Longrightarrow> nonnull b n \<Longrightarrow>
   memcmp_loop m a b sz = Some (block_cmp (read_bytes m a n) (read_bytes m b n))"
proof (induction n arbitrary: a b sz)
  case 0
  then show ?case by (simp add: memcmp_loop.simps unat_0_iff)
next
  case (Suc n)
  note sz = unat_Suc_dec[OF Suc.prems(1)]
  show ?case
    using Suc.IH[OF sz(2), of "a + 1" "b + 1"] sz(1) Suc.prems(2,3)
    by (subst memcmp_loop.simps) (simp add: rd8_def nonnull_Suc read_bytes_Suc)
qed

lemma memcmp_eval:
  assumes "nonnull a (unat sz)" and "nonnull b (unat sz)"
  shows "memcmp m a b sz = Some (block_cmp (read_bytes m a (unat sz)) (read_bytes m b (unat sz)))"
proof -
  have "a \<noteq> NULL \<or> sz = 0" "b \<noteq> NULL \<or> sz = 0"
    using assms unat_0_iff[of sz] by (cases "unat sz"; simp add: nonnull_Suc)+
  then show ?thesis using memcmp_loop_eval[OF refl assms] by (simp add: memcmp_def)
qed

section \<open>Null-terminated strings\<close>

fun cstring :: "mem \<Rightarrow> ptr \<Rightarrow> uint8 list \<Rightarrow> bool" where
  "cstring m p [] \<longleftrightarrow> p \<noteq> NULL \<and> m p = 0"
| "cstring m p (c # cs) \<longleftrightarrow> p \<noteq> NULL \<and> c \<noteq> 0 \<and> m p = c \<and> cstring m (p + 1) cs"

lemma cstring_nonnull: "cstring m p s \<Longrightarrow> nonnull p (Suc (length s))"
proof (induction s arbitrary: p)
  case (Cons c s)
  then show ?case using nonnull_Suc[of p "Suc (length s)"] by simp
qed (simp add: nonnull_Suc)

lemma cstring_ptr: "cstring m p s \<Longrightarrow> p \<noteq> NULL"
  by (cases s) auto

lemma cstring_length: "cstring m p s \<Longrightarrow> length s < 2 ^ 32"
  using nonnull_range[OF cstring_nonnull] by fastforce

lemma cstring_read: "cstring m p s \<Longrightarrow> read_bytes m p (length s) = s"
  by (induction s arbitrary: p) (auto simp: read_bytes_Suc)

lemma cstring_append:
  "cstring m p (s @ t) \<longleftrightarrow> 0 \<notin> set s \<and> nonnull p (length s) \<and> read_bytes m p (length s) = s \<and> cstring m (p + of_nat (length s)) t"
  by (induction s arbitrary: p) (auto simp: nonnull_Suc read_bytes_Suc add.assoc)

lemma cstring_cong:
  "(\<And>i. i \<le> length s \<Longrightarrow> m' (p + of_nat i) = m (p + of_nat i)) \<Longrightarrow> cstring m' p s = cstring m p s"
proof (induction s arbitrary: p)
  case Nil
  then show ?case using Nil[of 0] by simp
next
  case (Cons c s)
  have "m' (p + 1 + of_nat i) = m (p + 1 + of_nat i)" if "i \<le> length s" for i
    using Cons.prems[of "Suc i"] that by (simp add: add.assoc)
  then show ?case using Cons.IH[of "p + 1"] Cons.prems[of 0] by simp
qed

lemma strlen_loop_eval: "cstring m p s \<Longrightarrow> strlen_loop m p = Some (p + of_nat (length s))"
  by (induction s arbitrary: p) (subst strlen_loop.simps, simp add: rd8_def add.assoc)+

lemma strlen_eval: "cstring m p s \<Longrightarrow> strlen m p = Some (of_nat (length s))"
  using cstring_ptr[of m p s] by (simp add: strlen_def strlen_loop_eval)

lemma strcmp_loop_eval: "cstring m a s \<Longrightarrow> cstring m b t \<Longrightarrow> strcmp_loop m a b = Some (block_cmp s t)"
proof (induction s t arbitrary: a b rule: block_cmp.induct)
  case (1 x xs y ys)
  then show ?case by (subst strcmp_loop.simps) (auto simp: rd8_def)
qed (subst strcmp_loop.simps, auto simp: rd8_def word_neq_0_conv)+

lemma strcmp_eval: "cstring m a s \<Longrightarrow> cstring m b t \<Longrightarrow> strcmp m a b = Some (block_cmp s t)"
  using cstring_ptr[of m a s] cstring_ptr[of m b t] by (simp add: strcmp_def strcmp_loop_eval)

lemma strchr_loop_eval:
  "cstring m p s \<Longrightarrow> strchr_loop m p c =
     Some (if c \<in> set s \<or> c = 0 then p + of_nat (length (takeWhile (\<lambda>x. x \<noteq> c) s)) else NULL)"
proof (induction s arbitrary: p)
  case (Cons x s)
  then show ?case using Cons.IH[of "p + 1"] by (subst strchr_loop.simps) (auto simp: rd8_def add.assoc)
qed (subst strchr_loop.simps, simp add: rd8_def)

lemma ucast_scast_char: "ucast (scast (x :: uint8) :: 32 word) = x"
  by (rule bit_word_eqI) (simp add: bit_simps)

lemma strchr_eval:
  "cstring m p s \<Longrightarrow> strchr m p c =
     Some (if ucast c \<in> set s \<or> ucast c = (0 :: uint8)
           then p + of_nat (length (takeWhile (\<lambda>x. x \<noteq> ucast c) s)) else NULL)"
  using cstring_ptr[of m p s] by (simp add: strchr_def strchr_loop_eval)

text \<open>Membership of a character in a set given as a string, the way the callers of \<open>strchr\<close> use it.\<close>

lemma strchr_mem:
  assumes "cstring m p s"
  shows "\<exists>q. strchr m p (scast x) = Some q \<and> (q \<noteq> NULL \<longleftrightarrow> x \<in> set s \<or> x = 0)"
proof -
  have "length (takeWhile (\<lambda>y. y \<noteq> x) s) < Suc (length s)"
    using length_takeWhile_le[of "\<lambda>y. y \<noteq> x" s] by linarith
  then have "p + of_nat (length (takeWhile (\<lambda>y. y \<noteq> x) s)) \<noteq> NULL"
    using cstring_nonnull[OF assms] by (simp add: nonnull_def)
  then show ?thesis using strchr_eval[OF assms, of "scast x"] by (simp add: ucast_scast_char)
qed

lemma strcspn_loop_eval:
  assumes d: "cstring m d ds"
  shows "cstring m (p + k) s \<Longrightarrow>
    strcspn_loop m p d k = Some (k + of_nat (length (takeWhile (\<lambda>x. x \<notin> set ds) s)))"
proof (induction s arbitrary: k)
  case (Cons x s)
  obtain q where "strchr m d (scast x) = Some q" "q \<noteq> NULL \<longleftrightarrow> x \<in> set ds \<or> x = 0"
    using strchr_mem[OF d] by blast
  then show ?case
    using Cons.IH[of "k + 1"] Cons.prems by (subst strcspn_loop.simps) (auto simp: rd8_def add.assoc)
qed (subst strcspn_loop.simps, simp add: rd8_def)

lemma strcspn_eval:
  "cstring m p s \<Longrightarrow> cstring m d ds \<Longrightarrow> strcspn m p d = Some (of_nat (length (takeWhile (\<lambda>x. x \<notin> set ds) s)))"
  using strcspn_loop_eval[of m d ds p 0 s] by (simp add: strcspn_def)

lemma strspn_loop_eval:
  assumes d: "cstring m d ds"
  shows "cstring m (p + k) s \<Longrightarrow>
    strspn_loop m p d k = Some (k + of_nat (length (takeWhile (\<lambda>x. x \<in> set ds) s)))"
proof (induction s arbitrary: k)
  case (Cons x s)
  obtain q where "strchr m d (scast x) = Some q" "q \<noteq> NULL \<longleftrightarrow> x \<in> set ds \<or> x = 0"
    using strchr_mem[OF d] by blast
  then show ?case
    using Cons.IH[of "k + 1"] Cons.prems by (subst strspn_loop.simps) (auto simp: rd8_def add.assoc)
qed (subst strspn_loop.simps, simp add: rd8_def)

lemma strspn_eval:
  "cstring m p s \<Longrightarrow> cstring m d ds \<Longrightarrow> strspn m p d = Some (of_nat (length (takeWhile (\<lambda>x. x \<in> set ds) s)))"
  using strspn_loop_eval[of m d ds p 0 s] by (simp add: strspn_def)

lemma strpbrk_eval:
  assumes d: "cstring m d ds"
  shows "cstring m p s \<Longrightarrow> strpbrk m p d =
    Some (if set s \<inter> set ds = {} then NULL else p + of_nat (length (takeWhile (\<lambda>x. x \<notin> set ds) s)))"
proof (induction s arbitrary: p)
  case (Cons x s)
  obtain q where "strchr m d (scast x) = Some q" "q \<noteq> NULL \<longleftrightarrow> x \<in> set ds \<or> x = 0"
    using strchr_mem[OF d] by blast
  then show ?case
    using Cons.IH[of "p + 1"] Cons.prems by (subst strpbrk.simps) (auto simp: rd8_def add.assoc)
qed (subst strpbrk.simps, simp add: rd8_def)

fun last_pos :: "'a \<Rightarrow> 'a list \<Rightarrow> nat option" where
  "last_pos c [] = None"
| "last_pos c (x # xs) = (case last_pos c xs of Some i \<Rightarrow> Some (Suc i) | None \<Rightarrow> if x = c then Some 0 else None)"

lemma last_pos_Some: "last_pos c s = Some i \<Longrightarrow> i < length s \<and> s ! i = c \<and> c \<notin> set (drop (Suc i) s)"
proof (induction s arbitrary: i)
  case (Cons x s)
  then show ?case
  proof (cases "last_pos c s")
    case None
    then have "c \<notin> set s" by (induction s) (auto split: option.splits if_splits)
    then show ?thesis using Cons.prems None by (auto split: if_splits)
  qed auto
qed simp

lemma strrchr_loop_eval:
  "cstring m p s \<Longrightarrow> strrchr_loop m p c r = Some (case last_pos c s of None \<Rightarrow> r | Some i \<Rightarrow> p + of_nat i)"
proof (induction s arbitrary: p r)
  case (Cons x s)
  then show ?case
    using Cons.IH[of "p + 1"] by (subst strrchr_loop.simps) (auto simp: rd8_def add.assoc split: option.splits)
qed (subst strrchr_loop.simps, simp add: rd8_def)

lemma strrchr_eval:
  "cstring m p s \<Longrightarrow> strrchr m p c = Some (case last_pos (ucast c) s of None \<Rightarrow> NULL | Some i \<Rightarrow> p + of_nat i)"
  by (simp add: strrchr_def strrchr_loop_eval)

lemma strnlen_loop_eval:
  "cstring m (p + of_nat k) s \<Longrightarrow> k + length s < 2 ^ 32 \<Longrightarrow> k \<le> unat maxlen \<Longrightarrow>
   strnlen_loop m p maxlen (of_nat k) = Some (of_nat (min (k + length s) (unat maxlen)))"
proof (induction s arbitrary: k)
  case Nil
  then show ?case by (subst strnlen_loop.simps) (simp add: rd8_def)
next
  case (Cons x s)
  have lt: "(of_nat k :: size_t) < maxlen \<longleftrightarrow> k < unat maxlen"
    using Cons.prems(2) by (simp add: word_less_nat_alt unat_of_nat32)
  show ?case
  proof (cases "k < unat maxlen")
    case True
    then show ?thesis
      using Cons.IH[of "Suc k"] Cons.prems lt by (subst strnlen_loop.simps) (simp add: rd8_def add_ac)
  next
    case False
    then show ?thesis
      using Cons.prems lt by (subst strnlen_loop.simps) (simp add: rd8_def)
  qed
qed

lemma strnlen_eval:
  assumes "cstring m p s"
  shows "strnlen m p maxlen = Some (of_nat (min (length s) (unat maxlen)))"
  using strnlen_loop_eval[of m p 0 s maxlen] assms cstring_length[OF assms] by (simp add: strnlen_def)

lemma strtok_skip_eval:
  assumes d: "cstring m d ds"
  shows "cstring m p s \<Longrightarrow> strtok_skip m d p =
    Some (dropWhile (\<lambda>x. x \<in> set ds) s = [], p + of_nat (length (takeWhile (\<lambda>x. x \<in> set ds) s)))"
proof (induction s arbitrary: p)
  case Nil
  obtain q where "strchr m d (scast (0 :: uint8)) = Some q" "q \<noteq> NULL"
    using strchr_mem[OF d] by blast
  with Nil show ?case by (subst strtok_skip.simps) (simp add: rd8_def)
next
  case (Cons x s)
  obtain q where "strchr m d (scast x) = Some q" "q \<noteq> NULL \<longleftrightarrow> x \<in> set ds \<or> x = 0"
    using strchr_mem[OF d] by blast
  then show ?case
    using Cons.IH[of "p + 1"] Cons.prems by (subst strtok_skip.simps) (auto simp: rd8_def add.assoc)
qed

lemma strtok_span_eval:
  assumes d: "cstring m d ds"
  shows "cstring m p s \<Longrightarrow> strtok_span m d p = Some (p + of_nat (length (takeWhile (\<lambda>x. x \<notin> set ds) s)))"
proof (induction s arbitrary: p)
  case Nil
  obtain q where "strchr m d (scast (0 :: uint8)) = Some q" "q \<noteq> NULL"
    using strchr_mem[OF d] by blast
  with Nil show ?case by (subst strtok_span.simps) (simp add: rd8_def)
next
  case (Cons x s)
  obtain q where "strchr m d (scast x) = Some q" "q \<noteq> NULL \<longleftrightarrow> x \<in> set ds \<or> x = 0"
    using strchr_mem[OF d] by blast
  then show ?case
    using Cons.IH[of "p + 1"] Cons.prems by (subst strtok_span.simps) (auto simp: rd8_def add.assoc)
qed

section \<open>Tokens\<close>

text \<open>
  The loop of the comment on \<open>strtok_r\<close>, which is also the loop that breaks a command line into
  arguments: the first call gets the string, the others a null pointer.
\<close>

partial_function (option) strtok_all :: "mem \<Rightarrow> ptr \<Rightarrow> ptr \<Rightarrow> ptr \<Rightarrow> (mem \<times> ptr list) option" where
  "strtok_all m s delimiters save = do {
     (m, token, save) \<leftarrow> strtok_r m s delimiters save;
     if token \<noteq> NULL then do {
       (m, ts) \<leftarrow> strtok_all m NULL delimiters save;
       Some (m, token # ts)
     } else Some (m, [])
   }"

declare strtok_all.simps [code]

function tokens :: "'a set \<Rightarrow> 'a list \<Rightarrow> 'a list list" where
  "tokens D s = (let s' = dropWhile (\<lambda>x. x \<in> D) s in
     if s' = [] then [] else takeWhile (\<lambda>x. x \<notin> D) s' # tokens D (tl (dropWhile (\<lambda>x. x \<notin> D) s')))"
  by pat_completeness auto
termination
proof (relation "measure (\<lambda>(_, s). length s)")
  fix D :: "'a set" and s s' :: "'a list"
  assume s': "s' = dropWhile (\<lambda>x. x \<in> D) s" "s' \<noteq> []"
  have "0 < length s'" using s'(2) by simp
  then have "length (tl (dropWhile (\<lambda>x. x \<notin> D) s')) < length s'"
    using length_dropWhile_le[of "\<lambda>x. x \<notin> D" s'] unfolding length_tl by linarith
  also have "\<dots> \<le> length s" unfolding s'(1) by (rule length_dropWhile_le)
  finally show "((D, tl (dropWhile (\<lambda>x. x \<notin> D) s')), D, s) \<in> measure (\<lambda>(_, s). length s)" by simp
qed simp

declare tokens.simps [simp del]

lemma tokens_nonempty: "t \<in> set (tokens D s) \<Longrightarrow> t \<noteq> [] \<and> set t \<inter> D = {}"
proof (induction D s rule: tokens.induct)
  case (1 D s)
  show ?case
    using 1(2) 1(1)[OF refl] hd_dropWhile[of "\<lambda>x. x \<in> D" s]
    by (subst (asm) tokens.simps)
      (auto simp: Let_def takeWhile_eq_Nil_iff dest: set_takeWhileD split: if_splits)
qed

lemma strtok_r_null: "save \<noteq> NULL \<Longrightarrow> strtok_r m NULL d save = strtok_r m save d save'"
  by (simp add: strtok_r_def)

lemma strtok_r_end:
  assumes "cstring m p s" and "cstring m d ds" and "dropWhile (\<lambda>x. x \<in> set ds) s = []"
  shows "strtok_r m p d sv = Some (m, NULL, p + of_nat (length s))"
  using assms strtok_skip_eval[OF assms(2,1)] cstring_ptr[OF assms(1)] cstring_ptr[OF assms(2)]
  by (simp add: strtok_r_def takeWhile_eq_all_conv[THEN iffD2] dropWhile_eq_Nil_conv)

lemma strtok_r_token:
  assumes s: "cstring m p s" and d: "cstring m d ds"
    and split: "s = as @ tok @ rest" "as = takeWhile (\<lambda>x. x \<in> set ds) s"
      "tok = takeWhile (\<lambda>x. x \<notin> set ds) (tok @ rest)" "tok \<noteq> []"
  shows "\<exists>m'. strtok_r m p d sv = Some (m', p + of_nat (length as),
              p + of_nat (length as + length tok + (if rest = [] then 0 else 1))) \<and>
           cstring m' (p + of_nat (length as)) tok \<and>
           cstring m' (p + of_nat (length as + length tok + (if rest = [] then 0 else 1))) (tl rest) \<and>
           (\<forall>q. m' q \<noteq> m q \<longrightarrow> rest \<noteq> [] \<and> q = p + of_nat (length as + length tok))"
proof -
  let ?t = "p + of_nat (length as)" and ?e = "p + of_nat (length as + length tok)"
  have dw: "dropWhile (\<lambda>x. x \<in> set ds) s = tok @ rest"
    using split(1,2) by (metis append_eq_append_conv takeWhile_dropWhile_id)
  have st: "cstring m ?t (tok @ rest)" and se: "cstring m ?e rest"
    using s unfolding split(1) cstring_append by (auto simp: add.assoc)
  have skip: "strtok_skip m d p = Some (False, ?t)"
    using strtok_skip_eval[OF d s] dw split(2,4) by simp
  have span: "strtok_span m d ?t = Some ?e"
    using strtok_span_eval[OF d st] split(3) by (simp add: add.assoc)
  have e: "?e \<noteq> NULL" using cstring_ptr[OF se] .
  have eval: "strtok_r m p d sv = (if m ?e \<noteq> 0 then Some (m(?e := 0), ?t, ?e + 1) else Some (m, ?t, ?e))"
    using skip span e cstring_ptr[OF s] cstring_ptr[OF d] by (simp add: strtok_r_def rd8_def wr8_def Let_def)
  show ?thesis
  proof (cases rest)
    case Nil
    then show ?thesis using se st eval by simp
  next
    case (Cons r rs)
    then have r: "m ?e \<noteq> 0" using se by simp
    have nn: "nonnull p (Suc (length s))" using cstring_nonnull[OF s] .
    have ne: "p + of_nat i \<noteq> ?e" if "i \<le> length s" "i \<noteq> length as + length tok" for i
      using nonnull_unat[OF nn, of i] nonnull_unat[OF nn, of "length as + length tok"] that split(1) Cons
      by (metis add_left_cancel le_imp_less_Suc le_add1 append.assoc length_append)
    have "read_bytes (m(?e := 0)) ?t (length tok) = read_bytes m ?t (length tok)"
      using ne split(1) by (intro read_bytes_upd) (simp add: add.assoc flip: of_nat_add)
    then have "cstring (m(?e := 0)) ?t tok"
      using st e cstring_append[of "m(?e := 0)" ?t tok "[]"] by (simp add: cstring_append add.assoc)
    moreover have "cstring (m(?e := 0)) (?e + 1) rs = cstring m (?e + 1) rs"
    proof (rule cstring_cong)
      fix i assume i: "i \<le> length rs"
      have "?e + 1 + of_nat i = p + of_nat (length as + length tok + 1 + i)" by (simp add: add_ac)
      then show "(m(?e := 0)) (?e + 1 + of_nat i) = m (?e + 1 + of_nat i)"
        using ne[of "length as + length tok + 1 + i"] i split(1) Cons by simp
    qed
    ultimately show ?thesis
      using eval r se Cons by (simp add: add_ac)
  qed
qed

lemma tokens_step:
  assumes "dropWhile (\<lambda>x. x \<in> D) s \<noteq> []"
  obtains as tok rest where "s = as @ tok @ rest" "as = takeWhile (\<lambda>x. x \<in> D) s"
    "tok = takeWhile (\<lambda>x. x \<notin> D) (tok @ rest)" "tok \<noteq> []" "tokens D s = tok # tokens D (tl rest)"
proof -
  let ?s' = "dropWhile (\<lambda>x. x \<in> D) s"
  have hd: "hd ?s' \<notin> D" using hd_dropWhile[OF assms] by simp
  have t: "takeWhile (\<lambda>x. x \<notin> D) ?s' @ dropWhile (\<lambda>x. x \<notin> D) ?s' = ?s'" by (rule takeWhile_dropWhile_id)
  show thesis
  proof (rule that)
    show "s = takeWhile (\<lambda>x. x \<in> D) s @ takeWhile (\<lambda>x. x \<notin> D) ?s' @ dropWhile (\<lambda>x. x \<notin> D) ?s'"
      unfolding t by simp
    show "takeWhile (\<lambda>x. x \<notin> D) ?s' = takeWhile (\<lambda>x. x \<notin> D) (takeWhile (\<lambda>x. x \<notin> D) ?s' @ dropWhile (\<lambda>x. x \<notin> D) ?s')"
      unfolding t ..
    show "takeWhile (\<lambda>x. x \<notin> D) ?s' \<noteq> []" using hd assms by (simp add: takeWhile_eq_Nil_iff)
    show "tokens D s = takeWhile (\<lambda>x. x \<notin> D) ?s' # tokens D (tl (dropWhile (\<lambda>x. x \<notin> D) ?s'))"
      using assms by (subst tokens.simps) (simp add: Let_def)
  qed simp
qed

lemma cstring_offset_neq:
  assumes "cstring m p s" and "i \<le> length s" and "j \<le> length s" and "i \<noteq> j"
  shows "p + of_nat i \<noteq> p + of_nat j"
  using nonnull_unat[OF cstring_nonnull[OF assms(1)], of i] nonnull_unat[OF cstring_nonnull[OF assms(1)], of j] assms(2-4)
  by (metis add_left_cancel less_Suc_eq_le)

lemma strtok_all_eval:
  "cstring m p s \<Longrightarrow> cstring m d ds \<Longrightarrow>
   (\<And>i j. i \<le> length s \<Longrightarrow> j \<le> length ds \<Longrightarrow> p + of_nat i \<noteq> d + of_nat j) \<Longrightarrow>
   \<exists>m' ts. strtok_all m p d sv = Some (m', ts) \<and> list_all2 (cstring m') ts (tokens (set ds) s) \<and>
           (\<forall>q. m' q \<noteq> m q \<longrightarrow> (\<exists>i<length s. q = p + of_nat i))"
proof (induction "length s" arbitrary: m p s sv rule: less_induct)
  case less
  show ?case
  proof (cases "dropWhile (\<lambda>x. x \<in> set ds) s = []")
    case True
    then have "tokens (set ds) s = []" by (subst tokens.simps) (simp add: Let_def)
    then show ?thesis
      using strtok_r_end[OF less.prems(1,2) True] by (subst strtok_all.simps) simp
  next
    case False
    obtain as tok rest where sp: "s = as @ tok @ rest" "as = takeWhile (\<lambda>x. x \<in> set ds) s"
      "tok = takeWhile (\<lambda>x. x \<notin> set ds) (tok @ rest)" "tok \<noteq> []" and tk: "tokens (set ds) s = tok # tokens (set ds) (tl rest)"
      by (rule tokens_step[OF False])
    let ?t = "p + of_nat (length as)" and ?n = "length as + length tok + (if rest = [] then 0 else 1)"
    let ?sv = "p + of_nat ?n"
    obtain m1 where m1: "strtok_r m p d sv = Some (m1, ?t, ?sv)" "cstring m1 ?t tok" "cstring m1 ?sv (tl rest)"
      "\<forall>q. m1 q \<noteq> m q \<longrightarrow> rest \<noteq> [] \<and> q = p + of_nat (length as + length tok)"
      using strtok_r_token[OF less.prems(1,2) sp] by blast
    have len: "?n + length (tl rest) = length s" "length (tl rest) < length s"
      using sp(1,4) by (cases rest; simp)+
    have off: "?sv + of_nat i = p + of_nat (?n + i)" for i by (simp add: add.assoc)
    have d1: "cstring m1 d ds"
    proof (subst cstring_cong)
      show "m1 (d + of_nat j) = m (d + of_nat j)" if "j \<le> length ds" for j
        using m1(4) less.prems(3)[of "length as + length tok" j] sp(1) that by fastforce
    qed (rule less.prems(2))
    have dj: "?sv + of_nat i \<noteq> d + of_nat j" if "i \<le> length (tl rest)" "j \<le> length ds" for i j
      unfolding off using less.prems(3)[of "?n + i" j] that len(1) by simp
    obtain m' ts where m': "strtok_all m1 ?sv d ?sv = Some (m', ts)" "list_all2 (cstring m') ts (tokens (set ds) (tl rest))"
      "\<forall>q. m' q \<noteq> m1 q \<longrightarrow> (\<exists>i<length (tl rest). q = ?sv + of_nat i)"
      using less.hyps[OF len(2) m1(3) d1 dj, of ?sv] by blast
    have "strtok_all m1 NULL d ?sv = Some (m', ts)"
      using m'(1) strtok_r_null[OF cstring_ptr[OF m1(3)], of m1 d ?sv]
      by (subst (asm) strtok_all.simps) (subst strtok_all.simps, simp)
    then have "strtok_all m p d sv = Some (m', ?t # ts)"
      using m1(1) cstring_ptr[OF m1(2)] by (subst strtok_all.simps) simp
    moreover have "cstring m' ?t tok"
    proof (subst cstring_cong)
      fix j assume j: "j \<le> length tok"
      have "?t + of_nat j \<noteq> ?sv + of_nat i" if "i < length (tl rest)" for i
        unfolding off using cstring_offset_neq[OF less.prems(1), of "length as + j" "?n + i"] that j len sp(1)
        by (simp add: add.assoc split: if_splits)
      then show "m' (?t + of_nat j) = m1 (?t + of_nat j)" using m'(3) by blast
    qed (rule m1(2))
    moreover have "\<exists>i<length s. q = p + of_nat i" if "m' q \<noteq> m q" for q
    proof (cases "m' q = m1 q")
      case True
      then have "rest \<noteq> [] \<and> q = p + of_nat (length as + length tok)" using m1(4) that by auto
      then show ?thesis using sp(1) by (intro exI[of _ "length as + length tok"]) simp
    next
      case False
      then obtain i where "i < length (tl rest)" "q = p + of_nat (?n + i)" using m'(3) off by metis
      then show ?thesis using len(1) by (intro exI[of _ "?n + i"]) linarith
    qed
    ultimately show ?thesis using m'(2) tk by auto
  qed
qed

section \<open>Copying and searching strings\<close>

lemma read_write_bytes: "length bs \<le> 2 ^ 32 \<Longrightarrow> read_bytes (write_bytes m p bs) p (length bs) = bs"
  by (rule nth_equalityI) (auto simp: write_bytes_nth unat_of_nat32)

lemma cstring_write:
  assumes "0 \<notin> set s" and "nonnull p (Suc (length s))"
  shows "cstring (write_bytes m p (s @ [0])) p s"
proof -
  have len: "length (s @ [0 :: uint8]) \<le> 2 ^ 32" using nonnull_range[OF assms(2)] by simp
  have "read_bytes (write_bytes m p (s @ [0])) p (Suc (length s)) = s @ [0]"
    using read_write_bytes[OF len] by simp
  then have "read_bytes (write_bytes m p (s @ [0])) p (length s) = s"
    "write_bytes m p (s @ [0]) (p + of_nat (length s)) = 0"
    by (simp_all add: read_bytes_last)
  then show ?thesis
    using assms cstring_append[of "write_bytes m p (s @ [0])" p s "[]"] by (simp add: nonnull_last)
qed

lemma take_read_bytes: "n \<le> k \<Longrightarrow> take n (read_bytes m p k) = read_bytes m p n"
  by (simp add: read_bytes_def take_map)

lemma read_bytes_take: "n \<le> length s \<Longrightarrow> cstring m p s \<Longrightarrow> read_bytes m p n = take n s"
  using take_read_bytes[of n "length s" m p] cstring_read[of m p s] by simp

lemma strlcpy_eval:
  assumes src: "cstring m src s" and nn: "nonnull dst (unat sz)" "dst \<noteq> NULL"
    and disj: "\<And>i j. i < unat sz \<Longrightarrow> j \<le> length s \<Longrightarrow> dst + of_nat i \<noteq> src + of_nat j"
  shows "strlcpy m dst src sz =
    Some (if sz = 0 then m else write_bytes m dst (take (unat sz - 1) s @ [0]), of_nat (length s))"
proof (cases "sz = 0")
  case True
  then show ?thesis using strlen_eval[OF src] cstring_ptr[OF src] nn by (simp add: strlcpy_def)
next
  case False
  define k where "k = (if (of_nat (length s) :: size_t) < sz - 1 then of_nat (length s) else sz - 1)"
  have u: "unat (sz - 1) = unat sz - 1" using unat_minus_one[OF False] .
  have k: "unat k = min (length s) (unat sz - 1)"
    using u unat_of_nat32[OF cstring_length[OF src]] by (auto simp: k_def word_less_nat_alt min_def)
  have kn: "k = of_nat (min (length s) (unat sz - 1))"
    using arg_cong[OF k, of "of_nat :: nat \<Rightarrow> size_t"] by simp
  have sz: "0 < unat sz" using False by (simp add: unat_gt_0)
  have "nonnull src (unat k)" "nonnull dst (unat k)"
    using nonnull_mono[OF cstring_nonnull[OF src]] nonnull_mono[OF nn(1)] k by (auto simp: min_def)
  then have "memcpy m dst src k = Some (write_bytes m dst (read_bytes m src (unat k)), dst)"
    using disj k sz by (intro memcpy_correct) auto
  moreover have "read_bytes m src (unat k) = take (unat sz - 1) s"
    using read_bytes_take[OF _ src, of "unat k"] k by (simp add: min_def)
  moreover have "dst + k \<noteq> NULL"
    unfolding kn using nn(1) sz by (simp add: nonnull_def)
  moreover have "k = of_nat (length (take (unat sz - 1) s))"
    unfolding kn by (simp add: min.commute)
  ultimately show ?thesis
    using False word_gt_0[THEN iffD2, OF False[symmetric]] strlen_eval[OF src] cstring_ptr[OF src] nn(2)
    by (simp add: strlcpy_def wr8_def write_bytes_append Let_def flip: k_def)
qed

lemma strlcat_strlcpy:
  assumes src: "cstring m src s" and dst: "cstring m dst d" and lt: "length d < unat sz"
  shows "strlcat m dst src sz =
    map_option (\<lambda>(m', n). (m', n + of_nat (length d))) (strlcpy m (dst + of_nat (length d)) src (sz - of_nat (length d)))"
proof -
  let ?n = "of_nat (length d) :: size_t"
  have n: "unat ?n = length d" using unat_of_nat32[OF cstring_length[OF dst]] .
  then have nlt: "?n < sz" using lt by (simp add: word_less_nat_alt)
  then have "sz - ?n \<noteq> 0" "sz \<noteq> 0" by auto
  then have "0 < sz - ?n" "0 < sz" by (simp_all add: word_gt_0)
  moreover have "dst + ?n \<noteq> NULL" using cstring_nonnull[OF dst] by (simp add: nonnull_def)
  ultimately show ?thesis
    using strlen_eval[OF src] strlen_eval[OF dst] cstring_ptr[OF src] cstring_ptr[OF dst] nlt
    by (simp add: strlcat_def strlcpy_def Let_def option.map_comp bind_map_option map_option_bind comp_def split_def)
qed

lemma nonnull_shift:
  assumes "nonnull p (k + n)"
  shows "nonnull (p + of_nat k) n"
  unfolding nonnull_def
proof (intro allI impI)
  fix i assume "i < n"
  then have "k + i < k + n" by simp
  then have "p + of_nat (k + i) \<noteq> NULL" using assms unfolding nonnull_def by blast
  then show "p + of_nat k + of_nat i \<noteq> NULL" by (simp add: add.assoc)
qed

lemma strlcat_eval:
  assumes src: "cstring m src s" and dst: "cstring m dst d" and nn: "nonnull dst (unat sz)"
    and disj: "\<And>i j. i < unat sz \<Longrightarrow> j \<le> length s \<Longrightarrow> dst + of_nat i \<noteq> src + of_nat j"
  shows "strlcat m dst src sz =
    Some (if length d < unat sz then write_bytes m (dst + of_nat (length d)) (take (unat sz - length d - 1) s @ [0]) else m,
          of_nat (length s + length d))"
proof (cases "length d < unat sz")
  case True
  let ?n = "of_nat (length d) :: size_t"
  have n: "unat ?n = length d" using unat_of_nat32[OF cstring_length[OF dst]] .
  then have sz: "unat (sz - ?n) = unat sz - length d"
    using True by (simp add: unat_sub word_le_nat_alt)
  then have nz: "sz - ?n \<noteq> 0" using True by auto
  have "nonnull (dst + ?n) (unat (sz - ?n))"
    using nonnull_shift[of dst "length d" "unat (sz - ?n)"] nn sz True by simp
  moreover have "dst + ?n \<noteq> NULL" using cstring_nonnull[OF dst] by (simp add: nonnull_def)
  moreover have "dst + ?n + of_nat i \<noteq> src + of_nat j" if "i < unat (sz - ?n)" "j \<le> length s" for i j
    using disj[of "length d + i" j] that sz by (simp add: add.assoc)
  ultimately have "strlcpy m (dst + ?n) src (sz - ?n) =
      Some (write_bytes m (dst + ?n) (take (unat (sz - ?n) - 1) s @ [0]), of_nat (length s))"
    using strlcpy_eval[OF src, of "dst + ?n" "sz - ?n"] nz by simp
  then show ?thesis using strlcat_strlcpy[OF src dst True] sz True by simp
next
  case False
  then have "\<not> (of_nat (length d) :: size_t) < sz"
    using unat_of_nat32[OF cstring_length[OF dst]] by (simp add: word_less_nat_alt)
  then show ?thesis
    using False strlen_eval[OF src] strlen_eval[OF dst] cstring_ptr[OF src] cstring_ptr[OF dst]
    by (simp add: strlcat_def)
qed

definition occurs_at :: "'a list \<Rightarrow> 'a list \<Rightarrow> nat \<Rightarrow> bool" where
  "occurs_at h n i \<longleftrightarrow> i + length n \<le> length h \<and> take (length n) (drop i h) = n"

lemma strstr_loop_eval:
  assumes h: "cstring m hp h" and n: "cstring m np n" and le: "length n \<le> length h"
  shows "i \<le> Suc (length h - length n) \<Longrightarrow>
    strstr_loop m hp np (of_nat (length h - length n)) (of_nat (length n)) (of_nat i) =
      Some (case find (occurs_at h n) [i..<Suc (length h - length n)] of None \<Rightarrow> NULL | Some k \<Rightarrow> hp + of_nat k)"
proof (induction "Suc (length h - length n) - i" arbitrary: i)
  case 0
  then have i: "i = Suc (length h - length n)" by simp
  have b: "Suc (length h) < 2 ^ 32"
    using nonnull_range[OF cstring_nonnull[OF h]] cstring_ptr[OF h] unat_gt_0[of hp] by linarith
  then have "\<not> (of_nat i :: size_t) \<le> of_nat (length h - length n)"
    using unat_of_nat32[of i] unat_of_nat32[of "length h - length n"] i by (simp add: word_le_nat_alt)
  then show ?case using i by (subst strstr_loop.simps) simp
next
  case (Suc k)
  then have i: "i \<le> length h - length n" by simp
  have b: "length h < 2 ^ 32" "length n < 2 ^ 32" using cstring_length[OF h] cstring_length[OF n] .
  have ile: "(of_nat i :: size_t) \<le> of_nat (length h - length n)"
    using unat_of_nat32[of i] unat_of_nat32[of "length h - length n"] i b by (simp add: word_le_nat_alt)
  have un: "unat (of_nat (length n) :: size_t) = length n" using unat_of_nat32 b by simp
  have "cstring m (hp + of_nat (length (take i h))) (drop i h)"
    using h cstring_append[of m hp "take i h" "drop i h"] by simp
  then have hd: "cstring m (hp + of_nat i) (drop i h)" using i le by simp
  have "nonnull (hp + of_nat i) (length n)" "nonnull np (length n)"
    using nonnull_mono[OF cstring_nonnull[OF hd], of "length n"] nonnull_mono[OF cstring_nonnull[OF n], of "length n"] i le by simp_all
  then have "memcmp m (hp + of_nat i) np (of_nat (length n)) = Some (block_cmp (take (length n) (drop i h)) n)"
    using memcmp_eval[of "hp + of_nat i" "of_nat (length n)" np m] read_bytes_take[OF _ hd, of "length n"] cstring_read[OF n] i le
    by (simp add: un)
  moreover have "block_cmp (take (length n) (drop i h)) n = 0 \<longleftrightarrow> occurs_at h n i"
    using i le by (auto simp: block_cmp_0_iff occurs_at_def)
  moreover have "find (occurs_at h n) [i..<Suc (length h - length n)] =
      (if occurs_at h n i then Some i else find (occurs_at h n) [Suc i..<Suc (length h - length n)])"
    using i by (simp add: upt_conv_Cons del: upt_Suc)
  moreover have "k = Suc (length h - length n) - Suc i" "Suc i \<le> Suc (length h - length n)" using Suc.hyps(2) i by simp_all
  ultimately show ?case
    using Suc.hyps(1)[of "Suc i"] ile by (subst strstr_loop.simps) (simp add: add.commute del: upt_Suc)
qed

lemma strstr_eval:
  assumes h: "cstring m hp h" and n: "cstring m np n"
  shows "strstr m hp np = Some (case find (occurs_at h n) [0..<Suc (length h)] of None \<Rightarrow> NULL | Some k \<Rightarrow> hp + of_nat k)"
proof (cases "length n \<le> length h")
  case True
  have b: "length h < 2 ^ 32" "length n < 2 ^ 32" using cstring_length[OF h] cstring_length[OF n] .
  have ge: "(of_nat (length h) :: size_t) \<ge> of_nat (length n)"
    using True b by (simp add: word_le_nat_alt unat_of_nat32)
  have sub: "(of_nat (length h) :: size_t) - of_nat (length n) = of_nat (length h - length n)"
    using True by (simp add: of_nat_diff)
  have "[0..<Suc (length h)] = [0..<Suc (length h - length n)] @ [Suc (length h - length n)..<Suc (length h)]"
    using True by (metis Suc_le_mono diff_le_self le0 upt_add_eq_append le_add_diff_inverse)
  moreover have "find (occurs_at h n) [Suc (length h - length n)..<Suc (length h)] = None"
    by (auto simp: find_None_iff occurs_at_def)
  ultimately have "find (occurs_at h n) [0..<Suc (length h)] = find (occurs_at h n) [0..<Suc (length h - length n)]"
    by (simp add: find_append_None del: upt_Suc)
  then show ?thesis
    using strstr_loop_eval[OF h n True, of 0] strlen_eval[OF h] strlen_eval[OF n] ge sub
    by (simp add: strstr_def del: upt_Suc)
next
  case False
  then have "find (occurs_at h n) [0..<Suc (length h)] = None" by (auto simp: find_None_iff occurs_at_def)
  moreover have "\<not> (of_nat (length h) :: size_t) \<ge> of_nat (length n)"
    using False cstring_length[OF h] cstring_length[OF n] by (simp add: word_le_nat_alt unat_of_nat32)
  ultimately show ?thesis
    using strlen_eval[OF h] strlen_eval[OF n] by (simp add: strstr_def del: upt_Suc)
qed

section \<open>Correctness\<close>

lemma nonnull_numeral: "nonnull p (numeral k) \<longleftrightarrow> p \<noteq> NULL \<and> nonnull (p + 1) (pred_numeral k)"
  by (simp add: numeral_eq_Suc nonnull_Suc)

lemma nonnull_1 [simp]: "nonnull p (Suc 0) \<longleftrightarrow> p \<noteq> NULL"
  by (simp add: nonnull_Suc)

text \<open>
  C38. \<open>memmove\<close> copies a block onto another however the two overlap: afterwards the destination
  holds the bytes the source held before the call, and no other byte has changed. The only
  requirement is that neither block contains the null address.
\<close>

theorem memmove_correct:
  assumes "nonnull dst (unat sz)" and "nonnull src (unat sz)"
  shows "\<exists>m' r. memmove m dst src sz = Some (m', r) \<and> read_bytes m' dst (unat sz) = read_bytes m src (unat sz) \<and>
           (\<forall>q. (\<forall>i<unat sz. q \<noteq> dst + of_nat i) \<longrightarrow> m' q = m q)"
proof -
  let ?bs = "read_bytes m src (unat sz)"
  have "length ?bs \<le> 2 ^ 32" using unat_lt_2p32[of sz] by simp
  from read_write_bytes[OF this, of m dst] have "read_bytes (write_bytes m dst ?bs) dst (unat sz) = ?bs" by simp
  moreover have "write_bytes m dst ?bs q = m q" if "\<forall>i<unat sz. q \<noteq> dst + of_nat i" for q
    using that by (intro write_bytes_same) auto
  ultimately show ?thesis using memmove_eval[OF assms, of m] by blast
qed

theorem memmove_correct_witness:
  "\<exists>m' r. memmove (write_bytes (\<lambda>_. 0) 100 [1, 2, 3, 4]) 101 100 3 = Some (m', r) \<and> read_bytes m' 101 3 = [1, 2, 3]"
proof -
  let ?m = "write_bytes (\<lambda>_. 0) 100 [1, 2, 3, 4]"
  have 1: "nonnull 101 (unat (3 :: size_t))" "nonnull 100 (unat (3 :: size_t))" by (simp_all add: nonnull_numeral)
  have 2: "read_bytes ?m 100 3 = [1, 2, 3]" by code_simp
  show ?thesis using memmove_correct[OF 1, of ?m] 2 by auto
qed

text \<open>
  The pointer that \<open>memmove\<close> returns. When the destination lies below the source it is the
  address just past the destination block, which is not the destination unless the block is empty.
\<close>

lemma memmove_returns_end:
  assumes "nonnull dst (unat sz)" and "nonnull src (unat sz)" and "dst < src" and "sz \<noteq> 0"
  shows "\<exists>m' r. memmove m dst src sz = Some (m', r) \<and> r = dst + sz \<and> r \<noteq> dst"
  using memmove_eval[OF assms(1,2)] assms(3,4) by simp

text \<open>
  C25. Tokenising with \<open>strtok_r\<close> in its documented loop ends and returns exactly the tokens of the string, in
  order: the maximal nonempty runs of characters that are not delimiters. Afterwards each
  returned pointer addresses its token as a terminated string, and the bytes outside
  the string are unchanged. The delimiter string must not overlap the string.
\<close>

theorem strtok_correct:
  assumes "cstring m p s" and "cstring m d ds"
    and "\<forall>i\<le>length s. \<forall>j\<le>length ds. p + of_nat i \<noteq> d + of_nat j"
  shows "\<exists>m' ts. strtok_all m p d save = Some (m', ts) \<and> list_all2 (cstring m') ts (tokens (set ds) s) \<and>
           (\<forall>t\<in>set (tokens (set ds) s). t \<noteq> [] \<and> set t \<inter> set ds = {}) \<and>
           (\<forall>q. (\<forall>i<length s. q \<noteq> p + of_nat i) \<longrightarrow> m' q = m q)"
  using strtok_all_eval[OF assms(1,2), of save] assms(3) tokens_nonempty[of _ "set ds" s] by metis

theorem strtok_correct_witness:
  "\<exists>m' ts. strtok_all (write_bytes (write_bytes (\<lambda>_. 0) 100 [32, 108, 115, 32, 45, 97]) 200 [32]) 100 200 0 = Some (m', ts) \<and>
     list_all2 (cstring m') ts [[108, 115], [45, 97]]"
proof -
  let ?m = "write_bytes (write_bytes (\<lambda>_. 0) 100 [32, 108, 115, 32, 45, 97]) 200 [32]"
  have 1: "cstring ?m 100 [32, 108, 115, 32, 45, 97]" and 2: "cstring ?m 200 [32]" by code_simp+
  have 3: "\<forall>i\<le>length [32 :: uint8, 108, 115, 32, 45, 97]. \<forall>j\<le>length [32 :: uint8]. (100 :: ptr) + of_nat i \<noteq> 200 + of_nat j"
    by (simp add: le_Suc_eq all_conj_distrib)
  have 4: "tokens (set [32]) [32, 108, 115, 32, 45, 97 :: uint8] = [[108, 115], [45, 97]]" by code_simp
  show ?thesis using strtok_correct[OF 1 2 3, of 0] unfolding 4 by blast
qed

text \<open>
  C39. \<open>strlcpy\<close> never writes outside the \<open>sz\<close> bytes it is given, always leaves a terminated string
  there when \<open>sz\<close> is positive, namely the first \<open>sz - 1\<close> characters of the source, and
  returns the length of the source, so that a result of at least \<open>sz\<close> tells that it was cut.
\<close>

theorem strlcpy_correct:
  assumes "cstring m src s" and "dst \<noteq> NULL" and "nonnull dst (unat sz)"
    and "\<forall>i<unat sz. \<forall>j\<le>length s. dst + of_nat i \<noteq> src + of_nat j"
  shows "\<exists>m'. strlcpy m dst src sz = Some (m', of_nat (length s)) \<and>
           (sz \<noteq> 0 \<longrightarrow> cstring m' dst (take (unat sz - 1) s)) \<and>
           (\<forall>q. (\<forall>i<unat sz. q \<noteq> dst + of_nat i) \<longrightarrow> m' q = m q)"
proof (cases "sz = 0")
  case True
  then show ?thesis using strlcpy_eval[OF assms(1,3,2)] assms(4) by simp
next
  case False
  let ?t = "take (unat sz - 1) s"
  have sz: "0 < unat sz" using False by (simp add: unat_gt_0)
  then have len: "Suc (length ?t) \<le> unat sz" by simp
  have "0 \<notin> set s" using assms(1) cstring_append[of m src s "[]"] by simp
  then have "0 \<notin> set ?t" by (meson in_set_takeD)
  then have "cstring (write_bytes m dst (?t @ [0])) dst ?t"
    using cstring_write nonnull_mono[OF assms(3) len] by blast
  moreover have "write_bytes m dst (?t @ [0]) q = m q" if "\<forall>i<unat sz. q \<noteq> dst + of_nat i" for q
  proof (rule write_bytes_same)
    show "dst + of_nat i \<noteq> q" if i: "i < length (?t @ [0])" for i
    proof -
      have "i < unat sz" using i len unfolding length_append by simp
      then show ?thesis using \<open>\<forall>i<unat sz. q \<noteq> dst + of_nat i\<close> by blast
    qed
  qed
  ultimately show ?thesis
    using strlcpy_eval[OF assms(1,3,2)] assms(4) False by simp
qed

theorem strlcpy_correct_witness:
  "\<exists>m'. strlcpy (write_bytes (\<lambda>_. 0) 100 [104, 101, 108, 108, 111]) 200 100 4 = Some (m', 5) \<and> cstring m' 200 [104, 101, 108]"
proof -
  let ?m = "write_bytes (\<lambda>_. 0) 100 [104, 101, 108, 108, 111]"
  have 1: "cstring ?m 100 [104, 101, 108, 108, 111]" by code_simp
  have 2: "nonnull 200 (unat (4 :: size_t))" by (simp add: nonnull_numeral)
  have 3: "\<forall>i<unat (4 :: size_t). \<forall>j\<le>length [104 :: uint8, 101, 108, 108, 111]. (200 :: ptr) + of_nat i \<noteq> 100 + of_nat j"
  proof -
    have u: "unat (4 :: size_t) = Suc (Suc (Suc (Suc 0)))" by simp
    show ?thesis unfolding u by (simp add: le_Suc_eq less_Suc_eq all_conj_distrib)
  qed
  show ?thesis using strlcpy_correct[OF 1 _ 2 3] by auto
qed

end
