(* ===== verification/Disk.thy ===== *)
theory Disk
  imports Strings
begin

text \<open>
  The service a disk gives its clients (\<open>disk_read\<close>, \<open>disk_write\<close> and \<open>disk_size\<close> of \<open>src/devices/disk.c\<close>): an array of sectors with
  a capacity and statistics. A disk is its number on the channel, its capacity, its contents sector by sector and its
  counters; \<open>answers\<close> says whether the device gets ready in time, and if not, the code panics. The file system and the
  swap area are built on these definitions. That the driver implements them on the ports of the controller is
  shown in the theory of the ATA driver. A disk is a value here, so that no pointer to it can be null.
\<close>

section \<open>The service\<close>

type_synonym disk_sector_t = "32 word"

abbreviation DISK_SECTOR_SIZE :: "32 word" where "DISK_SECTOR_SIZE \<equiv> 512"

record disk =
  dev_no :: int
  capacity :: disk_sector_t
  sectors :: "disk_sector_t \<Rightarrow> uint8 list"
  read_cnt :: "64 word"
  write_cnt :: "64 word"
  answers :: bool

definition disk_size :: "disk \<Rightarrow> disk_sector_t" where
  "disk_size d = capacity d"

text \<open>
  A transfer with the contents of the buffer as a list of bytes, for callers whose buffer no one else sees, and with
  a buffer in memory.
\<close>

definition read_sector :: "disk \<Rightarrow> disk_sector_t \<Rightarrow> (disk \<times> uint8 list) option" where
  "read_sector d sec_no = do {
     ASSERT (sec_no < capacity d);
     ASSERT (sec_no < push_bit 28 1);
     ASSERT (answers d);
     Some (d\<lparr>read_cnt := read_cnt d + 1\<rparr>, sectors d sec_no)
   }"

definition write_sector :: "disk \<Rightarrow> disk_sector_t \<Rightarrow> uint8 list \<Rightarrow> disk option" where
  "write_sector d sec_no bs = do {
     ASSERT (sec_no < capacity d);
     ASSERT (sec_no < push_bit 28 1);
     ASSERT (answers d);
     Some (d\<lparr>sectors := (sectors d)(sec_no := bs), write_cnt := write_cnt d + 1\<rparr>)
   }"

definition disk_read :: "disk \<Rightarrow> mem \<Rightarrow> disk_sector_t \<Rightarrow> ptr \<Rightarrow> (disk \<times> mem) option" where
  "disk_read d m sec_no buffer = do {
     ASSERT (buffer \<noteq> NULL);
     (d, bs) \<leftarrow> read_sector d sec_no;
     Some (d, write_bytes m buffer bs)
   }"

definition disk_write :: "disk \<Rightarrow> mem \<Rightarrow> disk_sector_t \<Rightarrow> ptr \<Rightarrow> disk option" where
  "disk_write d m sec_no buffer = do {
     ASSERT (buffer \<noteq> NULL);
     write_sector d sec_no (read_bytes m buffer 512)
   }"

section \<open>Transfers on a disk that can be addressed completely\<close>

lemma read_sector_eval:
  "sec_no < capacity d \<Longrightarrow> capacity d \<le> 0x10000000 \<Longrightarrow> answers d \<Longrightarrow>
   read_sector d sec_no = Some (d\<lparr>read_cnt := read_cnt d + 1\<rparr>, sectors d sec_no)"
  by (simp add: read_sector_def)

lemma write_sector_eval:
  "sec_no < capacity d \<Longrightarrow> capacity d \<le> 0x10000000 \<Longrightarrow> answers d \<Longrightarrow>
   write_sector d sec_no bs = Some (d\<lparr>sectors := (sectors d)(sec_no := bs), write_cnt := write_cnt d + 1\<rparr>)"
  by (simp add: write_sector_def)

lemma disk_read_eval:
  "sec_no < capacity d \<Longrightarrow> capacity d \<le> 0x10000000 \<Longrightarrow> answers d \<Longrightarrow> buffer \<noteq> NULL \<Longrightarrow>
   disk_read d m sec_no buffer = Some (d\<lparr>read_cnt := read_cnt d + 1\<rparr>, write_bytes m buffer (sectors d sec_no))"
  by (simp add: disk_read_def read_sector_eval)

lemma disk_write_eval:
  "sec_no < capacity d \<Longrightarrow> capacity d \<le> 0x10000000 \<Longrightarrow> answers d \<Longrightarrow> buffer \<noteq> NULL \<Longrightarrow>
   disk_write d m sec_no buffer =
     Some (d\<lparr>sectors := (sectors d)(sec_no := read_bytes m buffer 512), write_cnt := write_cnt d + 1\<rparr>)"
  by (simp add: disk_write_def write_sector_eval)

text \<open>A disk the driver can address completely, with whole sectors.\<close>

definition disk_ok :: "disk \<Rightarrow> bool" where
  "disk_ok d \<longleftrightarrow> capacity d \<le> 0x10000000 \<and> answers d \<and> (\<forall>k. length (sectors d k) = 512)"

end
