(* ===== verification/Vaddr.thy ===== *)
theory Vaddr
  imports Prelude
begin

text \<open>
  Virtual addresses and page table entries: \<open>src/threads/vaddr.h\<close> and \<open>src/threads/pte.h\<close>.
  Addresses and entries are 32-bit words. The lemmas give the arithmetic meaning of
  the masks and shifts, the decomposition of an address into its three fields, and the
  round trips between pages and entries.
\<close>

section \<open>The code\<close>

definition BITMASK :: "nat \<Rightarrow> nat \<Rightarrow> 32 word" where
  "BITMASK shift cnt = push_bit shift (push_bit cnt 1 - 1)"

abbreviation PGBITS :: nat where "PGBITS \<equiv> 12"

definition PGSIZE :: "32 word" where "PGSIZE = push_bit PGBITS 1"

definition PGMASK :: "32 word" where "PGMASK = BITMASK 0 PGBITS"

definition pg_ofs :: "ptr \<Rightarrow> 32 word" where
  "pg_ofs va = va AND PGMASK"

definition pg_no :: "ptr \<Rightarrow> 32 word" where
  "pg_no va = drop_bit PGBITS va"

definition pg_round_up :: "ptr \<Rightarrow> ptr" where
  "pg_round_up va = (va + PGSIZE - 1) AND NOT PGMASK"

definition pg_round_down :: "ptr \<Rightarrow> ptr" where
  "pg_round_down va = va AND NOT PGMASK"

abbreviation PHYS_BASE :: ptr where "PHYS_BASE \<equiv> 0xc0000000"

definition is_user_vaddr :: "ptr \<Rightarrow> bool" where
  "is_user_vaddr va \<longleftrightarrow> va < PHYS_BASE"

definition is_kernel_vaddr :: "ptr \<Rightarrow> bool" where
  "is_kernel_vaddr va \<longleftrightarrow> va \<ge> PHYS_BASE"

definition ptov :: "32 word \<Rightarrow> ptr option" where
  "ptov paddr = do { ASSERT (paddr < PHYS_BASE); Some (paddr + PHYS_BASE) }"

definition vtop :: "ptr \<Rightarrow> 32 word option" where
  "vtop va = do { ASSERT (is_kernel_vaddr va); Some (va - PHYS_BASE) }"

abbreviation PTBITS :: nat where "PTBITS \<equiv> 10"
abbreviation PDSHIFT :: nat where "PDSHIFT \<equiv> 22"

definition PTMASK :: "32 word" where "PTMASK = BITMASK PGBITS PTBITS"

definition pt_no :: "ptr \<Rightarrow> 32 word" where
  "pt_no va = drop_bit PGBITS (va AND PTMASK)"

definition pd_no :: "ptr \<Rightarrow> 32 word" where
  "pd_no va = drop_bit PDSHIFT va"

abbreviation PTE_FLAGS :: "32 word" where "PTE_FLAGS \<equiv> 0x00000fff"
abbreviation PTE_ADDR :: "32 word" where "PTE_ADDR \<equiv> 0xfffff000"
abbreviation PTE_P :: "32 word" where "PTE_P \<equiv> 0x1"
abbreviation PTE_W :: "32 word" where "PTE_W \<equiv> 0x2"
abbreviation PTE_U :: "32 word" where "PTE_U \<equiv> 0x4"
abbreviation PTE_A :: "32 word" where "PTE_A \<equiv> 0x20"
abbreviation PTE_D :: "32 word" where "PTE_D \<equiv> 0x40"

definition pde_create :: "ptr \<Rightarrow> 32 word option" where
  "pde_create pt = do {
     ASSERT (pg_ofs pt = 0);
     pa \<leftarrow> vtop pt;
     Some (pa OR PTE_U OR PTE_P OR PTE_W)
   }"

definition pde_get_pt :: "32 word \<Rightarrow> ptr option" where
  "pde_get_pt pde = do { ASSERT (pde AND PTE_P \<noteq> 0); ptov (pde AND PTE_ADDR) }"

definition pte_create_kernel :: "ptr \<Rightarrow> bool \<Rightarrow> 32 word option" where
  "pte_create_kernel page writable = do {
     ASSERT (pg_ofs page = 0);
     pa \<leftarrow> vtop page;
     Some (pa OR PTE_P OR (if writable then PTE_W else 0))
   }"

definition pte_create_user :: "ptr \<Rightarrow> bool \<Rightarrow> 32 word option" where
  "pte_create_user page writable = do { e \<leftarrow> pte_create_kernel page writable; Some (e OR PTE_U) }"

definition pte_get_page :: "32 word \<Rightarrow> ptr option" where
  "pte_get_page pte = ptov (pte AND PTE_ADDR)"

section \<open>Fields of an address\<close>

lemma PGSIZE_eq [simp]: "PGSIZE = 4096"
  by (simp add: PGSIZE_def)

lemma PGMASK_eq: "PGMASK = mask 12"
  by (simp add: PGMASK_def BITMASK_def mask_eq_exp_minus_1)

lemma PTMASK_eq: "PTMASK = push_bit 12 (mask 10)"
  by (simp add: PTMASK_def BITMASK_def mask_eq_exp_minus_1)

lemma bit_pg_ofs: "bit (pg_ofs va) n \<longleftrightarrow> n < 12 \<and> bit va n"
  by (auto simp: pg_ofs_def PGMASK_eq bit_simps)

lemma bit_pg_round_down: "bit (pg_round_down va) n \<longleftrightarrow> 12 \<le> n \<and> bit va n"
  by (auto simp: pg_round_down_def PGMASK_eq bit_simps dest: bit_imp_le_length)

lemma bit_pt_no: "bit (pt_no va) n \<longleftrightarrow> n < 10 \<and> bit va (12 + n)"
  by (auto simp: pt_no_def PTMASK_eq bit_simps)

lemma bit_pd_no: "bit (pd_no va) n \<longleftrightarrow> bit va (22 + n)"
  by (simp add: pd_no_def bit_simps)

lemma pg_ofs_mod: "unat (pg_ofs va) = unat va mod 4096"
  by (simp add: pg_ofs_def PGMASK_eq take_bit_eq_mod unat_mod flip: take_bit_eq_mask)

lemma pg_no_div: "unat (pg_no va) = unat va div 4096"
  by (simp add: pg_no_def drop_bit_eq_div unat_div)

lemma pg_round_down_ofs: "va = pg_round_down va OR pg_ofs va" "pg_round_down va AND pg_ofs va = 0"
  by (rule bit_word_eqI, auto simp: bit_simps bit_pg_ofs bit_pg_round_down)+

lemma pg_split: "va = pg_round_down va + pg_ofs va"
  using pg_round_down_ofs[of va] by (metis disjunctive_add_eq_or)

lemma unat_pg_round_down: "unat (pg_round_down va) = unat va div 4096 * 4096"
proof -
  have "pg_round_down va = va - pg_ofs va" using pg_split[of va] by (simp add: eq_diff_eq)
  moreover have "pg_ofs va \<le> va" by (simp add: word_le_nat_alt pg_ofs_mod)
  ultimately show ?thesis
    by (simp add: unat_sub pg_ofs_mod word_le_nat_alt flip: minus_mod_eq_div_mult)
qed

lemma unat_pg_round_up:
  assumes "unat va + 4095 < 2 ^ 32"
  shows "unat (pg_round_up va) = (unat va + 4095) div 4096 * 4096"
proof -
  have "unat (va + 4095) = unat va + 4095" using assms by (simp add: unat_word_ariths)
  then show ?thesis
    using unat_pg_round_down[of "va + 4095"] by (simp add: pg_round_up_def pg_round_down_def add.commute)
qed

text \<open>
  A virtual address is the concatenation of its page directory index, its page table index and
  its offset, each in its range; two addresses with the same three fields are equal.
\<close>

lemma vaddr_fields:
  "va = push_bit 22 (pd_no va) OR push_bit 12 (pt_no va) OR pg_ofs va \<and>
   pd_no va < 1024 \<and> pt_no va < 1024 \<and> pg_ofs va < 4096 \<and>
   pg_no va = push_bit 10 (pd_no va) OR pt_no va"
proof (intro conjI)
  show "va = push_bit 22 (pd_no va) OR push_bit 12 (pt_no va) OR pg_ofs va"
  proof (rule bit_word_eqI)
    show "bit va n = bit (push_bit 22 (pd_no va) OR push_bit 12 (pt_no va) OR pg_ofs va) n" if "n < LENGTH(32)" for n
      using that by (cases "22 \<le> n") (auto simp: bit_simps bit_pd_no bit_pt_no bit_pg_ofs)
  qed
  show "pg_no va = push_bit 10 (pd_no va) OR pt_no va"
    by (rule bit_word_eqI) (auto simp: pg_no_def bit_simps bit_pd_no bit_pt_no dest: bit_imp_le_length)
  have "unat (pd_no va) = unat va div 4194304" by (simp add: pd_no_def drop_bit_eq_div unat_div)
  then have "unat (pd_no va) < 1024" using unat_lt_2p32[of va] by (simp add: less_mult_imp_div_less)
  then show "pd_no va < 1024" by (simp add: word_less_nat_alt)
  have "pt_no va = take_bit 10 (pg_no va)"
    by (rule bit_word_eqI) (auto simp: pg_no_def bit_simps bit_pt_no)
  then show "pt_no va < 1024" by (simp add: take_bit_eq_mod word_less_nat_alt unat_mod)
  show "pg_ofs va < 4096" by (simp add: word_less_nat_alt pg_ofs_mod)
qed

section \<open>Page table entries\<close>

lemma PTE_ADDR_eq: "PTE_ADDR = NOT (mask 12)"
  by (simp add: mask_eq_exp_minus_1)

lemma bit_flags:
  "bit PTE_W n \<longleftrightarrow> n = 1" "bit PTE_U n \<longleftrightarrow> n = 2" "bit PTE_A n \<longleftrightarrow> n = 5" "bit PTE_D n \<longleftrightarrow> n = 6"
proof -
  have "bit (push_bit k (1 :: 32 word)) n \<longleftrightarrow> n = k" if "k < 32" for k
    using that by (auto simp: bit_simps)
  from this[of 1] this[of 2] this[of 5] this[of 6]
  show "bit PTE_W n \<longleftrightarrow> n = 1" "bit PTE_U n \<longleftrightarrow> n = 2" "bit PTE_A n \<longleftrightarrow> n = 5" "bit PTE_D n \<longleftrightarrow> n = 6"
    by simp_all
qed

lemma vtop_kernel: "is_kernel_vaddr va \<Longrightarrow> vtop va = Some (take_bit 30 va)"
proof -
  assume k: "is_kernel_vaddr va"
  then obtain j where j: "unat va = 3221225472 + j" by (auto simp: is_kernel_vaddr_def word_le_nat_alt le_iff_add)
  then have "j < 1073741824" using unat_lt_2p32[of va] by simp
  have "(3221225472 + j) mod 1073741824 = j"
    using \<open>j < 1073741824\<close> mod_mult_self4[of 1073741824 3 j] by simp
  then have "unat (va - PHYS_BASE) = unat (take_bit 30 va)"
    using k j by (simp add: is_kernel_vaddr_def unat_sub take_bit_eq_mod unat_mod)
  then show ?thesis using k by (simp add: vtop_def word_unat_eq_iff)
qed

lemma ptov_vtop: "is_kernel_vaddr va \<Longrightarrow> vtop va = Some pa \<Longrightarrow> ptov pa = Some va"
proof -
  assume k: "is_kernel_vaddr va" "vtop va = Some pa"
  then have pa: "pa = va - PHYS_BASE" by (simp add: vtop_def)
  have "unat pa < unat PHYS_BASE"
    using k(1) unat_lt_2p32[of va] unfolding pa by (simp add: is_kernel_vaddr_def unat_sub word_le_nat_alt)
  then show ?thesis using pa by (simp add: ptov_def word_less_nat_alt)
qed

lemma pg_aligned_bit: "pg_ofs va = 0 \<Longrightarrow> n < 12 \<Longrightarrow> \<not> bit va n"
  using bit_pg_ofs[of va n] by simp

lemma pte_addr_field:
  assumes "pg_ofs page = 0" and "\<And>n. bit f n \<Longrightarrow> n < 12"
  shows "(take_bit 30 page OR f) AND PTE_ADDR = take_bit 30 page"
  unfolding PTE_ADDR_eq
proof (rule bit_word_eqI)
  show "bit ((take_bit 30 page OR f) AND NOT (mask 12)) n = bit (take_bit 30 page) n" if "n < LENGTH(32)" for n
    using assms(2)[of n] pg_aligned_bit[OF assms(1), of n] that by (cases "n < 12") (auto simp: bit_simps)
qed

lemma and_flag: "e AND f \<noteq> 0 \<longleftrightarrow> bit e k" if "\<And>n. bit f n \<longleftrightarrow> n = k" "k < 32" for e f :: "32 word"
  using bit_eq_iff[of "e AND f" 0] that by (auto simp: bit_simps)

lemma pte_create_eval:
  assumes "pg_ofs page = 0" and "is_kernel_vaddr page"
  shows "pte_create_user page w = Some (take_bit 30 page OR (PTE_P OR (if w then PTE_W else 0) OR PTE_U))"
    and "pte_create_kernel page w = Some (take_bit 30 page OR (PTE_P OR (if w then PTE_W else 0)))"
    and "pde_create page = Some (take_bit 30 page OR (PTE_U OR PTE_P OR PTE_W))"
  using assms vtop_kernel[OF assms(2)]
  by (simp_all add: pte_create_user_def pte_create_kernel_def pde_create_def or.assoc del: or_numerals)

lemma entry_flag:
  assumes "pg_ofs page = 0"
  shows "(take_bit 30 page OR f) AND PTE_P \<noteq> 0 \<longleftrightarrow> bit f 0" "(take_bit 30 page OR f) AND PTE_W \<noteq> 0 \<longleftrightarrow> bit f 1"
    "(take_bit 30 page OR f) AND PTE_U \<noteq> 0 \<longleftrightarrow> bit f 2" "(take_bit 30 page OR f) AND PTE_A \<noteq> 0 \<longleftrightarrow> bit f 5"
    "(take_bit 30 page OR f) AND PTE_D \<noteq> 0 \<longleftrightarrow> bit f 6"
proof -
  have fl: "(take_bit 30 page OR f) AND g \<noteq> 0 \<longleftrightarrow> bit f k" if "\<And>n. bit g n \<longleftrightarrow> n = k" "k < 12" for g k
    using and_flag[OF that(1), of "take_bit 30 page OR f"] pg_aligned_bit[OF assms that(2)] that(2)
    by (simp add: bit_or_iff bit_take_bit_iff)
  show "(take_bit 30 page OR f) AND PTE_P \<noteq> 0 \<longleftrightarrow> bit f 0" by (rule fl) (auto simp: bit_simps)
  show "(take_bit 30 page OR f) AND PTE_W \<noteq> 0 \<longleftrightarrow> bit f 1" by (rule fl[OF bit_flags(1)]) simp
  show "(take_bit 30 page OR f) AND PTE_U \<noteq> 0 \<longleftrightarrow> bit f 2" by (rule fl[OF bit_flags(2)]) simp
  show "(take_bit 30 page OR f) AND PTE_A \<noteq> 0 \<longleftrightarrow> bit f 5" by (rule fl[OF bit_flags(3)]) simp
  show "(take_bit 30 page OR f) AND PTE_D \<noteq> 0 \<longleftrightarrow> bit f 6" by (rule fl[OF bit_flags(4)]) simp
qed

lemma flag_words:
  "bit (PTE_P OR (if w then PTE_W else 0) OR PTE_U) n \<longleftrightarrow> n = 0 \<or> (n = 1 \<and> w) \<or> n = 2"
  "bit (PTE_P OR (if w then PTE_W else 0)) n \<longleftrightarrow> n = 0 \<or> (n = 1 \<and> w)"
  "bit (PTE_U OR PTE_P OR PTE_W) n \<longleftrightarrow> n = 0 \<or> n = 1 \<or> n = 2"
proof -
  have i: "bit (if w then PTE_W else 0) n \<longleftrightarrow> n = 1 \<and> w" and p: "bit PTE_P n \<longleftrightarrow> n = 0"
    using bit_flags(1)[of n] by (auto simp: bit_simps split: if_splits)
  show "bit (PTE_P OR (if w then PTE_W else 0) OR PTE_U) n \<longleftrightarrow> n = 0 \<or> (n = 1 \<and> w) \<or> n = 2"
    "bit (PTE_P OR (if w then PTE_W else 0)) n \<longleftrightarrow> n = 0 \<or> (n = 1 \<and> w)"
    "bit (PTE_U OR PTE_P OR PTE_W) n \<longleftrightarrow> n = 0 \<or> n = 1 \<or> n = 2"
    unfolding bit_or_iff bit_flags i p by auto
qed

text \<open>
  C37. Page table entries and pages correspond: the entry made for a page-aligned kernel address is
  present, is writable exactly when asked for, is accessible to user code exactly when made
  by \<open>pte_create_user\<close>, is neither accessed nor dirty, and gives the page back. A directory entry gives
  its page table back.
\<close>

theorem pte_roundtrip:
  assumes "pg_ofs page = 0" and "is_kernel_vaddr page"
  shows "\<exists>u k d. pte_create_user page w = Some u \<and> pte_create_kernel page w = Some k \<and> pde_create page = Some d \<and>
     pte_get_page u = Some page \<and> pte_get_page k = Some page \<and> pde_get_pt d = Some page \<and>
     u AND PTE_P \<noteq> 0 \<and> k AND PTE_P \<noteq> 0 \<and> (u AND PTE_W \<noteq> 0 \<longleftrightarrow> w) \<and> (k AND PTE_W \<noteq> 0 \<longleftrightarrow> w) \<and>
     u AND PTE_U \<noteq> 0 \<and> k AND PTE_U = 0 \<and> u AND PTE_A = 0 \<and> u AND PTE_D = 0"
proof -
  define fu where "fu = PTE_P OR (if w then PTE_W else 0) OR PTE_U"
  define fk where "fk = PTE_P OR (if w then PTE_W else 0)"
  define fd where "fd = PTE_U OR PTE_P OR PTE_W"
  note ev = pte_create_eval(1)[OF assms, of w, folded fu_def] pte_create_eval(2)[OF assms, of w, folded fk_def]
    pte_create_eval(3)[OF assms, folded fd_def]
  note fl = flag_words(1)[of w, folded fu_def] flag_words(2)[of w, folded fk_def] flag_words(3)[folded fd_def]
  have lo: "n < 12" if "bit f n" "f = fu \<or> f = fk \<or> f = fd" for f n
    using that fl[of n] by auto
  have ad: "ptov ((take_bit 30 page OR f) AND PTE_ADDR) = Some page" if "f = fu \<or> f = fk \<or> f = fd" for f
    using pte_addr_field[OF assms(1), of f] lo[OF _ that] ptov_vtop[OF assms(2) vtop_kernel[OF assms(2)]] by metis
  note ef = entry_flag[OF assms(1)]
  have "(take_bit 30 page OR fk) AND PTE_U = 0" "(take_bit 30 page OR fu) AND PTE_A = 0" "(take_bit 30 page OR fu) AND PTE_D = 0"
    using ef(3)[of fk] ef(4,5)[of fu] unfolding fl by auto
  moreover have "(take_bit 30 page OR fu) AND PTE_P \<noteq> 0" "(take_bit 30 page OR fk) AND PTE_P \<noteq> 0"
    "(take_bit 30 page OR fd) AND PTE_P \<noteq> 0" "(take_bit 30 page OR fu) AND PTE_U \<noteq> 0"
    "(take_bit 30 page OR fu) AND PTE_W \<noteq> 0 \<longleftrightarrow> w" "(take_bit 30 page OR fk) AND PTE_W \<noteq> 0 \<longleftrightarrow> w"
    unfolding ef fl by auto
  ultimately show ?thesis
    unfolding ev pte_get_page_def pde_get_pt_def ASSERT_def using ad[of fu] ad[of fk] ad[of fd] by fastforce
qed

theorem pte_roundtrip_witness:
  "pg_ofs 0xc0123000 = 0 \<and> is_kernel_vaddr 0xc0123000 \<and>
   (\<exists>u. pte_create_user 0xc0123000 True = Some u \<and> pte_get_page u = Some 0xc0123000)"
proof -
  have 1: "pg_ofs 0xc0123000 = 0" "is_kernel_vaddr 0xc0123000"
    by (simp_all add: pg_ofs_def PGMASK_def BITMASK_def is_kernel_vaddr_def)
  show ?thesis using 1 pte_roundtrip[OF 1, of True] by blast
qed

text \<open>
  \<open>ptov\<close> and \<open>vtop\<close> are inverse to each other on the part of physical memory that is mapped: every
  physical address below 1 GB has a kernel address, and \<open>vtop\<close> of it is the physical
  address. From 1 GB on the assertion of \<open>ptov\<close> still holds, but the sum wraps and the result
  is not a kernel address.
\<close>

lemma ptov_vtop_inverse:
  "(pa < 0x40000000 \<longrightarrow> (\<exists>va. ptov pa = Some va \<and> is_kernel_vaddr va \<and> vtop va = Some pa)) \<and>
   (0x40000000 \<le> pa \<and> pa < PHYS_BASE \<longrightarrow> (\<exists>va. ptov pa = Some va \<and> is_user_vaddr va)) \<and>
   (is_kernel_vaddr va \<longrightarrow> (\<exists>pa. vtop va = Some pa \<and> ptov pa = Some va))"
proof (intro conjI impI)
  assume pa: "pa < 0x40000000"
  then have u: "unat (pa + PHYS_BASE) = unat pa + 3221225472" by (simp add: unat_word_ariths word_less_nat_alt)
  have "pa < PHYS_BASE" using pa by (simp add: word_less_nat_alt)
  then show "\<exists>va. ptov pa = Some va \<and> is_kernel_vaddr va \<and> vtop va = Some pa"
    using u by (simp add: ptov_def vtop_def is_kernel_vaddr_def word_le_nat_alt)
next
  assume pa: "0x40000000 \<le> pa \<and> pa < PHYS_BASE"
  then have "unat (pa + PHYS_BASE) = unat pa - 1073741824"
    using unat_lt_2p32[of pa] by (auto simp: unat_word_ariths word_less_nat_alt word_le_nat_alt mod_if)
  then show "\<exists>va. ptov pa = Some va \<and> is_user_vaddr va"
    using pa by (auto simp: ptov_def is_user_vaddr_def word_less_nat_alt)
next
  assume k: "is_kernel_vaddr va"
  show "\<exists>pa. vtop va = Some pa \<and> ptov pa = Some va" using vtop_kernel[OF k] ptov_vtop[OF k] by blast
qed

end
