(* ===== verification/Extents.thy ===== *)
theory Extents
  imports Prelude
begin

text \<open>
  The contract shared by the allocators of contiguous ranges: the page allocator, the free
  map of the disk and the swap area. An allocator hands out handles; the extent of a handle
  is a set of numbered units (pages, sectors). The laws are that a successful allocation
  returns units that were free, that a release of something handed out succeeds, and what
  both do to the set of units in use, and that a handle whose units are in use stays valid while others
  are allocated and released.

  What a client needs follows from the laws once and for all: whatever the order of
  allocations and releases, the live extents are pairwise disjoint, the units in use are
  those in use at the start and those of the live extents, and every live extent can be released.
\<close>

text \<open>The states a client can reach, with the list of handles that are live.\<close>

inductive alloc_runs ::
  "('s \<Rightarrow> 'n \<Rightarrow> ('s \<times> 'a option) option) \<Rightarrow> ('s \<Rightarrow> 'a \<Rightarrow> 'n \<Rightarrow> 's option) \<Rightarrow> ('n \<Rightarrow> bool) \<Rightarrow> 's \<Rightarrow> 's \<Rightarrow> ('a \<times> 'n) list \<Rightarrow> bool"
  for alloc release ok s0 where
  start: "alloc_runs alloc release ok s0 s0 []"
| got: "alloc_runs alloc release ok s0 s live \<Longrightarrow> ok n \<Longrightarrow> alloc s n = Some (s', Some a) \<Longrightarrow>
    alloc_runs alloc release ok s0 s' ((a, n) # live)"
| refused: "alloc_runs alloc release ok s0 s live \<Longrightarrow> ok n \<Longrightarrow> alloc s n = Some (s', None) \<Longrightarrow>
    alloc_runs alloc release ok s0 s' live"
| freed: "alloc_runs alloc release ok s0 s (us @ (a, n) # vs) \<Longrightarrow> release s a n = Some s' \<Longrightarrow>
    alloc_runs alloc release ok s0 s' (us @ vs)"

fun disjoint_list :: "'a set list \<Rightarrow> bool" where
  "disjoint_list [] \<longleftrightarrow> True"
| "disjoint_list (A # As) \<longleftrightarrow> A \<inter> \<Union> (set As) = {} \<and> disjoint_list As"

lemma disjoint_list_remove:
  "disjoint_list (us @ A # vs) \<longleftrightarrow> disjoint_list (us @ vs) \<and> A \<inter> \<Union> (set (us @ vs)) = {}"
  by (induction us) auto

locale extent_allocator =
  fixes inv :: "'s \<Rightarrow> bool"
    and used :: "'s \<Rightarrow> nat set"
    and ext :: "'a \<Rightarrow> 'n \<Rightarrow> nat set"
    and handle :: "'s \<Rightarrow> 'a \<Rightarrow> 'n \<Rightarrow> bool"
    and ok :: "'n \<Rightarrow> bool"
    and alloc :: "'s \<Rightarrow> 'n \<Rightarrow> ('s \<times> 'a option) option"
    and release :: "'s \<Rightarrow> 'a \<Rightarrow> 'n \<Rightarrow> 's option"
  assumes alloc_total: "inv s \<Longrightarrow> ok n \<Longrightarrow> \<exists>s' r. alloc s n = Some (s', r)"
    and alloc_inv: "inv s \<Longrightarrow> ok n \<Longrightarrow> alloc s n = Some (s', r) \<Longrightarrow> inv s'"
    and alloc_handle: "inv s \<Longrightarrow> ok n \<Longrightarrow> alloc s n = Some (s', r) \<Longrightarrow> handle s b k \<Longrightarrow>
      ext b k \<subseteq> used s \<Longrightarrow> handle s' b k"
    and alloc_None: "inv s \<Longrightarrow> ok n \<Longrightarrow> alloc s n = Some (s', None) \<Longrightarrow> used s' = used s"
    and alloc_Some: "inv s \<Longrightarrow> ok n \<Longrightarrow> alloc s n = Some (s', Some a) \<Longrightarrow>
      ext a n \<inter> used s = {} \<and> used s' = used s \<union> ext a n \<and> handle s' a n"
    and release_law: "inv s \<Longrightarrow> handle s a n \<Longrightarrow> ext a n \<subseteq> used s \<Longrightarrow>
      \<exists>s'. release s a n = Some s' \<and> inv s' \<and> used s' = used s - ext a n"
    and release_handle: "inv s \<Longrightarrow> handle s a n \<Longrightarrow> ext a n \<subseteq> used s \<Longrightarrow> release s a n = Some s' \<Longrightarrow>
      handle s b k \<Longrightarrow> ext b k \<subseteq> used s \<Longrightarrow> ext a n \<inter> ext b k = {} \<Longrightarrow> handle s' b k"
begin

definition live_ok :: "'s \<Rightarrow> 's \<Rightarrow> ('a \<times> 'n) list \<Rightarrow> bool" where
  "live_ok s0 s live \<longleftrightarrow> inv s \<and> disjoint_list (map (\<lambda>(a, n). ext a n) live) \<and>
     \<Union> (set (map (\<lambda>(a, n). ext a n) live)) \<inter> used s0 = {} \<and>
     used s = used s0 \<union> \<Union> (set (map (\<lambda>(a, n). ext a n) live)) \<and>
     (\<forall>a n. (a, n) \<in> set live \<longrightarrow> handle s a n)"

lemma live_release:
  assumes "live_ok s0 s (us @ (a, n) # vs)"
  shows "\<exists>s'. release s a n = Some s' \<and> live_ok s0 s' (us @ vs)"
proof -
  let ?E = "map (\<lambda>(a, n). ext a n)"
  have h: "inv s" "handle s a n" "ext a n \<subseteq> used s"
    using assms by (auto simp: live_ok_def)
  obtain s' where s': "release s a n = Some s'" "inv s'" "used s' = used s - ext a n"
    using release_law[OF h] by blast
  have d: "disjoint_list (?E us @ ext a n # ?E vs)" using assms by (simp add: live_ok_def)
  have "handle s' b k" if bk: "(b, k) \<in> set (us @ vs)" for b k
  proof (rule release_handle[OF h s'(1)])
    have "ext b k \<in> set (?E us @ ?E vs)" using bk by force
    then show "ext a n \<inter> ext b k = {}" using d unfolding disjoint_list_remove by auto
    show "ext b k \<subseteq> used s" using assms bk by (auto simp: live_ok_def)
    show "handle s b k" using assms bk by (auto simp: live_ok_def)
  qed
  moreover have "used s = used s0 \<union> (\<Union> (set (?E (us @ vs))) \<union> ext a n)" "ext a n \<inter> used s0 = {}"
    using assms by (auto simp: live_ok_def)
  ultimately show ?thesis
    using assms s' d unfolding disjoint_list_remove by (auto simp: live_ok_def)
qed

lemma runs_live_ok: "alloc_runs alloc release ok s0 s live \<Longrightarrow> inv s0 \<Longrightarrow> live_ok s0 s live"
proof (induction rule: alloc_runs.induct)
  case start
  then show ?case by (simp add: live_ok_def)
next
  case (got s live n s' a)
  then have l: "live_ok s0 s live" "inv s" by (simp_all add: live_ok_def)
  note a = alloc_Some[OF l(2) got.hyps(2,3)]
  have "handle s' b k" if "(b, k) \<in> set live" for b k
    by (rule alloc_handle[OF l(2) got.hyps(2,3)]) (use l(1) that in \<open>auto simp: live_ok_def\<close>)
  with l a alloc_inv[OF l(2) got.hyps(2,3)] show ?case by (auto simp: live_ok_def)
next
  case (refused s live n s')
  then have l: "live_ok s0 s live" "inv s" by (simp_all add: live_ok_def)
  have "handle s' b k" if "(b, k) \<in> set live" for b k
    by (rule alloc_handle[OF l(2) refused.hyps(2,3)]) (use l(1) that in \<open>auto simp: live_ok_def\<close>)
  with l show ?case
    using alloc_None[OF l(2) refused.hyps(2,3)] alloc_inv[OF l(2) refused.hyps(2,3)] by (auto simp: live_ok_def)
next
  case (freed s us a n vs s')
  then show ?case using live_release[of s0 s us a n vs] by auto
qed

end

end
