(* ===== verification/Swap.thy ===== *)
theory Swap
  imports Klist_Order Disk Vaddr Extents
begin

text \<open>
  The swap area: \<open>src/vm/swap.c\<close>. The state is the list of free extents, kept in the order
  \<open>list_insert_ordered\<close> gives it, and the swap disk. Swapping a page out takes the first extent with room for a
  page and writes eight sectors; swapping it in reads them back and returns the slot to the list, merged with
  its neighbours. The results of \<open>malloc\<close> are arguments: the code uses them unchecked, so a null result
  is a fault. \<open>swap_lock\<close> makes the two list operations atomic.

  The list of free extents is the one of \<open>list.c\<close> at the level of its elements; the theory of lists shows that
  the pointer operations used here (insert in order, remove, next, previous) act on the elements this way.
\<close>

section \<open>The code\<close>

abbreviation SECTORS_PER_FRAME :: "32 word" where "SECTORS_PER_FRAME \<equiv> 8"

record free_slot =
  fss_start :: disk_sector_t
  fss_size :: size_t

record swap_slot =
  ss_start :: disk_sector_t

record swap_state =
  free_swap_list :: "free_slot list"
  swap_disk :: disk

definition swap_slot_less :: "free_slot \<Rightarrow> free_slot \<Rightarrow> bool" where
  "swap_slot_less a b = (fss_start a < fss_start b)"

definition swap_init :: "disk option \<Rightarrow> bool \<Rightarrow> swap_state option" where
  "swap_init disk_1_1 malloc_ok = do {
     ASSERT malloc_ok;
     d \<leftarrow> disk_1_1;
     Some \<lparr>free_swap_list = ordered_insert swap_slot_less \<lparr>fss_start = 0, fss_size = disk_size d\<rparr> [], swap_disk = d\<rparr>
   }"

definition alloc_swap_slot :: "swap_state \<Rightarrow> swap_state \<times> disk_sector_t" where
  "alloc_swap_slot s =
     (let before = takeWhile (\<lambda>f. \<not> fss_size f \<ge> SECTORS_PER_FRAME) (free_swap_list s)
      in case dropWhile (\<lambda>f. \<not> fss_size f \<ge> SECTORS_PER_FRAME) (free_swap_list s) of
           [] \<Rightarrow> (s, disk_size (swap_disk s) + 1)
         | free_ss # after \<Rightarrow>
             (if fss_size free_ss = SECTORS_PER_FRAME then s\<lparr>free_swap_list := before @ after\<rparr>
              else s\<lparr>free_swap_list := before @
                free_ss\<lparr>fss_start := fss_start free_ss + SECTORS_PER_FRAME, fss_size := fss_size free_ss - SECTORS_PER_FRAME\<rparr> # after\<rparr>,
              fss_start free_ss))"

text \<open>
  Inserting the slot into the list splits it in the part before and the part after the new element
  (\<open>list_insert_ordered\<close>); the element after it and the one before it are then merged with it where they touch.
\<close>

definition merge_right :: "free_slot \<Rightarrow> free_slot list \<Rightarrow> free_slot \<times> free_slot list" where
  "merge_right free_ss after = (case after of
       [] \<Rightarrow> (free_ss, [])
     | temp_free_ss # rest \<Rightarrow>
         if fss_start free_ss + fss_size free_ss = fss_start temp_free_ss
         then (free_ss\<lparr>fss_size := fss_size free_ss + fss_size temp_free_ss\<rparr>, rest)
         else (free_ss, after))"

definition merge_left :: "free_slot list \<Rightarrow> free_slot \<Rightarrow> free_slot list" where
  "merge_left before free_ss = (if before = [] then [free_ss] else
     let temp_free_ss = last before
     in if fss_start free_ss = fss_start temp_free_ss + fss_size temp_free_ss
        then butlast before @ [temp_free_ss\<lparr>fss_size := fss_size temp_free_ss + fss_size free_ss\<rparr>]
        else before @ [free_ss])"

definition free_swap_slot :: "swap_state \<Rightarrow> bool \<Rightarrow> swap_slot \<Rightarrow> swap_state option" where
  "free_swap_slot s malloc_ok ss = do {
     ASSERT malloc_ok;
     let free_ss = \<lparr>fss_start = ss_start ss, fss_size = SECTORS_PER_FRAME\<rparr>;
     let before = takeWhile (\<lambda>f. \<not> swap_slot_less free_ss f) (free_swap_list s);
     let after = dropWhile (\<lambda>f. \<not> swap_slot_less free_ss f) (free_swap_list s);
     let (free_ss, after) = merge_right free_ss after;
     Some (s\<lparr>free_swap_list := merge_left before free_ss @ after\<rparr>)
   }"

text \<open>The transfer loops; \<open>pos\<close> stays between 0 and \<open>PGSIZE\<close>.\<close>

function swap_read_loop :: "disk \<Rightarrow> mem \<Rightarrow> disk_sector_t \<Rightarrow> ptr \<Rightarrow> int \<Rightarrow> (disk \<times> mem) option" where
  "swap_read_loop d m start frame pos =
     (if pos < uint PGSIZE then do {
        (d, m) \<leftarrow> disk_read d m start (frame + of_int pos);
        swap_read_loop d m (start + 1) frame (pos + uint DISK_SECTOR_SIZE)
      } else Some (d, m))"
  by pat_completeness auto
termination by (relation "measure (\<lambda>(d, m, start, frame, pos). nat (uint PGSIZE - pos))") auto

function swap_write_loop :: "disk \<Rightarrow> mem \<Rightarrow> disk_sector_t \<Rightarrow> ptr \<Rightarrow> int \<Rightarrow> disk option" where
  "swap_write_loop d m start frame pos =
     (if pos < uint PGSIZE then do {
        d \<leftarrow> disk_write d m start (frame + of_int pos);
        swap_write_loop d m (start + 1) frame (pos + uint DISK_SECTOR_SIZE)
      } else Some d)"
  by pat_completeness auto
termination by (relation "measure (\<lambda>(d, m, start, frame, pos). nat (uint PGSIZE - pos))") auto

declare swap_read_loop.simps [simp del] swap_write_loop.simps [simp del]

definition swap_slot_read :: "swap_state \<Rightarrow> bool \<Rightarrow> mem \<Rightarrow> ptr \<Rightarrow> swap_slot \<Rightarrow> (swap_state \<times> mem \<times> bool) option" where
  "swap_slot_read s malloc_ok m frame ss =
     (if frame = NULL then Some (s, m, False)
      else do {
        (d, m) \<leftarrow> swap_read_loop (swap_disk s) m (ss_start ss) frame 0;
        s \<leftarrow> free_swap_slot (s\<lparr>swap_disk := d\<rparr>) malloc_ok ss;
        Some (s, m, True)
      })"

definition swap_slot_write :: "swap_state \<Rightarrow> bool \<Rightarrow> mem \<Rightarrow> ptr \<Rightarrow> (swap_state \<times> swap_slot option) option" where
  "swap_slot_write s malloc_ok m frame =
     (if frame \<noteq> NULL then
        let (s, start) = alloc_swap_slot s
        in if start \<noteq> disk_size (swap_disk s) + 1 then do {
             ASSERT malloc_ok;
             d \<leftarrow> swap_write_loop (swap_disk s) m start frame 0;
             Some (s\<lparr>swap_disk := d\<rparr>, Some \<lparr>ss_start = start\<rparr>)
           } else Some (s, None)
      else Some (s, None))"

section \<open>Whole pages\<close>

definition slot_data :: "disk \<Rightarrow> disk_sector_t \<Rightarrow> uint8 list" where
  "slot_data d a = concat (map (\<lambda>i. sectors d (a + of_nat i)) [0..<8])"

definition slot_sectors :: "disk_sector_t \<Rightarrow> nat set" where
  "slot_sectors a = {unat a..<unat a + 8}"

lemma slot_sector: "unat a + 8 \<le> unat (capacity d) \<Longrightarrow> i < 8 \<Longrightarrow> a + of_nat i < capacity d"
  using unat_lt_2p32[of "capacity d"] unat_of_nat32[of i] by (simp add: word_less_nat_alt unat_word_ariths)

lemma swap_read_loop_from:
  assumes "k \<le> 8"
  shows "unat a + 8 \<le> unat (capacity d) \<Longrightarrow> nonnull p n \<Longrightarrow> 4096 \<le> n \<Longrightarrow> disk_ok d \<Longrightarrow>
   swap_read_loop d m (a + of_nat k) p (512 * int k) =
     Some (d\<lparr>read_cnt := read_cnt d + of_nat (8 - k)\<rparr>,
           write_bytes m (p + of_nat (512 * k)) (concat (map (\<lambda>i. sectors d (a + of_nat i)) [k..<8])))"
  using assms
proof (induction k arbitrary: d m rule: inc_induct)
  case base
  then show ?case by (simp add: swap_read_loop.simps)
next
  case (step k)
  let ?d = "d\<lparr>read_cnt := read_cnt d + 1\<rparr>"
  have nn: "p + of_nat (512 * k) \<noteq> NULL" using step by (simp add: nonnull_def del: of_nat_mult)
  have lt: "a + of_nat k < capacity d" using slot_sector step by simp
  have r: "disk_read d m (a + of_nat k) (p + of_int (512 * int k)) =
      Some (?d, write_bytes m (p + of_nat (512 * k)) (sectors d (a + of_nat k)))"
    using disk_read_eval[OF lt _ _ nn] step.prems by (simp add: disk_ok_def)
  have c: "[k..<8] = k # [Suc k..<8]" using step by (simp add: upt_conv_Cons)
  have cnt: "read_cnt d + 1 + of_nat (8 - Suc k) = read_cnt d + of_nat (8 - k)"
    using Suc_diff_Suc[OF step.hyps(2)] by (metis add.assoc of_nat_Suc)
  have ps: "p + of_nat (512 * k) + of_nat (length (sectors d (a + of_nat k))) = p + of_nat (512 * Suc k)"
    using step.prems by (simp add: disk_ok_def add_ac)
  have "swap_read_loop ?d (write_bytes m (p + of_nat (512 * k)) (sectors d (a + of_nat k))) (a + of_nat (Suc k)) p (512 * int (Suc k)) =
      Some (?d\<lparr>read_cnt := read_cnt d + of_nat (8 - k)\<rparr>,
        write_bytes (write_bytes m (p + of_nat (512 * k)) (sectors d (a + of_nat k))) (p + of_nat (512 * Suc k))
          (concat (map (\<lambda>i. sectors d (a + of_nat i)) [Suc k..<8])))"
    using step.IH[of ?d] step.prems cnt by (simp add: disk_ok_def)
  moreover have "512 * int k < uint PGSIZE" "a + of_nat k + 1 = a + of_nat (Suc k)" "512 * int k + uint DISK_SECTOR_SIZE = 512 * int (Suc k)"
    using step.hyps by simp_all
  ultimately show ?case
    by (subst swap_read_loop.simps) (simp only: if_True r bind.bind_lunit prod.case c list.map concat.simps write_bytes_append ps, simp)
qed

lemma swap_write_loop_from:
  assumes "k \<le> 8"
  shows "unat a + 8 \<le> unat (capacity d) \<Longrightarrow> nonnull p n \<Longrightarrow> 4096 \<le> n \<Longrightarrow> disk_ok d \<Longrightarrow>
   \<exists>d'. swap_write_loop d m (a + of_nat k) p (512 * int k) = Some d' \<and> capacity d' = capacity d \<and> disk_ok d' \<and>
     (\<forall>i. k \<le> i \<and> i < 8 \<longrightarrow> sectors d' (a + of_nat i) = read_bytes m (p + of_nat (512 * i)) 512) \<and>
     (\<forall>s. (\<forall>i. k \<le> i \<and> i < 8 \<longrightarrow> s \<noteq> a + of_nat i) \<longrightarrow> sectors d' s = sectors d s)"
  using assms
proof (induction k arbitrary: d rule: inc_induct)
  case base
  then show ?case by (auto simp: swap_write_loop.simps)
next
  case (step k)
  let ?b = "read_bytes m (p + of_nat (512 * k)) 512"
  let ?d = "d\<lparr>sectors := (sectors d)(a + of_nat k := ?b), write_cnt := write_cnt d + 1\<rparr>"
  have nn: "p + of_nat (512 * k) \<noteq> NULL" using step by (simp add: nonnull_def del: of_nat_mult)
  have lt: "a + of_nat k < capacity d" using slot_sector step by simp
  have r: "disk_write d m (a + of_nat k) (p + of_int (512 * int k)) = Some ?d"
    using disk_write_eval[OF lt _ _ nn] step.prems by (simp add: disk_ok_def)
  have ok: "disk_ok ?d" "capacity ?d = capacity d" using step.prems by (auto simp: disk_ok_def)
  obtain d' where d': "swap_write_loop ?d m (a + of_nat (Suc k)) p (512 * int (Suc k)) = Some d'"
    "capacity d' = capacity d" "disk_ok d'"
    "\<And>i. Suc k \<le> i \<and> i < 8 \<Longrightarrow> sectors d' (a + of_nat i) = read_bytes m (p + of_nat (512 * i)) 512"
    "\<And>s. (\<And>i. Suc k \<le> i \<and> i < 8 \<Longrightarrow> s \<noteq> a + of_nat i) \<Longrightarrow> sectors d' s = sectors ?d s"
    using step.IH[of ?d] step.prems ok by metis
  have e: "512 * int k < uint PGSIZE" "a + of_nat k + 1 = a + of_nat (Suc k)" "512 * int k + uint DISK_SECTOR_SIZE = 512 * int (Suc k)"
    using step.hyps by simp_all
  have w: "swap_write_loop d m (a + of_nat k) p (512 * int k) = Some d'"
    by (subst swap_write_loop.simps) (simp only: e if_True r bind.bind_lunit d'(1))
  have k: "sectors d' (a + of_nat k) = ?b"
  proof -
    have "a + of_nat k \<noteq> a + of_nat i" if "Suc k \<le> i \<and> i < 8" for i
      using that of_nat_inj32[of k i] step.hyps by simp
    then show ?thesis using d'(5)[of "a + of_nat k"] by simp
  qed
  have "sectors d' (a + of_nat i) = read_bytes m (p + of_nat (512 * i)) 512" if "k \<le> i" "i < 8" for i
    using that k d'(4)[of i] by (cases "i = k") auto
  moreover have "sectors d' s = sectors d s" if "\<forall>i. k \<le> i \<and> i < 8 \<longrightarrow> s \<noteq> a + of_nat i" for s
    using that d'(5)[of s] step.hyps by auto
  ultimately show ?case using w d'(2,3) by blast
qed

lemma read_bytes_sectors: "concat (map (\<lambda>i. read_bytes m (p + of_nat (512 * i)) 512) [0..<n]) = read_bytes m p (512 * n)"
proof (induction n)
  case (Suc n)
  then show ?case using read_bytes_append[of m p "512 * n" 512] by (simp add: add.commute)
qed simp

lemma swap_write_loop_eval:
  assumes "unat a + 8 \<le> unat (capacity d)" and "nonnull p 4096" and "disk_ok d"
  obtains d' where "swap_write_loop d m a p 0 = Some d'" "capacity d' = capacity d" "disk_ok d'"
    "slot_data d' a = read_bytes m p 4096" "\<And>s. unat s \<notin> slot_sectors a \<Longrightarrow> sectors d' s = sectors d s"
proof -
  obtain d' where d': "swap_write_loop d m a p 0 = Some d'" "capacity d' = capacity d" "disk_ok d'"
    "\<And>i. i < 8 \<Longrightarrow> sectors d' (a + of_nat i) = read_bytes m (p + of_nat (512 * i)) 512"
    "\<And>s. (\<And>i. i < 8 \<Longrightarrow> s \<noteq> a + of_nat i) \<Longrightarrow> sectors d' s = sectors d s"
    using swap_write_loop_from[OF _ assms(1,2) _ assms(3), of 0 m] by auto
  have "slot_data d' a = concat (map (\<lambda>i. read_bytes m (p + of_nat (512 * i)) 512) [0..<8])"
    unfolding slot_data_def using d'(4) by (intro arg_cong[where f = concat] map_cong) simp_all
  then have data: "slot_data d' a = read_bytes m p 4096" using read_bytes_sectors[of m p 8] by simp
  have "sectors d' s = sectors d s" if "unat s \<notin> slot_sectors a" for s
  proof (rule d'(5))
    fix i :: nat assume "i < 8"
    then have "unat (a + of_nat i) = unat a + i"
      using assms(1) unat_lt_2p32[of "capacity d"] unat_of_nat32[of i] by (simp add: unat_word_ariths)
    then show "s \<noteq> a + of_nat i" using that \<open>i < 8\<close> by (auto simp: slot_sectors_def)
  qed
  with d'(1-3) data that show ?thesis by blast
qed

lemma swap_read_loop_eval:
  assumes "unat a + 8 \<le> unat (capacity d)" and "nonnull p 4096" and "disk_ok d"
  shows "swap_read_loop d m a p 0 = Some (d\<lparr>read_cnt := read_cnt d + 8\<rparr>, write_bytes m p (slot_data d a))"
  using swap_read_loop_from[OF _ assms(1,2) _ assms(3), of 0 m] unfolding slot_data_def by simp

lemma slot_data_cong:
  assumes "unat a + 8 \<le> 2 ^ 32" and "\<And>s. unat s \<in> slot_sectors a \<Longrightarrow> sectors d' s = sectors d s"
  shows "slot_data d' a = slot_data d a"
proof -
  have "sectors d' (a + of_nat i) = sectors d (a + of_nat i)" if "i < 8" for i
  proof (rule assms(2))
    show "unat (a + of_nat i) \<in> slot_sectors a"
      using that assms(1) unat_of_nat32[of i] by (simp add: slot_sectors_def unat_word_ariths)
  qed
  then show ?thesis unfolding slot_data_def by (intro arg_cong[where f = concat] map_cong) simp_all
qed

section \<open>The free list\<close>

text \<open>
  The free list holds nonempty extents inside the disk in increasing order, and no two of them touch:
  the free space is always fully coalesced.
\<close>

fun free_wf :: "nat \<Rightarrow> nat \<Rightarrow> free_slot list \<Rightarrow> bool" where
  "free_wf lo cap [] \<longleftrightarrow> True"
| "free_wf lo cap (f # fs) \<longleftrightarrow> lo \<le> unat (fss_start f) \<and> fss_size f \<noteq> 0 \<and>
     unat (fss_start f) + unat (fss_size f) \<le> cap \<and> free_wf (Suc (unat (fss_start f) + unat (fss_size f))) cap fs"

abbreviation fss_sectors :: "free_slot \<Rightarrow> nat set" where
  "fss_sectors f \<equiv> {unat (fss_start f)..<unat (fss_start f) + unat (fss_size f)}"

definition free_sectors :: "free_slot list \<Rightarrow> nat set" where
  "free_sectors fs = (\<Union>f\<in>set fs. fss_sectors f)"

lemma free_sectors_simps [simp]:
  "free_sectors [] = {}" "free_sectors (f # fs) = fss_sectors f \<union> free_sectors fs"
  "free_sectors (fs @ gs) = free_sectors fs \<union> free_sectors gs"
  by (simp_all add: free_sectors_def)

lemma free_wf_mono: "free_wf lo cap fs \<Longrightarrow> lo' \<le> lo \<Longrightarrow> free_wf lo' cap fs"
  by (cases fs) auto

lemma free_wf_bounds: "free_wf lo cap fs \<Longrightarrow> free_sectors fs \<subseteq> {lo..<cap}"
proof (induction fs arbitrary: lo)
  case (Cons f fs)
  then have "free_sectors fs \<subseteq> {Suc (unat (fss_start f) + unat (fss_size f))..<cap}" by simp
  then show ?case using Cons.prems by fastforce
qed simp

definition swap_wf :: "swap_state \<Rightarrow> bool" where
  "swap_wf s \<longleftrightarrow> disk_ok (swap_disk s) \<and> free_wf 0 (unat (capacity (swap_disk s))) (free_swap_list s)"

definition swap_used :: "swap_state \<Rightarrow> nat set" where
  "swap_used s = {0..<unat (capacity (swap_disk s))} - free_sectors (free_swap_list s)"

fun free_hi :: "nat \<Rightarrow> free_slot list \<Rightarrow> nat" where
  "free_hi lo [] = lo"
| "free_hi lo (f # fs) = free_hi (Suc (unat (fss_start f) + unat (fss_size f))) fs"

lemma free_wf_append: "free_wf lo cap (fs @ gs) \<longleftrightarrow> free_wf lo cap fs \<and> free_wf (free_hi lo fs) cap gs"
  by (induction fs arbitrary: lo) auto

lemma free_hi_snoc [simp]: "free_hi lo (fs @ [f]) = Suc (unat (fss_start f) + unat (fss_size f))"
  by (induction fs arbitrary: lo) auto

lemma free_wf_sectors_hi: "free_wf lo cap fs \<Longrightarrow> free_sectors fs \<subseteq> {lo..<free_hi lo fs} \<and> lo \<le> free_hi lo fs"
proof (induction fs arbitrary: lo)
  case (Cons f fs)
  then have "free_sectors fs \<subseteq> {Suc (unat (fss_start f) + unat (fss_size f))..<free_hi lo (f # fs)}"
    "Suc (unat (fss_start f) + unat (fss_size f)) \<le> free_hi lo (f # fs)" by simp_all
  then show ?case using Cons.prems by fastforce
qed simp

lemma fss_size_pos: "fss_size f \<noteq> 0 \<longleftrightarrow> 0 < unat (fss_size f)"
  using unat_gt_0 by blast

lemma alloc_swap_slot_cases:
  assumes "swap_wf s"
  obtains (full) "alloc_swap_slot s = (s, disk_size (swap_disk s) + 1)" "\<forall>f\<in>set (free_swap_list s). unat (fss_size f) < 8"
  | (got) fs a where "alloc_swap_slot s = (s\<lparr>free_swap_list := fs\<rparr>, a)" "unat a + 8 \<le> unat (capacity (swap_disk s))"
      "free_wf 0 (unat (capacity (swap_disk s))) fs" "slot_sectors a \<subseteq> free_sectors (free_swap_list s)"
      "free_sectors fs = free_sectors (free_swap_list s) - slot_sectors a"
proof -
  let ?cap = "unat (capacity (swap_disk s))"
  let ?P = "\<lambda>f. \<not> fss_size f \<ge> SECTORS_PER_FRAME"
  let ?before = "takeWhile ?P (free_swap_list s)"
  show ?thesis
  proof (cases "dropWhile ?P (free_swap_list s)")
    case Nil
    then have "\<forall>f\<in>set (free_swap_list s). ?P f" by (simp add: dropWhile_eq_Nil_conv)
    then have "\<forall>f\<in>set (free_swap_list s). unat (fss_size f) < 8" by (simp add: word_le_nat_alt not_le)
    moreover have "alloc_swap_slot s = (s, disk_size (swap_disk s) + 1)" unfolding alloc_swap_slot_def Nil by simp
    ultimately show ?thesis using full by blast
  next
    case (Cons f after)
    then have fl: "free_swap_list s = ?before @ f # after" by (metis takeWhile_dropWhile_id)
    have sz: "8 \<le> unat (fss_size f)" using Cons hd_dropWhile[of ?P "free_swap_list s"] by (simp add: word_le_nat_alt)
    have wf: "free_wf 0 ?cap (?before @ f # after)" using assms fl by (simp add: swap_wf_def)
    let ?f = "f\<lparr>fss_start := fss_start f + 8, fss_size := fss_size f - 8\<rparr>"
    let ?fs = "if fss_size f = 8 then ?before @ after else ?before @ ?f # after"
    have end_le: "unat (fss_start f) + unat (fss_size f) \<le> ?cap" using wf by (simp add: free_wf_append)
    have st: "unat (fss_start f + 8) = unat (fss_start f) + 8"
      using end_le sz unat_lt_2p32[of "capacity (swap_disk s)"] by (simp add: unat_word_ariths)
    have sb: "unat (fss_size f - 8) = unat (fss_size f) - 8" using sz by (simp add: unat_sub word_le_nat_alt)
    have e: "fss_size f = 8 \<longleftrightarrow> unat (fss_size f) = 8" by (simp add: unat_eq_of_nat32[of 8])
    have hi: "free_hi 0 ?before \<le> unat (fss_start f)" "free_wf (Suc (unat (fss_start f) + unat (fss_size f))) ?cap after"
      using wf by (auto simp: free_wf_append)
    have w: "free_wf 0 ?cap ?fs"
    proof (cases "fss_size f = 8")
      case True
      then show ?thesis using wf hi by (auto simp: free_wf_append intro: free_wf_mono)
    next
      case False
      then have "fss_size ?f \<noteq> 0" using sb sz e unat_gt_0[of "fss_size f - 8"] by simp
      then show ?thesis using wf hi False st sb sz by (auto simp: free_wf_append)
    qed
    have lo: "free_sectors ?before \<subseteq> {0..<unat (fss_start f)}"
      using free_wf_sectors_hi[of 0 ?cap ?before] wf hi by (fastforce simp: free_wf_append)
    have up: "free_sectors after \<subseteq> {unat (fss_start f) + unat (fss_size f)..}"
      using free_wf_bounds[OF hi(2)] by fastforce
    have "free_sectors ?fs = free_sectors (?before @ f # after) - slot_sectors (fss_start f)"
      using lo up sz st sb e by (auto simp: slot_sectors_def)
    moreover have "slot_sectors (fss_start f) \<subseteq> free_sectors (?before @ f # after)"
      using sz by (auto simp: slot_sectors_def)
    moreover have "alloc_swap_slot s = (s\<lparr>free_swap_list := ?fs\<rparr>, fss_start f)"
      unfolding alloc_swap_slot_def Cons by simp
    ultimately show ?thesis using got[of ?fs "fss_start f"] w fl end_le sz by simp
  qed
qed

lemma merge_right_wf:
  assumes "merge_right g after = (g', after')" and "free_wf lo cap after" and "after = [] \<or> unat (fss_start g) + unat (fss_size g) \<le> unat (fss_start (hd after))"
    and "unat (fss_start g) + unat (fss_size g) \<le> cap" and "fss_size g \<noteq> 0" and "cap < 2 ^ 32"
  shows "fss_start g' = fss_start g \<and> fss_size g' \<noteq> 0 \<and> unat (fss_start g') + unat (fss_size g') \<le> cap \<and>
    free_wf (Suc (unat (fss_start g') + unat (fss_size g'))) cap after' \<and>
    fss_sectors g' \<union> free_sectors after' = fss_sectors g \<union> free_sectors after"
proof (cases after)
  case Nil
  then show ?thesis using assms by (simp add: merge_right_def)
next
  case (Cons t ts)
  have ends: "unat (fss_start g + fss_size g) = unat (fss_start g) + unat (fss_size g)"
    using assms(4,6) by (simp add: unat_word_ariths)
  show ?thesis
  proof (cases "fss_start g + fss_size g = fss_start t")
    case True
    have ut: "unat (fss_start t) = unat (fss_start g) + unat (fss_size g)" using True ends by simp
    have "unat (fss_size g + fss_size t) = unat (fss_size g) + unat (fss_size t)"
      using assms(2,6) ut Cons by (simp add: unat_word_ariths)
    moreover have "fss_size g + fss_size t \<noteq> 0"
      using calculation assms(5) by (metis add_is_0 unat_0 unat_eq_zero)
    moreover have "g' = g\<lparr>fss_size := fss_size g + fss_size t\<rparr>" "after' = ts"
      using assms(1) Cons True by (auto simp: merge_right_def)
    ultimately show ?thesis using assms(2) Cons ut by (auto simp: ivl_disj_un add.assoc)
  next
    case False
    then have "unat (fss_start g) + unat (fss_size g) \<noteq> unat (fss_start t)" using ends by (metis word_unat_eq_iff)
    moreover have "g' = g" "after' = after" using assms(1) Cons False by (auto simp: merge_right_def)
    ultimately show ?thesis using assms Cons by auto
  qed
qed

lemma merge_left_wf:
  assumes "free_wf lo cap before" and "\<forall>f\<in>set before. unat (fss_start f) + unat (fss_size f) \<le> unat (fss_start g)"
    and "lo \<le> unat (fss_start g)" and "fss_size g \<noteq> 0" and "unat (fss_start g) + unat (fss_size g) \<le> cap" and "cap < 2 ^ 32"
  shows "free_wf lo cap (merge_left before g) \<and> free_hi lo (merge_left before g) = Suc (unat (fss_start g) + unat (fss_size g)) \<and>
    free_sectors (merge_left before g) = free_sectors before \<union> fss_sectors g"
proof (cases before rule: rev_cases)
  case Nil
  then show ?thesis using assms by (simp add: merge_left_def)
next
  case (snoc bs t)
  have t: "unat (fss_start t) + unat (fss_size t) \<le> unat (fss_start g)" using assms(2) snoc by simp
  then have ends: "unat (fss_start t + fss_size t) = unat (fss_start t) + unat (fss_size t)"
    using unat_lt_2p32[of "fss_start g"] by (simp add: unat_word_ariths)
  show ?thesis
  proof (cases "fss_start g = fss_start t + fss_size t")
    case True
    then have ug: "unat (fss_start g) = unat (fss_start t) + unat (fss_size t)" using ends by simp
    then have us: "unat (fss_size t + fss_size g) = unat (fss_size t) + unat (fss_size g)"
      using assms(5,6) by (simp add: unat_word_ariths)
    then have "fss_size t + fss_size g \<noteq> 0" using assms(4) by (metis add_is_0 unat_0 unat_eq_zero)
    moreover have "merge_left before g = bs @ [t\<lparr>fss_size := fss_size t + fss_size g\<rparr>]"
      using True snoc by (simp add: merge_left_def)
    ultimately show ?thesis using assms(1,5) snoc ug us by (auto simp: free_wf_append)
  next
    case False
    then have "unat (fss_start g) \<noteq> unat (fss_start t) + unat (fss_size t)" using ends by (metis word_unat_eq_iff)
    moreover have "merge_left before g = bs @ [t, g]" using False snoc by (simp add: merge_left_def)
    ultimately show ?thesis using assms snoc t free_hi_snoc[of lo "bs @ [t]" g] by (auto simp: free_wf_append)
  qed
qed

interpretation swap_order: strict_weak_order swap_slot_less
  by unfold_locales (auto simp: swap_slot_less_def)

lemma free_wf_nondecreasing: "free_wf lo cap fs \<Longrightarrow> sorted_wrt (\<lambda>a b. \<not> swap_slot_less b a) fs"
proof (induction fs arbitrary: lo)
  case (Cons f fs)
  then have "free_wf (Suc (unat (fss_start f) + unat (fss_size f))) cap fs" by simp
  then have "\<forall>g\<in>set fs. unat (fss_start f) \<le> unat (fss_start g)"
  proof (induction fs arbitrary: f)
    case (Cons g gs)
    then show ?case by fastforce
  qed simp
  then show ?case using Cons by (auto simp: swap_slot_less_def word_less_nat_alt)
qed simp

text \<open>The split that \<open>list_insert_ordered\<close> makes for a slot that is not free.\<close>

lemma insert_split:
  assumes "free_wf lo cap fs" and "slot_sectors (fss_start g) \<inter> free_sectors fs = {}" and "fss_size g = 8"
  shows "(\<forall>f\<in>set (takeWhile (\<lambda>f. \<not> swap_slot_less g f) fs). unat (fss_start f) + unat (fss_size f) \<le> unat (fss_start g)) \<and>
    (dropWhile (\<lambda>f. \<not> swap_slot_less g f) fs = [] \<or>
     unat (fss_start g) + unat (fss_size g) \<le> unat (fss_start (hd (dropWhile (\<lambda>f. \<not> swap_slot_less g f) fs))))"
  using assms(1,2)
proof (induction fs arbitrary: lo)
  case (Cons f fs)
  have IH: "(\<forall>f\<in>set (takeWhile (\<lambda>f. \<not> swap_slot_less g f) fs). unat (fss_start f) + unat (fss_size f) \<le> unat (fss_start g)) \<and>
    (dropWhile (\<lambda>f. \<not> swap_slot_less g f) fs = [] \<or>
     unat (fss_start g) + unat (fss_size g) \<le> unat (fss_start (hd (dropWhile (\<lambda>f. \<not> swap_slot_less g f) fs))))"
    by (rule Cons.IH) (use Cons.prems in auto)
  have d: "slot_sectors (fss_start g) \<inter> fss_sectors f = {}" and p: "0 < unat (fss_size f)"
    using Cons.prems by (auto simp: fss_size_pos)
  have "unat (fss_start g) + 8 \<le> unat (fss_start f)" if "unat (fss_start g) < unat (fss_start f)"
  proof (rule ccontr)
    assume "\<not> ?thesis"
    then have "unat (fss_start f) \<in> slot_sectors (fss_start g) \<inter> fss_sectors f" using that p by (simp add: slot_sectors_def)
    with d show False by blast
  qed
  moreover have "unat (fss_start f) + unat (fss_size f) \<le> unat (fss_start g)" if "\<not> unat (fss_start g) < unat (fss_start f)"
  proof (rule ccontr)
    assume "\<not> ?thesis"
    then have "unat (fss_start g) \<in> slot_sectors (fss_start g) \<inter> fss_sectors f" using that by (simp add: slot_sectors_def)
    with d show False by blast
  qed
  ultimately show ?case using IH assms(3) by (simp add: swap_slot_less_def word_less_nat_alt)
qed simp

lemma free_swap_slot_eval:
  assumes "swap_wf s" and "unat a + 8 \<le> unat (capacity (swap_disk s))" and "slot_sectors a \<inter> free_sectors (free_swap_list s) = {}"
  obtains fs where "free_swap_slot s True \<lparr>ss_start = a\<rparr> = Some (s\<lparr>free_swap_list := fs\<rparr>)"
    "free_wf 0 (unat (capacity (swap_disk s))) fs" "free_sectors fs = free_sectors (free_swap_list s) \<union> slot_sectors a"
proof -
  let ?cap = "unat (capacity (swap_disk s))" and ?fl = "free_swap_list s"
  let ?g = "\<lparr>fss_start = a, fss_size = 8\<rparr>"
  let ?b = "takeWhile (\<lambda>f. \<not> swap_slot_less ?g f) ?fl" and ?a = "dropWhile (\<lambda>f. \<not> swap_slot_less ?g f) ?fl"
  obtain g' after' where m: "merge_right ?g ?a = (g', after')" by fastforce
  have "free_wf 0 ?cap (?b @ ?a)" using assms(1) by (simp add: swap_wf_def)
  then have wf: "free_wf 0 ?cap ?b" "free_wf (free_hi 0 ?b) ?cap ?a" unfolding free_wf_append by blast+
  have cap: "?cap < 2 ^ 32" by (rule unat_lt_2p32)
  have sp: "\<forall>f\<in>set ?b. unat (fss_start f) + unat (fss_size f) \<le> unat (fss_start ?g)"
    "?a = [] \<or> unat (fss_start ?g) + unat (fss_size ?g) \<le> unat (fss_start (hd ?a))"
    using insert_split[of 0 ?cap ?fl ?g] assms by (auto simp: swap_wf_def)
  have r: "fss_start g' = fss_start ?g \<and> fss_size g' \<noteq> 0 \<and> unat (fss_start g') + unat (fss_size g') \<le> ?cap \<and>
      free_wf (Suc (unat (fss_start g') + unat (fss_size g'))) ?cap after' \<and>
      fss_sectors g' \<union> free_sectors after' = fss_sectors ?g \<union> free_sectors ?a"
    by (rule merge_right_wf[OF m wf(2) sp(2) _ _ cap]) (use assms(2) in simp_all)
  have l: "free_wf 0 ?cap (merge_left ?b g') \<and> free_hi 0 (merge_left ?b g') = Suc (unat (fss_start g') + unat (fss_size g')) \<and>
      free_sectors (merge_left ?b g') = free_sectors ?b \<union> fss_sectors g'"
    by (rule merge_left_wf) (use wf(1) sp(1) r cap in auto)
  have "free_sectors (merge_left ?b g' @ after') = (free_sectors ?b \<union> free_sectors ?a) \<union> slot_sectors a"
    using l conjunct2[OF conjunct2[OF conjunct2[OF conjunct2[OF r]]]] by (auto simp: slot_sectors_def)
  then have "free_sectors (merge_left ?b g' @ after') = free_sectors (?b @ ?a) \<union> slot_sectors a"
    by (simp only: free_sectors_simps)
  moreover have "free_wf 0 ?cap (merge_left ?b g' @ after')" using l r unfolding free_wf_append by metis
  moreover have "free_swap_slot s True \<lparr>ss_start = a\<rparr> = Some (s\<lparr>free_swap_list := merge_left ?b g' @ after'\<rparr>)"
    using m by (simp add: free_swap_slot_def)
  ultimately show ?thesis using that[of "merge_left ?b g' @ after'"] by simp
qed

section \<open>Swapping pages out and in\<close>

text \<open>
  The life of a swap slot: the page at \<open>fr\<close> in memory \<open>m\<close> is written out, and later read into the frame
  \<open>fr'\<close> of memory \<open>m'\<close>. A slot that holds the page is a handle.
\<close>

type_synonym swap_life = "mem \<times> ptr \<times> mem \<times> ptr"

definition swap_out :: "swap_state \<Rightarrow> swap_life \<Rightarrow> (swap_state \<times> disk_sector_t option) option" where
  "swap_out s n = (case n of (m, fr, _) \<Rightarrow> map_option (\<lambda>(s', r). (s', map_option ss_start r)) (swap_slot_write s True m fr))"

definition swap_in :: "swap_state \<Rightarrow> disk_sector_t \<Rightarrow> swap_life \<Rightarrow> swap_state option" where
  "swap_in s a n = (case n of (_, _, m', fr') \<Rightarrow> map_option fst (swap_slot_read s True m' fr' \<lparr>ss_start = a\<rparr>))"

definition swap_holds :: "swap_state \<Rightarrow> disk_sector_t \<Rightarrow> swap_life \<Rightarrow> bool" where
  "swap_holds s a n = (case n of (m, fr, m', fr') \<Rightarrow>
     nonnull fr' 4096 \<and> unat a + 8 \<le> unat (capacity (swap_disk s)) \<and> slot_data (swap_disk s) a = read_bytes m fr 4096)"

definition swap_life_ok :: "swap_life \<Rightarrow> bool" where
  "swap_life_ok n = (case n of (m, fr, m', fr') \<Rightarrow> nonnull fr 4096 \<and> nonnull fr' 4096)"

lemma nonnull_page:
  assumes "nonnull p 4096"
  shows "p \<noteq> NULL"
proof -
  have "nonnull p (Suc 0)" by (rule nonnull_mono[OF assms]) simp
  then show ?thesis by simp
qed

lemma swap_slot_write_cases:
  assumes "swap_wf s" and "nonnull fr 4096"
  obtains (full) "swap_slot_write s True m fr = Some (s, None)" "\<forall>f\<in>set (free_swap_list s). unat (fss_size f) < 8"
  | (got) s' a where "swap_slot_write s True m fr = Some (s', Some \<lparr>ss_start = a\<rparr>)" "swap_wf s'"
      "capacity (swap_disk s') = capacity (swap_disk s)" "unat a + 8 \<le> unat (capacity (swap_disk s))"
      "slot_sectors a \<inter> swap_used s = {}" "swap_used s' = swap_used s \<union> slot_sectors a"
      "slot_data (swap_disk s') a = read_bytes m fr 4096"
      "\<And>k. unat k \<notin> slot_sectors a \<Longrightarrow> sectors (swap_disk s') k = sectors (swap_disk s) k"
  using assms(1)
proof (cases rule: alloc_swap_slot_cases)
  case full
  then show ?thesis using that(1) nonnull_page[OF assms(2)] by (simp add: swap_slot_write_def)
next
  case (got fs a)
  let ?d = "swap_disk s"
  have cap: "unat (capacity ?d) \<le> 0x10000000" and ok: "disk_ok ?d"
    using assms(1) by (auto simp: swap_wf_def disk_ok_def word_le_nat_alt)
  have "a \<noteq> disk_size ?d + 1"
  proof
    assume "a = disk_size ?d + 1"
    then have "unat a = unat (capacity ?d) + 1" using cap by (simp add: disk_size_def unat_word_ariths)
    with got(2) show False by simp
  qed
  obtain d' where d': "swap_write_loop ?d m a fr 0 = Some d'" "capacity d' = capacity ?d" "disk_ok d'"
    "slot_data d' a = read_bytes m fr 4096" "\<And>k. unat k \<notin> slot_sectors a \<Longrightarrow> sectors d' k = sectors ?d k"
    using swap_write_loop_eval[OF got(2) assms(2) ok] by blast
  let ?s = "s\<lparr>free_swap_list := fs, swap_disk := d'\<rparr>"
  have "swap_slot_write s True m fr = Some (?s, Some \<lparr>ss_start = a\<rparr>)"
    using nonnull_page[OF assms(2)] got(1) d'(1) \<open>a \<noteq> disk_size ?d + 1\<close> by (simp add: swap_slot_write_def)
  moreover have "slot_sectors a \<subseteq> {0..<unat (capacity ?d)}" using got(2) by (auto simp: slot_sectors_def)
  ultimately show ?thesis
    using that(2)[of ?s a] got d' by (auto simp: swap_wf_def swap_used_def)
qed

lemma swap_slot_read_eval:
  assumes "swap_wf s" and "nonnull fr 4096" and "unat a + 8 \<le> unat (capacity (swap_disk s))" and "slot_sectors a \<subseteq> swap_used s"
  obtains s' where "swap_slot_read s True m fr \<lparr>ss_start = a\<rparr> = Some (s', write_bytes m fr (slot_data (swap_disk s) a), True)"
    "swap_wf s'" "swap_used s' = swap_used s - slot_sectors a" "sectors (swap_disk s') = sectors (swap_disk s)"
    "capacity (swap_disk s') = capacity (swap_disk s)"
proof -
  let ?d = "swap_disk s\<lparr>read_cnt := read_cnt (swap_disk s) + 8\<rparr>"
  let ?s = "s\<lparr>swap_disk := ?d\<rparr>"
  have wf: "swap_wf ?s" using assms(1) by (simp add: swap_wf_def disk_ok_def)
  have dis: "slot_sectors a \<inter> free_sectors (free_swap_list ?s) = {}" using assms(4) by (auto simp: swap_used_def)
  obtain fs where fs: "free_swap_slot ?s True \<lparr>ss_start = a\<rparr> = Some (?s\<lparr>free_swap_list := fs\<rparr>)"
    "free_wf 0 (unat (capacity (swap_disk s))) fs" "free_sectors fs = free_sectors (free_swap_list s) \<union> slot_sectors a"
    using free_swap_slot_eval[OF wf _ dis] assms(3) by auto
  have "disk_ok (swap_disk s)" using assms(1) by (simp add: swap_wf_def)
  then have "swap_slot_read s True m fr \<lparr>ss_start = a\<rparr> =
      Some (?s\<lparr>free_swap_list := fs\<rparr>, write_bytes m fr (slot_data (swap_disk s) a), True)"
    using swap_read_loop_eval[OF assms(3,2)] fs(1) nonnull_page[OF assms(2)] by (simp add: swap_slot_read_def)
  then show ?thesis
    by (rule that) (use wf fs(2,3) in \<open>auto simp: swap_wf_def swap_used_def\<close>)
qed

lemma swap_holds_cong:
  assumes "swap_holds s b k" and "slot_sectors b \<inter> slot_sectors a = {}" and "capacity (swap_disk s') = capacity (swap_disk s)"
    and "\<And>i. unat i \<notin> slot_sectors a \<Longrightarrow> sectors (swap_disk s') i = sectors (swap_disk s) i"
  shows "swap_holds s' b k"
proof -
  obtain m fr m' fr' where k: "k = (m, fr, m', fr')" by (cases k) auto
  have le: "unat b + 8 \<le> 2 ^ 32"
    using assms(1) k unat_lt_2p32[of "capacity (swap_disk s)"] by (simp add: swap_holds_def)
  have "slot_data (swap_disk s') b = slot_data (swap_disk s) b"
    by (rule slot_data_cong[OF le]) (use assms(2,4) in blast)
  then show ?thesis using assms(1,3) k by (simp add: swap_holds_def)
qed

interpretation slots: extent_allocator swap_wf swap_used "\<lambda>a n. slot_sectors a" swap_holds swap_life_ok swap_out swap_in
proof unfold_locales
  fix s s' a b r and n k :: swap_life
  obtain m fr m' fr' where n: "n = (m, fr, m', fr')" by (cases n) auto
  { assume s: "swap_wf s" and ok: "swap_life_ok n"
    have nn: "nonnull fr 4096" "nonnull fr' 4096" using ok n by (simp_all add: swap_life_ok_def)
    from s nn(1) have "(swap_out s n = Some (s, None)) \<or> (\<exists>s' a. swap_out s n = Some (s', Some a) \<and> swap_wf s' \<and>
        capacity (swap_disk s') = capacity (swap_disk s) \<and>
        slot_sectors a \<inter> swap_used s = {} \<and> swap_used s' = swap_used s \<union> slot_sectors a \<and> swap_holds s' a n \<and>
        (\<forall>i. unat i \<notin> slot_sectors a \<longrightarrow> sectors (swap_disk s') i = sectors (swap_disk s) i))"
      by (cases rule: swap_slot_write_cases[where m = m])
        (use n nn in \<open>auto simp: swap_out_def swap_holds_def\<close>) }
  note out = this
  show "\<exists>s' r. swap_out s n = Some (s', r)" if "swap_wf s" "swap_life_ok n"
    using out[OF that] by blast
  show "swap_wf s'" if "swap_wf s" "swap_life_ok n" "swap_out s n = Some (s', r)"
    using out[OF that(1,2)] that by auto
  show "swap_used s' = swap_used s" if "swap_wf s" "swap_life_ok n" "swap_out s n = Some (s', None)"
    using out[OF that(1,2)] that by auto
  show "slot_sectors a \<inter> swap_used s = {} \<and> swap_used s' = swap_used s \<union> slot_sectors a \<and> swap_holds s' a n"
    if "swap_wf s" "swap_life_ok n" "swap_out s n = Some (s', Some a)"
    using out[OF that(1,2)] that by auto
  show "swap_holds s' b k" if "swap_wf s" "swap_life_ok n" "swap_out s n = Some (s', r)" "swap_holds s b k" "slot_sectors b \<subseteq> swap_used s"
  proof -
    from out[OF that(1,2)] that(3) consider "s' = s" | a where "slot_sectors a \<inter> swap_used s = {}"
      "capacity (swap_disk s') = capacity (swap_disk s)" "\<And>i. unat i \<notin> slot_sectors a \<Longrightarrow> sectors (swap_disk s') i = sectors (swap_disk s) i"
      by auto
    then show ?thesis
      by cases (use that swap_holds_cong[OF that(4)] in blast)+
  qed
  { assume h: "swap_wf s" "swap_holds s a n" "slot_sectors a \<subseteq> swap_used s"
    then have "nonnull fr' 4096" "unat a + 8 \<le> unat (capacity (swap_disk s))" using n by (auto simp: swap_holds_def)
    then obtain s'' where "swap_slot_read s True m' fr' \<lparr>ss_start = a\<rparr> = Some (s'', write_bytes m' fr' (slot_data (swap_disk s) a), True)"
      "swap_wf s''" "swap_used s'' = swap_used s - slot_sectors a" "sectors (swap_disk s'') = sectors (swap_disk s)"
      "capacity (swap_disk s'') = capacity (swap_disk s)"
      using swap_slot_read_eval[OF h(1) _ _ h(3)] by metis
    then have "\<exists>s''. swap_in s a n = Some s'' \<and> swap_wf s'' \<and> swap_used s'' = swap_used s - slot_sectors a \<and>
        sectors (swap_disk s'') = sectors (swap_disk s) \<and> capacity (swap_disk s'') = capacity (swap_disk s)"
      using n by (simp add: swap_in_def) }
  note inn = this
  show "\<exists>s'. swap_in s a n = Some s' \<and> swap_wf s' \<and> swap_used s' = swap_used s - slot_sectors a"
    if "swap_wf s" "swap_holds s a n" "slot_sectors a \<subseteq> swap_used s"
    using inn[OF that] by blast
  show "swap_holds s' b k" if "swap_wf s" "swap_holds s a n" "slot_sectors a \<subseteq> swap_used s" "swap_in s a n = Some s'"
      "swap_holds s b k" "slot_sectors a \<inter> slot_sectors b = {}"
    using inn[OF that(1-3)] that(4-6) swap_holds_cong[OF that(5), of a s'] by auto
qed

text \<open>
  C6. Swapping is faithful. Start from a swap area with nothing swapped out and let any sequence of pages be
  written out (some writes may find the swap area full) and read back in. The slots in use never overlap,
  they are exactly the sectors that are not in the free list, and reading any live slot succeeds and fills
  the frame with the very page that was written to it, releasing the slot.
\<close>

theorem swap_faithful:
  assumes "swap_wf s0" and "alloc_runs swap_out swap_in swap_life_ok s0 s live"
  shows "swap_wf s \<and> disjoint_list (map (\<lambda>(a, n). slot_sectors a) live) \<and>
    swap_used s = swap_used s0 \<union> \<Union> (set (map (\<lambda>(a, n). slot_sectors a) live)) \<and>
    (\<forall>us a m fr m' fr' vs. live = us @ (a, m, fr, m', fr') # vs \<longrightarrow>
      (\<exists>s'. swap_slot_read s True m' fr' \<lparr>ss_start = a\<rparr> = Some (s', write_bytes m' fr' (read_bytes m fr 4096), True) \<and>
            swap_used s' = swap_used s - slot_sectors a))"
proof -
  have l: "slots.live_ok s0 s live" using slots.runs_live_ok[OF assms(2,1)] .
  have "\<exists>s'. swap_slot_read s True m' fr' \<lparr>ss_start = a\<rparr> = Some (s', write_bytes m' fr' (read_bytes m fr 4096), True) \<and>
            swap_used s' = swap_used s - slot_sectors a" if lv: "live = us @ (a, m, fr, m', fr') # vs" for us a m fr m' fr' vs
  proof -
    have h: "swap_wf s" "slot_sectors a \<subseteq> swap_used s" "swap_holds s a (m, fr, m', fr')"
      using l lv unfolding slots.live_ok_def by auto
    then have "nonnull fr' 4096" "unat a + 8 \<le> unat (capacity (swap_disk s))" "slot_data (swap_disk s) a = read_bytes m fr 4096"
      by (auto simp: swap_holds_def)
    then show ?thesis using swap_slot_read_eval[OF h(1) _ _ h(2)] by metis
  qed
  with l show ?thesis unfolding slots.live_ok_def by simp
qed

lemma swap_init_wf:
  assumes "disk_ok d" and "capacity d \<noteq> 0"
  shows "\<exists>s. swap_init (Some d) True = Some s \<and> swap_wf s \<and> swap_used s = {} \<and> swap_disk s = d"
  using assms by (auto simp: swap_init_def swap_wf_def swap_used_def ordered_insert_def disk_size_def)

lemma free_wf_end: "free_wf lo cap fs \<Longrightarrow> f \<in> set fs \<Longrightarrow> unat (fss_start f) + unat (fss_size f) \<notin> free_sectors fs"
proof (induction fs arbitrary: lo)
  case (Cons g gs)
  have gs: "free_wf (Suc (unat (fss_start g) + unat (fss_size g))) cap gs" using Cons.prems by simp
  note b = free_wf_bounds[OF gs]
  show ?case
  proof (cases "f = g")
    case True
    then show ?thesis using b by auto
  next
    case False
    then have f: "f \<in> set gs" using Cons.prems by simp
    then have "fss_sectors f \<subseteq> free_sectors gs" by (auto simp: free_sectors_def)
    moreover have "fss_size f \<noteq> 0" using gs f by (induction gs arbitrary: g) auto
    ultimately have "unat (fss_start f) \<in> free_sectors gs" by (auto simp: fss_size_pos)
    with b Cons.IH[OF gs f] show ?thesis by auto
  qed
qed simp

text \<open>A run of free sectors lies inside one extent of the list: free space is coalesced.\<close>

lemma free_run_in_extent:
  assumes "free_wf lo cap fs" and "{a..<a + Suc n} \<subseteq> free_sectors fs"
  shows "\<exists>f\<in>set fs. {a..<a + Suc n} \<subseteq> fss_sectors f"
  using assms(2)
proof (induction n)
  case 0
  then show ?case by (auto simp: free_sectors_def)
next
  case (Suc n)
  then have "{a..<a + Suc n} \<subseteq> free_sectors fs" by auto
  then obtain f where f: "f \<in> set fs" "{a..<a + Suc n} \<subseteq> fss_sectors f" using Suc.IH by blast
  have "a + n \<in> fss_sectors f" using f(2) by auto
  moreover have "a + Suc n \<noteq> unat (fss_start f) + unat (fss_size f)"
  proof -
    have "a + Suc n \<in> free_sectors fs" using Suc.prems by auto
    then show ?thesis using free_wf_end[OF assms(1) f(1)] by metis
  qed
  ultimately have "{a..<a + Suc (Suc n)} \<subseteq> fss_sectors f" using f(2) by auto
  with f(1) show ?case by blast
qed

text \<open>
  C20. A page can be swapped out exactly when eight consecutive sectors of the swap disk are free: the first-fit search
  is not defeated by the way the free space is split into list elements, because neighbouring free extents are
  always merged, and the sector number that reports failure is never confused with a slot.
\<close>

theorem swap_write_refused:
  assumes "swap_wf s" and "nonnull fr 4096"
  shows "(\<exists>s' ss. swap_slot_write s True m fr = Some (s', Some ss)) \<longleftrightarrow>
    (\<exists>a. {a..<a + 8} \<subseteq> {0..<unat (capacity (swap_disk s))} - swap_used s)"
proof -
  have fr: "{0..<unat (capacity (swap_disk s))} - swap_used s = free_sectors (free_swap_list s)"
    using free_wf_bounds[of 0 "unat (capacity (swap_disk s))" "free_swap_list s"] assms(1) by (auto simp: swap_used_def swap_wf_def)
  show ?thesis
    using assms
  proof (cases rule: swap_slot_write_cases[where m = m])
    case full
    have "\<not> {a..<a + 8} \<subseteq> free_sectors (free_swap_list s)" for a
    proof
      assume "{a..<a + 8} \<subseteq> free_sectors (free_swap_list s)"
      then obtain f where "f \<in> set (free_swap_list s)" "{a..<a + 8} \<subseteq> fss_sectors f"
        using free_run_in_extent[of 0 "unat (capacity (swap_disk s))" "free_swap_list s" a 7] assms(1) by (auto simp: swap_wf_def)
      then show False using full(2) by fastforce
    qed
    then show ?thesis using full fr by simp
  next
    case (got s' a)
    then have "{unat a..<unat a + 8} \<subseteq> {0..<unat (capacity (swap_disk s))} - swap_used s"
      by (auto simp: slot_sectors_def)
    then show ?thesis using got(1) by blast
  qed
qed

definition example_swap_disk :: disk where
  "example_swap_disk = \<lparr>dev_no = 1, capacity = 16, sectors = \<lambda>_. replicate 512 0, read_cnt = 0, write_cnt = 0, answers = True\<rparr>"

lemma example_swap: "disk_ok example_swap_disk \<and> capacity example_swap_disk = 16"
  by (simp add: disk_ok_def example_swap_disk_def)

lemma example_swap_init:
  "\<exists>s. swap_init (Some example_swap_disk) True = Some s \<and> swap_wf s \<and> swap_used s = {} \<and> swap_disk s = example_swap_disk \<and>
     free_swap_list s = [\<lparr>fss_start = 0, fss_size = 16\<rparr>]"
  using example_swap by (simp add: swap_init_def swap_wf_def swap_used_def ordered_insert_def disk_size_def)

theorem swap_faithful_witness:
  "\<exists>s0 s a s'. swap_init (Some example_swap_disk) True = Some s0 \<and> swap_slot_write s0 True (\<lambda>_. 7) 4096 = Some (s, Some \<lparr>ss_start = a\<rparr>) \<and>
     swap_slot_read s True (\<lambda>_. 0) 8192 \<lparr>ss_start = a\<rparr> = Some (s', write_bytes (\<lambda>_. 0) 8192 (read_bytes (\<lambda>_. 7) 4096 4096), True) \<and>
     swap_used s' = {}"
proof -
  have nn: "nonnull 4096 4096" "nonnull 8192 4096" by (rule nonnullI; simp)+
  let ?n = "(\<lambda>_. 7, 4096, \<lambda>_. 0, 8192) :: swap_life"
  obtain s0 where s0: "swap_init (Some example_swap_disk) True = Some s0" "swap_wf s0" "swap_used s0 = {}"
    "free_swap_list s0 = [\<lparr>fss_start = 0, fss_size = 16\<rparr>]" using example_swap_init by blast
  from s0(2) nn(1) show ?thesis
  proof (cases rule: swap_slot_write_cases[where m = "\<lambda>_. 7"])
    case full
    then show ?thesis using s0(4) by simp
  next
    case (got s a)
    have "swap_out s0 ?n = Some (s, Some a)" using got(1) by (simp add: swap_out_def)
    then have "alloc_runs swap_out swap_in swap_life_ok s0 s [(a, ?n)]"
      by (intro alloc_runs.got[OF alloc_runs.start]) (use nn in \<open>simp_all add: swap_life_ok_def\<close>)
    note f = conjunct2[OF conjunct2[OF conjunct2[OF swap_faithful[OF s0(2) this]]], rule_format]
    obtain s' where
      "swap_slot_read s True (\<lambda>_. 0) 8192 \<lparr>ss_start = a\<rparr> = Some (s', write_bytes (\<lambda>_. 0) 8192 (read_bytes (\<lambda>_. 7) 4096 4096), True)"
      "swap_used s' = swap_used s - slot_sectors a" using f[OF append_Nil[symmetric]] by blast
    moreover have "swap_used s - slot_sectors a = {}" using got(6) s0(3) by blast
    ultimately show ?thesis using s0(1) got(1) by metis
  qed
qed

theorem swap_write_refused_witness:
  "\<exists>s0 s' ss. swap_init (Some example_swap_disk) True = Some s0 \<and> swap_slot_write s0 True (\<lambda>_. 7) 4096 = Some (s', Some ss)"
proof -
  have nn: "nonnull 4096 4096" by (rule nonnullI; simp)
  obtain s0 where s0: "swap_init (Some example_swap_disk) True = Some s0" "swap_wf s0" "swap_used s0 = {}" "swap_disk s0 = example_swap_disk"
    using example_swap_init by blast
  have "{0..<0 + 8 :: nat} \<subseteq> {0..<unat (capacity (swap_disk s0))} - swap_used s0" using s0(3,4) example_swap by auto
  then show ?thesis using swap_write_refused[OF s0(2) nn, of "\<lambda>_. 7"] s0(1) by blast
qed

end
