(* ===== verification/Hash.thy ===== *)
theory Hash
  imports Strings
begin

text \<open>
  Hash tables: \<open>src/lib/kernel/hash.c\<close>. A table is its element count, its bucket count, the array of buckets and the
  client's hash and comparison functions; a bucket is the list of its elements, front first, with the
  operations of \<open>list.c\<close> at the level of elements. Whether \<open>malloc\<close> succeeds is an argument. An element that is
  looked for need not be the one in the table: equality is that neither is less than the other.

  The locale states what a client must provide; it is interpreted for the supplemental page table in the theory \<open>Page\<close>.
\<close>

section \<open>The code\<close>

record 'e hash =
  h_elem_cnt :: size_t
  h_bucket_cnt :: size_t
  h_buckets :: "'e list list"
  h_hash :: "'e \<Rightarrow> 32 word"
  h_less :: "'e \<Rightarrow> 'e \<Rightarrow> bool"

abbreviation FNV_32_PRIME :: "32 word" where "FNV_32_PRIME \<equiv> 16777619"
abbreviation FNV_32_BASIS :: "32 word" where "FNV_32_BASIS \<equiv> 2166136261"

function hash_bytes_loop :: "mem \<Rightarrow> ptr \<Rightarrow> size_t \<Rightarrow> 32 word \<Rightarrow> 32 word option" where
  "hash_bytes_loop m buf sz hash =
     (if sz > 0 then do {
        b \<leftarrow> rd8 m buf;
        hash_bytes_loop m (buf + 1) (sz - 1) ((hash * FNV_32_PRIME) XOR ucast b)
      } else Some hash)"
  by pat_completeness auto
termination by (relation "measure (\<lambda>(m, buf, sz, hash). unat sz)") (auto simp: unat_minus_one unat_gt_0 word_gt_0)

declare hash_bytes_loop.simps [simp del]

definition hash_bytes :: "mem \<Rightarrow> ptr \<Rightarrow> size_t \<Rightarrow> 32 word option" where
  "hash_bytes m buf sz = do {
     ASSERT (buf \<noteq> NULL);
     hash_bytes_loop m buf sz FNV_32_BASIS
   }"

partial_function (option) hash_string_loop :: "mem \<Rightarrow> ptr \<Rightarrow> 32 word \<Rightarrow> 32 word option" where
  "hash_string_loop m s hash = do {
     b \<leftarrow> rd8 m s;
     if b \<noteq> 0 then hash_string_loop m (s + 1) ((hash * FNV_32_PRIME) XOR ucast b) else Some hash
   }"

declare hash_string_loop.simps [code]

definition hash_string :: "mem \<Rightarrow> ptr \<Rightarrow> 32 word option" where
  "hash_string m s = do {
     ASSERT (s \<noteq> NULL);
     hash_string_loop m s FNV_32_BASIS
   }"

text \<open>\<open>hash_int\<close> hashes its argument where the caller put it, at \<open>p\<close>.\<close>

definition hash_int :: "mem \<Rightarrow> ptr \<Rightarrow> 32 word \<Rightarrow> 32 word option" where
  "hash_int m p i = hash_bytes (write_bytes m p (bytes_of_word i)) p 4"

text \<open>A bucket is named by its index in the array.\<close>

definition find_bucket :: "'e hash \<Rightarrow> 'e \<Rightarrow> nat" where
  "find_bucket h e = unat (h_hash h e AND (h_bucket_cnt h - 1))"

definition rd_bucket :: "'e hash \<Rightarrow> nat \<Rightarrow> 'e list option" where
  "rd_bucket h i = (if i < length (h_buckets h) then Some (h_buckets h ! i) else None)"

definition find_elem :: "'e hash \<Rightarrow> nat \<Rightarrow> 'e \<Rightarrow> 'e option option" where
  "find_elem h bucket e = do {
     b \<leftarrow> rd_bucket h bucket;
     Some (find (\<lambda>hi. \<not> h_less h hi e \<and> \<not> h_less h e hi) b)
   }"

definition turn_off_least_1bit :: "size_t \<Rightarrow> size_t" where
  "turn_off_least_1bit x = x AND (x - 1)"

definition is_power_of_2 :: "size_t \<Rightarrow> bool" where
  "is_power_of_2 x \<longleftrightarrow> x \<noteq> 0 \<and> turn_off_least_1bit x = 0"

partial_function (option) round_to_power_of_2 :: "size_t \<Rightarrow> size_t option" where
  "round_to_power_of_2 n = (if \<not> is_power_of_2 n then round_to_power_of_2 (turn_off_least_1bit n) else Some n)"

declare round_to_power_of_2.simps [code]

definition push_bucket :: "'e hash \<Rightarrow> nat \<Rightarrow> 'e \<Rightarrow> 'e hash option" where
  "push_bucket h i e = do {
     b \<leftarrow> rd_bucket h i;
     Some (h\<lparr>h_buckets := (h_buckets h)[i := e # b]\<rparr>)
   }"

fun rehash_move :: "'e hash \<Rightarrow> 'e list \<Rightarrow> 'e hash option" where
  "rehash_move h [] = Some h"
| "rehash_move h (elem # elems) = do {
     h \<leftarrow> push_bucket h (find_bucket h elem) elem;
     rehash_move h elems
   }"

definition rehash :: "bool \<Rightarrow> 'e hash \<Rightarrow> 'e hash option" where
  "rehash malloc_ok h = do {
     let old_buckets = h_buckets h;
     let old_bucket_cnt = h_bucket_cnt h;
     let new_bucket_cnt = h_elem_cnt h div 2;
     let new_bucket_cnt = (if new_bucket_cnt < 4 then 4 else new_bucket_cnt);
     new_bucket_cnt \<leftarrow> round_to_power_of_2 new_bucket_cnt;
     if new_bucket_cnt = old_bucket_cnt then Some h
     else if \<not> malloc_ok then Some h
     else rehash_move (h\<lparr>h_buckets := replicate (unat new_bucket_cnt) [], h_bucket_cnt := new_bucket_cnt\<rparr>)
            (concat (take (unat old_bucket_cnt) old_buckets))
   }"

definition insert_elem :: "'e hash \<Rightarrow> nat \<Rightarrow> 'e \<Rightarrow> 'e hash option" where
  "insert_elem h bucket e = push_bucket (h\<lparr>h_elem_cnt := h_elem_cnt h + 1\<rparr>) bucket e"

text \<open>Taking an element out of the list it is in, which is one of the buckets.\<close>

definition remove_elem :: "'e hash \<Rightarrow> 'e \<Rightarrow> 'e hash" where
  "remove_elem h e = h\<lparr>h_elem_cnt := h_elem_cnt h - 1, h_buckets := map (remove1 e) (h_buckets h)\<rparr>"

text \<open>Calling an action on the elements of a bucket, front to back.\<close>

fun apply_all :: "('e \<Rightarrow> 's \<Rightarrow> 's option) \<Rightarrow> 'e list \<Rightarrow> 's \<Rightarrow> 's option" where
  "apply_all f [] s = Some s"
| "apply_all f (e # es) s = do { s \<leftarrow> f e s; apply_all f es s }"

definition hash_clear :: "'e hash \<Rightarrow> ('e \<Rightarrow> 's \<Rightarrow> 's option) option \<Rightarrow> 's \<Rightarrow> ('e hash \<times> 's) option" where
  "hash_clear h destructor s = do {
     s \<leftarrow> (case destructor of None \<Rightarrow> Some s | Some d \<Rightarrow> apply_all d (concat (take (unat (h_bucket_cnt h)) (h_buckets h))) s);
     Some (h\<lparr>h_buckets := map (\<lambda>_. []) (h_buckets h), h_elem_cnt := 0\<rparr>, s)
   }"

definition hash_init :: "bool \<Rightarrow> ('e \<Rightarrow> 32 word) \<Rightarrow> ('e \<Rightarrow> 'e \<Rightarrow> bool) \<Rightarrow> ('e hash \<times> bool) option" where
  "hash_init malloc_ok hf lf = do {
     let h = \<lparr>h_elem_cnt = 0, h_bucket_cnt = 4, h_buckets = (if malloc_ok then replicate 4 [] else []), h_hash = hf, h_less = lf\<rparr>;
     if malloc_ok then do {
       (h, u) \<leftarrow> hash_clear h None ();
       Some (h, True)
     } else Some (h, False)
   }"

definition hash_destroy :: "'e hash \<Rightarrow> ('e \<Rightarrow> 's \<Rightarrow> 's option) option \<Rightarrow> 's \<Rightarrow> 's option" where
  "hash_destroy h destructor s =
     (if destructor \<noteq> None then map_option snd (hash_clear h destructor s) else Some s)"

definition hash_insert :: "bool \<Rightarrow> 'e hash \<Rightarrow> 'e \<Rightarrow> ('e hash \<times> 'e option) option" where
  "hash_insert malloc_ok h new = do {
     let bucket = find_bucket h new;
     old \<leftarrow> find_elem h bucket new;
     h \<leftarrow> (if old = None then insert_elem h bucket new else Some h);
     h \<leftarrow> rehash malloc_ok h;
     Some (h, old)
   }"

definition hash_replace :: "bool \<Rightarrow> 'e hash \<Rightarrow> 'e \<Rightarrow> ('e hash \<times> 'e option) option" where
  "hash_replace malloc_ok h new = do {
     let bucket = find_bucket h new;
     old \<leftarrow> find_elem h bucket new;
     let h = (case old of None \<Rightarrow> h | Some x \<Rightarrow> remove_elem h x);
     h \<leftarrow> insert_elem h bucket new;
     h \<leftarrow> rehash malloc_ok h;
     Some (h, old)
   }"

definition hash_find :: "'e hash \<Rightarrow> 'e \<Rightarrow> 'e option option" where
  "hash_find h e = find_elem h (find_bucket h e) e"

text \<open>The assertion in the last branch of \<open>hash_delete\<close> is of a string constant and never fails.\<close>

definition hash_delete :: "bool \<Rightarrow> 'e hash \<Rightarrow> 'e \<Rightarrow> ('e hash \<times> 'e option) option" where
  "hash_delete malloc_ok h e = do {
     found \<leftarrow> find_elem h (find_bucket h e) e;
     h \<leftarrow> (case found of
            Some x \<Rightarrow> rehash malloc_ok (remove_elem h x)
          | None \<Rightarrow> do { ASSERT True; Some h });
     Some (h, found)
   }"

definition hash_apply :: "'e hash \<Rightarrow> ('e \<Rightarrow> 's \<Rightarrow> 's option) option \<Rightarrow> 's \<Rightarrow> 's option" where
  "hash_apply h action s = do {
     ASSERT (action \<noteq> None);
     f \<leftarrow> action;
     apply_all f (concat (take (unat (h_bucket_cnt h)) (h_buckets h))) s
   }"

definition hash_size :: "'e hash \<Rightarrow> size_t" where
  "hash_size h = h_elem_cnt h"

definition hash_empty :: "'e hash \<Rightarrow> bool" where
  "hash_empty h \<longleftrightarrow> h_elem_cnt h = 0"

text \<open>
  An iterator points to a position in a bucket: 0 is the list head, \<open>k\<close> the \<open>k\<close>-th element and one past the
  last element the list tail; \<open>None\<close> is the null pointer.
\<close>

record hash_iterator =
  it_bucket :: nat
  it_elem :: "nat option"

definition hash_first :: hash_iterator where
  "hash_first = \<lparr>it_bucket = 0, it_elem = Some 0\<rparr>"

function hash_next_loop :: "'e hash \<Rightarrow> nat \<Rightarrow> nat \<Rightarrow> (hash_iterator \<times> 'e option) option" where
  "hash_next_loop h bucket pos =
     (case rd_bucket h bucket of
        None \<Rightarrow> None
      | Some b \<Rightarrow>
          (if pos = length b + 1 then
             (if bucket + 1 \<ge> unat (h_bucket_cnt h) then Some (\<lparr>it_bucket = bucket + 1, it_elem = None\<rparr>, None)
              else hash_next_loop h (bucket + 1) 1)
           else Some (\<lparr>it_bucket = bucket, it_elem = Some pos\<rparr>, Some (b ! (pos - 1)))))"
  by pat_completeness auto
termination by (relation "measure (\<lambda>(h, bucket, pos). unat (h_bucket_cnt h) - bucket)") auto

declare hash_next_loop.simps [simp del]

definition hash_next :: "'e hash \<Rightarrow> hash_iterator \<Rightarrow> (hash_iterator \<times> 'e option) option" where
  "hash_next h i = do {
     pos \<leftarrow> it_elem i;
     b \<leftarrow> rd_bucket h (it_bucket i);
     ASSERT (pos \<le> length b);
     hash_next_loop h (it_bucket i) (pos + 1)
   }"

definition hash_cur :: "'e hash \<Rightarrow> hash_iterator \<Rightarrow> 'e option option" where
  "hash_cur h i = (case it_elem i of
       None \<Rightarrow> Some None
     | Some pos \<Rightarrow> do { b \<leftarrow> rd_bucket h (it_bucket i); if 0 < pos \<and> pos \<le> length b then Some (Some (b ! (pos - 1))) else None })"

text \<open>The iteration idiom of the comment on \<open>hash_first\<close>, collecting the elements that \<open>hash_cur\<close> returns.\<close>

partial_function (option) hash_collect :: "'e hash \<Rightarrow> hash_iterator \<Rightarrow> 'e list option" where
  "hash_collect h i = do {
     (i, e) \<leftarrow> hash_next h i;
     if e = None then Some []
     else do {
       cur \<leftarrow> hash_cur h i;
       x \<leftarrow> cur;
       xs \<leftarrow> hash_collect h i;
       Some (x # xs)
     }
   }"

declare hash_collect.simps [code]

section \<open>Powers of two\<close>

lemma turn_off_least_1bit_less: "x \<noteq> 0 \<Longrightarrow> turn_off_least_1bit x < x"
proof -
  assume x: "x \<noteq> 0"
  have "turn_off_least_1bit x \<le> x - 1" unfolding turn_off_least_1bit_def by (rule word_and_le1)
  also have "x - 1 < x" using x by (simp add: word_less_nat_alt unat_minus_one unat_gt_0)
  finally show ?thesis .
qed

lemma bit_top:
  fixes x :: "32 word"
  assumes "2 ^ k \<le> unat x" and "unat x < 2 ^ Suc k"
  shows "bit x k"
proof -
  have "unat x div 2 ^ k = 1"
    using assms by (intro div_nat_eqI) simp_all
  then have "bit (unat x) k" by (simp add: bit_iff_odd)
  then show ?thesis by (simp add: bit_unsigned_iff)
qed

lemma bit_ge:
  fixes x :: "32 word"
  assumes "bit x k"
  shows "2 ^ k \<le> unat x"
proof (rule ccontr)
  assume "\<not> ?thesis"
  then have "\<not> bit (unat x) k" by (simp add: bit_iff_odd)
  moreover have "k < 32" using assms by (simp add: bit_imp_le_length[of x k, simplified])
  ultimately show False using assms by (simp add: bit_unsigned_iff)
qed

lemma turn_off_top:
  assumes "2 ^ k < unat x" and "unat x < 2 ^ Suc k"
  shows "2 ^ k \<le> unat (turn_off_least_1bit x)"
proof -
  have "x \<noteq> 0" using assms by auto
  then have "unat (x - 1) = unat x - 1" by (simp add: unat_minus_one)
  then have "bit x k" "bit (x - 1) k" using assms by (auto intro!: bit_top)
  then have "bit (turn_off_least_1bit x) k" by (simp add: turn_off_least_1bit_def bit_and_iff)
  then show ?thesis by (rule bit_ge)
qed

lemma turn_off_power: "k < 32 \<Longrightarrow> turn_off_least_1bit (2 ^ k) = 0"
proof (rule bit_word_eqI)
  fix j assume k: "k < 32"
  have "(2 ^ k :: 32 word) - 1 = mask k" by (simp add: mask_eq_exp_minus_1)
  then show "bit (turn_off_least_1bit (2 ^ k)) j = bit (0 :: 32 word) j"
    by (auto simp: turn_off_least_1bit_def bit_and_iff bit_exp_iff bit_mask_iff)
qed

lemma is_power_of_2_top:
  assumes "2 ^ k \<le> unat x" and "unat x < 2 ^ Suc k"
  shows "is_power_of_2 x \<longleftrightarrow> unat x = 2 ^ k"
proof
  show "unat x = 2 ^ k" if "is_power_of_2 x"
    using that turn_off_top[of k x] assms by (fastforce simp: is_power_of_2_def)
next
  assume x: "unat x = 2 ^ k"
  have k: "k < 32" using bit_imp_le_length[OF bit_top[OF assms]] by simp
  then have "(2 :: nat) ^ k < 2 ^ 32" by (intro power_strict_increasing) simp_all
  then have "x = 2 ^ k" using x unat_eq_of_nat32[of "2 ^ k" x] by simp
  with k show "is_power_of_2 x" using turn_off_power[OF k] by (simp add: is_power_of_2_def)
qed

text \<open>The loop of \<open>rehash\<close> ends with the greatest power of two that is not above the start value.\<close>

lemma round_to_power_of_2_top:
  assumes "2 ^ k \<le> unat n" and "unat n < 2 ^ Suc k"
  shows "\<exists>r. round_to_power_of_2 n = Some r \<and> unat r = 2 ^ k"
  using assms
proof (induction "unat n" arbitrary: n rule: less_induct)
  case less
  show ?case
  proof (cases "unat n = 2 ^ k")
    case True
    then show ?thesis using is_power_of_2_top[of k n] less.prems by (subst round_to_power_of_2.simps) simp
  next
    case False
    then have np: "\<not> is_power_of_2 n" using is_power_of_2_top[of k n] less.prems by simp
    have "n \<noteq> 0" using less.prems by auto
    then have lt: "unat (turn_off_least_1bit n) < unat n" using turn_off_least_1bit_less by (simp add: word_less_nat_alt)
    have "2 ^ k \<le> unat (turn_off_least_1bit n)" using turn_off_top less.prems False by simp
    with less.hyps[OF lt] lt less.prems np show ?thesis
      by (subst round_to_power_of_2.simps) simp
  qed
qed

lemma round_to_power_of_2_bounds:
  assumes "4 \<le> unat n"
  obtains r where "round_to_power_of_2 n = Some r" "is_power_of_2 r" "4 \<le> unat r" "unat r \<le> unat n" "unat n < 2 * unat r"
proof -
  obtain k where k: "2 ^ k \<le> unat n" "unat n < 2 ^ Suc k"
    using ex_power_ivl1[of 2 "unat n"] assms by auto
  have "2 \<le> k"
  proof (rule ccontr)
    assume "\<not> 2 \<le> k"
    then have "k = 0 \<or> k = 1" by auto
    with k(2) assms show False by auto
  qed
  then have "2 ^ 2 \<le> (2 ^ k :: nat)" by (intro power_increasing) simp_all
  moreover obtain r where "round_to_power_of_2 n = Some r" "unat r = 2 ^ k" using round_to_power_of_2_top[OF k] by blast
  ultimately show ?thesis using that[of r] k is_power_of_2_top[of k r] by simp
qed

section \<open>The table as a set of elements\<close>

definition hash_elems :: "'e hash \<Rightarrow> 'e multiset" where
  "hash_elems h = mset (concat (h_buckets h))"

text \<open>Every element is in the bucket its hash value selects, and the bucket count is a power of two.\<close>

definition hash_placed :: "('e \<Rightarrow> 32 word) \<Rightarrow> ('e \<Rightarrow> 'e \<Rightarrow> bool) \<Rightarrow> 'e hash \<Rightarrow> bool" where
  "hash_placed hf lf h \<longleftrightarrow> h_hash h = hf \<and> h_less h = lf \<and> is_power_of_2 (h_bucket_cnt h) \<and>
     length (h_buckets h) = unat (h_bucket_cnt h) \<and>
     (\<forall>i<length (h_buckets h). \<forall>e\<in>set (h_buckets h ! i). find_bucket h e = i)"

text \<open>Moreover no two elements are equal and the element count is right.\<close>

definition hash_wf :: "('e \<Rightarrow> 32 word) \<Rightarrow> ('e \<Rightarrow> 'e \<Rightarrow> bool) \<Rightarrow> 'e hash \<Rightarrow> bool" where
  "hash_wf hf lf h \<longleftrightarrow> hash_placed hf lf h \<and> unat (h_elem_cnt h) = size (hash_elems h) \<and>
     (\<forall>e\<in>#hash_elems h. {#x \<in># hash_elems h. \<not> lf e x \<and> \<not> lf x e#} = {#e#})"

lemma find_bucket_less:
  assumes "hash_placed hf lf h"
  shows "find_bucket h e < length (h_buckets h)"
proof -
  have "h_bucket_cnt h \<noteq> 0" using assms by (auto simp: hash_placed_def is_power_of_2_def)
  then have "unat (h_bucket_cnt h - 1) < unat (h_bucket_cnt h)" by (simp add: unat_minus_one unat_gt_0)
  moreover have "find_bucket h e \<le> unat (h_bucket_cnt h - 1)"
    unfolding find_bucket_def by (simp add: word_and_le1 flip: word_le_nat_alt)
  ultimately show ?thesis using assms by (simp add: hash_placed_def)
qed

lemma elem_in_bucket: "x \<in># hash_elems h \<Longrightarrow> \<exists>i<length (h_buckets h). x \<in> set (h_buckets h ! i)"
  by (simp add: hash_elems_def) (metis in_set_conv_nth)

lemma elem_in_own_bucket:
  assumes "hash_placed hf lf h"
  shows "x \<in># hash_elems h \<longleftrightarrow> x \<in> set (h_buckets h ! find_bucket h x)"
proof
  assume "x \<in># hash_elems h"
  then obtain i where i: "i < length (h_buckets h)" "x \<in> set (h_buckets h ! i)" using elem_in_bucket[of x h] by auto
  have "find_bucket h x = i" using assms i unfolding hash_placed_def by blast
  then show "x \<in> set (h_buckets h ! find_bucket h x)" using i(2) by simp
next
  assume "x \<in> set (h_buckets h ! find_bucket h x)"
  moreover have "h_buckets h ! find_bucket h x \<in> set (h_buckets h)" using find_bucket_less[OF assms] by (rule nth_mem)
  ultimately show "x \<in># hash_elems h" by (auto simp: hash_elems_def)
qed

lemma mset_concat_update:
  "i < length bs \<Longrightarrow> mset (concat (bs[i := x # bs ! i])) = add_mset x (mset (concat bs))"
proof (induction bs arbitrary: i)
  case (Cons b bs)
  then show ?case by (cases i) auto
qed simp

lemma push_bucket_placed:
  assumes "hash_placed hf lf h"
  shows "\<exists>h'. push_bucket h (find_bucket h e) e = Some h' \<and> hash_placed hf lf h' \<and> hash_elems h' = add_mset e (hash_elems h) \<and>
    h_elem_cnt h' = h_elem_cnt h \<and> h_bucket_cnt h' = h_bucket_cnt h"
proof -
  let ?i = "find_bucket h e" let ?h = "h\<lparr>h_buckets := (h_buckets h)[?i := e # h_buckets h ! ?i]\<rparr>"
  have i: "?i < length (h_buckets h)" using find_bucket_less[OF assms] .
  have "find_bucket ?h x = find_bucket h x" for x by (simp add: find_bucket_def)
  then have "hash_placed hf lf ?h" using assms i by (auto simp: hash_placed_def nth_list_update)
  moreover have "hash_elems ?h = add_mset e (hash_elems h)" using mset_concat_update[OF i] by (simp add: hash_elems_def)
  ultimately show ?thesis using i by (simp add: push_bucket_def rd_bucket_def)
qed

lemma rehash_move_placed:
  "hash_placed hf lf h \<Longrightarrow> \<exists>h'. rehash_move h es = Some h' \<and> hash_placed hf lf h' \<and> hash_elems h' = mset es + hash_elems h \<and>
    h_elem_cnt h' = h_elem_cnt h \<and> h_bucket_cnt h' = h_bucket_cnt h"
proof (induction es arbitrary: h)
  case (Cons e es)
  obtain h1 where h1: "push_bucket h (find_bucket h e) e = Some h1" "hash_placed hf lf h1" "hash_elems h1 = add_mset e (hash_elems h)"
    "h_elem_cnt h1 = h_elem_cnt h" "h_bucket_cnt h1 = h_bucket_cnt h"
    using push_bucket_placed[OF Cons.prems] by blast
  then show ?case using Cons.IH[OF h1(2)] by auto
qed (simp add: hash_elems_def)

lemma rehash_wf:
  assumes "hash_wf hf lf h"
  obtains h' where "rehash ok h = Some h'" "hash_wf hf lf h'" "hash_elems h' = hash_elems h" "h_elem_cnt h' = h_elem_cnt h"
    "ok \<Longrightarrow> 4 \<le> unat (h_bucket_cnt h') \<and> unat (h_bucket_cnt h') \<le> max 4 (size (hash_elems h) div 2) \<and>
      size (hash_elems h) < 4 * unat (h_bucket_cnt h')"
proof -
  let ?n = "if h_elem_cnt h div 2 < 4 then 4 else h_elem_cnt h div 2"
  have wf: "hash_placed hf lf h" "unat (h_elem_cnt h) = size (hash_elems h)" using assms by (simp_all add: hash_wf_def)
  have n: "unat ?n = max 4 (size (hash_elems h) div 2)" using wf(2) by (auto simp: word_less_nat_alt unat_div)
  obtain r where r: "round_to_power_of_2 ?n = Some r" "is_power_of_2 r" "4 \<le> unat r" "unat r \<le> unat ?n" "unat ?n < 2 * unat r"
    using round_to_power_of_2_bounds[of ?n] n by auto
  have b: "4 \<le> unat r \<and> unat r \<le> max 4 (size (hash_elems h) div 2) \<and> size (hash_elems h) < 4 * unat r"
    using r n by linarith
  let ?h0 = "h\<lparr>h_buckets := replicate (unat r) [], h_bucket_cnt := r\<rparr>"
  have "hash_placed hf lf ?h0" using wf(1) r(2) by (auto simp: hash_placed_def)
  moreover have "hash_elems ?h0 = {#}" by (simp add: hash_elems_def)
  moreover have "mset (concat (take (unat (h_bucket_cnt h)) (h_buckets h))) = hash_elems h"
    using wf(1) by (simp add: hash_elems_def hash_placed_def)
  ultimately obtain h' where h': "rehash_move ?h0 (concat (take (unat (h_bucket_cnt h)) (h_buckets h))) = Some h'"
    "hash_placed hf lf h'" "hash_elems h' = hash_elems h" "h_elem_cnt h' = h_elem_cnt h" "h_bucket_cnt h' = r"
    using rehash_move_placed[of hf lf ?h0 "concat (take (unat (h_bucket_cnt h)) (h_buckets h))"] by auto
  then have "hash_wf hf lf h'" using assms by (simp add: hash_wf_def)
  have re: "rehash ok h = Some (if r = h_bucket_cnt h \<or> \<not> ok then h else h')"
    using r(1) h'(1) by (simp add: rehash_def Let_def)
  show ?thesis
  proof (cases "r = h_bucket_cnt h \<or> \<not> ok")
    case True
    then show ?thesis using that[of h] re assms b by auto
  next
    case False
    then show ?thesis using that[of h'] re \<open>hash_wf hf lf h'\<close> h' b by simp
  qed
qed

lemma mset_concat_remove:
  "count (mset (concat bs)) x = Suc 0 \<Longrightarrow> mset (concat (map (remove1 x) bs)) = mset (concat bs) - {#x#}"
proof (induction bs)
  case (Cons b bs)
  show ?case
  proof (cases "x \<in> set b")
    case True
    then have "count (mset b) x \<noteq> 0" by (simp add: count_eq_zero_iff)
    moreover have "count (mset b) x + count (mset (concat bs)) x = Suc 0" using Cons.prems by simp
    ultimately have "count (mset (concat bs)) x = 0" by linarith
    then have "x \<notin> set (concat bs)" by (simp only: count_eq_zero_iff set_mset_mset not_False_eq_True)
    then have "map (remove1 x) bs = bs" by (intro map_idI) (auto simp: remove1_idem)
    then show ?thesis using True by (simp add: mset_remove1)
  next
    case False
    then have b: "count (mset b) x = 0" by (simp add: count_eq_zero_iff)
    moreover have "count (mset b) x + count (mset (concat bs)) x = Suc 0" using Cons.prems by simp
    ultimately have c: "count (mset (concat bs)) x = Suc 0" by linarith
    then have "x \<in># mset (concat bs)" by (metis count_eq_zero_iff nat.distinct(1))
    note d = diff_union_single_conv[OF this, of "mset b"]
    show ?thesis using False by (simp only: list.map concat.simps mset_append remove1_idem[OF False] Cons.IH[OF c] d)
  qed
qed simp

lemma remove_elem_wf:
  assumes "hash_wf hf lf h" and "x \<in># hash_elems h" and "\<not> lf x x"
  shows "hash_wf hf lf (remove_elem h x) \<and> hash_elems (remove_elem h x) = hash_elems h - {#x#}"
proof -
  let ?M = "hash_elems h"
  have pl: "hash_placed hf lf h" using assms(1) by (simp add: hash_wf_def)
  have u: "{#y \<in># ?M. \<not> lf e y \<and> \<not> lf y e#} = {#e#}" if "e \<in># ?M" for e using assms(1) that by (simp add: hash_wf_def)
  have "count {#y \<in># ?M. \<not> lf x y \<and> \<not> lf y x#} x = count ?M x" using assms(3) by simp
  then have "count ?M x = Suc 0" using u[OF assms(2)] by simp
  then have el: "hash_elems (remove_elem h x) = ?M - {#x#}"
    using mset_concat_remove[of "h_buckets h" x] by (simp add: hash_elems_def remove_elem_def)
  have "h_elem_cnt h \<noteq> 0" using assms(1,2) by (auto simp: hash_wf_def)
  then have "unat (h_elem_cnt h - 1) = size (?M - {#x#})"
    using assms(1,2) by (simp add: unat_minus_one hash_wf_def size_Diff_singleton)
  moreover have "find_bucket (remove_elem h x) e = find_bucket h e" for e by (simp add: find_bucket_def remove_elem_def)
  then have "hash_placed hf lf (remove_elem h x)"
    using pl set_remove1_subset[of x] unfolding hash_placed_def by (simp add: remove_elem_def) (metis subsetD)
  moreover have "{#y \<in># ?M - {#x#}. \<not> lf e y \<and> \<not> lf y e#} = {#e#}" if e: "e \<in># ?M - {#x#}" for e
  proof -
    have "e \<in># ?M" using e by (rule in_diffD)
    note ue = u[OF this]
    have "\<not> (\<not> lf e x \<and> \<not> lf x e)"
    proof
      assume "\<not> lf e x \<and> \<not> lf x e"
      then have "x \<in># {#y \<in># ?M. \<not> lf e y \<and> \<not> lf y e#}" using assms(2) by simp
      then have "x = e" using ue by simp
      then show False using e \<open>count ?M x = Suc 0\<close> by (metis count_diff count_single diff_Suc_1 not_in_iff)
    qed
    then show ?thesis using ue by (auto simp: filter_diff_mset)
  qed
  ultimately show ?thesis using el by (simp add: hash_wf_def remove_elem_def)
qed

section \<open>The contract of the hash and comparison functions\<close>

text \<open>
  \<open>hash.h\<close> asks a client for a comparison and a hash function. The comparison has to be a strict weak order, and
  equal elements must have equal hash values. Under this contract the table is a map: \<open>hash_find\<close> is its lookup.
\<close>

locale hash_funcs = strict_weak_order less for less :: "'e \<Rightarrow> 'e \<Rightarrow> bool" +
  fixes hf :: "'e \<Rightarrow> 32 word"
  assumes hash_cong: "\<not> less a b \<Longrightarrow> \<not> less b a \<Longrightarrow> hf a = hf b"
begin

definition eqv :: "'e \<Rightarrow> 'e \<Rightarrow> bool" where
  "eqv a b \<longleftrightarrow> \<not> less a b \<and> \<not> less b a"

lemma eqv_refl [simp]: "eqv a a"
  by (simp add: eqv_def irrefl)

lemma eqv_sym: "eqv a b \<Longrightarrow> eqv b a"
  by (simp add: eqv_def)

lemma eqv_trans: "eqv a b \<Longrightarrow> eqv b c \<Longrightarrow> eqv a c"
  unfolding eqv_def using incomp_trans by blast

abbreviation wf :: "'e hash \<Rightarrow> bool" where
  "wf \<equiv> hash_wf hf less"

lemma wf_unique: "wf h \<Longrightarrow> x \<in># hash_elems h \<Longrightarrow> y \<in># hash_elems h \<Longrightarrow> eqv x y \<Longrightarrow> x = y"
proof -
  assume "wf h" and x: "x \<in># hash_elems h" and y: "y \<in># hash_elems h" and "eqv x y"
  then have "{#z \<in># hash_elems h. \<not> less x z \<and> \<not> less z x#} = {#x#}" by (simp add: hash_wf_def)
  moreover have "y \<in># {#z \<in># hash_elems h. \<not> less x z \<and> \<not> less z x#}" using y \<open>eqv x y\<close> by (simp add: eqv_def)
  ultimately show "x = y" by simp
qed

lemma eqv_bucket: "hash_placed hf less h \<Longrightarrow> eqv a b \<Longrightarrow> find_bucket h a = find_bucket h b"
  using hash_cong[of a b] by (simp add: find_bucket_def hash_placed_def eqv_def)

lemma hash_find_cases:
  assumes "wf h"
  obtains (absent) "hash_find h e = Some None" "\<And>x. x \<in># hash_elems h \<Longrightarrow> \<not> eqv x e"
  | (present) x where "hash_find h e = Some (Some x)" "x \<in># hash_elems h" "eqv x e"
proof -
  have pl: "hash_placed hf less h" using assms by (simp add: hash_wf_def)
  let ?b = "h_buckets h ! find_bucket h e"
  have l: "h_less h = less" using pl by (simp add: hash_placed_def)
  have f: "hash_find h e = Some (find (\<lambda>hi. eqv hi e) ?b)"
    using find_bucket_less[OF pl, of e] by (simp add: hash_find_def find_elem_def rd_bucket_def eqv_def l)
  have own: "x \<in># hash_elems h \<longleftrightarrow> x \<in> set ?b" if "eqv x e" for x
    using elem_in_own_bucket[OF pl, of x] eqv_bucket[OF pl that] by simp
  show ?thesis
  proof (cases "find (\<lambda>hi. eqv hi e) ?b")
    case None
    then have "\<not> eqv x e" if "x \<in># hash_elems h" for x using own[of x] that by (auto simp: find_None_iff)
    then show ?thesis using absent f None by simp
  next
    case (Some x)
    then have "x \<in> set ?b" "eqv x e" by (auto simp: find_Some_iff)
    then show ?thesis using present[of x] f Some own by simp
  qed
qed

lemma hash_find_Some: "wf h \<Longrightarrow> hash_find h e = Some (Some x) \<longleftrightarrow> x \<in># hash_elems h \<and> eqv x e"
  by (rule hash_find_cases[of h e]) (auto dest: wf_unique intro: eqv_sym eqv_trans)

lemma hash_find_None: "wf h \<Longrightarrow> hash_find h e = Some None \<longleftrightarrow> (\<forall>x\<in>#hash_elems h. \<not> eqv x e)"
  by (rule hash_find_cases[of h e]) auto

lemma hash_find_total: "wf h \<Longrightarrow> \<exists>r. hash_find h e = Some r"
  by (rule hash_find_cases[of h e]) auto

text \<open>A lookup sees only the elements of a table, not how they are spread over buckets.\<close>

lemma hash_find_eqI:
  assumes "wf h" and "\<And>x. r = Some x \<longleftrightarrow> x \<in># hash_elems h \<and> eqv x e"
  shows "hash_find h e = Some r"
proof (cases r)
  case None
  then have "\<not> eqv x e" if "x \<in># hash_elems h" for x using assms(2)[of x] that by simp
  then show ?thesis using None hash_find_None[OF assms(1)] by simp
next
  case (Some x)
  then show ?thesis using assms(2)[of x] hash_find_Some[OF assms(1)] by simp
qed

lemma insert_elem_wf:
  assumes "wf h" and "\<And>x. x \<in># hash_elems h \<Longrightarrow> \<not> eqv x e" and "size (hash_elems h) < 2 ^ 32 - 1"
  obtains h' where "insert_elem h (find_bucket h e) e = Some h'" "wf h'" "hash_elems h' = add_mset e (hash_elems h)"
proof -
  let ?h = "h\<lparr>h_elem_cnt := h_elem_cnt h + 1\<rparr>"
  have pl: "hash_placed hf less ?h" using assms(1) by (auto simp: hash_wf_def hash_placed_def find_bucket_def)
  have fb: "find_bucket ?h e = find_bucket h e" "hash_elems ?h = hash_elems h" by (simp_all add: find_bucket_def hash_elems_def)
  obtain h' where h': "insert_elem h (find_bucket h e) e = Some h'" "hash_placed hf less h'"
    "hash_elems h' = add_mset e (hash_elems h)" "h_elem_cnt h' = h_elem_cnt h + 1"
    using push_bucket_placed[OF pl, of e] fb by (auto simp: insert_elem_def)
  have "unat (h_elem_cnt h') = size (hash_elems h')"
    using assms(1,3) h' by (simp add: hash_wf_def unat_word_ariths)
  moreover have "{#x \<in># hash_elems h'. \<not> less a x \<and> \<not> less x a#} = {#a#}" if a: "a \<in># hash_elems h'" for a
  proof (cases "a = e")
    case True
    have "{#x \<in># hash_elems h. \<not> less e x \<and> \<not> less x e#} = {#}"
      using assms(2) by (auto simp: eqv_def filter_mset_eq_conv)
    then show ?thesis using True h'(3) irrefl by simp
  next
    case False
    then have "a \<in># hash_elems h" using a h'(3) by simp
    then show ?thesis using assms(1,2) h'(3) by (auto simp: hash_wf_def eqv_def)
  qed
  ultimately show ?thesis using that h' by (simp add: hash_wf_def)
qed

lemma hash_insert_law:
  assumes "wf h" and "size (hash_elems h) < 2 ^ 32 - 1"
  shows "\<exists>h' old. hash_insert ok h e = Some (h', old) \<and> wf h' \<and> hash_find h e = Some old \<and>
    hash_elems h' = (if old = None then add_mset e (hash_elems h) else hash_elems h) \<and>
    (\<forall>x. hash_find h' x = (if eqv e x \<and> old = None then Some (Some e) else hash_find h x))"
  using assms(1)
proof (cases rule: hash_find_cases[where e = e])
  case absent
  obtain h1 where h1: "insert_elem h (find_bucket h e) e = Some h1" "wf h1" "hash_elems h1 = add_mset e (hash_elems h)"
    using insert_elem_wf[OF assms(1) absent(2) assms(2)] by blast
  obtain h2 where h2: "rehash ok h1 = Some h2" "wf h2" "hash_elems h2 = hash_elems h1" using rehash_wf[OF h1(2)] by metis
  have "hash_find h2 x = (if eqv e x then Some (Some e) else hash_find h x)" for x
  proof (cases "eqv e x")
    case True
    then show ?thesis using hash_find_Some[OF h2(2)] h2(3) h1(3) by simp
  next
    case False
    obtain r where r: "hash_find h x = Some r" using hash_find_total[OF assms(1)] by blast
    have "hash_find h2 x = Some r"
      by (rule hash_find_eqI[OF h2(2)]) (use r False h2(3) h1(3) hash_find_Some[OF assms(1), of x] in auto)
    with r False show ?thesis by simp
  qed
  moreover have "hash_insert ok h e = Some (h2, None)"
    using absent(1) h1(1) h2(1) by (simp add: hash_insert_def hash_find_def)
  ultimately show ?thesis using absent(1) h2 h1(3) by auto
next
  case (present y)
  obtain h2 where h2: "rehash ok h = Some h2" "wf h2" "hash_elems h2 = hash_elems h" using rehash_wf[OF assms(1)] by metis
  have "hash_find h2 x = hash_find h x" for x
  proof -
    obtain r where r: "hash_find h x = Some r" using hash_find_total[OF assms(1)] by blast
    have "hash_find h2 x = Some r"
      by (rule hash_find_eqI[OF h2(2)]) (use r h2(3) hash_find_Some[OF assms(1), of x] in auto)
    with r show ?thesis by simp
  qed
  moreover have "hash_insert ok h e = Some (h2, Some y)"
    using present(1) h2(1) by (simp add: hash_insert_def hash_find_def)
  ultimately show ?thesis using present(1) h2 by auto
qed

lemma remove_law:
  assumes "wf h" and "y \<in># hash_elems h"
  shows "wf (remove_elem h y) \<and> hash_elems (remove_elem h y) = hash_elems h - {#y#} \<and>
    (\<forall>x. x \<in># hash_elems (remove_elem h y) \<longleftrightarrow> x \<in># hash_elems h \<and> \<not> eqv x y)"
proof -
  note r = remove_elem_wf[OF assms irrefl]
  have "count (hash_elems h) y = Suc 0"
  proof -
    have "{#z \<in># hash_elems h. \<not> less y z \<and> \<not> less z y#} = {#y#}" using assms by (simp add: hash_wf_def)
    moreover have "count {#z \<in># hash_elems h. \<not> less y z \<and> \<not> less z y#} y = count (hash_elems h) y" using irrefl by simp
    ultimately show ?thesis by simp
  qed
  then have "x \<in># hash_elems h - {#y#} \<longleftrightarrow> x \<in># hash_elems h \<and> x \<noteq> y" for x
    by (cases "x = y") (auto simp: in_diff_count dest: in_diffD)
  moreover have "x \<noteq> y \<longleftrightarrow> \<not> eqv x y" if "x \<in># hash_elems h" for x
    using wf_unique[OF assms(1) that assms(2)] by auto
  ultimately show ?thesis using r by auto
qed

lemma hash_replace_law:
  assumes "wf h" and "size (hash_elems h) < 2 ^ 32 - 1"
  shows "\<exists>h' old. hash_replace ok h e = Some (h', old) \<and> wf h' \<and> hash_find h e = Some old \<and>
    (\<forall>x. hash_find h' x = (if eqv e x then Some (Some e) else hash_find h x))"
proof -
  obtain old where old: "hash_find h e = Some old" using hash_find_total[OF assms(1)] by blast
  define h0 where "h0 = (case old of None \<Rightarrow> h | Some x \<Rightarrow> remove_elem h x)"
  have h0: "wf h0" "\<And>x. x \<in># hash_elems h0 \<longleftrightarrow> x \<in># hash_elems h \<and> \<not> eqv x e" "size (hash_elems h0) < 2 ^ 32 - 1" "find_bucket h0 e = find_bucket h e"
  proof -
    have "wf h0 \<and> (\<forall>x. x \<in># hash_elems h0 \<longleftrightarrow> x \<in># hash_elems h \<and> \<not> eqv x e) \<and> size (hash_elems h0) < 2 ^ 32 - 1 \<and> find_bucket h0 e = find_bucket h e"
    proof (cases old)
      case None
      then show ?thesis using old assms hash_find_None[OF assms(1)] by (auto simp: h0_def)
    next
      case (Some y)
      then have y: "y \<in># hash_elems h" "eqv y e" using old hash_find_Some[OF assms(1)] by auto
      have "eqv x y \<longleftrightarrow> eqv x e" for x using y(2) eqv_trans eqv_sym by blast
      moreover have "size (hash_elems h - {#y#}) \<le> size (hash_elems h)" by (intro size_mset_mono) simp
      moreover have "find_bucket (remove_elem h y) e = find_bucket h e" by (simp add: find_bucket_def remove_elem_def)
      ultimately show ?thesis using remove_law[OF assms(1) y(1)] assms(2) Some by (auto simp: h0_def)
    qed
    then show "wf h0" "\<And>x. x \<in># hash_elems h0 \<longleftrightarrow> x \<in># hash_elems h \<and> \<not> eqv x e" "size (hash_elems h0) < 2 ^ 32 - 1" "find_bucket h0 e = find_bucket h e"
      by blast+
  qed
  have na: "\<not> eqv x e" if "x \<in># hash_elems h0" for x using h0(2) that by blast
  obtain h1 where h1: "insert_elem h0 (find_bucket h e) e = Some h1" "wf h1" "hash_elems h1 = add_mset e (hash_elems h0)"
    using insert_elem_wf[OF h0(1) na h0(3)] h0(4) by metis
  obtain h2 where h2: "rehash ok h1 = Some h2" "wf h2" "hash_elems h2 = hash_elems h1" using rehash_wf[OF h1(2)] by metis
  have "hash_find h2 x = (if eqv e x then Some (Some e) else hash_find h x)" for x
  proof (cases "eqv e x")
    case True
    then show ?thesis using hash_find_Some[OF h2(2)] h2(3) h1(3) by simp
  next
    case False
    obtain r where r: "hash_find h x = Some r" using hash_find_total[OF assms(1)] by blast
    have ne: "\<not> eqv z e" if "eqv z x" for z using that False eqv_sym eqv_trans by blast
    have "hash_find h2 x = Some r"
      by (rule hash_find_eqI[OF h2(2)]) (use r False ne h2(3) h1(3) h0(2) hash_find_Some[OF assms(1), of x] in auto)
    with r False show ?thesis by simp
  qed
  moreover have "hash_replace ok h e = Some (h2, old)"
    using old h1(1) h2(1) by (simp add: hash_replace_def hash_find_def h0_def)
  ultimately show ?thesis using old h2(2) by blast
qed

lemma hash_delete_law:
  assumes "wf h"
  shows "\<exists>h' old. hash_delete ok h e = Some (h', old) \<and> wf h' \<and> hash_find h e = Some old \<and>
    (\<forall>x. hash_find h' x = (if eqv e x then Some None else hash_find h x))"
  using assms
proof (cases rule: hash_find_cases[where e = e])
  case absent
  have "hash_find h x = Some None" if "eqv e x" for x
    using absent hash_find_None[OF assms, of x] that eqv_sym eqv_trans by blast
  moreover have "hash_delete ok h e = Some (h, None)" using absent(1) by (simp add: hash_delete_def hash_find_def)
  ultimately show ?thesis using absent(1) assms by auto
next
  case (present y)
  let ?h = "remove_elem h y"
  note rm = remove_law[OF assms present(2)]
  obtain h2 where h2: "rehash ok ?h = Some h2" "wf h2" "hash_elems h2 = hash_elems ?h" using rehash_wf[of hf less ?h ok] rm by metis
  have "hash_find h2 x = (if eqv e x then Some None else hash_find h x)" for x
  proof (cases "eqv e x")
    case True
    have "\<not> eqv z x" if "z \<in># hash_elems ?h" for z
      using that rm True present(3) eqv_sym eqv_trans by meson
    then show ?thesis using hash_find_None[OF h2(2)] h2(3) True by simp
  next
    case False
    obtain r where r: "hash_find h x = Some r" using hash_find_total[OF assms(1)] by blast
    have ne: "\<not> eqv z y" if "eqv z x" for z using that False present(3) eqv_sym eqv_trans by blast
    have "hash_find h2 x = Some r"
      by (rule hash_find_eqI[OF h2(2)]) (use r ne h2(3) rm hash_find_Some[OF assms(1), of x] in auto)
    with r False show ?thesis by simp
  qed
  moreover have "hash_delete ok h e = Some (h2, Some y)"
    using present(1) h2(1) by (simp add: hash_delete_def hash_find_def)
  ultimately show ?thesis using present(1) h2(2) by blast
qed

lemma hash_init_law:
  "\<exists>h. hash_init True hf less = Some (h, True) \<and> wf h \<and> hash_elems h = {#}"
proof -
  have "is_power_of_2 4" using is_power_of_2_top[of 2 4] by simp
  then show ?thesis
    by (auto simp: hash_init_def hash_clear_def hash_wf_def hash_placed_def hash_elems_def Let_def nth_Cons split: nat.splits)
qed

end

context hash_funcs
begin

lemma hash_insert_load:
  assumes "wf h" and "size (hash_elems h) < 2 ^ 32 - 1"
  shows "\<exists>h' old. hash_insert True h e = Some (h', old) \<and> unat (hash_size h') = size (hash_elems h') \<and>
    4 \<le> unat (h_bucket_cnt h') \<and> unat (h_bucket_cnt h') \<le> max 4 (size (hash_elems h') div 2) \<and>
    size (hash_elems h') < 4 * unat (h_bucket_cnt h')"
proof -
  obtain h1 old where h1: "wf h1" "\<And>h'. rehash True h1 = Some h' \<Longrightarrow> hash_insert True h e = Some (h', old)"
    using assms(1)
  proof (cases rule: hash_find_cases[where e = e])
    case absent
    obtain h1 where "insert_elem h (find_bucket h e) e = Some h1" "wf h1"
      using insert_elem_wf[OF assms(1) absent(2) assms(2)] by blast
    then show ?thesis using that[of h1 None] absent(1) by (simp add: hash_insert_def hash_find_def)
  next
    case (present y)
    then show ?thesis using that[of h "Some y"] assms(1) by (simp add: hash_insert_def hash_find_def)
  qed
  obtain h' where h': "rehash True h1 = Some h'" "wf h'" "hash_elems h' = hash_elems h1"
    "4 \<le> unat (h_bucket_cnt h') \<and> unat (h_bucket_cnt h') \<le> max 4 (size (hash_elems h1) div 2) \<and>
      size (hash_elems h1) < 4 * unat (h_bucket_cnt h')"
    by (rule rehash_wf[OF h1(1), of True]) blast
  have "unat (hash_size h') = size (hash_elems h')" using h'(2) by (simp add: hash_size_def hash_wf_def)
  then show ?thesis using h1(2)[OF h'(1)] h'(3,4) by metis
qed

end

section \<open>Iteration\<close>

definition rest_from :: "'e hash \<Rightarrow> nat \<Rightarrow> nat \<Rightarrow> 'e list" where
  "rest_from h bucket pos = drop (pos - 1) (h_buckets h ! bucket) @ concat (drop (bucket + 1) (h_buckets h))"

lemma hash_next_loop_rest:
  assumes "length (h_buckets h) = unat (h_bucket_cnt h)" and "bucket < length (h_buckets h)"
    and "1 \<le> pos" and "pos \<le> length (h_buckets h ! bucket) + 1"
  shows "case rest_from h bucket pos of
      [] \<Rightarrow> \<exists>i. hash_next_loop h bucket pos = Some (i, None)
    | e # es \<Rightarrow> \<exists>bucket' pos'. hash_next_loop h bucket pos = Some (\<lparr>it_bucket = bucket', it_elem = Some pos'\<rparr>, Some e) \<and>
        bucket' < length (h_buckets h) \<and> pos' \<le> length (h_buckets h ! bucket') \<and> rest_from h bucket' (pos' + 1) = es \<and>
        0 < pos' \<and> h_buckets h ! bucket' ! (pos' - 1) = e"
  using assms
proof (induction h bucket pos rule: hash_next_loop.induct)
  case (1 h bucket pos)
  let ?b = "h_buckets h ! bucket"
  have rd: "rd_bucket h bucket = Some ?b" using "1.prems" by (simp add: rd_bucket_def)
  show ?case
  proof (cases "pos = length ?b + 1")
    case end_of_list: True
    show ?thesis
    proof (cases "bucket + 1 \<ge> unat (h_bucket_cnt h)")
      case True
      then show ?thesis using end_of_list rd "1.prems" by (subst hash_next_loop.simps) (simp add: rest_from_def)
    next
      case False
      then have r: "rest_from h bucket pos = rest_from h (bucket + 1) 1"
        using end_of_list "1.prems"(1) by (simp add: rest_from_def Cons_nth_drop_Suc[symmetric])
      have l: "hash_next_loop h bucket pos = hash_next_loop h (bucket + 1) 1"
        using end_of_list False rd by (subst hash_next_loop.simps) simp
      show ?thesis unfolding r l by (rule "1.IH"[OF rd end_of_list False]) (use False "1.prems" in simp_all)
    qed
  next
    case False
    then have pos: "pos - 1 < length ?b" using "1.prems" by simp
    then have "rest_from h bucket pos = ?b ! (pos - 1) # rest_from h bucket (pos + 1)"
      using "1.prems"(3) by (simp add: rest_from_def Cons_nth_drop_Suc[symmetric])
    moreover have "hash_next_loop h bucket pos = Some (\<lparr>it_bucket = bucket, it_elem = Some pos\<rparr>, Some (?b ! (pos - 1)))"
      using False rd by (subst hash_next_loop.simps) simp
    ultimately show ?thesis using "1.prems" pos by auto
  qed
qed

lemma hash_collect_rest:
  assumes "length (h_buckets h) = unat (h_bucket_cnt h)"
  shows "bucket < length (h_buckets h) \<Longrightarrow> pos \<le> length (h_buckets h ! bucket) \<Longrightarrow> rest_from h bucket (pos + 1) = es \<Longrightarrow>
    hash_collect h \<lparr>it_bucket = bucket, it_elem = Some pos\<rparr> = Some es"
proof (induction es arbitrary: bucket pos)
  case Nil
  then have "\<exists>i. hash_next h \<lparr>it_bucket = bucket, it_elem = Some pos\<rparr> = Some (i, None)"
    using hash_next_loop_rest[OF assms, of bucket "pos + 1"] by (simp add: hash_next_def rd_bucket_def)
  then show ?case by (subst hash_collect.simps) auto
next
  case (Cons e es)
  then obtain bucket' pos' where n: "hash_next h \<lparr>it_bucket = bucket, it_elem = Some pos\<rparr> = Some (\<lparr>it_bucket = bucket', it_elem = Some pos'\<rparr>, Some e)"
    "bucket' < length (h_buckets h)" "pos' \<le> length (h_buckets h ! bucket')" "rest_from h bucket' (pos' + 1) = es"
    "0 < pos'" "h_buckets h ! bucket' ! (pos' - 1) = e"
    using hash_next_loop_rest[OF assms, of bucket "pos + 1"] by (auto simp: hash_next_def rd_bucket_def)
  have "hash_cur h \<lparr>it_bucket = bucket', it_elem = Some pos'\<rparr> = Some (Some e)" using n by (simp add: hash_cur_def rd_bucket_def)
  then show ?case using Cons.IH[OF n(2-4)] n(1) by (subst hash_collect.simps) simp
qed

lemma hash_collect_all:
  assumes "hash_placed hf lf h"
  shows "hash_collect h hash_first = Some (concat (h_buckets h))"
proof -
  have l: "length (h_buckets h) = unat (h_bucket_cnt h)" "0 < length (h_buckets h)"
    using assms find_bucket_less[OF assms] by (auto simp: hash_placed_def is_power_of_2_def unat_gt_0)
  have "rest_from h 0 (0 + 1) = concat (h_buckets h)"
    using l(2) by (cases "h_buckets h") (simp_all add: rest_from_def)
  then show ?thesis using hash_collect_rest[OF l(1,2), of 0] by (simp add: hash_first_def)
qed

section \<open>Hash functions\<close>

definition fnv :: "32 word \<Rightarrow> uint8 list \<Rightarrow> 32 word" where
  "fnv = foldl (\<lambda>hash b. (hash * FNV_32_PRIME) XOR ucast b)"

lemma hash_bytes_loop_eval:
  "unat sz = n \<Longrightarrow> nonnull p n \<Longrightarrow> hash_bytes_loop m p sz hash = Some (fnv hash (read_bytes m p n))"
proof (induction n arbitrary: p sz hash)
  case 0
  then show ?case by (subst hash_bytes_loop.simps) (simp add: fnv_def unat_eq_zero)
next
  case (Suc n)
  note sz = unat_Suc_dec[OF Suc.prems(1)]
  have "p \<noteq> NULL" "nonnull (p + 1) n" using Suc.prems(2) by (simp_all add: nonnull_Suc)
  then show ?case
    using Suc.IH[OF sz(2)] sz(1) by (subst hash_bytes_loop.simps) (simp add: rd8_def read_bytes_Suc fnv_def word_gt_0)
qed

lemma hash_bytes_eval:
  assumes "p \<noteq> NULL" and "nonnull p (unat sz)"
  shows "hash_bytes m p sz = Some (fnv FNV_32_BASIS (read_bytes m p (unat sz)))"
  using hash_bytes_loop_eval[OF refl assms(2)] assms(1) by (simp add: hash_bytes_def)

lemma hash_string_loop_eval: "cstring m p s \<Longrightarrow> hash_string_loop m p hash = Some (fnv hash s)"
  by (induction s arbitrary: p hash; subst hash_string_loop.simps) (auto simp: fnv_def rd8_def)

section \<open>The guarantees of the table\<close>

text \<open>
  C17. A hash table is a map from elements up to equality, with \<open>hash_find\<close> as its lookup: \<open>hash_insert\<close> adds an element
  unless an equal one is there, \<open>hash_replace\<close> always puts the new element in, \<open>hash_delete\<close> takes an equal element
  out, each returns the element that was there before, and no other lookup changes. This holds
  whether or not memory can be had for a new array of buckets, and the operations never fault.
\<close>

theorem hash_map_laws:
  assumes "hash_funcs lt hf" and "hash_wf hf lt h" and "size (hash_elems h) < 2 ^ 32 - 1"
  shows "(\<exists>h' old. hash_insert ok h e = Some (h', old) \<and> hash_wf hf lt h' \<and> hash_find h e = Some old \<and>
      (\<forall>x. hash_find h' x = (if \<not> lt e x \<and> \<not> lt x e \<and> old = None then Some (Some e) else hash_find h x))) \<and>
    (\<exists>h' old. hash_replace ok h e = Some (h', old) \<and> hash_wf hf lt h' \<and> hash_find h e = Some old \<and>
      (\<forall>x. hash_find h' x = (if \<not> lt e x \<and> \<not> lt x e then Some (Some e) else hash_find h x))) \<and>
    (\<exists>h' old. hash_delete ok h e = Some (h', old) \<and> hash_wf hf lt h' \<and> hash_find h e = Some old \<and>
      (\<forall>x. hash_find h' x = (if \<not> lt e x \<and> \<not> lt x e then Some None else hash_find h x)))"
proof -
  note eqv = hash_funcs.eqv_def[OF assms(1)]
  show ?thesis
    using hash_funcs.hash_insert_law[OF assms, of ok e] hash_funcs.hash_replace_law[OF assms, of ok e]
      hash_funcs.hash_delete_law[OF assms(1,2), of ok e]
    unfolding eqv by auto
qed

definition word_hash :: "32 word \<Rightarrow> 32 word" where
  "word_hash w = fnv FNV_32_BASIS (bytes_of_word w)"

lemma word_hash_funcs: "hash_funcs (<) word_hash"
  by unfold_locales auto

theorem hash_map_laws_witness:
  "\<exists>h h'. hash_init True word_hash (<) = Some (h, True) \<and> hash_insert True h 5 = Some (h', None) \<and> hash_find h' 5 = Some (Some 5) \<and> hash_find h' 6 = Some None"
proof -
  obtain h where h: "hash_init True word_hash (<) = Some (h, True)" "hash_wf word_hash (<) h" "hash_elems h = {#}"
    using hash_funcs.hash_init_law[OF word_hash_funcs] by blast
  have n: "hash_find h x = Some None" for x using hash_funcs.hash_find_None[OF word_hash_funcs h(2)] h(3) by simp
  have "\<exists>h' old. hash_insert True h 5 = Some (h', old) \<and> hash_wf word_hash (<) h' \<and> hash_find h 5 = Some old \<and>
      (\<forall>x. hash_find h' x = (if \<not> 5 < x \<and> \<not> x < 5 \<and> old = None then Some (Some 5) else hash_find h x))"
    using hash_map_laws[OF word_hash_funcs h(2), of True 5] h(3) by simp
  then show ?thesis using h(1) n by auto
qed

text \<open>
  C31. The table keeps its load balanced. After an insertion for which memory was available there are at least four
  buckets, a power of two of them, at most half as many buckets as elements (unless four are enough), and fewer
  than four elements per bucket on average; \<open>hash_size\<close> is the number of elements.
\<close>

theorem hash_load_factor:
  assumes "hash_funcs lt hf" and "hash_wf hf lt h" and "size (hash_elems h) < 2 ^ 32 - 1"
  shows "\<exists>h' old. hash_insert True h e = Some (h', old) \<and> is_power_of_2 (h_bucket_cnt h') \<and>
    4 \<le> unat (h_bucket_cnt h') \<and> unat (h_bucket_cnt h') \<le> max 4 (unat (hash_size h') div 2) \<and>
    unat (hash_size h') < 4 * unat (h_bucket_cnt h')"
proof -
  obtain h' old where i: "hash_insert True h e = Some (h', old)" "hash_wf hf lt h'"
    using hash_funcs.hash_insert_law[OF assms, of True e] by blast
  then have "is_power_of_2 (h_bucket_cnt h')" by (simp add: hash_wf_def hash_placed_def)
  then show ?thesis using hash_funcs.hash_insert_load[OF assms, of e] i(1) by auto
qed

theorem hash_load_factor_witness:
  "\<exists>h h' old. hash_init True word_hash (<) = Some (h, True) \<and> hash_insert True h 5 = Some (h', old) \<and> unat (hash_size h') < 4 * unat (h_bucket_cnt h')"
proof -
  obtain h where h: "hash_init True word_hash (<) = Some (h, True)" "hash_wf word_hash (<) h" "hash_elems h = {#}"
    using hash_funcs.hash_init_law[OF word_hash_funcs] by blast
  then show ?thesis using hash_load_factor[OF word_hash_funcs h(2), of 5] by auto
qed

text \<open>
  C32. Iterating over a table with \<open>hash_first\<close> and \<open>hash_next\<close> ends and visits every element exactly once: the elements
  that \<open>hash_cur\<close> returns are pairwise different and are precisely those that \<open>hash_find\<close> finds.
\<close>

theorem hash_iteration:
  assumes "hash_funcs lt hf" and "hash_wf hf lt h"
  shows "\<exists>es. hash_collect h hash_first = Some es \<and> mset es = hash_elems h \<and> distinct es \<and> length es = unat (hash_size h) \<and>
    (\<forall>x. x \<in> set es \<longleftrightarrow> hash_find h x = Some (Some x))"
proof -
  let ?es = "concat (h_buckets h)"
  have pl: "hash_placed hf lt h" and sz: "unat (hash_size h) = size (hash_elems h)"
    using assms(2) by (simp_all add: hash_wf_def hash_size_def)
  have ir: "\<not> lt x x" for x by (rule strict_weak_order.irrefl[OF hash_funcs.axioms(1)[OF assms(1)]])
  have "count (hash_elems h) x \<le> 1" for x
  proof (cases "x \<in># hash_elems h")
    case True
    then have "{#y \<in># hash_elems h. \<not> lt x y \<and> \<not> lt y x#} = {#x#}" using assms(2) by (simp add: hash_wf_def)
    moreover have "count {#y \<in># hash_elems h. \<not> lt x y \<and> \<not> lt y x#} x = count (hash_elems h) x" using ir by simp
    ultimately show ?thesis by simp
  qed (simp add: count_eq_zero_iff[THEN iffD2])
  then have "distinct ?es" by (auto simp: hash_elems_def distinct_count_atmost_1 le_Suc_eq count_eq_zero_iff)
  moreover have "x \<in> set ?es \<longleftrightarrow> hash_find h x = Some (Some x)" for x
    using hash_funcs.hash_find_Some[OF assms, of x x] hash_funcs.eqv_refl[OF assms(1)] by (simp add: hash_elems_def)
  moreover have "length ?es = unat (hash_size h)" using sz by (simp add: hash_elems_def)
  ultimately show ?thesis using hash_collect_all[OF pl] by (simp add: hash_elems_def)
qed

theorem hash_iteration_witness:
  "\<exists>h h' old. hash_init True word_hash (<) = Some (h, True) \<and> hash_insert True h 5 = Some (h', old) \<and> hash_collect h' hash_first = Some [5]"
proof -
  obtain h where h: "hash_init True word_hash (<) = Some (h, True)" "hash_wf word_hash (<) h" "hash_elems h = {#}"
    using hash_funcs.hash_init_law[OF word_hash_funcs] by blast
  obtain h' old where i: "hash_insert True h 5 = Some (h', old)" "hash_wf word_hash (<) h'" "hash_find h 5 = Some old"
    "hash_elems h' = (if old = None then add_mset 5 (hash_elems h) else hash_elems h)"
    using hash_funcs.hash_insert_law[OF word_hash_funcs h(2), of True 5] h(3) by auto
  have "old = None" using i(3) hash_funcs.hash_find_None[OF word_hash_funcs h(2), of 5] h(3) by simp
  then have "hash_elems h' = {#5#}" using i(4) h(3) by simp
  then obtain es where "hash_collect h' hash_first = Some es" "mset es = {#5#}"
    using hash_iteration[OF word_hash_funcs i(2)] by auto
  then show ?thesis using h(1) i(1) by auto
qed

text \<open>
  The hash functions agree: the hash of a string is the hash of its bytes without the terminator, and the hash of an
  integer depends only on its value, not on where it is stored.
\<close>

lemma hash_string_is_hash_bytes:
  assumes "cstring m s bs" and "nonnull p 4"
  shows "(\<exists>len. strlen m s = Some len \<and> hash_string m s = hash_bytes m s len) \<and> hash_int m p i = Some (word_hash i)"
proof -
  have len: "unat (of_nat (length bs) :: size_t) = length bs" using unat_of_nat32[OF cstring_length[OF assms(1)]] .
  have "nonnull s (length bs)" using cstring_nonnull[OF assms(1)] by (rule nonnull_mono) simp
  then have "hash_bytes m s (of_nat (length bs)) = Some (fnv FNV_32_BASIS bs)"
    using hash_bytes_eval[of s "of_nat (length bs)" m] cstring_ptr[OF assms(1)] cstring_read[OF assms(1)] len by simp
  moreover have "hash_string m s = Some (fnv FNV_32_BASIS bs)"
    using hash_string_loop_eval[OF assms(1)] cstring_ptr[OF assms(1)] by (simp add: hash_string_def)
  moreover have "hash_int m p i = Some (word_hash i)"
  proof -
    have "p \<noteq> NULL" using assms(2) nonnull_mono[of p 4 "Suc 0"] by simp
    moreover have "read_bytes (write_bytes m p (bytes_of_word i)) p 4 = bytes_of_word i"
      using read_write_bytes[of "bytes_of_word i" m p] by (simp add: bytes_of_word_def)
    ultimately show ?thesis using hash_bytes_eval[of p 4] assms(2) by (simp add: hash_int_def word_hash_def)
  qed
  ultimately show ?thesis using strlen_eval[OF assms(1)] by simp
qed

end
