(* ===== verification/Bitmap.thy ===== *)
theory Bitmap
  imports Prelude
begin

text \<open>
  Bitmaps of \<open>src/lib/kernel/bitmap.c\<close>. A bitmap is the number of its bits and the array
  of 32-bit elements that hold them; an access outside the array is \<open>None\<close>. Sizes
  and indices are \<open>size_t\<close> values and wrap as in the code.

  \<open>bitmap_abs\<close> reads a bitmap as a list of booleans. Each operation is shown to act on that
  list as its name says, on bitmaps that satisfy \<open>bitmap_wf\<close>: the array has the
  \<open>elem_cnt\<close> elements that are allocated, and their number did not wrap when it was computed.
\<close>

section \<open>The code\<close>

type_synonym elem_type = "32 word"

abbreviation ELEM_BITS :: size_t where "ELEM_BITS \<equiv> 32"

abbreviation BITMAP_ERROR :: size_t where "BITMAP_ERROR \<equiv> - 1"

definition DIV_ROUND_UP :: "size_t \<Rightarrow> size_t \<Rightarrow> size_t" where
  "DIV_ROUND_UP x step = (x + step - 1) div step"

record bitmap =
  bit_cnt :: size_t
  bits :: "elem_type list"

definition elem_idx :: "size_t \<Rightarrow> size_t" where
  "elem_idx bit_idx = bit_idx div ELEM_BITS"

definition bit_mask :: "size_t \<Rightarrow> elem_type" where
  "bit_mask bit_idx = push_bit (unat (bit_idx mod ELEM_BITS)) 1"

definition elem_cnt :: "size_t \<Rightarrow> size_t" where
  "elem_cnt cnt = DIV_ROUND_UP cnt ELEM_BITS"

definition byte_cnt :: "size_t \<Rightarrow> size_t" where
  "byte_cnt cnt = 4 * elem_cnt cnt"

definition last_mask :: "bitmap \<Rightarrow> elem_type" where
  "last_mask b = (let last_bits = bit_cnt b mod ELEM_BITS in
     if last_bits \<noteq> 0 then push_bit (unat last_bits) 1 - 1 else - 1)"

text \<open>Element access: \<open>b->bits[idx]\<close>.\<close>

definition rd_bits :: "bitmap \<Rightarrow> size_t \<Rightarrow> elem_type option" where
  "rd_bits b idx = (if unat idx < length (bits b) then Some (bits b ! unat idx) else None)"

definition wr_bits :: "bitmap \<Rightarrow> size_t \<Rightarrow> elem_type \<Rightarrow> bitmap option" where
  "wr_bits b idx v = (if unat idx < length (bits b) then Some (b\<lparr>bits := (bits b)[unat idx := v]\<rparr>) else None)"

definition bitmap_size :: "bitmap \<Rightarrow> size_t" where
  "bitmap_size b = bit_cnt b"

definition bitmap_mark :: "bitmap \<Rightarrow> size_t \<Rightarrow> bitmap option" where
  "bitmap_mark b bit_idx = do {
     e \<leftarrow> rd_bits b (elem_idx bit_idx);
     wr_bits b (elem_idx bit_idx) (e OR bit_mask bit_idx)
   }"

definition bitmap_reset :: "bitmap \<Rightarrow> size_t \<Rightarrow> bitmap option" where
  "bitmap_reset b bit_idx = do {
     e \<leftarrow> rd_bits b (elem_idx bit_idx);
     wr_bits b (elem_idx bit_idx) (e AND NOT (bit_mask bit_idx))
   }"

definition bitmap_flip :: "bitmap \<Rightarrow> size_t \<Rightarrow> bitmap option" where
  "bitmap_flip b bit_idx = do {
     e \<leftarrow> rd_bits b (elem_idx bit_idx);
     wr_bits b (elem_idx bit_idx) (e XOR bit_mask bit_idx)
   }"

definition bitmap_set :: "bitmap \<Rightarrow> size_t \<Rightarrow> bool \<Rightarrow> bitmap option" where
  "bitmap_set b idx v = do {
     ASSERT (idx < bit_cnt b);
     if v then bitmap_mark b idx else bitmap_reset b idx
   }"

definition bitmap_test :: "bitmap \<Rightarrow> size_t \<Rightarrow> bool option" where
  "bitmap_test b idx = do {
     ASSERT (idx < bit_cnt b);
     e \<leftarrow> rd_bits b (elem_idx idx);
     Some (e AND bit_mask idx \<noteq> 0)
   }"

function set_multiple_loop :: "bitmap \<Rightarrow> size_t \<Rightarrow> size_t \<Rightarrow> bool \<Rightarrow> size_t \<Rightarrow> bitmap option" where
  "set_multiple_loop b start cnt v i =
     (if i < cnt then do {
        b \<leftarrow> bitmap_set b (start + i) v;
        set_multiple_loop b start cnt v (i + 1)
      } else Some b)"
  by pat_completeness auto
termination
  by (relation "measure (\<lambda>(_, _, cnt, _, i). unat cnt - unat i)") (simp_all add: word_inc_measure)

definition bitmap_set_multiple :: "bitmap \<Rightarrow> size_t \<Rightarrow> size_t \<Rightarrow> bool \<Rightarrow> bitmap option" where
  "bitmap_set_multiple b start cnt v = do {
     ASSERT (start \<le> bit_cnt b);
     ASSERT (start + cnt \<le> bit_cnt b);
     set_multiple_loop b start cnt v 0
   }"

definition bitmap_set_all :: "bitmap \<Rightarrow> bool \<Rightarrow> bitmap option" where
  "bitmap_set_all b v = bitmap_set_multiple b 0 (bitmap_size b) v"

function count_loop :: "bitmap \<Rightarrow> size_t \<Rightarrow> size_t \<Rightarrow> bool \<Rightarrow> size_t \<Rightarrow> size_t \<Rightarrow> size_t option" where
  "count_loop b start cnt v i value_cnt =
     (if i < cnt then do {
        t \<leftarrow> bitmap_test b (start + i);
        count_loop b start cnt v (i + 1) (if t = v then value_cnt + 1 else value_cnt)
      } else Some value_cnt)"
  by pat_completeness auto
termination
  by (relation "measure (\<lambda>(_, _, cnt, _, i, _). unat cnt - unat i)") (simp_all add: word_inc_measure)

definition bitmap_count :: "bitmap \<Rightarrow> size_t \<Rightarrow> size_t \<Rightarrow> bool \<Rightarrow> size_t option" where
  "bitmap_count b start cnt v = do {
     ASSERT (start \<le> bit_cnt b);
     ASSERT (start + cnt \<le> bit_cnt b);
     count_loop b start cnt v 0 0
   }"

function contains_loop :: "bitmap \<Rightarrow> size_t \<Rightarrow> size_t \<Rightarrow> bool \<Rightarrow> size_t \<Rightarrow> bool option" where
  "contains_loop b start cnt v i =
     (if i < cnt then do {
        t \<leftarrow> bitmap_test b (start + i);
        if t = v then Some True else contains_loop b start cnt v (i + 1)
      } else Some False)"
  by pat_completeness auto
termination
  by (relation "measure (\<lambda>(_, _, cnt, _, i). unat cnt - unat i)") (simp_all add: word_inc_measure)

definition bitmap_contains :: "bitmap \<Rightarrow> size_t \<Rightarrow> size_t \<Rightarrow> bool \<Rightarrow> bool option" where
  "bitmap_contains b start cnt v = do {
     ASSERT (start \<le> bit_cnt b);
     ASSERT (start + cnt \<le> bit_cnt b);
     contains_loop b start cnt v 0
   }"

definition bitmap_any :: "bitmap \<Rightarrow> size_t \<Rightarrow> size_t \<Rightarrow> bool option" where
  "bitmap_any b start cnt = bitmap_contains b start cnt True"

definition bitmap_none :: "bitmap \<Rightarrow> size_t \<Rightarrow> size_t \<Rightarrow> bool option" where
  "bitmap_none b start cnt = do { c \<leftarrow> bitmap_contains b start cnt True; Some (\<not> c) }"

definition bitmap_all :: "bitmap \<Rightarrow> size_t \<Rightarrow> size_t \<Rightarrow> bool option" where
  "bitmap_all b start cnt = do { c \<leftarrow> bitmap_contains b start cnt False; Some (\<not> c) }"

text \<open>
  The loop of \<open>bitmap_scan\<close> runs while \<open>i <= last\<close>; were \<open>last\<close> the greatest \<open>size_t\<close> it would
  not end by itself, so it is a partial function.
\<close>

partial_function (option) scan_loop :: "bitmap \<Rightarrow> size_t \<Rightarrow> bool \<Rightarrow> size_t \<Rightarrow> size_t \<Rightarrow> size_t option" where
  "scan_loop b cnt v lst i =
     (if i \<le> lst then do {
        c \<leftarrow> bitmap_contains b i cnt (\<not> v);
        if \<not> c then Some i else scan_loop b cnt v lst (i + 1)
      } else Some BITMAP_ERROR)"

declare scan_loop.simps [code]

definition bitmap_scan :: "bitmap \<Rightarrow> size_t \<Rightarrow> size_t \<Rightarrow> bool \<Rightarrow> size_t option" where
  "bitmap_scan b start cnt v = do {
     ASSERT (start \<le> bit_cnt b);
     if cnt \<le> bit_cnt b then scan_loop b cnt v (bit_cnt b - cnt) start
     else Some BITMAP_ERROR
   }"

definition bitmap_scan_and_flip :: "bitmap \<Rightarrow> size_t \<Rightarrow> size_t \<Rightarrow> bool \<Rightarrow> (bitmap \<times> size_t) option" where
  "bitmap_scan_and_flip b start cnt v = do {
     idx \<leftarrow> bitmap_scan b start cnt v;
     b \<leftarrow> (if idx \<noteq> BITMAP_ERROR then bitmap_set_multiple b idx cnt (\<not> v) else Some b);
     Some (b, idx)
   }"

text \<open>
  Creation. The two calls of \<open>malloc\<close> are arguments: whether the first returns a block, and the
  (uninitialised) elements of the second, \<open>None\<close> when it returns a null pointer. The
  result \<open>Some None\<close> is the null pointer. In \<open>bitmap_create_in_buf\<close> the elements are those
  that the buffer holds after the \<open>struct bitmap\<close> itself.
\<close>

definition bitmap_create :: "bool \<Rightarrow> elem_type list option \<Rightarrow> size_t \<Rightarrow> bitmap option option" where
  "bitmap_create m_struct m_bits cnt =
     (if m_struct then
        (if m_bits \<noteq> None \<or> cnt = 0 then do {
           b \<leftarrow> bitmap_set_all \<lparr>bit_cnt = cnt, bits = (case m_bits of None \<Rightarrow> [] | Some es \<Rightarrow> es)\<rparr> False;
           Some (Some b)
         } else Some None)
      else Some None)"

definition bitmap_buf_size :: "size_t \<Rightarrow> size_t" where
  "bitmap_buf_size cnt = 8 + byte_cnt cnt"

definition bitmap_create_in_buf :: "size_t \<Rightarrow> elem_type list \<Rightarrow> size_t \<Rightarrow> bitmap option" where
  "bitmap_create_in_buf cnt es block_size = do {
     ASSERT (block_size \<ge> bitmap_buf_size cnt);
     bitmap_set_all \<lparr>bit_cnt = cnt, bits = es\<rparr> False
   }"

text \<open>
  File input and output. \<open>bitmap_read\<close> gets the result of \<open>file_read_at\<close> as an argument: the
  elements of the buffer afterwards and the number of bytes read.
\<close>

definition bitmap_file_size :: "bitmap \<Rightarrow> size_t" where
  "bitmap_file_size b = byte_cnt (bit_cnt b)"

definition bitmap_read :: "bitmap \<Rightarrow> elem_type list \<times> 32 word \<Rightarrow> (bitmap \<times> bool) option" where
  "bitmap_read b r =
     (if bit_cnt b > 0 then do {
        let size = byte_cnt (bit_cnt b);
        let b = b\<lparr>bits := fst r\<rparr>;
        e \<leftarrow> rd_bits b (elem_cnt (bit_cnt b) - 1);
        b \<leftarrow> wr_bits b (elem_cnt (bit_cnt b) - 1) (e AND last_mask b);
        Some (b, snd r = size)
      } else Some (b, True))"

declare set_multiple_loop.simps [simp del] count_loop.simps [simp del] contains_loop.simps [simp del]

section \<open>Bitmaps as lists of booleans\<close>

definition bm_bit :: "bitmap \<Rightarrow> nat \<Rightarrow> bool" where
  "bm_bit b i = bit (bits b ! (i div 32)) (i mod 32)"

definition bitmap_abs :: "bitmap \<Rightarrow> bool list" where
  "bitmap_abs b = map (bm_bit b) [0..<unat (bit_cnt b)]"

definition bitmap_wf :: "bitmap \<Rightarrow> bool" where
  "bitmap_wf b \<longleftrightarrow> unat (bit_cnt b) + 31 < 2 ^ 32 \<and> length (bits b) = unat (elem_cnt (bit_cnt b))"

lemma length_bitmap_abs [simp]: "length (bitmap_abs b) = unat (bit_cnt b)"
  by (simp add: bitmap_abs_def)

lemma bitmap_abs_nth: "i < unat (bit_cnt b) \<Longrightarrow> bitmap_abs b ! i = bm_bit b i"
  by (simp add: bitmap_abs_def)

lemma unat_elem_cnt: "unat n + 31 < 2 ^ 32 \<Longrightarrow> unat (elem_cnt n) = (unat n + 31) div 32"
  by (simp add: elem_cnt_def DIV_ROUND_UP_def unat_div unat_word_ariths)

lemma unat_elem_idx: "unat (elem_idx i) = unat i div 32"
  by (simp add: elem_idx_def unat_div)

lemma bit_bit_mask: "bit (bit_mask i) k \<longleftrightarrow> k = unat i mod 32"
  by (auto simp: bit_mask_def unat_mod bit_simps)

lemma elem_idx_in:
  assumes "bitmap_wf b" and "i < bit_cnt b"
  shows "unat (elem_idx i) < length (bits b)"
proof -
  have "unat i < unat (bit_cnt b)" using assms(2) by (simp add: word_less_nat_alt)
  then show ?thesis using assms(1) unat_elem_cnt[of "bit_cnt b"] by (simp add: bitmap_wf_def unat_elem_idx)
qed

lemma same_bit_index: "i div 32 = j div 32 \<Longrightarrow> j mod 32 = i mod 32 \<longleftrightarrow> j = (i :: nat)"
  by (metis div_mult_mod_eq)

text \<open>All three single-bit updates have this shape.\<close>

lemma bitmap_update:
  assumes wf: "bitmap_wf b" and i: "i < bit_cnt b"
    and op: "\<And>e k. k < 32 \<Longrightarrow> bit (f e) k = (if k = unat i mod 32 then g (bit e k) else bit e k)"
  shows "\<exists>b'. do { e \<leftarrow> rd_bits b (elem_idx i); wr_bits b (elem_idx i) (f e) } = Some b' \<and> bitmap_wf b' \<and>
           bit_cnt b' = bit_cnt b \<and> bitmap_abs b' = (bitmap_abs b)[unat i := g (bitmap_abs b ! unat i)]"
proof -
  let ?x = "unat (elem_idx i)"
  let ?b = "b\<lparr>bits := (bits b)[?x := f (bits b ! ?x)]\<rparr>"
  have x: "?x < length (bits b)" by (rule elem_idx_in[OF wf i])
  have iu: "unat i < unat (bit_cnt b)" using i by (simp add: word_less_nat_alt)
  have upd: "bm_bit ?b j = (if j = unat i then g (bm_bit b j) else bm_bit b j)" for j
  proof (cases "j div 32 = unat i div 32")
    case True
    then show ?thesis
      using x op[of "j mod 32" "bits b ! ?x"] same_bit_index[of "unat i" j]
      by (simp add: bm_bit_def unat_elem_idx)
  next
    case False
    then show ?thesis using x by (auto simp: bm_bit_def unat_elem_idx)
  qed
  have "bitmap_abs ?b ! j = (bitmap_abs b)[unat i := g (bitmap_abs b ! unat i)] ! j" if j: "j < unat (bit_cnt b)" for j
    using j iu by (cases "j = unat i") (simp_all add: bitmap_abs_nth upd)
  then have "bitmap_abs ?b = (bitmap_abs b)[unat i := g (bitmap_abs b ! unat i)]"
    by (intro nth_equalityI) simp_all
  then show ?thesis
    using x wf by (simp add: rd_bits_def wr_bits_def bitmap_wf_def)
qed

lemma bitmap_mark_abs:
  "bitmap_wf b \<Longrightarrow> i < bit_cnt b \<Longrightarrow> \<exists>b'. bitmap_mark b i = Some b' \<and> bitmap_wf b' \<and>
     bit_cnt b' = bit_cnt b \<and> bitmap_abs b' = (bitmap_abs b)[unat i := True]"
  unfolding bitmap_mark_def by (rule bitmap_update) (simp_all add: bit_simps bit_bit_mask)

lemma bitmap_reset_abs:
  "bitmap_wf b \<Longrightarrow> i < bit_cnt b \<Longrightarrow> \<exists>b'. bitmap_reset b i = Some b' \<and> bitmap_wf b' \<and>
     bit_cnt b' = bit_cnt b \<and> bitmap_abs b' = (bitmap_abs b)[unat i := False]"
  unfolding bitmap_reset_def by (rule bitmap_update) (simp_all add: bit_simps bit_bit_mask)

lemma bitmap_flip_abs:
  "bitmap_wf b \<Longrightarrow> i < bit_cnt b \<Longrightarrow> \<exists>b'. bitmap_flip b i = Some b' \<and> bitmap_wf b' \<and>
     bit_cnt b' = bit_cnt b \<and> bitmap_abs b' = (bitmap_abs b)[unat i := \<not> bitmap_abs b ! unat i]"
  unfolding bitmap_flip_def by (rule bitmap_update) (auto simp: bit_simps bit_bit_mask)

lemma bitmap_set_abs:
  "bitmap_wf b \<Longrightarrow> i < bit_cnt b \<Longrightarrow> \<exists>b'. bitmap_set b i v = Some b' \<and> bitmap_wf b' \<and>
     bit_cnt b' = bit_cnt b \<and> bitmap_abs b' = (bitmap_abs b)[unat i := v]"
  using bitmap_mark_abs[of b i] bitmap_reset_abs[of b i] by (simp add: bitmap_set_def)

lemma and_bit_mask: "e AND bit_mask i \<noteq> 0 \<longleftrightarrow> bit e (unat i mod 32)"
  using bit_eq_iff[of "e AND bit_mask i" 0] by (auto simp: bit_simps bit_bit_mask)

lemma bitmap_test_abs:
  assumes "bitmap_wf b" and "i < bit_cnt b"
  shows "bitmap_test b i = Some (bitmap_abs b ! unat i)"
  using elem_idx_in[OF assms] assms(2)
  by (simp add: bitmap_test_def rd_bits_def and_bit_mask bitmap_abs_nth bm_bit_def unat_elem_idx word_less_nat_alt)

text \<open>\<open>n\<close> entries from \<open>a\<close> on replaced by \<open>v\<close>, and the group of entries \<open>bitmap_scan\<close> looks for.\<close>

definition set_range :: "'a list \<Rightarrow> nat \<Rightarrow> nat \<Rightarrow> 'a \<Rightarrow> 'a list" where
  "set_range xs a n v = take a xs @ replicate n v @ drop (a + n) xs"

definition bit_group :: "'a list \<Rightarrow> nat \<Rightarrow> nat \<Rightarrow> 'a \<Rightarrow> bool" where
  "bit_group xs i n v \<longleftrightarrow> i + n \<le> length xs \<and> (\<forall>k<n. xs ! (i + k) = v)"

lemma set_range_0 [simp]: "set_range xs a 0 v = xs"
  by (simp add: set_range_def)

lemma set_range_Suc: "a < length xs \<Longrightarrow> set_range (xs[a := v]) (Suc a) n v = set_range xs a (Suc n) v"
  by (simp add: set_range_def take_Suc_conv_app_nth)

lemma length_set_range [simp]: "a + n \<le> length xs \<Longrightarrow> length (set_range xs a n v) = length xs"
  by (simp add: set_range_def)

lemma set_range_nth:
  "a + n \<le> length xs \<Longrightarrow> k < length xs \<Longrightarrow> set_range xs a n v ! k = (if a \<le> k \<and> k < a + n then v else xs ! k)"
  by (auto simp: set_range_def nth_append)

lemma unat_offset:
  assumes "unat start + unat cnt \<le> unat (n :: size_t)" and "i < cnt"
  shows "start + i < n" and "unat (start + i) = unat start + unat i"
proof -
  have i: "unat i < unat cnt" using assms(2) by (simp add: word_less_nat_alt)
  have "unat start + unat i < 2 ^ 32" using i assms(1) unat_lt_2p32[of n] by simp
  then show u: "unat (start + i) = unat start + unat i" by (simp add: unat_word_ariths)
  show "start + i < n" using i assms(1) by (simp add: word_less_nat_alt u)
qed

lemma set_multiple_loop_abs:
  "bitmap_wf b \<Longrightarrow> unat start + unat cnt \<le> unat (bit_cnt b) \<Longrightarrow>
   \<exists>b'. set_multiple_loop b start cnt v i = Some b' \<and> bitmap_wf b' \<and> bit_cnt b' = bit_cnt b \<and>
        bitmap_abs b' = set_range (bitmap_abs b) (unat start + unat i) (unat cnt - unat i) v"
proof (induction b start cnt v i rule: set_multiple_loop.induct)
  case (1 b start cnt v i)
  show ?case
  proof (cases "i < cnt")
    case True
    note off = unat_offset[OF 1(3) True]
    obtain b1 where b1: "bitmap_set b (start + i) v = Some b1" "bitmap_wf b1" "bit_cnt b1 = bit_cnt b"
      "bitmap_abs b1 = (bitmap_abs b)[unat start + unat i := v]"
      using bitmap_set_abs[OF 1(2) off(1), of v] off(2) by auto
    have i: "unat i < unat cnt" "unat (i + 1) = Suc (unat i)"
      using True unat_inc[OF True] by (simp_all add: word_less_nat_alt)
    then have "Suc (unat cnt - Suc (unat i)) = unat cnt - unat i" by simp
    then have "set_range (bitmap_abs b1) (unat start + unat (i + 1)) (unat cnt - unat (i + 1)) v =
        set_range (bitmap_abs b) (unat start + unat i) (unat cnt - unat i) v"
      using set_range_Suc[of "unat start + unat i" "bitmap_abs b" v "unat cnt - Suc (unat i)"] b1(4) i 1(3) by simp
    then show ?thesis
      using 1(1)[OF True, of b1] b1 1(3) True by (subst set_multiple_loop.simps) simp
  next
    case False
    then show ?thesis
      using 1(2) by (subst set_multiple_loop.simps) (simp add: word_less_nat_alt)
  qed
qed

lemma range_asserts:
  fixes start cnt n :: size_t
  assumes "unat start + unat cnt \<le> unat n"
  shows "start \<le> n" "start + cnt \<le> n"
proof -
  have "unat (start + cnt) = unat start + unat cnt"
    using assms unat_lt_2p32[of n] by (simp add: unat_word_ariths)
  then show "start \<le> n" "start + cnt \<le> n"
    using assms by (simp_all add: word_le_nat_alt)
qed

lemma bitmap_set_multiple_abs:
  assumes "bitmap_wf b" and "unat start + unat cnt \<le> unat (bit_cnt b)"
  shows "\<exists>b'. bitmap_set_multiple b start cnt v = Some b' \<and> bitmap_wf b' \<and> bit_cnt b' = bit_cnt b \<and>
        bitmap_abs b' = set_range (bitmap_abs b) (unat start) (unat cnt) v"
  using set_multiple_loop_abs[OF assms, of v 0] range_asserts[OF assms(2)]
  by (simp add: bitmap_set_multiple_def)

lemma bitmap_set_all_abs:
  assumes "bitmap_wf b"
  shows "\<exists>b'. bitmap_set_all b v = Some b' \<and> bitmap_wf b' \<and> bit_cnt b' = bit_cnt b \<and>
        bitmap_abs b' = replicate (unat (bit_cnt b)) v"
  using bitmap_set_multiple_abs[OF assms, of 0 "bit_cnt b" v]
  by (simp add: bitmap_set_all_def bitmap_size_def set_range_def)

lemma contains_loop_abs:
  "bitmap_wf b \<Longrightarrow> unat start + unat cnt \<le> unat (bit_cnt b) \<Longrightarrow>
   contains_loop b start cnt v i = Some (\<exists>k. unat i \<le> k \<and> k < unat cnt \<and> bitmap_abs b ! (unat start + k) = v)"
proof (induction b start cnt v i rule: contains_loop.induct)
  case (1 b start cnt v i)
  show ?case
  proof (cases "i < cnt")
    case True
    note off = unat_offset[OF 1(3) True]
    have i: "unat i < unat cnt" "unat (i + 1) = Suc (unat i)"
      using True unat_inc[OF True] by (simp_all add: word_less_nat_alt)
    have t: "bitmap_test b (start + i) = Some (bitmap_abs b ! (unat start + unat i))"
      using bitmap_test_abs[OF 1(2) off(1)] off(2) by simp
    show ?thesis
    proof (cases "bitmap_abs b ! (unat start + unat i) = v")
      case hit: True
      then show ?thesis using True t i by (subst contains_loop.simps) auto
    next
      case miss: False
      have "(\<exists>k\<ge>Suc (unat i). k < unat cnt \<and> bitmap_abs b ! (unat start + k) = v) \<longleftrightarrow>
        (\<exists>k\<ge>unat i. k < unat cnt \<and> bitmap_abs b ! (unat start + k) = v)"
        using miss by (metis Suc_leD Suc_leI le_neq_implies_less)
      then show ?thesis using 1(1)[OF True _ _ 1(2,3)] miss True t i by (subst contains_loop.simps) simp
    qed
  next
    case False
    then show ?thesis
      by (subst contains_loop.simps) (simp add: word_less_nat_alt)
  qed
qed

lemma bitmap_contains_abs:
  assumes "bitmap_wf b" and "unat start + unat cnt \<le> unat (bit_cnt b)"
  shows "bitmap_contains b start cnt v = Some (\<exists>k<unat cnt. bitmap_abs b ! (unat start + k) = v)"
  using contains_loop_abs[OF assms, of v 0] range_asserts[OF assms(2)]
  by (simp add: bitmap_contains_def)

lemma bitmap_contains_group:
  assumes "bitmap_wf b" and "unat start + unat cnt \<le> unat (bit_cnt b)"
  shows "bitmap_contains b start cnt (\<not> v) = Some (\<not> bit_group (bitmap_abs b) (unat start) (unat cnt) v)"
  using bitmap_contains_abs[OF assms, of "\<not> v"] assms(2) by (auto simp: bit_group_def)

lemma bitmap_all_abs:
  assumes "bitmap_wf b" and "unat start + unat cnt \<le> unat (bit_cnt b)"
  shows "bitmap_all b start cnt = Some (bit_group (bitmap_abs b) (unat start) (unat cnt) True)"
  using bitmap_contains_group[OF assms, of True] by (simp add: bitmap_all_def)

lemma bitmap_none_abs:
  assumes "bitmap_wf b" and "unat start + unat cnt \<le> unat (bit_cnt b)"
  shows "bitmap_none b start cnt = Some (bit_group (bitmap_abs b) (unat start) (unat cnt) False)"
  using bitmap_contains_group[OF assms, of False] by (simp add: bitmap_none_def)

lemma count_loop_abs:
  "bitmap_wf b \<Longrightarrow> unat start + unat cnt \<le> unat (bit_cnt b) \<Longrightarrow>
   count_loop b start cnt v i c =
     Some (c + of_nat (length (filter (\<lambda>k. bitmap_abs b ! (unat start + k) = v) [unat i..<unat cnt])))"
proof (induction b start cnt v i c rule: count_loop.induct)
  case (1 b start cnt v i c)
  show ?case
  proof (cases "i < cnt")
    case True
    note off = unat_offset[OF 1(3) True]
    have i: "unat i < unat cnt" "unat (i + 1) = Suc (unat i)"
      using True unat_inc[OF True] by (simp_all add: word_less_nat_alt)
    have t: "bitmap_test b (start + i) = Some (bitmap_abs b ! (unat start + unat i))"
      using bitmap_test_abs[OF 1(2) off(1)] off(2) by simp
    show ?thesis
      using 1(1)[OF True _ 1(2,3)] True t i by (subst count_loop.simps) (simp add: upt_conv_Cons)
  next
    case False
    then show ?thesis
      by (subst count_loop.simps) (simp add: word_less_nat_alt)
  qed
qed

lemma bitmap_count_abs:
  assumes "bitmap_wf b" and "unat start + unat cnt \<le> unat (bit_cnt b)"
  shows "\<exists>n. bitmap_count b start cnt v = Some n \<and>
           unat n = length (filter (\<lambda>k. bitmap_abs b ! (unat start + k) = v) [0..<unat cnt])"
proof -
  have "length (filter (\<lambda>k. bitmap_abs b ! (unat start + k) = v) [0..<unat cnt]) \<le> unat cnt"
    by (metis diff_zero length_filter_le length_upt)
  then show ?thesis
    using count_loop_abs[OF assms, of v 0 0] range_asserts[OF assms(2)] unat_lt_2p32[of cnt]
    by (simp add: bitmap_count_def unsigned_of_nat take_bit_nat_eq_self)
qed

text \<open>The position \<open>bitmap_scan\<close> finds: the first group at or after \<open>a\<close>, if there is one.\<close>

definition first_group :: "bool list \<Rightarrow> nat \<Rightarrow> nat \<Rightarrow> bool \<Rightarrow> nat option" where
  "first_group xs a n v = find (\<lambda>i. bit_group xs i n v) [a..<Suc (length xs)]"

lemma first_group_Some:
  "first_group xs a n v = Some i \<longleftrightarrow> a \<le> i \<and> bit_group xs i n v \<and> (\<forall>j. a \<le> j \<and> j < i \<longrightarrow> \<not> bit_group xs j n v)"
proof -
  have "first_group xs a n v = Some i \<longleftrightarrow>
    (\<exists>k. k < Suc (length xs) - a \<and> bit_group xs (a + k) n v \<and> i = a + k \<and> (\<forall>j<k. \<not> bit_group xs (a + j) n v))"
    by (auto simp: first_group_def find_Some_iff simp del: upt_Suc)
  also have "\<dots> \<longleftrightarrow> a \<le> i \<and> bit_group xs i n v \<and> (\<forall>j. a \<le> j \<and> j < i \<longrightarrow> \<not> bit_group xs j n v)"
  proof (intro iffI; (elim exE)?)
    assume "a \<le> i \<and> bit_group xs i n v \<and> (\<forall>j. a \<le> j \<and> j < i \<longrightarrow> \<not> bit_group xs j n v)"
    then show "\<exists>k. k < Suc (length xs) - a \<and> bit_group xs (a + k) n v \<and> i = a + k \<and> (\<forall>j<k. \<not> bit_group xs (a + j) n v)"
      by (intro exI[of _ "i - a"]) (auto simp: bit_group_def)
  next
    fix k assume k: "k < Suc (length xs) - a \<and> bit_group xs (a + k) n v \<and> i = a + k \<and> (\<forall>j<k. \<not> bit_group xs (a + j) n v)"
    have "\<not> bit_group xs j n v" if "a \<le> j" "j < i" for j
      using k that by (metis add_diff_inverse_nat leD nat_add_left_cancel_less)
    with k show "a \<le> i \<and> bit_group xs i n v \<and> (\<forall>j. a \<le> j \<and> j < i \<longrightarrow> \<not> bit_group xs j n v)"
      by auto
  qed
  finally show ?thesis .
qed

lemma first_group_None: "first_group xs a n v = None \<longleftrightarrow> (\<forall>i\<ge>a. \<not> bit_group xs i n v)"
  by (auto simp: first_group_def find_None_iff bit_group_def simp del: upt_Suc)

lemma first_group_step:
  "a \<le> length xs \<Longrightarrow> first_group xs a n v = (if bit_group xs a n v then Some a else first_group xs (Suc a) n v)"
  by (simp add: first_group_def upt_conv_Cons del: upt_Suc)

definition scan_result :: "nat option \<Rightarrow> size_t" where
  "scan_result r = (case r of None \<Rightarrow> BITMAP_ERROR | Some i \<Rightarrow> of_nat i)"

lemma scan_loop_abs:
  assumes "bitmap_wf b" and "cnt \<le> bit_cnt b"
  shows "i \<le> bit_cnt b \<Longrightarrow>
    scan_loop b cnt v (bit_cnt b - cnt) i = Some (scan_result (first_group (bitmap_abs b) (unat i) (unat cnt) v))"
proof (induction "unat (bit_cnt b) - unat i" arbitrary: i rule: less_induct)
  case less
  have c: "unat (bit_cnt b - cnt) = unat (bit_cnt b) - unat cnt" "unat cnt \<le> unat (bit_cnt b)"
    using assms(2) by (simp_all add: unat_sub word_le_nat_alt)
  have ib: "unat i \<le> unat (bit_cnt b)" using less.prems by (simp add: word_le_nat_alt)
  show ?case
  proof (cases "i \<le> bit_cnt b - cnt")
    case False
    then have "\<not> bit_group (bitmap_abs b) k (unat cnt) v" if "k \<ge> unat i" for k
      using that c by (auto simp: bit_group_def word_le_nat_alt)
    then have "first_group (bitmap_abs b) (unat i) (unat cnt) v = None"
      by (simp add: first_group_None)
    then show ?thesis using False by (subst scan_loop.simps) (simp add: scan_result_def)
  next
    case True
    then have r: "unat i + unat cnt \<le> unat (bit_cnt b)" using c by (simp add: word_le_nat_alt)
    note g = bitmap_contains_group[OF assms(1) r, of v]
    note st = first_group_step[of "unat i" "bitmap_abs b" "unat cnt" v]
    show ?thesis
    proof (cases "bit_group (bitmap_abs b) (unat i) (unat cnt) v")
      case hit: True
      then show ?thesis using True g st ib by (subst scan_loop.simps) (simp add: scan_result_def)
    next
      case miss: False
      then have "unat cnt \<noteq> 0" using r by (auto simp: bit_group_def)
      then have lt: "i < bit_cnt b" using r by (simp add: word_less_nat_alt)
      note i1 = unat_inc[OF lt]
      have "i + 1 \<le> bit_cnt b" "unat (bit_cnt b) - unat (i + 1) < unat (bit_cnt b) - unat i"
        using lt word_inc_measure[OF lt] i1 by (simp_all add: word_le_nat_alt word_less_nat_alt)
      then show ?thesis
        using less.hyps[of "i + 1"] True g st ib miss i1 by (subst scan_loop.simps) simp
    qed
  qed
qed

lemma bitmap_scan_abs:
  assumes "bitmap_wf b" and "start \<le> bit_cnt b"
  shows "bitmap_scan b start cnt v = Some (scan_result (first_group (bitmap_abs b) (unat start) (unat cnt) v))"
proof (cases "cnt \<le> bit_cnt b")
  case True
  then show ?thesis using scan_loop_abs[OF assms(1) True assms(2)] assms(2) by (simp add: bitmap_scan_def)
next
  case False
  then have "first_group (bitmap_abs b) (unat start) (unat cnt) v = None"
    by (auto simp: first_group_None bit_group_def word_le_nat_alt)
  then show ?thesis using False assms(2) by (simp add: bitmap_scan_def scan_result_def)
qed

lemma scan_result_Some:
  assumes "bitmap_wf b" and "first_group (bitmap_abs b) a n v = Some i"
  shows "unat (scan_result (Some i)) = i" and "scan_result (Some i) \<noteq> BITMAP_ERROR"
proof -
  have i: "i \<le> unat (bit_cnt b)" using assms(2) by (auto simp: first_group_Some bit_group_def)
  then have "i < 2 ^ 32 - 1" using assms(1) by (simp add: bitmap_wf_def)
  then show u: "unat (scan_result (Some i)) = i"
    by (simp add: scan_result_def unsigned_of_nat take_bit_nat_eq_self)
  have "unat BITMAP_ERROR = 2 ^ 32 - 1" by (simp add: unsigned_minus_1_eq_mask mask_eq_exp_minus_1)
  with u \<open>i < 2 ^ 32 - 1\<close> show "scan_result (Some i) \<noteq> BITMAP_ERROR" by force
qed

lemma bitmap_scan_and_flip_abs:
  assumes wf: "bitmap_wf b" and s: "start \<le> bit_cnt b"
  shows "\<exists>b'. bitmap_scan_and_flip b start cnt v =
             Some (b', scan_result (first_group (bitmap_abs b) (unat start) (unat cnt) v)) \<and>
           bitmap_wf b' \<and> bit_cnt b' = bit_cnt b \<and>
           bitmap_abs b' = (case first_group (bitmap_abs b) (unat start) (unat cnt) v of
              None \<Rightarrow> bitmap_abs b | Some i \<Rightarrow> set_range (bitmap_abs b) i (unat cnt) (\<not> v))"
proof (cases "first_group (bitmap_abs b) (unat start) (unat cnt) v")
  case None
  then show ?thesis using wf bitmap_scan_abs[OF wf s, of cnt v]
    by (simp add: bitmap_scan_and_flip_def scan_result_def)
next
  case (Some i)
  note sr = scan_result_Some[OF wf Some]
  have "unat (scan_result (Some i)) + unat cnt \<le> unat (bit_cnt b)"
    using Some sr(1) by (simp add: first_group_Some bit_group_def)
  from bitmap_set_multiple_abs[OF wf this, of "\<not> v"] show ?thesis
    using bitmap_scan_abs[OF wf s, of cnt v] Some sr by (auto simp: bitmap_scan_and_flip_def)
qed

section \<open>Correctness\<close>

lemma bitmap_create_abs:
  assumes "unat cnt + 31 < 2 ^ 32" and "length es = unat (elem_cnt cnt)"
  shows "\<exists>b. bitmap_create True (Some es) cnt = Some (Some b) \<and> bitmap_wf b \<and> bitmap_abs b = replicate (unat cnt) False"
  using bitmap_set_all_abs[of "\<lparr>bit_cnt = cnt, bits = es\<rparr>" False] assms
  by (auto simp: bitmap_create_def bitmap_wf_def)

lemma bitmap_create_in_buf_abs:
  assumes "unat cnt + 31 < 2 ^ 32" and "length es = unat (elem_cnt cnt)" and "bitmap_buf_size cnt \<le> sz"
  shows "\<exists>b. bitmap_create_in_buf cnt es sz = Some b \<and> bitmap_wf b \<and> bit_cnt b = cnt \<and>
           bitmap_abs b = replicate (unat cnt) False"
  using bitmap_set_all_abs[of "\<lparr>bit_cnt = cnt, bits = es\<rparr>" False] assms
  by (auto simp: bitmap_create_in_buf_def bitmap_wf_def)

lemma last_elem_bits:
  fixes n k :: nat
  assumes "k div 32 = (n + 31) div 32 - 1" and "0 < n"
  shows "n mod 32 = 0 \<or> k mod 32 < n mod 32 \<longleftrightarrow> k < n"
proof -
  obtain m where m: "n = Suc m" using assms(2) by (cases n) auto
  have "k div 32 = m div 32" using assms(1) by (simp add: m)
  then have km: "k < n \<longleftrightarrow> k mod 32 \<le> m mod 32"
    using div_mult_mod_eq[of k 32] div_mult_mod_eq[of m 32] unfolding m by linarith
  have "Suc m mod 32 = (if m mod 32 = 31 then 0 else Suc (m mod 32))"
    by (simp add: mod_Suc)
  then show ?thesis using km mod_less_divisor[of 32 k] by (auto simp: m less_Suc_eq_le split: if_splits)
qed

lemma elem_before_last:
  fixes n k :: nat
  assumes "k div 32 \<noteq> (n + 31) div 32 - 1" and "k < 32 * ((n + 31) div 32)"
  shows "k < n"
proof -
  have "k div 32 < (n + 31) div 32" using assms(2) by (simp add: less_mult_imp_div_less mult.commute)
  then have "Suc (k div 32) * 32 + 32 \<le> (n + 31) div 32 * 32 + 0" using assms(1) by simp
  also have "\<dots> \<le> n + 31" by (metis add.right_neutral div_times_less_eq_dividend)
  finally show ?thesis using div_mult_mod_eq[of k 32] mod_less_divisor[of 32 k] by simp
qed

lemma bit_last_mask: "k < 32 \<Longrightarrow> bit (last_mask b) k \<longleftrightarrow> unat (bit_cnt b) mod 32 = 0 \<or> k < unat (bit_cnt b) mod 32"
proof -
  assume k: "k < 32"
  have z: "bit_cnt b mod 32 = 0 \<longleftrightarrow> unat (bit_cnt b) mod 32 = 0"
    using unat_0_iff[of "bit_cnt b mod 32"] by (simp add: unat_mod)
  have "push_bit n 1 - 1 = (mask n :: 32 word)" for n
    by (simp add: mask_eq_exp_minus_1 push_bit_eq_mult)
  then show ?thesis
    using k z by (auto simp: last_mask_def Let_def unat_mod bit_mask_iff)
qed

text \<open>
  C29. On a well-formed bitmap \<open>bitmap_scan_and_flip\<close> returns, whatever the start within the
  bitmap and the count. If some group of \<open>cnt\<close> bits equal to \<open>v\<close> begins at or after \<open>start\<close>,
  it returns the position of the first such group and flips exactly its bits; otherwise
  it returns \<open>BITMAP_ERROR\<close> and changes no bit. For a count of zero the group at \<open>start\<close> itself is found, so that
  the result is \<open>start\<close> (the comment of the function says 0) and no bit changes.
\<close>

theorem bitmap_scan_and_flip_correct:
  assumes "bitmap_wf b" and "start \<le> bit_cnt b"
  shows "\<exists>b' idx. bitmap_scan_and_flip b start cnt v = Some (b', idx) \<and> bitmap_wf b' \<and> bit_cnt b' = bit_cnt b \<and>
    (if \<exists>i\<ge>unat start. bit_group (bitmap_abs b) i (unat cnt) v
     then idx \<noteq> BITMAP_ERROR \<and> start \<le> idx \<and> bit_group (bitmap_abs b) (unat idx) (unat cnt) v \<and>
          (\<forall>j. unat start \<le> j \<and> j < unat idx \<longrightarrow> \<not> bit_group (bitmap_abs b) j (unat cnt) v) \<and>
          (\<forall>k<unat (bit_cnt b). bitmap_abs b' ! k =
             (if unat idx \<le> k \<and> k < unat idx + unat cnt then \<not> v else bitmap_abs b ! k))
     else idx = BITMAP_ERROR \<and> bitmap_abs b' = bitmap_abs b) \<and>
    (cnt = 0 \<longrightarrow> idx = start \<and> bitmap_abs b' = bitmap_abs b)"
proof (cases "first_group (bitmap_abs b) (unat start) (unat cnt) v")
  case None
  then have n: "\<not> (\<exists>i\<ge>unat start. bit_group (bitmap_abs b) i (unat cnt) v)" by (simp add: first_group_None)
  have "cnt \<noteq> 0" using n assms(2) by (auto simp: bit_group_def word_le_nat_alt)
  then show ?thesis
    unfolding if_not_P[OF n] using bitmap_scan_and_flip_abs[OF assms, of cnt v] None
    by (simp add: scan_result_def)
next
  case (Some i)
  then have i: "unat start \<le> i" "bit_group (bitmap_abs b) i (unat cnt) v"
    "\<forall>j. unat start \<le> j \<and> j < i \<longrightarrow> \<not> bit_group (bitmap_abs b) j (unat cnt) v"
    by (auto simp: first_group_Some)
  note sr = scan_result_Some[OF assms(1) Some]
  have "i + unat cnt \<le> length (bitmap_abs b)" using i(2) by (simp add: bit_group_def)
  note sn = set_range_nth[OF this, of _ "\<not> v"]
  from i have ex: "\<exists>i\<ge>unat start. bit_group (bitmap_abs b) i (unat cnt) v" by blast
  have le: "start \<le> scan_result (Some i)" using i(1) sr(1) by (simp add: word_le_nat_alt)
  obtain b' where b': "bitmap_scan_and_flip b start cnt v = Some (b', scan_result (Some i))" "bitmap_wf b'"
    "bit_cnt b' = bit_cnt b" "bitmap_abs b' = set_range (bitmap_abs b) i (unat cnt) (\<not> v)"
    using bitmap_scan_and_flip_abs[OF assms, of cnt v] Some by auto
  have "i = unat start" if "cnt = 0" using i(1,3) that assms(2) by (force simp: bit_group_def word_le_nat_alt)
  then have "scan_result (Some i) = start \<and> bitmap_abs b' = bitmap_abs b" if "cnt = 0"
    using that sr(1) b'(4) by (simp add: word_unat_eq_iff)
  then show ?thesis
    unfolding if_P[OF ex] using b' sr i le sn by (intro exI[of _ b'] exI[of _ "scan_result (Some i)"]) simp
qed

theorem bitmap_scan_and_flip_correct_witness:
  "bitmap_wf \<lparr>bit_cnt = 40, bits = [5, 0]\<rparr> \<and>
   (\<exists>b'. bitmap_scan_and_flip \<lparr>bit_cnt = 40, bits = [5, 0]\<rparr> 1 2 False = Some (b', 3) \<and> bitmap_abs b' ! 4)"
proof -
  let ?b = "\<lparr>bit_cnt = 40, bits = [5, 0]\<rparr>"
  have 1: "bitmap_wf ?b" by (simp add: bitmap_wf_def elem_cnt_def DIV_ROUND_UP_def)
  have 2: "1 \<le> bit_cnt ?b" by simp
  have 3: "map_option snd (bitmap_scan_and_flip ?b 1 2 False) = Some 3" by code_simp
  have 4: "\<exists>i\<ge>unat (1 :: size_t). bit_group (bitmap_abs ?b) i (unat (2 :: size_t)) False"
    by (rule exI[of _ 3]) code_simp
  obtain b' where b': "bitmap_scan_and_flip ?b 1 2 False = Some (b', 3)" using 3 by auto
  then have "\<forall>k<unat (bit_cnt ?b). bitmap_abs b' ! k =
      (if unat (3 :: size_t) \<le> k \<and> k < unat (3 :: size_t) + unat (2 :: size_t) then \<not> False else bitmap_abs ?b ! k)"
    using bitmap_scan_and_flip_correct[OF 1 2, of 2 False] unfolding if_P[OF 4] by fastforce
  then have "bitmap_abs b' ! 4" by simp
  with 1 b' show ?thesis by blast
qed

text \<open>
  Reading a bitmap after writing to it: \<open>bitmap_set\<close> and \<open>bitmap_flip\<close> succeed at every index below the
  size, change the bit there and no other, as \<open>bitmap_test\<close> sees it, and keep the bitmap well formed.
\<close>

lemma bitmap_test_update:
  assumes "bitmap_wf b" and "i < bit_cnt b" and "j < bit_cnt b"
  shows "(\<exists>b'. bitmap_set b i v = Some b' \<and> bitmap_wf b' \<and>
            bitmap_test b' j = (if j = i then Some v else bitmap_test b j)) \<and>
         (\<exists>b'. bitmap_flip b i = Some b' \<and> bitmap_wf b' \<and>
            bitmap_test b' j = (if j = i then map_option Not (bitmap_test b j) else bitmap_test b j))"
proof -
  have ij: "unat i < unat (bit_cnt b)" "unat j < unat (bit_cnt b)" "unat i = unat j \<longleftrightarrow> i = j"
    using assms(2,3) by (auto simp: word_less_nat_alt word_unat_eq_iff)
  have t: "bitmap_test b' j = Some (bitmap_abs b' ! unat j)" if "bitmap_wf b'" "bit_cnt b' = bit_cnt b" for b'
    using bitmap_test_abs[OF that(1)] that assms(3) by simp
  show ?thesis
    using bitmap_set_abs[OF assms(1,2), of v] bitmap_flip_abs[OF assms(1,2)] t t[OF assms(1) refl] ij
    by (auto simp: nth_list_update)
qed

text \<open>
  Bits beyond the size of a bitmap that is read from a file are cleared: \<open>bitmap_read\<close> masks the
  last element.
\<close>

lemma bitmap_read_abs:
  assumes "bitmap_wf b" and "length es = length (bits b)"
  shows "\<exists>b'. bitmap_read b (es, n) = Some (b', bit_cnt b = 0 \<or> n = bitmap_file_size b) \<and> bitmap_wf b' \<and>
           bit_cnt b' = bit_cnt b \<and> bitmap_abs b' = bitmap_abs (b\<lparr>bits := es\<rparr>) \<and>
           (\<forall>k. unat (bit_cnt b) \<le> k \<and> k < 32 * length (bits b) \<longrightarrow> \<not> bm_bit b' k)"
proof (cases "bit_cnt b = 0")
  case True
  then have "length (bits b) = 0" using assms(1) unat_elem_cnt[of 0] by (simp add: bitmap_wf_def)
  then show ?thesis using True assms by (auto simp: bitmap_read_def bitmap_abs_def bitmap_wf_def)
next
  case False
  let ?n = "unat (bit_cnt b)" and ?i = "unat (elem_cnt (bit_cnt b) - 1)"
  have n0: "0 < ?n" using False by (simp add: unat_gt_0)
  have len: "length es = (?n + 31) div 32" using assms unat_elem_cnt[of "bit_cnt b"] by (simp add: bitmap_wf_def)
  have ec: "unat (elem_cnt (bit_cnt b)) = (?n + 31) div 32" using assms(1) unat_elem_cnt by (simp add: bitmap_wf_def)
  then have "1 \<le> elem_cnt (bit_cnt b)" using n0 by (simp add: word_le_nat_alt)
  then have i: "?i = (?n + 31) div 32 - 1" "?i < length es"
    using ec n0 len by (simp_all add: unat_sub)
  let ?b = "b\<lparr>bits := es[?i := es ! ?i AND last_mask b]\<rparr>"
  have lm: "last_mask (b\<lparr>bits := es\<rparr>) = last_mask b" by (simp add: last_mask_def)
  have "bitmap_read b (es, n) = Some (?b, n = bitmap_file_size b)"
    using False i(2) lm by (simp add: bitmap_read_def rd_bits_def wr_bits_def bitmap_file_size_def word_neq_0_conv)
  moreover have bb: "bm_bit ?b k \<longleftrightarrow> bm_bit (b\<lparr>bits := es\<rparr>) k \<and> k < ?n" if "k < 32 * length es" for k
  proof (cases "k div 32 = ?i")
    case True
    then have "?n mod 32 = 0 \<or> k mod 32 < ?n mod 32 \<longleftrightarrow> k < ?n" using i(1) n0 last_elem_bits[of k ?n] by simp
    then show ?thesis using True i(2) bit_last_mask[of "k mod 32" b] by (simp add: bm_bit_def bit_simps)
  next
    case False
    then have "k < ?n" using that i(1) len elem_before_last[of k ?n] by simp
    then show ?thesis using False by (auto simp: bm_bit_def)
  qed
  moreover have "bitmap_abs ?b = bitmap_abs (b\<lparr>bits := es\<rparr>)"
    using bb len by (intro nth_equalityI) (auto simp: bitmap_abs_nth)
  ultimately show ?thesis using assms False by (auto simp: bitmap_wf_def)
qed

end
