(* ===== verification/Inode.thy ===== *)
theory Inode
  imports Disk Bitmap
begin

text \<open>
  Inodes: the data and the transfers of \<open>src/filesys/inode.c\<close>. A file occupies consecutive sectors of the disk;
  \<open>inode_read_at\<close> and \<open>inode_write_at\<close> copy it sector by sector, through a bounce buffer where a chunk is not a
  whole sector. A caller's buffer is the list of its bytes. Offsets are signed 32-bit numbers; all
  the arithmetic here stays between 0 and the length of the file, so they are integers. The life cycle of
  inodes (opening, closing, creation) follows with the free map in the theory of files.

  The abstraction is the list of the bytes of the file; reading and writing are shown to be slicing and splicing.
\<close>

section \<open>The code: data of an inode\<close>

type_synonym off_t = int

abbreviation INODE_MAGIC :: "32 word" where "INODE_MAGIC \<equiv> 0x494e4f44"

text \<open>\<open>inode_disk\<close> without the unused words, and \<open>inode\<close> without its list element.\<close>

record inode_disk =
  start :: disk_sector_t
  len :: off_t
  magic :: "32 word"

record inode =
  sector :: disk_sector_t
  open_cnt :: "32 word"
  removed :: bool
  deny_write_cnt :: "32 word"
  data :: inode_disk

text \<open>The rounding is done on 32-bit signed integers, with truncating division.\<close>

definition bytes_to_sectors :: "off_t \<Rightarrow> size_t" where
  "bytes_to_sectors sz = (let n = signed_take_bit 31 (sz + 511) in of_int (if n < 0 then - ((- n) div 512) else n div 512))"

definition byte_to_sector :: "inode \<Rightarrow> off_t \<Rightarrow> disk_sector_t" where
  "byte_to_sector inode pos =
     (if pos < len (data inode) then start (data inode) + of_int (pos div 512) else - 1)"

definition inode_length :: "inode \<Rightarrow> off_t" where
  "inode_length inode = len (data inode)"

text \<open>
  One step of the copying loops: the offset in the sector and the number of bytes to copy.
\<close>

definition sector_ofs_at :: "off_t \<Rightarrow> int" where
  "sector_ofs_at offset = offset mod 512"

definition chunk_size_at :: "inode \<Rightarrow> off_t \<Rightarrow> off_t \<Rightarrow> int" where
  "chunk_size_at inode sz offset =
     (let inode_left = inode_length inode - offset;
          sector_left = 512 - sector_ofs_at offset;
          min_left = (if inode_left < sector_left then inode_left else sector_left)
      in if sz < min_left then sz else min_left)"

text \<open>
  The loops. \<open>buffer\<close> is the part of the caller's buffer read so far, respectively all of it; \<open>bounce\<close> tells whether the
  bounce buffer has been allocated, \<open>malloc_ok\<close> whether it can be.
\<close>

function read_loop :: "inode \<Rightarrow> bool \<Rightarrow> disk \<Rightarrow> bool \<Rightarrow> off_t \<Rightarrow> off_t \<Rightarrow> uint8 list \<Rightarrow> (disk \<times> uint8 list) option" where
  "read_loop inode malloc_ok d bounce sz offset buffer =
     (if sz > 0 then
        let sector_idx = byte_to_sector inode offset;
            sector_ofs = sector_ofs_at offset;
            chunk_size = chunk_size_at inode sz offset
        in if chunk_size \<le> 0 then Some (d, buffer)
           else if sector_ofs = 0 \<and> chunk_size = 512 then
             (case read_sector d sector_idx of
                None \<Rightarrow> None
              | Some (d, bs) \<Rightarrow> read_loop inode malloc_ok d bounce (sz - chunk_size) (offset + chunk_size) (buffer @ bs))
           else if \<not> bounce \<and> \<not> malloc_ok then Some (d, buffer)
           else
             (case read_sector d sector_idx of
                None \<Rightarrow> None
              | Some (d, bs) \<Rightarrow> read_loop inode malloc_ok d True (sz - chunk_size) (offset + chunk_size)
                  (buffer @ take (nat chunk_size) (drop (nat sector_ofs) bs)))
      else Some (d, buffer))"
  by pat_completeness auto
termination by (relation "measure (\<lambda>(inode, malloc_ok, d, bounce, sz, offset, buffer). nat sz)") auto

declare read_loop.simps [simp del]

definition inode_read_at :: "disk \<Rightarrow> bool \<Rightarrow> inode \<Rightarrow> off_t \<Rightarrow> off_t \<Rightarrow> (disk \<times> uint8 list) option" where
  "inode_read_at d malloc_ok inode sz offset = read_loop inode malloc_ok d False sz offset []"

function write_loop :: "inode \<Rightarrow> bool \<Rightarrow> uint8 list \<Rightarrow> disk \<Rightarrow> bool \<Rightarrow> off_t \<Rightarrow> off_t \<Rightarrow> int \<Rightarrow> (disk \<times> int) option" where
  "write_loop inode malloc_ok buffer d bounce sz offset bytes_written =
     (if sz > 0 then
        let sector_idx = byte_to_sector inode offset;
            sector_ofs = sector_ofs_at offset;
            chunk_size = chunk_size_at inode sz offset;
            chunk = take (nat chunk_size) (drop (nat bytes_written) buffer)
        in if chunk_size \<le> 0 then Some (d, bytes_written)
           else if sector_ofs = 0 \<and> chunk_size = 512 then
             (case write_sector d sector_idx chunk of
                None \<Rightarrow> None
              | Some d \<Rightarrow> write_loop inode malloc_ok buffer d bounce (sz - chunk_size) (offset + chunk_size) (bytes_written + chunk_size))
           else if \<not> bounce \<and> \<not> malloc_ok then Some (d, bytes_written)
           else
             (case (if sector_ofs > 0 \<or> chunk_size < 512 - sector_ofs then read_sector d sector_idx else Some (d, replicate 512 0)) of
                None \<Rightarrow> None
              | Some (d, bs) \<Rightarrow>
                  (case write_sector d sector_idx (take (nat sector_ofs) bs @ chunk @ drop (nat (sector_ofs + chunk_size)) bs) of
                     None \<Rightarrow> None
                   | Some d \<Rightarrow> write_loop inode malloc_ok buffer d True (sz - chunk_size) (offset + chunk_size) (bytes_written + chunk_size)))
      else Some (d, bytes_written))"
  by pat_completeness auto
termination
  by (relation "measure (\<lambda>(inode, malloc_ok, buffer, d, bounce, sz, offset, bytes_written). nat sz)") auto

declare write_loop.simps [simp del]

definition inode_write_at :: "disk \<Rightarrow> bool \<Rightarrow> inode \<Rightarrow> uint8 list \<Rightarrow> off_t \<Rightarrow> off_t \<Rightarrow> (disk \<times> int) option" where
  "inode_write_at d malloc_ok inode buffer sz offset =
     (if deny_write_cnt inode \<noteq> 0 then Some (d, 0) else write_loop inode malloc_ok buffer d False sz offset 0)"

section \<open>A file as an array of bytes\<close>

text \<open>The byte at a position, found in the sectors of the file, which are consecutive.\<close>

definition ino_byte :: "disk \<Rightarrow> inode \<Rightarrow> nat \<Rightarrow> uint8" where
  "ino_byte d inode p = sectors d (start (data inode) + of_nat (p div 512)) ! (p mod 512)"

definition ino_bytes :: "disk \<Rightarrow> inode \<Rightarrow> uint8 list" where
  "ino_bytes d inode = map (ino_byte d inode) [0..<nat (len (data inode))]"

definition ino_sectors :: "inode \<Rightarrow> nat set" where
  "ino_sectors inode = {unat (start (data inode))..<unat (start (data inode)) + (nat (len (data inode)) + 511) div 512}"

definition inode_ok :: "disk \<Rightarrow> inode \<Rightarrow> bool" where
  "inode_ok d inode \<longleftrightarrow> disk_ok d \<and> 0 \<le> len (data inode) \<and> ino_sectors inode \<subseteq> {0..<unat (capacity d)}"

lemma length_ino_bytes [simp]: "length (ino_bytes d inode) = nat (len (data inode))"
  by (simp add: ino_bytes_def)

lemma inode_ok_sector:
  assumes "inode_ok d inode" and "p < nat (len (data inode))"
  shows "unat (start (data inode) + of_nat (p div 512)) = unat (start (data inode)) + p div 512"
    and "start (data inode) + of_nat (p div 512) < capacity d"
    and "unat (start (data inode)) + p div 512 \<in> ino_sectors inode"
proof -
  let ?s = "start (data inode)"
  have "p div 512 < (nat (len (data inode)) + 511) div 512" using assms(2) by linarith
  then show i: "unat ?s + p div 512 \<in> ino_sectors inode" by (simp add: ino_sectors_def)
  then have lt: "unat ?s + p div 512 < unat (capacity d)" using assms(1) by (auto simp: inode_ok_def)
  then have "p div 512 < 2 ^ 32" using unat_lt_2p32[of "capacity d"] by linarith
  then show u: "unat (?s + of_nat (p div 512)) = unat ?s + p div 512"
    using lt unat_lt_2p32[of "capacity d"] unat_of_nat32 by (simp add: unat_word_ariths)
  show "?s + of_nat (p div 512) < capacity d" using u lt by (simp add: word_less_nat_alt)
qed

text \<open>The number of bytes a transfer reaches.\<close>

definition xfer :: "inode \<Rightarrow> off_t \<Rightarrow> off_t \<Rightarrow> nat" where
  "xfer inode sz offset = min (nat sz) (nat (len (data inode) - offset))"

text \<open>
  The number of bytes a transfer moves. Without a bounce buffer it ends before the first chunk that is not a whole sector.
\<close>

definition reach :: "inode \<Rightarrow> bool \<Rightarrow> off_t \<Rightarrow> off_t \<Rightarrow> nat" where
  "reach inode ok sz offset =
     (if ok then xfer inode sz offset else if offset mod 512 = 0 then 512 * (xfer inode sz offset div 512) else 0)"

lemma reach_le: "reach inode ok sz offset \<le> xfer inode sz offset"
  by (simp add: reach_def)

lemma chunk_facts:
  assumes "0 < sz" and "0 \<le> offset"
  shows "chunk_size_at inode sz offset \<le> 0 \<longleftrightarrow> len (data inode) \<le> offset"
    and "chunk_size_at inode sz offset \<le> sz" "chunk_size_at inode sz offset \<le> len (data inode) - offset"
    and "offset mod 512 + chunk_size_at inode sz offset \<le> 512"
  using assms by (auto simp: chunk_size_at_def Let_def inode_length_def sector_ofs_at_def)

lemma byte_to_sector_nat:
  assumes "0 \<le> offset" and "offset < len (data inode)"
  shows "byte_to_sector inode offset = start (data inode) + of_nat (nat offset div 512)"
proof -
  have "offset div 512 = int (nat offset div 512)" using assms(1) by (simp add: zdiv_int)
  then have "of_int (offset div 512) = (of_nat (nat offset div 512) :: 32 word)" by (metis of_int_of_nat_eq)
  then show ?thesis using assms(2) by (simp add: byte_to_sector_def)
qed

lemma ino_byte_chunk:
  fixes p k :: nat
  assumes "p mod 512 + k < 512"
  shows "(p + k) div 512 = p div 512" and "(p + k) mod 512 = p mod 512 + k"
proof -
  have p: "p + k = (p mod 512 + k) + 512 * (p div 512)" by simp
  show "(p + k) div 512 = p div 512" unfolding p using assms by (subst div_mult_self2) simp_all
  show "(p + k) mod 512 = p mod 512 + k" unfolding p using assms by (subst mod_mult_self2) simp
qed

text \<open>A chunk of a sector holds the bytes of the file from the position on.\<close>

lemma chunk_bytes:
  assumes "disk_ok d" and "p mod 512 + n \<le> 512"
  shows "take n (drop (p mod 512) (sectors d (start (data inode) + of_nat (p div 512)))) = map (ino_byte d inode) [p..<p + n]"
proof (rule nth_equalityI)
  have len: "length (sectors d (start (data inode) + of_nat (p div 512))) = 512" using assms(1) by (simp add: disk_ok_def)
  then show "length (take n (drop (p mod 512) (sectors d (start (data inode) + of_nat (p div 512))))) = length (map (ino_byte d inode) [p..<p + n])"
    using assms(2) by simp
  fix i assume "i < length (take n (drop (p mod 512) (sectors d (start (data inode) + of_nat (p div 512)))))"
  then have i: "i < n" by simp
  then have "p mod 512 + i < 512" using assms(2) by linarith
  note ino_byte_chunk[OF this]
  then show "take n (drop (p mod 512) (sectors d (start (data inode) + of_nat (p div 512)))) ! i = map (ino_byte d inode) [p..<p + n] ! i"
    using i len assms(2) by (simp add: ino_byte_def)
qed

lemma xfer_step:
  assumes "0 \<le> c" and "c \<le> sz" and "c \<le> len (data inode) - offset"
  shows "xfer inode sz offset = nat c + xfer inode (sz - c) (offset + c)"
proof -
  have "nat sz = nat c + nat (sz - c)" "nat (len (data inode) - offset) = nat c + nat (len (data inode) - (offset + c))"
    using assms by linarith+
  then show ?thesis by (simp add: xfer_def min_add_distrib_right)
qed

lemma reach_full:
  assumes "offset mod 512 = 0" and "512 \<le> sz" and "512 \<le> len (data inode) - offset"
  shows "reach inode ok sz offset = 512 + reach inode ok (sz - 512) (offset + 512)"
proof -
  have x: "xfer inode sz offset = 512 + xfer inode (sz - 512) (offset + 512)" using xfer_step[of 512 sz inode offset] assms(2,3) by simp
  have m: "(offset + 512) mod 512 = 0" using assms(1) by simp
  have "(512 + y) div 512 = Suc (y div 512)" for y :: nat by (simp add: div_add_self1)
  then show ?thesis unfolding reach_def m assms(1) x by simp
qed

lemma reach_part:
  assumes "0 < sz" and "0 \<le> offset" and "\<not> (sector_ofs_at offset = 0 \<and> chunk_size_at inode sz offset = 512)"
  shows "reach inode False sz offset = 0"
proof (cases "offset mod 512 = 0")
  case True
  then have "chunk_size_at inode sz offset < 512"
    using assms chunk_facts(4)[of sz offset inode] by (simp add: sector_ofs_at_def)
  then have "xfer inode sz offset < 512"
    using True by (auto simp: chunk_size_at_def Let_def sector_ofs_at_def inode_length_def xfer_def split: if_splits)
  then show ?thesis by (simp add: reach_def)
qed (simp add: reach_def)

lemma splice_length: "length bs = n \<Longrightarrow> k + length cs \<le> n \<Longrightarrow> length (take k bs @ cs @ drop (k + length cs) bs) = n"
  by simp

lemma read_loop_eval:
  assumes "inode_ok d inode" and "0 \<le> offset"
  shows "\<exists>n c. read_loop inode malloc_ok d bounce sz offset buffer =
      Some (d\<lparr>read_cnt := c\<rparr>, buffer @ map (ino_byte d inode) [nat offset..<nat offset + n]) \<and>
    n = reach inode (bounce \<or> malloc_ok) sz offset"
  using assms
proof (induction "nat sz" arbitrary: d bounce sz offset buffer rule: less_induct)
  case less
  show ?case
  proof (cases "sz > 0 \<and> chunk_size_at inode sz offset > 0")
    case False
    then have "xfer inode sz offset = 0"
      using chunk_facts(1)[of sz offset inode] less.prems(2) by (cases "sz > 0") (simp_all add: xfer_def)
    moreover have "read_loop inode malloc_ok d bounce sz offset buffer = Some (d, buffer)"
      using False by (subst read_loop.simps) (auto simp: Let_def)
    ultimately show ?thesis by (intro exI[of _ 0] exI[of _ "read_cnt d"]) (simp add: reach_def)
  next
    case True
    let ?c = "chunk_size_at inode sz offset" and ?p = "nat offset"
    let ?bs = "sectors d (start (data inode) + of_nat (?p div 512))" and ?d = "d\<lparr>read_cnt := read_cnt d + 1\<rparr>"
    note cf = chunk_facts[of sz offset inode]
    have lt: "offset < len (data inode)" using cf True less.prems(2) by simp
    have ofs: "nat (offset mod 512) = ?p mod 512" using less.prems(2) by (simp add: nat_mod_distrib)
    have ok: "disk_ok d" using less.prems(1) by (simp add: inode_ok_def)
    have rs: "read_sector d (byte_to_sector inode offset) = Some (?d, ?bs)"
      using byte_to_sector_nat[OF less.prems(2) lt] inode_ok_sector(2)[OF less.prems(1), of ?p] lt less.prems(2) ok
      by (simp add: read_sector_eval disk_ok_def)
    have pn: "?p mod 512 + nat ?c \<le> 512" using cf(4) True less.prems(2) ofs by (metis nat_add_distrib nat_le_iff nat_numeral less_imp_le of_nat_numeral pos_mod_sign zero_less_numeral)
    have chunk: "take (nat ?c) (drop (nat (sector_ofs_at offset)) ?bs) = map (ino_byte d inode) [?p..<?p + nat ?c]"
      using chunk_bytes[OF ok pn, of inode] ofs by (simp add: sector_ofs_at_def)
    have full: "?bs = map (ino_byte d inode) [?p..<?p + nat ?c]" if "sector_ofs_at offset = 0" "?c = 512"
      using chunk that ok by (simp add: disk_ok_def)
    have x: "xfer inode sz offset = nat ?c + xfer inode (sz - ?c) (offset + ?c)"
      using cf True less.prems(2) by (intro xfer_step) simp_all
    have m: "nat (sz - ?c) < nat sz" using True by simp
    have ok': "inode_ok ?d inode" using less.prems(1) by (simp add: inode_ok_def disk_ok_def)
    have ib: "ino_byte ?d inode = ino_byte d inode" by (simp add: ino_byte_def fun_eq_iff)
    have np: "nat (offset + ?c) = ?p + nat ?c" using less.prems(2) True by (simp add: nat_add_distrib)
    have nn: "0 \<le> offset + ?c" using less.prems(2) True by simp
    have step: ?thesis if st: "read_loop inode malloc_ok d bounce sz offset buffer =
        read_loop inode malloc_ok ?d b (sz - ?c) (offset + ?c) (buffer @ map (ino_byte d inode) [?p..<?p + nat ?c])"
      and rx: "reach inode (bounce \<or> malloc_ok) sz offset = nat ?c + reach inode (b \<or> malloc_ok) (sz - ?c) (offset + ?c)" for b
    proof -
      obtain n c where n: "read_loop inode malloc_ok ?d b (sz - ?c) (offset + ?c) (buffer @ map (ino_byte d inode) [?p..<?p + nat ?c]) =
          Some (?d\<lparr>read_cnt := c\<rparr>, (buffer @ map (ino_byte d inode) [?p..<?p + nat ?c]) @ map (ino_byte ?d inode) [nat (offset + ?c)..<nat (offset + ?c) + n])"
        "n = reach inode (b \<or> malloc_ok) (sz - ?c) (offset + ?c)"
        using less.hyps[OF m ok' nn, of b "buffer @ map (ino_byte d inode) [?p..<?p + nat ?c]"] by blast
      have "map (ino_byte d inode) [?p..<?p + nat ?c] @ map (ino_byte d inode) [?p + nat ?c..<?p + nat ?c + n] = map (ino_byte d inode) [?p..<?p + (nat ?c + n)]"
        using upt_add_eq_append[of ?p "?p + nat ?c" n] by (simp add: add.assoc)
      then show ?thesis using n st rx unfolding ib np by (intro exI[of _ "nat ?c + n"] exI[of _ c]) simp
    qed
    show ?thesis
    proof (cases "sector_ofs_at offset = 0 \<and> ?c = 512")
      case f: True
      show ?thesis
      proof (rule step[of bounce])
        show "reach inode (bounce \<or> malloc_ok) sz offset = nat ?c + reach inode (bounce \<or> malloc_ok) (sz - ?c) (offset + ?c)"
          using reach_full[of offset sz inode] f cf True less.prems(2) by (simp add: sector_ofs_at_def)
      qed (use f True full rs in \<open>subst read_loop.simps, simp add: Let_def\<close>)
    next
      case nf: False
      show ?thesis
      proof (cases "\<not> bounce \<and> \<not> malloc_ok")
        case True
        then have "read_loop inode malloc_ok d bounce sz offset buffer = Some (d, buffer)"
          using nf by (subst read_loop.simps) (auto simp: Let_def)
        moreover have "reach inode False sz offset = 0" by (rule reach_part) (use nf \<open>sz > 0 \<and> ?c > 0\<close> less.prems(2) in simp_all)
        ultimately show ?thesis using True by (intro exI[of _ 0] exI[of _ "read_cnt d"]) simp
      next
        case b: False
        show ?thesis
        proof (rule step[of True])
          show "reach inode (bounce \<or> malloc_ok) sz offset = nat ?c + reach inode (True \<or> malloc_ok) (sz - ?c) (offset + ?c)"
            using b x by (auto simp: reach_def)
        qed (use nf b True rs chunk in \<open>subst read_loop.simps, auto simp: Let_def\<close>)
      qed
    qed
  qed
qed

text \<open>Replacing a chunk of one sector replaces the bytes of the file at its positions.\<close>

lemma write_chunk:
  assumes "inode_ok d inode" and "q < nat (len (data inode))" and "q mod 512 + length chunk \<le> 512"
    and bs: "bs = sectors d (start (data inode) + of_nat (q div 512)) \<or> (q mod 512 = 0 \<and> length chunk = 512 \<and> length bs = 512)"
    and "p < nat (len (data inode))"
    and d': "d' = d\<lparr>sectors := (sectors d)(start (data inode) + of_nat (q div 512) :=
      take (q mod 512) bs @ chunk @ drop (q mod 512 + length chunk) bs), write_cnt := w, read_cnt := r\<rparr>"
  shows "ino_byte d' inode p = (if q \<le> p \<and> p < q + length chunk then chunk ! (p - q) else ino_byte d inode p)"
proof -
  let ?s = "start (data inode)"
  have lbs: "length bs = 512" using assms(1) bs by (auto simp: inode_ok_def disk_ok_def)
  show ?thesis
  proof (cases "p div 512 = q div 512")
    case True
    have p: "p = 512 * (q div 512) + p mod 512" using True by (metis mult_div_mod_eq)
    have q: "q = 512 * (q div 512) + q mod 512" by simp
    have le: "q \<le> p \<longleftrightarrow> q mod 512 \<le> p mod 512" "p - q = p mod 512 - q mod 512"
      "p < q + length chunk \<longleftrightarrow> p mod 512 < q mod 512 + length chunk"
      using p q by linarith+
    have same: "bs ! (p mod 512) = ino_byte d inode p" if "\<not> (q \<le> p \<and> p < q + length chunk)"
    proof -
      have "p mod 512 < 512" by simp
      then have "bs = sectors d (?s + of_nat (q div 512))" using bs that le by auto
      then show ?thesis using True by (simp add: ino_byte_def)
    qed
    have "ino_byte d' inode p = (take (q mod 512) bs @ chunk @ drop (q mod 512 + length chunk) bs) ! (p mod 512)"
      using True d' by (simp add: ino_byte_def)
    also have "\<dots> = (if q \<le> p \<and> p < q + length chunk then chunk ! (p - q) else bs ! (p mod 512))"
      using lbs assms(3) unfolding le by (auto simp: nth_append)
    finally show ?thesis using same by simp
  next
    case False
    have "?s + of_nat (p div 512) \<noteq> ?s + of_nat (q div 512)"
      using inode_ok_sector(1)[OF assms(1,2)] inode_ok_sector(1)[OF assms(1,5)] False by (metis add_left_cancel)
    moreover have "\<not> (q \<le> p \<and> p < q + length chunk)"
    proof
      assume "q \<le> p \<and> p < q + length chunk"
      then have "q mod 512 + (p - q) < 512" "p = q + (p - q)" using assms(3) by linarith+
      with ino_byte_chunk(1)[of q "p - q"] False show False by metis
    qed
    ultimately show ?thesis using d' by (auto simp: ino_byte_def)
  qed
qed

lemma write_loop_eval:
  assumes "inode_ok d inode" and "0 \<le> offset" and "0 \<le> bw" and "nat bw + nat sz \<le> length buffer"
  shows "\<exists>n d'. write_loop inode malloc_ok buffer d bounce sz offset bw = Some (d', bw + int n) \<and>
    n = reach inode (bounce \<or> malloc_ok) sz offset \<and> inode_ok d' inode \<and> capacity d' = capacity d \<and>
    (\<forall>p<nat (len (data inode)). ino_byte d' inode p =
       (if nat offset \<le> p \<and> p < nat offset + n then buffer ! (nat bw + (p - nat offset)) else ino_byte d inode p)) \<and>
    (\<forall>s. unat s \<notin> ino_sectors inode \<longrightarrow> sectors d' s = sectors d s)"
  using assms
proof (induction "nat sz" arbitrary: d bounce sz offset bw rule: less_induct)
  case less
  show ?case
  proof (cases "sz > 0 \<and> chunk_size_at inode sz offset > 0")
    case False
    then have "xfer inode sz offset = 0"
      using chunk_facts(1)[of sz offset inode] less.prems(2) by (cases "sz > 0") (simp_all add: xfer_def)
    moreover have "write_loop inode malloc_ok buffer d bounce sz offset bw = Some (d, bw)"
      using False by (subst write_loop.simps) (auto simp: Let_def)
    ultimately show ?thesis using less.prems(1) by (intro exI[of _ 0] exI[of _ d]) (simp add: reach_def)
  next
    case True
    let ?c = "chunk_size_at inode sz offset" and ?p = "nat offset"
    let ?s = "start (data inode) + of_nat (?p div 512)"
    let ?chunk = "take (nat ?c) (drop (nat bw) buffer)"
    note cf = chunk_facts[of sz offset inode]
    have lt: "offset < len (data inode)" "?p < nat (len (data inode))" using cf True less.prems(2) by simp_all
    have ofs: "nat (sector_ofs_at offset) = ?p mod 512" "sector_ofs_at offset = int (?p mod 512)"
      using less.prems(2) by (simp_all add: sector_ofs_at_def nat_mod_distrib zmod_int)
    have ok: "disk_ok d" using less.prems(1) by (simp add: inode_ok_def)
    have bts: "byte_to_sector inode offset = ?s" using byte_to_sector_nat[OF less.prems(2) lt(1)] .
    note sec = inode_ok_sector[OF less.prems(1) lt(2)]
    have lc: "length ?chunk = nat ?c" using less.prems(3,4) cf(2) True less.prems(2) by simp
    have pn: "?p mod 512 + nat ?c \<le> 512" using cf(4) True less.prems(2) ofs by (simp add: sector_ofs_at_def)
    have x: "xfer inode sz offset = nat ?c + xfer inode (sz - ?c) (offset + ?c)"
      using cf True less.prems(2) by (intro xfer_step) simp_all
    have m: "nat (sz - ?c) < nat sz" using True by simp
    have np: "nat (offset + ?c) = ?p + nat ?c" "nat (bw + ?c) = nat bw + nat ?c"
      using less.prems(2,3) True by (simp_all add: nat_add_distrib)
    have nn: "0 \<le> offset + ?c" "0 \<le> bw + ?c" using less.prems(2,3) True by simp_all
    have "?c \<le> sz" using cf(2) True less.prems(2) by simp
    then have "nat ?c + nat (sz - ?c) = nat sz" using True by linarith
    then have fit: "nat (bw + ?c) + nat (sz - ?c) \<le> length buffer" using less.prems(4) np by simp
    have step: ?thesis if st: "write_loop inode malloc_ok buffer d bounce sz offset bw =
        write_loop inode malloc_ok buffer d1 b (sz - ?c) (offset + ?c) (bw + ?c)"
      and d1: "d1 = d\<lparr>sectors := (sectors d)(?s := take (?p mod 512) bs @ ?chunk @ drop (?p mod 512 + length ?chunk) bs), write_cnt := w, read_cnt := r\<rparr>"
      and bs: "bs = sectors d ?s \<or> (?p mod 512 = 0 \<and> length ?chunk = 512 \<and> length bs = 512)"
      and rx: "reach inode (bounce \<or> malloc_ok) sz offset = nat ?c + reach inode (b \<or> malloc_ok) (sz - ?c) (offset + ?c)" for b d1 bs w r
    proof -
      have pn': "?p mod 512 + length ?chunk \<le> 512" using pn lc by simp
      have lbs: "length bs = 512" using bs ok by (auto simp: disk_ok_def)
      have "length (take (?p mod 512) bs @ ?chunk @ drop (?p mod 512 + length ?chunk) bs) = 512"
        by (rule splice_length[OF lbs pn'])
      then have ok1: "inode_ok d1 inode" using less.prems(1) d1 by (simp add: inode_ok_def disk_ok_def)
      obtain n d' where n: "write_loop inode malloc_ok buffer d1 b (sz - ?c) (offset + ?c) (bw + ?c) = Some (d', bw + ?c + int n)"
        "n = reach inode (b \<or> malloc_ok) (sz - ?c) (offset + ?c)" "inode_ok d' inode" "capacity d' = capacity d1"
        "\<And>p. p < nat (len (data inode)) \<Longrightarrow> ino_byte d' inode p =
           (if ?p + nat ?c \<le> p \<and> p < ?p + nat ?c + n then buffer ! (nat bw + nat ?c + (p - (?p + nat ?c))) else ino_byte d1 inode p)"
        "\<And>s. unat s \<notin> ino_sectors inode \<Longrightarrow> sectors d' s = sectors d1 s"
        using less.hyps[OF m ok1 nn fit, of b] unfolding np by blast
      have "ino_byte d' inode p = (if ?p \<le> p \<and> p < ?p + (nat ?c + n) then buffer ! (nat bw + (p - ?p)) else ino_byte d inode p)"
        if p: "p < nat (len (data inode))" for p
      proof -
        have w: "ino_byte d1 inode p = (if ?p \<le> p \<and> p < ?p + nat ?c then ?chunk ! (p - ?p) else ino_byte d inode p)"
          using write_chunk[OF less.prems(1) lt(2) pn' bs p d1] unfolding lc .
        have ch: "?chunk ! (p - ?p) = buffer ! (nat bw + (p - ?p))" if "?p \<le> p \<and> p < ?p + nat ?c"
          using that less.prems(4) lc by (simp add: less_diff_conv2)
        consider "p < ?p" | "?p \<le> p" "p < ?p + nat ?c" | "?p + nat ?c \<le> p" by linarith
        then show ?thesis
          by cases (use n(5)[OF p] w ch in auto)
      qed
      moreover have "sectors d' s = sectors d s" if "unat s \<notin> ino_sectors inode" for s
        using n(6)[OF that] that sec(1,3) d1 by auto
      moreover have "bw + ?c + int n = bw + int (nat ?c + n)" using True by simp
      ultimately show ?thesis
        using n(1-4) st rx d1 by (intro exI[of _ "nat ?c + n"] exI[of _ d']) simp
    qed
    show ?thesis
    proof (cases "sector_ofs_at offset = 0 \<and> ?c = 512")
      case f: True
      let ?d1 = "d\<lparr>sectors := (sectors d)(?s := take (?p mod 512) (replicate 512 0) @ ?chunk @ drop (?p mod 512 + length ?chunk) (replicate 512 0)), write_cnt := write_cnt d + 1, read_cnt := read_cnt d\<rparr>"
      have "take (?p mod 512) (replicate 512 0) @ ?chunk @ drop (?p mod 512 + length ?chunk) (replicate 512 0) = ?chunk"
        using f ofs lc by simp
      then have "write_sector d ?s ?chunk = Some ?d1" using sec(2) ok by (simp add: write_sector_eval disk_ok_def)
      then have "write_loop inode malloc_ok buffer d bounce sz offset bw = write_loop inode malloc_ok buffer ?d1 bounce (sz - ?c) (offset + ?c) (bw + ?c)"
        using f True bts by (subst write_loop.simps) (simp add: Let_def)
      then show ?thesis
      proof (rule step[OF _ refl])
        show "reach inode (bounce \<or> malloc_ok) sz offset = nat ?c + reach inode (bounce \<or> malloc_ok) (sz - ?c) (offset + ?c)"
          using reach_full[of offset sz inode] f cf True less.prems(2) by (simp add: sector_ofs_at_def)
      qed (use f ofs lc in auto)
    next
      case nf: False
      show ?thesis
      proof (cases "\<not> bounce \<and> \<not> malloc_ok")
        case nb: True
        then have "write_loop inode malloc_ok buffer d bounce sz offset bw = Some (d, bw)"
          using nf True by (subst write_loop.simps) (auto simp: Let_def)
        moreover have "reach inode False sz offset = 0" by (rule reach_part) (use nf True less.prems(2) in simp_all)
        ultimately show ?thesis using nb less.prems(1) by (intro exI[of _ 0] exI[of _ d]) simp
      next
        case b: False
        have "sector_ofs_at offset > 0 \<or> ?c < 512 - sector_ofs_at offset"
          using nf ofs cf(4)[OF _ less.prems(2)] True by (auto simp: sector_ofs_at_def)
        then have e: "(0 < sz) = True" "(?c \<le> 0) = False" "(sector_ofs_at offset = 0 \<and> ?c = 512) = False"
          "(\<not> bounce \<and> \<not> malloc_ok) = False" "(sector_ofs_at offset > 0 \<or> ?c < 512 - sector_ofs_at offset) = True"
          using nf b True by auto
        have rs: "read_sector d ?s = Some (d\<lparr>read_cnt := read_cnt d + 1\<rparr>, sectors d ?s)"
          using sec(2) ok by (simp add: read_sector_eval disk_ok_def)
        have ns: "nat (sector_ofs_at offset + ?c) = ?p mod 512 + length ?chunk" using ofs True lc by (simp add: nat_add_distrib)
        have ws: "write_sector (d\<lparr>read_cnt := read_cnt d + 1\<rparr>) ?s bs = Some (d\<lparr>sectors := (sectors d)(?s := bs), write_cnt := write_cnt d + 1, read_cnt := read_cnt d + 1\<rparr>)" for bs
          using sec(2) ok by (simp add: write_sector_eval disk_ok_def)
        have "write_loop inode malloc_ok buffer d bounce sz offset bw =
            write_loop inode malloc_ok buffer (d\<lparr>sectors := (sectors d)(?s := take (?p mod 512) (sectors d ?s) @ ?chunk @ drop (?p mod 512 + length ?chunk) (sectors d ?s)), write_cnt := write_cnt d + 1, read_cnt := read_cnt d + 1\<rparr>) True (sz - ?c) (offset + ?c) (bw + ?c)"
          by (subst write_loop.simps) (simp only: Let_def e if_True if_False bts rs option.case prod.case ns ofs(1) ws)
        then show ?thesis
        proof (rule step[OF _ refl])
          show "reach inode (bounce \<or> malloc_ok) sz offset = nat ?c + reach inode (True \<or> malloc_ok) (sz - ?c) (offset + ?c)"
            using b x by (auto simp: reach_def)
        qed simp
      qed
    qed
  qed
qed

lemma map_ino_byte: "a + n \<le> nat (len (data inode)) \<Longrightarrow> map (ino_byte d inode) [a..<a + n] = take n (drop a (ino_bytes d inode))"
  by (rule nth_equalityI) (auto simp: ino_bytes_def)

lemma xfer_le:
  fixes inode :: inode and sz offset :: off_t
  shows "xfer inode sz offset \<le> nat sz"
    and "0 \<le> offset \<Longrightarrow> xfer inode sz offset \<noteq> 0 \<Longrightarrow> nat offset + xfer inode sz offset \<le> nat (len (data inode))"
  by (auto simp: xfer_def)

lemma inode_read_at_eval:
  assumes "inode_ok d inode" and "0 \<le> offset"
  obtains n c where "inode_read_at d malloc_ok inode sz offset = Some (d\<lparr>read_cnt := c\<rparr>, take n (drop (nat offset) (ino_bytes d inode)))"
    "n = reach inode malloc_ok sz offset" "n \<le> xfer inode sz offset" "malloc_ok \<Longrightarrow> n = xfer inode sz offset"
proof -
  obtain n c where n: "inode_read_at d malloc_ok inode sz offset = Some (d\<lparr>read_cnt := c\<rparr>, map (ino_byte d inode) [nat offset..<nat offset + n])"
    "n = reach inode malloc_ok sz offset"
    using read_loop_eval[OF assms, of malloc_ok False sz "[]"] unfolding inode_read_at_def by auto
  have le: "n \<le> xfer inode sz offset" using n(2) reach_le by simp
  have "map (ino_byte d inode) [nat offset..<nat offset + n] = take n (drop (nat offset) (ino_bytes d inode))"
    using map_ino_byte[of "nat offset" n inode d] xfer_le(2)[OF assms(2), of inode sz] le by (cases "n = 0") auto
  then show ?thesis using that[of c n] n le by (simp add: reach_def)
qed

lemma inode_write_at_eval:
  assumes "inode_ok d inode" and "0 \<le> offset" and "nat sz \<le> length buffer" and "deny_write_cnt inode = 0"
  obtains n d' where "inode_write_at d malloc_ok inode buffer sz offset = Some (d', int n)"
    "n = reach inode malloc_ok sz offset" "n \<le> xfer inode sz offset" "malloc_ok \<Longrightarrow> n = xfer inode sz offset"
    "inode_ok d' inode" "capacity d' = capacity d" "disk_ok d'"
    "ino_bytes d' inode = take (nat offset) (ino_bytes d inode) @ take n buffer @ drop (nat offset + n) (ino_bytes d inode) \<or> n = 0 \<and> ino_bytes d' inode = ino_bytes d inode"
    "\<And>s. unat s \<notin> ino_sectors inode \<Longrightarrow> sectors d' s = sectors d s"
proof -
  obtain n d' where n: "inode_write_at d malloc_ok inode buffer sz offset = Some (d', int n)"
    "n = reach inode malloc_ok sz offset" "n \<le> xfer inode sz offset" "inode_ok d' inode" "capacity d' = capacity d"
    "\<And>p. p < nat (len (data inode)) \<Longrightarrow> ino_byte d' inode p =
       (if nat offset \<le> p \<and> p < nat offset + n then buffer ! (p - nat offset) else ino_byte d inode p)"
    "\<And>s. unat s \<notin> ino_sectors inode \<Longrightarrow> sectors d' s = sectors d s"
    using write_loop_eval[OF assms(1,2), of 0 sz buffer malloc_ok False] assms(3,4) reach_le[of inode malloc_ok sz offset] unfolding inode_write_at_def by auto
  have "ino_bytes d' inode = take (nat offset) (ino_bytes d inode) @ take n buffer @ drop (nat offset + n) (ino_bytes d inode) \<or>
      n = 0 \<and> ino_bytes d' inode = ino_bytes d inode"
  proof (cases "n = 0")
    case True
    then have "ino_bytes d' inode = ino_bytes d inode" using n(6) by (auto simp: ino_bytes_def)
    with True show ?thesis by simp
  next
    case False
    then have le: "nat offset + n \<le> nat (len (data inode))" "n \<le> length buffer"
      using xfer_le(1)[of inode sz offset] xfer_le(2)[OF assms(2), of inode sz] assms(3) n(3) by auto
    have "ino_bytes d' inode = take (nat offset) (ino_bytes d inode) @ take n buffer @ drop (nat offset + n) (ino_bytes d inode)"
    proof (rule nth_equalityI)
      fix p assume "p < length (ino_bytes d' inode)"
      then show "ino_bytes d' inode ! p = (take (nat offset) (ino_bytes d inode) @ take n buffer @ drop (nat offset + n) (ino_bytes d inode)) ! p"
        using le n(6)[of p] by (auto simp: ino_bytes_def nth_append)
    qed (use le in simp)
    then show ?thesis ..
  qed
  with n that[of d' n] show ?thesis by (auto simp: inode_ok_def reach_def)
qed

lemma ino_bytes_cong:
  assumes "inode_ok d inode" and "\<And>s. unat s \<in> ino_sectors inode \<Longrightarrow> sectors d' s = sectors d s"
  shows "ino_bytes d' inode = ino_bytes d inode"
  unfolding ino_bytes_def
proof (rule map_cong[OF refl])
  fix p assume "p \<in> set [0..<nat (len (data inode))]"
  then have p: "p < nat (len (data inode))" by simp
  then have "unat (start (data inode) + of_nat (p div 512)) \<in> ino_sectors inode"
    using inode_ok_sector[OF assms(1) p] by simp
  then show "ino_byte d' inode p = ino_byte d inode p" using assms(2) by (simp add: ino_byte_def)
qed

text \<open>
  C13. A file is an array of bytes. Writing through \<open>inode_write_at\<close> replaces exactly the bytes from the given offset on,
  as many as were asked for and fit into the file, across sector boundaries and in partly written sectors; it
  returns that number. Reading the same range back gives the bytes written, and no file in other sectors changes.
\<close>

theorem inode_write_read:
  assumes "inode_ok d inode" and "deny_write_cnt inode = 0" and "0 \<le> offset" and "offset \<le> len (data inode)" and "nat sz \<le> length buffer"
    and "inode_ok d other" and "ino_sectors other \<inter> ino_sectors inode = {}"
  shows "\<exists>d' d'' n. inode_write_at d True inode buffer sz offset = Some (d', int n) \<and>
    n = min (nat sz) (nat (len (data inode) - offset)) \<and>
    ino_bytes d' inode = take (nat offset) (ino_bytes d inode) @ take n buffer @ drop (nat offset + n) (ino_bytes d inode) \<and>
    inode_read_at d' True inode sz offset = Some (d'', take n buffer) \<and>
    ino_bytes d'' other = ino_bytes d other"
proof -
  obtain n d' where w: "inode_write_at d True inode buffer sz offset = Some (d', int n)" "n = xfer inode sz offset"
    "inode_ok d' inode" "ino_bytes d' inode = take (nat offset) (ino_bytes d inode) @ take n buffer @ drop (nat offset + n) (ino_bytes d inode) \<or>
      n = 0 \<and> ino_bytes d' inode = ino_bytes d inode"
    "\<And>s. unat s \<notin> ino_sectors inode \<Longrightarrow> sectors d' s = sectors d s"
    by (rule inode_write_at_eval[OF assms(1,3,5,2), of True]) blast
  have b: "ino_bytes d' inode = take (nat offset) (ino_bytes d inode) @ take n buffer @ drop (nat offset + n) (ino_bytes d inode)"
    using w(4) by auto
  obtain c where r: "inode_read_at d' True inode sz offset = Some (d'\<lparr>read_cnt := c\<rparr>, take n (drop (nat offset) (ino_bytes d' inode)))"
    by (rule inode_read_at_eval[OF w(3) assms(3), of True sz]) (use w(2) in auto)
  have "n \<le> length buffer" using w(2) xfer_le(1)[of inode sz offset] assms(5) by linarith
  then have "take n (drop (nat offset) (ino_bytes d' inode)) = take n buffer"
    unfolding b using assms(3,4) by (simp add: nat_mono)
  moreover have "ino_bytes d' other = ino_bytes d other"
    by (rule ino_bytes_cong[OF assms(6)]) (use w(5) assms(7) in blast)
  then have "ino_bytes (d'\<lparr>read_cnt := c\<rparr>) other = ino_bytes d other" by (simp add: ino_bytes_def ino_byte_def)
  moreover have "n = min (nat sz) (nat (len (data inode) - offset))" using w(2) by (simp only: xfer_def)
  ultimately show ?thesis
    using w(1) b r by (intro exI[of _ d'] exI[of _ "d'\<lparr>read_cnt := c\<rparr>"] exI[of _ n]) (simp only: simp_thms)
qed

definition example_disk :: disk where
  "example_disk = \<lparr>dev_no = 1, capacity = 100, sectors = \<lambda>_. replicate 512 0, read_cnt = 0, write_cnt = 0, answers = True\<rparr>"

definition example_inode :: "disk_sector_t \<Rightarrow> off_t \<Rightarrow> inode" where
  "example_inode s n = \<lparr>sector = 1, open_cnt = 1, removed = False, deny_write_cnt = 0, data = \<lparr>start = s, len = n, magic = INODE_MAGIC\<rparr>\<rparr>"

lemma example_inode_ok: "0 \<le> n \<Longrightarrow> unat s + (nat n + 511) div 512 \<le> 100 \<Longrightarrow> inode_ok example_disk (example_inode s n)"
  by (auto simp: inode_ok_def disk_ok_def example_disk_def example_inode_def ino_sectors_def)

theorem inode_write_read_witness:
  "\<exists>d' d''. inode_write_at example_disk True (example_inode 2 1000) [1, 2, 3] 3 510 = Some (d', 3) \<and>
     inode_read_at d' True (example_inode 2 1000) 3 510 = Some (d'', [1, 2, 3])"
proof -
  have 1: "inode_ok example_disk (example_inode 2 1000)" "inode_ok example_disk (example_inode 10 100)"
    by (rule example_inode_ok; simp)+
  have 2: "ino_sectors (example_inode 10 100) \<inter> ino_sectors (example_inode 2 1000) = {}"
    by (auto simp: ino_sectors_def example_inode_def)
  show ?thesis
    using inode_write_read[OF 1(1) _ _ _ _ 1(2) 2, of 510 3 "[1, 2, 3]"] by (auto simp: example_inode_def)
qed



end
