(* ===== verification/Files.thy ===== *)
theory Files
  imports Inode Extents
begin

text \<open>
  Open inodes, open files and the free map: the rest of \<open>src/filesys/inode.c\<close>, \<open>src/filesys/file.c\<close> and
  \<open>src/filesys/free-map.c\<close>, which call each other. The state \<open>fs\<close> has the file system disk, the free map and its
  file, the inodes in memory by address, the list of open inodes, the addresses the following calls of
  \<open>malloc\<close> return (0 for a failure) and, for each of the following transfers, whether its bounce buffer can be had.
  A \<open>struct file\<close> is a value here, so that no pointer to it can be null, and its inode is an address. The layout of \<open>struct inode_disk\<close> in its sector is
  written out (little-endian words), as is that of the bitmap in the free map's file.

  The lemmas: reference counts of inodes over any sequence of opening and closing; the free map as an allocator of
  ranges of sectors, also when a write of its file fails, and when the file is up to date; what a created inode holds; and that
  the free map survives a restart.
\<close>

section \<open>The code\<close>

subsection \<open>State\<close>

record ofile =
  f_inode :: ptr
  f_pos :: off_t
  deny_write :: bool

record fs =
  fs_disk :: disk
  free_map :: bitmap
  free_map_file :: "ofile option"
  inodes :: "ptr \<Rightarrow> inode"
  open_inodes :: "ptr list"
  mallocs :: "ptr list"
  bounces :: "bool list"

definition fs_malloc :: "fs \<Rightarrow> ptr \<times> fs" where
  "fs_malloc st = (case mallocs st of [] \<Rightarrow> (NULL, st) | p # ps \<Rightarrow> (p, st\<lparr>mallocs := ps\<rparr>))"

text \<open>
  A transfer allocates at most one bounce buffer. \<open>bounces\<close> has the outcome for each of the following transfers;
  after the end of the list the allocations succeed.
\<close>

definition bounce_ok :: "fs \<Rightarrow> bool" where
  "bounce_ok st = (case bounces st of [] \<Rightarrow> True | b # _ \<Rightarrow> b)"

definition spend :: "fs \<Rightarrow> fs" where
  "spend st = st\<lparr>bounces := tl (bounces st)\<rparr>"

abbreviation (input) FREE_MAP_SECTOR :: disk_sector_t where "FREE_MAP_SECTOR \<equiv> 0"
abbreviation (input) ROOT_DIR_SECTOR :: disk_sector_t where "ROOT_DIR_SECTOR \<equiv> 1"

text \<open>The layout of \<open>inode_disk\<close> in its sector.\<close>

definition inode_disk_bytes :: "inode_disk \<Rightarrow> uint8 list" where
  "inode_disk_bytes i = bytes_of_word (start i) @ bytes_of_word (of_int (len i)) @ bytes_of_word (magic i) @ replicate 500 0"

definition inode_disk_of :: "uint8 list \<Rightarrow> inode_disk" where
  "inode_disk_of bs = \<lparr>start = word_of_bytes bs, len = sint (word_of_bytes (drop 4 bs)), magic = word_of_bytes (drop 8 bs)\<rparr>"

definition upd_inode :: "(inode \<Rightarrow> inode) \<Rightarrow> ptr \<Rightarrow> fs \<Rightarrow> fs" where
  "upd_inode f p st = st\<lparr>inodes := (inodes st)(p := f (inodes st p))\<rparr>"

subsection \<open>Opening inodes\<close>

definition inode_reopen :: "fs \<Rightarrow> ptr \<Rightarrow> fs \<times> ptr" where
  "inode_reopen st inode = (if inode \<noteq> NULL then upd_inode (\<lambda>i. i\<lparr>open_cnt := open_cnt i + 1\<rparr>) inode st else st, inode)"

definition inode_open :: "fs \<Rightarrow> disk_sector_t \<Rightarrow> (fs \<times> ptr) option" where
  "inode_open st sec =
     (case find (\<lambda>p. sector (inodes st p) = sec) (open_inodes st) of
        Some inode \<Rightarrow> Some (inode_reopen st inode)
      | None \<Rightarrow>
          let (inode, st) = fs_malloc st
          in if inode = NULL then Some (st, NULL)
             else do {
               (d, bs) \<leftarrow> read_sector (fs_disk st) sec;
               Some (st\<lparr>open_inodes := inode # open_inodes st, fs_disk := d,
                        inodes := (inodes st)(inode := \<lparr>sector = sec, open_cnt = 1, removed = False, deny_write_cnt = 0, data = inode_disk_of bs\<rparr>)\<rparr>,
                     inode)
             })"

definition inode_get_inumber :: "fs \<Rightarrow> ptr \<Rightarrow> disk_sector_t" where
  "inode_get_inumber st inode = sector (inodes st inode)"

definition inode_remove :: "fs \<Rightarrow> ptr \<Rightarrow> fs option" where
  "inode_remove st inode = do {
     ASSERT (inode \<noteq> NULL);
     Some (upd_inode (\<lambda>i. i\<lparr>removed := True\<rparr>) inode st)
   }"

definition inode_deny_write :: "fs \<Rightarrow> ptr \<Rightarrow> fs option" where
  "inode_deny_write st inode = do {
     let st = upd_inode (\<lambda>i. i\<lparr>deny_write_cnt := deny_write_cnt i + 1\<rparr>) inode st;
     ASSERT (sint (deny_write_cnt (inodes st inode)) \<le> sint (open_cnt (inodes st inode)));
     Some st
   }"

definition inode_allow_write :: "fs \<Rightarrow> ptr \<Rightarrow> fs option" where
  "inode_allow_write st inode = do {
     ASSERT (sint (deny_write_cnt (inodes st inode)) > 0);
     ASSERT (sint (deny_write_cnt (inodes st inode)) \<le> sint (open_cnt (inodes st inode)));
     Some (upd_inode (\<lambda>i. i\<lparr>deny_write_cnt := deny_write_cnt i - 1\<rparr>) inode st)
   }"

subsection \<open>Files\<close>

definition file_read_at :: "fs \<Rightarrow> ofile \<Rightarrow> off_t \<Rightarrow> off_t \<Rightarrow> (fs \<times> uint8 list) option" where
  "file_read_at st file sz file_ofs = do {
     (d, bs) \<leftarrow> inode_read_at (fs_disk st) (bounce_ok st) (inodes st (f_inode file)) sz file_ofs;
     Some ((spend st)\<lparr>fs_disk := d\<rparr>, bs)
   }"

definition file_write_at :: "fs \<Rightarrow> ofile \<Rightarrow> uint8 list \<Rightarrow> off_t \<Rightarrow> off_t \<Rightarrow> (fs \<times> off_t) option" where
  "file_write_at st file buffer sz file_ofs = do {
     (d, n) \<leftarrow> inode_write_at (fs_disk st) (bounce_ok st) (inodes st (f_inode file)) buffer sz file_ofs;
     Some ((spend st)\<lparr>fs_disk := d\<rparr>, n)
   }"

definition file_read :: "fs \<Rightarrow> ofile \<Rightarrow> off_t \<Rightarrow> (fs \<times> ofile \<times> uint8 list) option" where
  "file_read st file sz = do {
     (d, bs) \<leftarrow> inode_read_at (fs_disk st) (bounce_ok st) (inodes st (f_inode file)) sz (f_pos file);
     Some ((spend st)\<lparr>fs_disk := d\<rparr>, file\<lparr>f_pos := f_pos file + int (length bs)\<rparr>, bs)
   }"

definition file_write :: "fs \<Rightarrow> ofile \<Rightarrow> uint8 list \<Rightarrow> off_t \<Rightarrow> (fs \<times> ofile \<times> off_t) option" where
  "file_write st file buffer sz = do {
     (d, n) \<leftarrow> inode_write_at (fs_disk st) (bounce_ok st) (inodes st (f_inode file)) buffer sz (f_pos file);
     Some ((spend st)\<lparr>fs_disk := d\<rparr>, file\<lparr>f_pos := f_pos file + n\<rparr>, n)
   }"

definition file_deny_write :: "fs \<Rightarrow> ofile \<Rightarrow> (fs \<times> ofile) option" where
  "file_deny_write st file =
     (if \<not> deny_write file then do {
        st \<leftarrow> inode_deny_write st (f_inode file);
        Some (st, file\<lparr>deny_write := True\<rparr>)
      } else Some (st, file))"

definition file_allow_write :: "fs \<Rightarrow> ofile \<Rightarrow> (fs \<times> ofile) option" where
  "file_allow_write st file =
     (if deny_write file then do {
        st \<leftarrow> inode_allow_write st (f_inode file);
        Some (st, file\<lparr>deny_write := False\<rparr>)
      } else Some (st, file))"

definition file_length :: "fs \<Rightarrow> ofile \<Rightarrow> off_t" where
  "file_length st file = inode_length (inodes st (f_inode file))"

definition file_get_inode :: "ofile \<Rightarrow> ptr" where
  "file_get_inode file = f_inode file"

definition file_seek :: "ofile \<Rightarrow> off_t \<Rightarrow> ofile option" where
  "file_seek file new_pos = do {
     ASSERT (new_pos \<ge> 0);
     Some (file\<lparr>f_pos := new_pos\<rparr>)
   }"

definition file_tell :: "ofile \<Rightarrow> off_t" where
  "file_tell file = f_pos file"

subsection \<open>The free map\<close>

definition bitmap_bytes :: "bitmap \<Rightarrow> uint8 list" where
  "bitmap_bytes b = concat (map bytes_of_word (bits b))"

definition words_of_bytes :: "uint8 list \<Rightarrow> 32 word list" where
  "words_of_bytes bs = map (\<lambda>i. word_of_bytes (drop (4 * i) bs)) [0..<length bs div 4]"

definition bitmap_write :: "bitmap \<Rightarrow> fs \<Rightarrow> ofile \<Rightarrow> (fs \<times> bool) option" where
  "bitmap_write b st file = do {
     let sz = sint (byte_cnt (bit_cnt b));
     (st, n) \<leftarrow> file_write_at st file (bitmap_bytes b) sz 0;
     Some (st, n = sz)
   }"

definition free_map_init :: "disk \<Rightarrow> bool \<Rightarrow> elem_type list option \<Rightarrow> bitmap option" where
  "free_map_init filesys_disk m_struct m_bits = do {
     fm \<leftarrow> bitmap_create m_struct m_bits (disk_size filesys_disk);
     free_map \<leftarrow> fm;
     free_map \<leftarrow> bitmap_mark free_map FREE_MAP_SECTOR;
     bitmap_mark free_map ROOT_DIR_SECTOR
   }"

definition free_map_allocate :: "fs \<Rightarrow> size_t \<Rightarrow> (fs \<times> disk_sector_t option) option" where
  "free_map_allocate st cnt = do {
     (fm, sec) \<leftarrow> bitmap_scan_and_flip (free_map st) 0 cnt False;
     let st = st\<lparr>free_map := fm\<rparr>;
     if sec \<noteq> BITMAP_ERROR then
       (case free_map_file st of
          None \<Rightarrow> Some (st, Some sec)
        | Some f \<Rightarrow> do {
            (st, ok) \<leftarrow> bitmap_write (free_map st) st f;
            if \<not> ok then do {
              fm \<leftarrow> bitmap_set_multiple (free_map st) sec cnt False;
              Some (st\<lparr>free_map := fm\<rparr>, None)
            } else Some (st, Some sec)
          })
     else Some (st, None)
   }"

definition free_map_release :: "fs \<Rightarrow> disk_sector_t \<Rightarrow> size_t \<Rightarrow> fs option" where
  "free_map_release st sec cnt = do {
     all \<leftarrow> bitmap_all (free_map st) sec cnt;
     ASSERT all;
     fm \<leftarrow> bitmap_set_multiple (free_map st) sec cnt False;
     let st = st\<lparr>free_map := fm\<rparr>;
     f \<leftarrow> free_map_file st;
     (st, _) \<leftarrow> bitmap_write (free_map st) st f;
     Some st
   }"

subsection \<open>Closing and creating inodes\<close>

definition inode_close :: "fs \<Rightarrow> ptr \<Rightarrow> fs option" where
  "inode_close st inode =
     (if inode = NULL then Some st
      else
        let st = upd_inode (\<lambda>i. i\<lparr>open_cnt := open_cnt i - 1\<rparr>) inode st
        in if open_cnt (inodes st inode) = 0 then
             let st = st\<lparr>open_inodes := remove1 inode (open_inodes st)\<rparr>
             in if removed (inodes st inode) then do {
                  st \<leftarrow> free_map_release st (sector (inodes st inode)) 1;
                  free_map_release st (start (data (inodes st inode))) (bytes_to_sectors (len (data (inodes st inode))))
                } else Some st
           else Some st)"

fun zero_sectors :: "disk \<Rightarrow> disk_sector_t \<Rightarrow> nat \<Rightarrow> disk option" where
  "zero_sectors d sec 0 = Some d"
| "zero_sectors d sec (Suc n) = do {
     d \<leftarrow> write_sector d sec (replicate 512 0);
     zero_sectors d (sec + 1) n
   }"

definition inode_create :: "fs \<Rightarrow> disk_sector_t \<Rightarrow> off_t \<Rightarrow> (fs \<times> bool) option" where
  "inode_create st sec n = do {
     ASSERT (n \<ge> 0);
     let (disk_inode, st) = fs_malloc st;
     if disk_inode \<noteq> NULL then do {
       let secs = bytes_to_sectors n;
       (st, r) \<leftarrow> free_map_allocate st secs;
       case r of
         None \<Rightarrow> Some (st, False)
       | Some first \<Rightarrow> do {
           d \<leftarrow> write_sector (fs_disk st) sec (inode_disk_bytes \<lparr>start = first, len = n, magic = INODE_MAGIC\<rparr>);
           d \<leftarrow> (if secs > 0 then zero_sectors d first (unat secs) else Some d);
           Some (st\<lparr>fs_disk := d\<rparr>, True)
         }
     } else Some (st, False)
   }"

definition file_open :: "fs \<Rightarrow> ptr \<Rightarrow> (fs \<times> ofile option) option" where
  "file_open st inode = do {
     let (file, st) = fs_malloc st;
     if inode \<noteq> NULL \<and> file \<noteq> NULL
     then Some (st, Some \<lparr>f_inode = inode, f_pos = 0, deny_write = False\<rparr>)
     else do { st \<leftarrow> inode_close st inode; Some (st, None) }
   }"

definition file_reopen :: "fs \<Rightarrow> ofile \<Rightarrow> (fs \<times> ofile option) option" where
  "file_reopen st file = (let (st, inode) = inode_reopen st (f_inode file) in file_open st inode)"

definition file_close :: "fs \<Rightarrow> ofile option \<Rightarrow> fs option" where
  "file_close st file = (case file of None \<Rightarrow> Some st | Some f \<Rightarrow> do {
     (st, f) \<leftarrow> file_allow_write st f;
     inode_close st (f_inode f)
   })"

definition free_map_open :: "fs \<Rightarrow> fs option" where
  "free_map_open st = do {
     (st, inode) \<leftarrow> inode_open st FREE_MAP_SECTOR;
     (st, file) \<leftarrow> file_open st inode;
     f \<leftarrow> file;
     let st = st\<lparr>free_map_file := Some f\<rparr>;
     (st, bs) \<leftarrow> (if bit_cnt (free_map st) > 0 then file_read_at st f (sint (byte_cnt (bit_cnt (free_map st)))) 0 else Some (st, []));
     (fm, ok) \<leftarrow> bitmap_read (free_map st)
                   (words_of_bytes (bs @ drop (length bs) (bitmap_bytes (free_map st))), of_nat (length bs));
     ASSERT ok;
     Some (st\<lparr>free_map := fm\<rparr>)
   }"

definition free_map_close :: "fs \<Rightarrow> fs option" where
  "free_map_close st = file_close st (free_map_file st)"

definition free_map_create :: "fs \<Rightarrow> fs option" where
  "free_map_create st = do {
     (st, ok) \<leftarrow> inode_create st FREE_MAP_SECTOR (sint (bitmap_file_size (free_map st)));
     ASSERT ok;
     (st, inode) \<leftarrow> inode_open st FREE_MAP_SECTOR;
     (st, file) \<leftarrow> file_open st inode;
     f \<leftarrow> file;
     let st = st\<lparr>free_map_file := Some f\<rparr>;
     (st, ok) \<leftarrow> bitmap_write (free_map st) st f;
     ASSERT ok;
     Some st
   }"

section \<open>Bounce buffers\<close>

lemma bounces_Nil [simp]: "bounces st = [] \<Longrightarrow> bounce_ok st" "bounces st = [] \<Longrightarrow> spend st = st"
  by (simp_all add: bounce_ok_def spend_def)

lemma bounces_spend [simp]: "bounces (spend st) = tl (bounces st)"
  by (simp add: spend_def)

lemma spend_simps [simp]:
  "fs_disk (spend st) = fs_disk st" "free_map (spend st) = free_map st" "free_map_file (spend st) = free_map_file st"
  "inodes (spend st) = inodes st" "open_inodes (spend st) = open_inodes st" "mallocs (spend st) = mallocs st"
  by (simp_all add: spend_def)

section \<open>Inodes on disk\<close>

lemma length_inode_disk_bytes [simp]: "length (inode_disk_bytes i) = 512"
  by (simp add: inode_disk_bytes_def)

lemma inode_disk_roundtrip:
  assumes "- (2 ^ 31) \<le> len i" and "len i < 2 ^ 31"
  shows "inode_disk_of (inode_disk_bytes i) = i"
proof -
  have "sint (of_int (len i) :: 32 word) = len i"
    using assms by (simp add: signed_of_int signed_take_bit_int_eq_self)
  then show ?thesis by (cases i) (simp add: inode_disk_of_def inode_disk_bytes_def)
qed

section \<open>Reference counts\<close>

text \<open>
  The states reachable by opening and closing inodes, with the multiset of references the callers hold. The block that \<open>malloc\<close>
  hands out for a new inode is not the block of an inode that callers still refer to, but it may be that of one closed
  before. The callers hold fewer references than an \<open>int\<close> can count.
\<close>

inductive inode_runs :: "fs \<Rightarrow> fs \<Rightarrow> ptr multiset \<Rightarrow> bool" for st0 where
  start: "inode_runs st0 st0 {#}"
| opened: "inode_runs st0 st refs \<Longrightarrow> fst (fs_malloc st) \<notin># refs \<Longrightarrow> size refs < 2 ^ 31 - 1 \<Longrightarrow> inode_open st sec = Some (st', p) \<Longrightarrow>
    inode_runs st0 st' (if p = NULL then refs else add_mset p refs)"
| reopened: "inode_runs st0 st refs \<Longrightarrow> p \<in># refs \<Longrightarrow> size refs < 2 ^ 31 - 1 \<Longrightarrow> inode_reopen st p = (st', p') \<Longrightarrow> inode_runs st0 st' (add_mset p' refs)"
| closed: "inode_runs st0 st refs \<Longrightarrow> p \<in># refs \<Longrightarrow> inode_close st p = Some st' \<Longrightarrow> inode_runs st0 st' (refs - {#p#})"
| marked: "inode_runs st0 st refs \<Longrightarrow> p \<in># refs \<Longrightarrow> inode_remove st p = Some st' \<Longrightarrow> inode_runs st0 st' refs"

definition refs_ok :: "fs \<Rightarrow> ptr multiset \<Rightarrow> bool" where
  "refs_ok st refs \<longleftrightarrow> distinct (open_inodes st) \<and> set (open_inodes st) = set_mset refs \<and> NULL \<notin># refs \<and> size refs < 2 ^ 31 \<and>
     (\<forall>p\<in>#refs. open_cnt (inodes st p) = of_nat (count refs p)) \<and> inj_on (\<lambda>p. sector (inodes st p)) (set_mset refs)"

lemma bitmap_write_frame: "bitmap_write b st f = Some (st', ok) \<Longrightarrow> \<exists>d. st' = (spend st)\<lparr>fs_disk := d\<rparr>"
  by (auto simp: bitmap_write_def file_write_at_def Let_def bind_eq_Some_conv)

lemma free_map_release_frame: "free_map_release st s n = Some st' \<Longrightarrow> \<exists>d fm bb. st' = st\<lparr>free_map := fm, bounces := bb, fs_disk := d\<rparr>"
proof -
  assume "free_map_release st s n = Some st'"
  then obtain fm f ok where "bitmap_write fm (st\<lparr>free_map := fm\<rparr>) f = Some (st', ok)"
    by (auto simp: free_map_release_def Let_def bind_eq_Some_conv)
  from bitmap_write_frame[OF this] obtain d where "st' = (spend (st\<lparr>free_map := fm\<rparr>))\<lparr>fs_disk := d\<rparr>" by blast
  then show ?thesis by (intro exI[of _ d] exI[of _ fm] exI[of _ "tl (bounces st)"]) (simp add: spend_def)
qed

lemma refs_ok_frame: "refs_ok (st\<lparr>free_map := fm, bounces := bb, fs_disk := d\<rparr>) refs = refs_ok st refs"
  by (simp add: refs_ok_def)

lemma upd_inode_simps [simp]:
  "open_inodes (upd_inode f p st) = open_inodes st" "mallocs (upd_inode f p st) = mallocs st"
  "inodes (upd_inode f p st) q = (if q = p then f (inodes st p) else inodes st q)"
  "fs_disk (upd_inode f p st) = fs_disk st" "free_map (upd_inode f p st) = free_map st"
  "free_map_file (upd_inode f p st) = free_map_file st" "bounces (upd_inode f p st) = bounces st"
  by (simp_all add: upd_inode_def)

text \<open>Updates of an inode that keep its sector.\<close>

lemma upd_inode_sector: "(\<And>i. sector (f i) = sector i) \<Longrightarrow> (\<lambda>q. sector (inodes (upd_inode f p st) q)) = (\<lambda>q. sector (inodes st q))"
  by (simp add: fun_eq_iff)

lemma refs_ok_reopen:
  assumes "refs_ok st refs" and "p \<in># refs" and "size refs < 2 ^ 31 - 1"
  shows "refs_ok (fst (inode_reopen st p)) (add_mset p refs)"
proof -
  let ?st = "upd_inode (\<lambda>i. i\<lparr>open_cnt := open_cnt i + 1\<rparr>) p st"
  have "p \<noteq> NULL" "insert p (set_mset refs) = set_mset refs" using assms by (auto simp: refs_ok_def)
  then show ?thesis
    using assms upd_inode_sector[of "\<lambda>i. i\<lparr>open_cnt := open_cnt i + 1\<rparr>" p st] unfolding refs_ok_def inode_reopen_def
    by (simp add: add.commute)
qed

lemma refs_ok_open:
  assumes "refs_ok st refs" and "fst (fs_malloc st) \<notin># refs" and "size refs < 2 ^ 31 - 1" and "inode_open st sec = Some (st', p)"
  shows "refs_ok st' (if p = NULL then refs else add_mset p refs)"
proof (cases "find (\<lambda>p. sector (inodes st p) = sec) (open_inodes st)")
  case (Some q)
  then have "q \<in># refs" using assms(1) by (auto simp: refs_ok_def find_Some_iff)
  moreover have "inode_reopen st q = (st', p)" using assms(4) Some by (simp add: inode_open_def)
  moreover have "p = q" using calculation(2) by (simp add: inode_reopen_def)
  ultimately show ?thesis using refs_ok_reopen[OF assms(1), of q] assms(1,3) by (auto simp: refs_ok_def)
next
  case None
  then have new: "\<forall>q\<in>set (open_inodes st). sector (inodes st q) \<noteq> sec" by (simp add: find_None_iff)
  have "fs_malloc st = (fst (fs_malloc st), st\<lparr>mallocs := tl (mallocs st)\<rparr>)" by (cases "mallocs st") (simp_all add: fs_malloc_def)
  then obtain q qs where m: "fs_malloc st = (q, st\<lparr>mallocs := qs\<rparr>)" by blast
  show ?thesis
  proof (cases "q = NULL")
    case True
    then have "st' = st\<lparr>mallocs := qs\<rparr>" "p = NULL" using assms(4) None m by (auto simp: inode_open_def)
    then show ?thesis using assms(1) True by (simp add: refs_ok_def)
  next
    case False
    then obtain d bs where r: "read_sector (fs_disk st) sec = Some (d, bs)" and p: "p = q"
      and st': "st' = st\<lparr>mallocs := qs, open_inodes := q # open_inodes st, fs_disk := d,
          inodes := (inodes st)(q := \<lparr>sector = sec, open_cnt = 1, removed = False, deny_write_cnt = 0, data = inode_disk_of bs\<rparr>)\<rparr>"
      using assms(4) None m by (auto simp: inode_open_def bind_eq_Some_conv)
    have q: "q \<notin># refs" "q \<notin> set (open_inodes st)" using assms(1,2) m by (auto simp: refs_ok_def)
    then have "count refs q = 0" by (simp add: count_eq_zero_iff)
    then show ?thesis using assms(1,3) False q new p unfolding st' by (auto simp: refs_ok_def inj_on_def)
  qed
qed

lemma count_diff_single: "p \<in># refs \<Longrightarrow> of_nat (count refs p) - 1 = (of_nat (count (refs - {#p#}) p) :: 32 word)"
  by (simp add: count_greater_zero_iff[symmetric] of_nat_diff Suc_leI del: count_greater_zero_iff)

lemma count_word_zero: "size refs < 2 ^ 31 \<Longrightarrow> (of_nat (count refs p) :: 32 word) = 0 \<longleftrightarrow> count refs p = 0"
proof -
  assume "size refs < 2 ^ 31"
  then have "count refs p < 2 ^ 32" using count_le_size[of refs p] by simp
  then have "(of_nat (count refs p) :: 32 word) = of_nat 0 \<longleftrightarrow> count refs p = 0" by (intro of_nat_inj32) simp_all
  then show ?thesis by simp
qed

lemma refs_ok_close:
  assumes "refs_ok st refs" and "p \<in># refs" and "inode_close st p = Some st'"
  shows "refs_ok st' (refs - {#p#})"
proof -
  let ?st = "upd_inode (\<lambda>i. i\<lparr>open_cnt := open_cnt i - 1\<rparr>) p st"
  have p: "p \<noteq> NULL" using assms(1,2) by (auto simp: refs_ok_def)
  have sz: "size (refs - {#p#}) < 2 ^ 31" using assms(1) size_Diff1_le[of refs p] by (simp add: refs_ok_def)
  have cnt: "open_cnt (inodes ?st p) = of_nat (count (refs - {#p#}) p)"
    using assms(1,2) count_diff_single[OF assms(2)] by (simp add: refs_ok_def upd_inode_def)
  have zero: "open_cnt (inodes ?st p) = 0 \<longleftrightarrow> p \<notin># refs - {#p#}"
    unfolding cnt count_word_zero[OF sz] by (rule count_eq_zero_iff)
  have sub: "x \<in># refs - {#p#} \<Longrightarrow> x \<in># refs" for x by (rule in_diffD)
  show ?thesis
  proof (cases "p \<in># refs - {#p#}")
    case True
    then have "st' = ?st" using assms(3) p zero by (simp add: inode_close_def Let_def)
    moreover have "set_mset (refs - {#p#}) = set_mset refs" using True sub by (auto simp: in_diff_count)
    moreover have "count (refs - {#p#}) q = count refs q" if "q \<noteq> p" for q using that by simp
    ultimately show ?thesis
      using assms(1) cnt sz upd_inode_sector[of "\<lambda>i. i\<lparr>open_cnt := open_cnt i - 1\<rparr>" p st] unfolding refs_ok_def by simp
  next
    case False
    then have z: "open_cnt (inodes ?st p) = 0" using zero by blast
    let ?st1 = "?st\<lparr>open_inodes := remove1 p (open_inodes ?st)\<rparr>"
    have rest: "set_mset (refs - {#p#}) = set_mset refs - {p}" 
    proof (rule set_eqI)
      show "x \<in># refs - {#p#} \<longleftrightarrow> x \<in> set_mset refs - {p}" for x
        using False by (cases "x = p") (simp_all flip: count_greater_zero_iff)
    qed
    have "refs_ok ?st1 (refs - {#p#})"
      using assms(1) sz rest upd_inode_sector[of "\<lambda>i. i\<lparr>open_cnt := open_cnt i - 1\<rparr>" p st] inj_on_subset[of _ "set_mset refs" "set_mset refs - {p}"]
      unfolding refs_ok_def by (simp add: set_remove1_eq) blast
    moreover have "\<exists>d fm bb. st' = ?st1\<lparr>free_map := fm, bounces := bb, fs_disk := d\<rparr>"
    proof (cases "removed (inodes ?st1 p)")
      case True
      then obtain st2 where r: "free_map_release ?st1 (sector (inodes ?st1 p)) 1 = Some st2"
        "free_map_release st2 (start (data (inodes st2 p))) (bytes_to_sectors (len (data (inodes st2 p)))) = Some st'"
        using assms(3) p z by (auto simp: inode_close_def Let_def bind_eq_Some_conv)
      from free_map_release_frame[OF r(1)] obtain d fm bb where "st2 = ?st1\<lparr>free_map := fm, bounces := bb, fs_disk := d\<rparr>" by blast
      moreover from free_map_release_frame[OF r(2)] obtain d' fm' bb' where "st' = st2\<lparr>free_map := fm', bounces := bb', fs_disk := d'\<rparr>" by blast
      ultimately show ?thesis by (intro exI[of _ d'] exI[of _ fm'] exI[of _ bb']) simp
    next
      case False
      then have "st' = ?st1" using assms(3) p z by (simp add: inode_close_def Let_def)
      then show ?thesis by (intro exI[of _ "fs_disk ?st1"] exI[of _ "free_map ?st1"] exI[of _ "bounces ?st1"]) simp
    qed
    ultimately show ?thesis using refs_ok_frame by fastforce
  qed
qed

lemma inode_runs_ok: "inode_runs st0 st refs \<Longrightarrow> refs_ok st0 {#} \<Longrightarrow> refs_ok st refs"
proof (induction rule: inode_runs.induct)
  case (opened st refs sec st' p)
  then show ?case using refs_ok_open by blast
next
  case (reopened st refs p st' p')
  then have "p' = p" "st' = fst (inode_reopen st p)" by (auto simp: inode_reopen_def split: if_splits)
  then show ?case using refs_ok_reopen[of st refs p] reopened by metis
next
  case (marked st refs p st')
  then have ok: "refs_ok st refs" and st': "st' = upd_inode (\<lambda>i. i\<lparr>removed := True\<rparr>) p st"
    by (simp_all add: inode_remove_def bind_eq_Some_conv)
  show ?case using ok upd_inode_sector[of "\<lambda>i. i\<lparr>removed := True\<rparr>" p st] unfolding st' refs_ok_def by simp
qed (use refs_ok_close in blast)+

lemma sint_count: "size refs < 2 ^ 31 \<Longrightarrow> sint (of_nat (count refs p) :: 32 word) = int (count refs p)"
proof -
  assume "size refs < 2 ^ 31"
  then have c: "count refs p < 2 ^ 31" using count_le_size[of refs p] by simp
  then have u: "unat (of_nat (count refs p) :: 32 word) = count refs p" by (intro unat_of_nat32) simp
  show ?thesis using sint_small32[of "of_nat (count refs p)"] unfolding u using c by simp
qed


definition example_fs :: fs where
  "example_fs = \<lparr>fs_disk = example_disk, free_map = \<lparr>bit_cnt = 100, bits = [0, 0, 0, 0]\<rparr>, free_map_file = None,
     inodes = \<lambda>_. example_inode 0 0, open_inodes = [], mallocs = [100, 100], bounces = []\<rparr>"


section \<open>The free map\<close>

text \<open>
  Sectors in use; the invariant of the free map (\<open>fm_mem\<close>), with the assumption that no bounce buffer is refused (\<open>fm_ok\<close>); and that
  the free map and its file agree (\<open>fm_saved\<close>).
\<close>

definition sectors_used :: "fs \<Rightarrow> nat set" where
  "sectors_used st = {k. k < unat (bit_cnt (free_map st)) \<and> bitmap_abs (free_map st) ! k}"

definition fm_inode :: "fs \<Rightarrow> inode" where
  "fm_inode st = inodes st (f_inode (the (free_map_file st)))"

definition fm_mem :: "fs \<Rightarrow> bool" where
  "fm_mem st \<longleftrightarrow> bitmap_wf (free_map st) \<and> bit_cnt (free_map st) \<le> 0x10000000 \<and> free_map_file st \<noteq> None \<and>
     inode_ok (fs_disk st) (fm_inode st) \<and> deny_write_cnt (fm_inode st) = 0 \<and>
     len (data (fm_inode st)) = 4 * int (length (bits (free_map st)))"

definition fm_ok :: "fs \<Rightarrow> bool" where
  "fm_ok st \<longleftrightarrow> fm_mem st \<and> bounces st = []"

lemma fm_ok_iff:
  "fm_ok st \<longleftrightarrow> bitmap_wf (free_map st) \<and> bit_cnt (free_map st) \<le> 0x10000000 \<and> free_map_file st \<noteq> None \<and>
     inode_ok (fs_disk st) (fm_inode st) \<and> deny_write_cnt (fm_inode st) = 0 \<and>
     len (data (fm_inode st)) = 4 * int (length (bits (free_map st))) \<and> bounces st = []"
  by (simp add: fm_ok_def fm_mem_def)

definition fm_saved :: "fs \<Rightarrow> bool" where
  "fm_saved st \<longleftrightarrow> ino_bytes (fs_disk st) (fm_inode st) = bitmap_bytes (free_map st)"

lemma length_bitmap_bytes [simp]: "length (bitmap_bytes b) = 4 * length (bits b)"
  by (simp add: bitmap_bytes_def length_concat comp_def sum_list_triv)

lemma byte_cnt_eval:
  assumes "bitmap_wf b" and "bit_cnt b \<le> 0x10000000"
  shows "sint (byte_cnt (bit_cnt b)) = 4 * int (length (bits b))" and "unat (byte_cnt (bit_cnt b)) = 4 * length (bits b)"
proof -
  have l: "length (bits b) = unat (elem_cnt (bit_cnt b))" using assms(1) by (simp add: bitmap_wf_def)
  have "unat (bit_cnt b) \<le> 0x10000000" using assms(2) by (simp add: word_le_nat_alt)
  then have e: "unat (elem_cnt (bit_cnt b)) \<le> 0x800000" using assms(1) by (simp add: unat_elem_cnt bitmap_wf_def)
  then show u: "unat (byte_cnt (bit_cnt b)) = 4 * length (bits b)"
    unfolding byte_cnt_def l by (subst unat_mult_lem[THEN iffD1]) simp_all
  then have "sint (byte_cnt (bit_cnt b)) = int (unat (byte_cnt (bit_cnt b)))"
    using e l by (intro sint_small32) simp
  then show "sint (byte_cnt (bit_cnt b)) = 4 * int (length (bits b))" using u by simp
qed

text \<open>The number of bytes of the free map a write brings to disk: without a bounce buffer, only the whole sectors.\<close>

definition saved_len :: "fs \<Rightarrow> nat" where
  "saved_len st = (let n = 4 * length (bits (free_map st)) in if bounce_ok st then n else 512 * (n div 512))"

lemma bitmap_write_eval:
  assumes "bitmap_wf b" and "bit_cnt b \<le> 0x10000000" and "inode_ok (fs_disk st) (inodes st (f_inode f))"
    and "deny_write_cnt (inodes st (f_inode f)) = 0" and "len (data (inodes st (f_inode f))) = 4 * int (length (bits b))" and "free_map st = b"
  obtains d where "bitmap_write b st f = Some ((spend st)\<lparr>fs_disk := d\<rparr>, saved_len st = 4 * length (bits b))" "inode_ok d (inodes st (f_inode f))"
    "ino_bytes d (inodes st (f_inode f)) = take (saved_len st) (bitmap_bytes b) @ drop (saved_len st) (ino_bytes (fs_disk st) (inodes st (f_inode f)))"
    "capacity d = capacity (fs_disk st)"
    "\<And>s. unat s \<notin> ino_sectors (inodes st (f_inode f)) \<Longrightarrow> sectors d s = sectors (fs_disk st) s"
proof -
  let ?i = "inodes st (f_inode f)" and ?n = "4 * length (bits b)"
  note sz = byte_cnt_eval(1)[OF assms(1,2)]
  have x: "xfer ?i (sint (byte_cnt (bit_cnt b))) 0 = ?n" using assms(5) sz by (simp add: xfer_def nat_mult_distrib)
  have "nat (sint (byte_cnt (bit_cnt b))) \<le> length (bitmap_bytes b)" using sz by (simp add: nat_mult_distrib)
  from inode_write_at_eval[OF assms(3) order.refl this assms(4), of "bounce_ok st"] obtain n d where
    w: "inode_write_at (fs_disk st) (bounce_ok st) ?i (bitmap_bytes b) (sint (byte_cnt (bit_cnt b))) 0 = Some (d, int n)"
    and n': "n = reach ?i (bounce_ok st) (sint (byte_cnt (bit_cnt b))) 0" and d: "inode_ok d ?i" "capacity d = capacity (fs_disk st)"
    and bs: "ino_bytes d ?i = take (nat 0) (ino_bytes (fs_disk st) ?i) @ take n (bitmap_bytes b) @ drop (nat 0 + n) (ino_bytes (fs_disk st) ?i) \<or>
      n = 0 \<and> ino_bytes d ?i = ino_bytes (fs_disk st) ?i"
    and o: "\<And>s. unat s \<notin> ino_sectors ?i \<Longrightarrow> sectors d s = sectors (fs_disk st) s"
    by blast
  have n: "n = saved_len st" using n' x assms(6) by (simp add: reach_def saved_len_def Let_def)
  have "ino_bytes d ?i = take (saved_len st) (bitmap_bytes b) @ drop (saved_len st) (ino_bytes (fs_disk st) ?i)"
    using bs n by auto
  moreover have "int n = sint (byte_cnt (bit_cnt b)) \<longleftrightarrow> saved_len st = ?n" using n sz by linarith
  then have "bitmap_write b st f = Some ((spend st)\<lparr>fs_disk := d\<rparr>, saved_len st = ?n)"
    using w by (simp add: bitmap_write_def file_write_at_def)
  ultimately show ?thesis using that d o by blast
qed

text \<open>Saving a new free map.\<close>

lemma fm_save_any:
  assumes "fm_mem st" and "bitmap_wf fm" and "bit_cnt fm = bit_cnt (free_map st)" and "free_map_file st = Some f"
  obtains d where "bitmap_write fm (st\<lparr>free_map := fm\<rparr>) f = Some (st\<lparr>free_map := fm, bounces := tl (bounces st), fs_disk := d\<rparr>, saved_len st = 4 * length (bits fm))"
    "\<And>fm' bb. bitmap_wf fm' \<Longrightarrow> bit_cnt fm' = bit_cnt (free_map st) \<Longrightarrow> fm_mem (st\<lparr>free_map := fm', bounces := bb, fs_disk := d\<rparr>)"
    "ino_bytes d (fm_inode st) = take (saved_len st) (bitmap_bytes fm) @ drop (saved_len st) (ino_bytes (fs_disk st) (fm_inode st))"
    "capacity d = capacity (fs_disk st)" "\<And>s. unat s \<notin> ino_sectors (fm_inode st) \<Longrightarrow> sectors d s = sectors (fs_disk st) s"
    "length (bits fm) = length (bits (free_map st))"
proof -
  have l: "length (bits fm') = length (bits (free_map st))" if "bitmap_wf fm'" "bit_cnt fm' = bit_cnt (free_map st)" for fm'
    using that assms(1) by (simp add: fm_mem_def bitmap_wf_def)
  have i: "inodes st (f_inode f) = fm_inode st" using assms(4) by (simp add: fm_inode_def)
  have sl: "saved_len (st\<lparr>free_map := fm\<rparr>) = saved_len st" using l[OF assms(2,3)] by (simp add: saved_len_def bounce_ok_def)
  let ?st = "st\<lparr>free_map := fm\<rparr>"
  note m = assms(1)[unfolded fm_mem_def]
  show ?thesis
  proof (rule bitmap_write_eval[OF assms(2), of ?st f])
    fix d
    assume d: "bitmap_write fm ?st f = Some ((spend ?st)\<lparr>fs_disk := d\<rparr>, saved_len ?st = 4 * length (bits fm))" "inode_ok d (inodes ?st (f_inode f))"
      "ino_bytes d (inodes ?st (f_inode f)) = take (saved_len ?st) (bitmap_bytes fm) @ drop (saved_len ?st) (ino_bytes (fs_disk ?st) (inodes ?st (f_inode f)))"
      "capacity d = capacity (fs_disk ?st)" "\<And>s. unat s \<notin> ino_sectors (inodes ?st (f_inode f)) \<Longrightarrow> sectors d s = sectors (fs_disk ?st) s"
    show thesis
    proof (rule that[of d])
      show "bitmap_write fm ?st f = Some (st\<lparr>free_map := fm, bounces := tl (bounces st), fs_disk := d\<rparr>, saved_len st = 4 * length (bits fm))"
        using d(1) sl by (simp add: spend_def)
      show "fm_mem (st\<lparr>free_map := fm', bounces := bb, fs_disk := d\<rparr>)" if "bitmap_wf fm'" "bit_cnt fm' = bit_cnt (free_map st)" for fm' bb
        using d(2) m l[OF that] that i by (simp add: fm_mem_def fm_inode_def)
    qed (use d(3-5) i sl l[OF assms(2,3)] in simp_all)
  qed (use m assms(3) i l[OF assms(2,3)] in simp_all)
qed

lemma set_range_used:
  assumes "a + n \<le> length xs"
  shows "{k. k < length xs \<and> set_range xs a n True ! k} = {k. k < length xs \<and> xs ! k} \<union> {a..<a + n}"
    and "{k. k < length xs \<and> set_range xs a n False ! k} = {k. k < length xs \<and> xs ! k} - {a..<a + n}"
  using assms by (auto simp: set_range_nth[OF assms] split: if_splits)

lemma set_range_back:
  assumes "a + n \<le> length xs \<and> (\<forall>k<n. xs ! (a + k) = False)"
  shows "set_range (set_range xs a n (\<not> False)) a n False = xs"
proof -
  have l: "length (set_range xs a n v) = length xs" for v using assms by (simp add: set_range_def)
  have l': "length (set_range (set_range xs a n (\<not> False)) a n False) = length xs" using assms l[of True] by (simp add: set_range_def)
  show ?thesis
  proof (rule nth_equalityI[OF l'])
    fix k assume "k < length (set_range (set_range xs a n (\<not> False)) a n False)"
    moreover have "\<not> xs ! k" if "a \<le> k" "k < a + n" using assms that by (metis le_add_diff_inverse nat_add_left_cancel_less)
    ultimately show "set_range (set_range xs a n (\<not> False)) a n False ! k = xs ! k"
      using assms l l' by (auto simp: set_range_nth)
  qed
qed

lemma sectors_used_abs: "sectors_used st = {k. k < length (bitmap_abs (free_map st)) \<and> bitmap_abs (free_map st) ! k}"
  by (simp add: sectors_used_def)

lemma free_map_allocate_any:
  assumes "fm_mem st"
  obtains (full) "free_map_allocate st cnt = Some (st, None)" "\<And>i. \<not> bit_group (bitmap_abs (free_map st)) i (unat cnt) False"
  | (failed) fm d where "free_map_allocate st cnt = Some (st\<lparr>free_map := fm, bounces := tl (bounces st), fs_disk := d\<rparr>, None)"
      "fm_mem (st\<lparr>free_map := fm, bounces := tl (bounces st), fs_disk := d\<rparr>)" "bit_cnt fm = bit_cnt (free_map st)"
      "bitmap_abs fm = bitmap_abs (free_map st)" "\<not> bounce_ok st"
  | (got) fm d sec where "free_map_allocate st cnt = Some (st\<lparr>free_map := fm, bounces := tl (bounces st), fs_disk := d\<rparr>, Some sec)"
      "fm_mem (st\<lparr>free_map := fm, bounces := tl (bounces st), fs_disk := d\<rparr>)" "fm_saved (st\<lparr>free_map := fm, bounces := tl (bounces st), fs_disk := d\<rparr>)"
      "bit_cnt fm = bit_cnt (free_map st)" "unat sec + unat cnt \<le> unat (bit_cnt (free_map st))" "{unat sec..<unat sec + unat cnt} \<inter> sectors_used st = {}"
      "sectors_used (st\<lparr>free_map := fm, bounces := tl (bounces st), fs_disk := d\<rparr>) = sectors_used st \<union> {unat sec..<unat sec + unat cnt}"
      "capacity d = capacity (fs_disk st)" "\<And>s. unat s \<notin> ino_sectors (fm_inode st) \<Longrightarrow> sectors d s = sectors (fs_disk st) s"
      "saved_len st = 4 * length (bits (free_map st))"
proof -
  have wf: "bitmap_wf (free_map st)" using assms by (simp add: fm_mem_def)
  obtain f where f: "free_map_file st = Some f" using assms by (auto simp: fm_mem_def)
  let ?g = "first_group (bitmap_abs (free_map st)) 0 (unat cnt) False"
  obtain fm where fm: "bitmap_scan_and_flip (free_map st) 0 cnt False = Some (fm, scan_result ?g)" "bitmap_wf fm"
    "bit_cnt fm = bit_cnt (free_map st)"
    "bitmap_abs fm = (case ?g of None \<Rightarrow> bitmap_abs (free_map st) | Some i \<Rightarrow> set_range (bitmap_abs (free_map st)) i (unat cnt) (\<not> False))"
    using bitmap_scan_and_flip_abs[OF wf, of 0 cnt False] by auto
  show ?thesis
  proof (cases ?g)
    case None
    have "bitmap_scan_and_flip (free_map st) 0 cnt False = Some (free_map st, BITMAP_ERROR)"
      using bitmap_scan_abs[OF wf, of 0 cnt False] None by (simp add: bitmap_scan_and_flip_def scan_result_def)
    then show ?thesis using full None by (simp add: free_map_allocate_def first_group_None)
  next
    case (Some i)
    note sr = scan_result_Some[OF wf Some]
    have g: "bit_group (bitmap_abs (free_map st)) i (unat cnt) False" using Some by (simp add: first_group_Some)
    then have le: "i + unat cnt \<le> length (bitmap_abs (free_map st))" by (simp add: bit_group_def)
    obtain d where d: "bitmap_write fm (st\<lparr>free_map := fm\<rparr>) f = Some (st\<lparr>free_map := fm, bounces := tl (bounces st), fs_disk := d\<rparr>, saved_len st = 4 * length (bits fm))"
      "\<And>fm' bb. bitmap_wf fm' \<Longrightarrow> bit_cnt fm' = bit_cnt (free_map st) \<Longrightarrow> fm_mem (st\<lparr>free_map := fm', bounces := bb, fs_disk := d\<rparr>)"
      "ino_bytes d (fm_inode st) = take (saved_len st) (bitmap_bytes fm) @ drop (saved_len st) (ino_bytes (fs_disk st) (fm_inode st))"
      "capacity d = capacity (fs_disk st)" "\<And>s. unat s \<notin> ino_sectors (fm_inode st) \<Longrightarrow> sectors d s = sectors (fs_disk st) s"
      "length (bits fm) = length (bits (free_map st))"
      by (rule fm_save_any[OF assms fm(2,3) f]) blast
    let ?st = "st\<lparr>free_map := fm, bounces := tl (bounces st), fs_disk := d\<rparr>"
    show ?thesis
    proof (cases "saved_len st = 4 * length (bits fm)")
      case True
      have "len (data (fm_inode st)) = 4 * int (length (bits (free_map st)))" using assms by (simp add: fm_mem_def)
      then have "ino_bytes d (fm_inode st) = bitmap_bytes fm" using d(3,6) True by simp
      then have "fm_saved ?st" by (simp add: fm_saved_def fm_inode_def)
      moreover have "free_map_allocate st cnt = Some (?st, Some (scan_result (Some i)))"
        using fm(1) Some sr(2) d(1) f True by (simp add: free_map_allocate_def)
      moreover have "{i..<i + unat cnt} \<inter> sectors_used st = {}"
        using g by (auto simp: bit_group_def sectors_used_def) (metis le_add_diff_inverse nat_add_left_cancel_less)
      moreover have "sectors_used ?st = sectors_used st \<union> {i..<i + unat cnt}"
        using set_range_used(1)[OF le] fm(3,4) Some by (simp add: sectors_used_def)
      ultimately show ?thesis
        using got[where fm = fm and d = d and sec = "scan_result (Some i)"] d(2)[OF fm(2,3)] d(4-6) True fm(3) le sr(1) by simp
    next
      case False
      have sl: "unat (scan_result (Some i)) + unat cnt \<le> unat (bit_cnt fm)" using le sr(1) fm(3) by simp
      obtain fm' where fm': "bitmap_set_multiple fm (scan_result (Some i)) cnt False = Some fm'" "bitmap_wf fm'" "bit_cnt fm' = bit_cnt fm"
        "bitmap_abs fm' = set_range (bitmap_abs fm) (unat (scan_result (Some i))) (unat cnt) False"
        using bitmap_set_multiple_abs[OF fm(2) sl] by blast
      have abs: "bitmap_abs fm' = bitmap_abs (free_map st)"
        unfolding fm'(4) sr(1) fm(4) Some option.case by (rule set_range_back[OF g[unfolded bit_group_def]])
      have nb: "\<not> bounce_ok st" using False d(6) by (auto simp: saved_len_def Let_def)
      have "free_map_allocate st cnt = Some (st\<lparr>free_map := fm', bounces := tl (bounces st), fs_disk := d\<rparr>, None)"
        using fm(1) Some sr(2) d(1) f False fm'(1) by (simp add: free_map_allocate_def)
      then show ?thesis using failed[where fm = fm' and d = d] d(2)[OF fm'(2)] fm'(3) fm(3) abs nb by simp
    qed
  qed
qed

lemma bounces_update_Nil: "bounces st = [] \<Longrightarrow> st\<lparr>free_map := fm, bounces := tl (bounces st), fs_disk := d\<rparr> = st\<lparr>free_map := fm, fs_disk := d\<rparr>"
  by (cases st) simp

lemma free_map_allocate_cases:
  assumes "fm_ok st"
  obtains (full) fm where "free_map_allocate st cnt = Some (st\<lparr>free_map := fm\<rparr>, None)" "fm = free_map st"
      "\<And>i. \<not> bit_group (bitmap_abs (free_map st)) i (unat cnt) False"
  | (got) fm d sec where "free_map_allocate st cnt = Some (st\<lparr>free_map := fm, fs_disk := d\<rparr>, Some sec)"
      "fm_ok (st\<lparr>free_map := fm, fs_disk := d\<rparr>)" "fm_saved (st\<lparr>free_map := fm, fs_disk := d\<rparr>)" "bit_cnt fm = bit_cnt (free_map st)"
      "unat sec + unat cnt \<le> unat (bit_cnt (free_map st))" "{unat sec..<unat sec + unat cnt} \<inter> sectors_used st = {}"
      "sectors_used (st\<lparr>free_map := fm, fs_disk := d\<rparr>) = sectors_used st \<union> {unat sec..<unat sec + unat cnt}"
      "capacity d = capacity (fs_disk st)" "\<And>s. unat s \<notin> ino_sectors (fm_inode st) \<Longrightarrow> sectors d s = sectors (fs_disk st) s"
proof -
  have m: "fm_mem st" and b: "bounces st = []" using assms by (simp_all add: fm_ok_def)
  note eq = bounces_update_Nil[OF b]
  from m show ?thesis
  proof (cases rule: free_map_allocate_any[where cnt = cnt])
    case full
    then show ?thesis using that(1)[of "free_map st"] by simp
  next
    case (failed fm d)
    then show ?thesis using b by simp
  next
    case (got fm d sec)
    note g = got[unfolded eq]
    have "fm_ok (st\<lparr>free_map := fm, fs_disk := d\<rparr>)" using g(2) b by (simp add: fm_ok_def)
    then show ?thesis using that(2)[where fm = fm and d = d and sec = sec] g by blast
  qed
qed

lemma free_map_release_any:
  assumes "fm_mem st" and "unat sec + unat cnt \<le> unat (bit_cnt (free_map st))" and "{unat sec..<unat sec + unat cnt} \<subseteq> sectors_used st"
  obtains fm d where "free_map_release st sec cnt = Some (st\<lparr>free_map := fm, bounces := tl (bounces st), fs_disk := d\<rparr>)"
      "fm_mem (st\<lparr>free_map := fm, bounces := tl (bounces st), fs_disk := d\<rparr>)"
      "ino_bytes d (fm_inode st) = take (saved_len st) (bitmap_bytes fm) @ drop (saved_len st) (ino_bytes (fs_disk st) (fm_inode st))"
      "bit_cnt fm = bit_cnt (free_map st)" "length (bits fm) = length (bits (free_map st))"
      "sectors_used (st\<lparr>free_map := fm, bounces := tl (bounces st), fs_disk := d\<rparr>) = sectors_used st - {unat sec..<unat sec + unat cnt}"
      "capacity d = capacity (fs_disk st)" "\<And>s. unat s \<notin> ino_sectors (fm_inode st) \<Longrightarrow> sectors d s = sectors (fs_disk st) s"
proof -
  have wf: "bitmap_wf (free_map st)" using assms(1) by (simp add: fm_mem_def)
  obtain f where f: "free_map_file st = Some f" using assms(1) by (auto simp: fm_mem_def)
  have "bit_group (bitmap_abs (free_map st)) (unat sec) (unat cnt) True"
    unfolding bit_group_def using assms(2) subsetD[OF assms(3), of "unat sec + k" for k] by (simp add: sectors_used_def)
  then have all: "bitmap_all (free_map st) sec cnt = Some True" using bitmap_all_abs[OF wf assms(2)] by simp
  obtain fm where fm: "bitmap_set_multiple (free_map st) sec cnt False = Some fm" "bitmap_wf fm" "bit_cnt fm = bit_cnt (free_map st)"
    "bitmap_abs fm = set_range (bitmap_abs (free_map st)) (unat sec) (unat cnt) False"
    using bitmap_set_multiple_abs[OF wf assms(2)] by blast
  obtain d where d: "bitmap_write fm (st\<lparr>free_map := fm\<rparr>) f = Some (st\<lparr>free_map := fm, bounces := tl (bounces st), fs_disk := d\<rparr>, saved_len st = 4 * length (bits fm))"
    "\<And>fm' bb. bitmap_wf fm' \<Longrightarrow> bit_cnt fm' = bit_cnt (free_map st) \<Longrightarrow> fm_mem (st\<lparr>free_map := fm', bounces := bb, fs_disk := d\<rparr>)"
    "ino_bytes d (fm_inode st) = take (saved_len st) (bitmap_bytes fm) @ drop (saved_len st) (ino_bytes (fs_disk st) (fm_inode st))"
    "capacity d = capacity (fs_disk st)" "\<And>s. unat s \<notin> ino_sectors (fm_inode st) \<Longrightarrow> sectors d s = sectors (fs_disk st) s"
    "length (bits fm) = length (bits (free_map st))"
    by (rule fm_save_any[OF assms(1) fm(2,3) f]) blast
  have "free_map_release st sec cnt = Some (st\<lparr>free_map := fm, bounces := tl (bounces st), fs_disk := d\<rparr>)"
    using all fm(1) d(1) f by (simp add: free_map_release_def)
  moreover have "sectors_used (st\<lparr>free_map := fm, bounces := tl (bounces st), fs_disk := d\<rparr>) = sectors_used st - {unat sec..<unat sec + unat cnt}"
    using set_range_used(2)[of "unat sec" "unat cnt" "bitmap_abs (free_map st)"] assms(2) fm(3,4) by (simp add: sectors_used_def)
  ultimately show ?thesis using that[where fm = fm and d = d] d(2)[OF fm(2,3)] d(3-6) fm(3) by blast
qed

lemma saved_len_full: "bounce_ok st \<Longrightarrow> saved_len st = 4 * length (bits (free_map st))"
  by (simp add: saved_len_def)

lemma fm_saved_full:
  assumes "fm_mem st" and "bounce_ok st" and "length (bits fm) = length (bits (free_map st))"
    and "ino_bytes d (fm_inode st) = take (saved_len st) (bitmap_bytes fm) @ drop (saved_len st) (ino_bytes (fs_disk st) (fm_inode st))"
  shows "ino_bytes d (fm_inode st) = bitmap_bytes fm"
  using assms saved_len_full[OF assms(2)] by (simp add: fm_mem_def)

lemma free_map_release_eval:
  assumes "fm_ok st" and "unat sec + unat cnt \<le> unat (bit_cnt (free_map st))" and "{unat sec..<unat sec + unat cnt} \<subseteq> sectors_used st"
  obtains fm d where "free_map_release st sec cnt = Some (st\<lparr>free_map := fm, fs_disk := d\<rparr>)"
      "fm_ok (st\<lparr>free_map := fm, fs_disk := d\<rparr>)" "fm_saved (st\<lparr>free_map := fm, fs_disk := d\<rparr>)" "bit_cnt fm = bit_cnt (free_map st)"
      "sectors_used (st\<lparr>free_map := fm, fs_disk := d\<rparr>) = sectors_used st - {unat sec..<unat sec + unat cnt}"
      "capacity d = capacity (fs_disk st)" "\<And>s. unat s \<notin> ino_sectors (fm_inode st) \<Longrightarrow> sectors d s = sectors (fs_disk st) s"
proof -
  have m: "fm_mem st" and b: "bounces st = []" using assms(1) by (simp_all add: fm_ok_def)
  note eq = bounces_update_Nil[OF b]
  show ?thesis
  proof (rule free_map_release_any[OF m assms(2,3), unfolded eq])
    fix fm d
    assume r: "free_map_release st sec cnt = Some (st\<lparr>free_map := fm, fs_disk := d\<rparr>)" "fm_mem (st\<lparr>free_map := fm, fs_disk := d\<rparr>)"
      "ino_bytes d (fm_inode st) = take (saved_len st) (bitmap_bytes fm) @ drop (saved_len st) (ino_bytes (fs_disk st) (fm_inode st))"
      "bit_cnt fm = bit_cnt (free_map st)" "length (bits fm) = length (bits (free_map st))"
      "sectors_used (st\<lparr>free_map := fm, fs_disk := d\<rparr>) = sectors_used st - {unat sec..<unat sec + unat cnt}"
      "capacity d = capacity (fs_disk st)" "\<And>s. unat s \<notin> ino_sectors (fm_inode st) \<Longrightarrow> sectors d s = sectors (fs_disk st) s"
    have ok: "fm_ok (st\<lparr>free_map := fm, fs_disk := d\<rparr>)" using r(2) b by (simp add: fm_ok_def)
    have sv: "fm_saved (st\<lparr>free_map := fm, fs_disk := d\<rparr>)"
      using fm_saved_full[OF m _ r(5,3)] b by (simp add: fm_saved_def fm_inode_def)
    show thesis by (rule that[OF r(1) ok sv r(4,6,7,8)])
  qed
qed

text \<open>The free map is an allocator of ranges of sectors.\<close>

definition fm_inv :: "fs \<Rightarrow> bool" where
  "fm_inv st \<longleftrightarrow> fm_ok st \<and> fm_saved st"

definition sector_range :: "disk_sector_t \<Rightarrow> size_t \<Rightarrow> nat set" where
  "sector_range sec cnt = {unat sec..<unat sec + unat cnt}"

definition fm_range :: "fs \<Rightarrow> disk_sector_t \<Rightarrow> size_t \<Rightarrow> bool" where
  "fm_range st sec cnt \<longleftrightarrow> unat sec + unat cnt \<le> unat (bit_cnt (free_map st))"

text \<open>The laws hold whether or not the writes of the file succeed.\<close>

interpretation free_sectors: extent_allocator fm_mem sectors_used sector_range fm_range "\<lambda>_. True" free_map_allocate free_map_release
proof unfold_locales
  fix s s' :: fs and a b :: disk_sector_t and n k :: size_t and r
  { assume s: "fm_mem s"
    then have "(\<exists>s'. free_map_allocate s n = Some (s', None) \<and> fm_mem s' \<and> bit_cnt (free_map s') = bit_cnt (free_map s) \<and> sectors_used s' = sectors_used s) \<or>
      (\<exists>s' a. free_map_allocate s n = Some (s', Some a) \<and> fm_mem s' \<and> bit_cnt (free_map s') = bit_cnt (free_map s) \<and>
        sector_range a n \<inter> sectors_used s = {} \<and> sectors_used s' = sectors_used s \<union> sector_range a n \<and> fm_range s' a n)"
    proof (cases rule: free_map_allocate_any[where cnt = n])
      case full
      then show ?thesis using s by simp
    next
      case (failed fm d)
      then show ?thesis by (intro disjI1 exI[of _ "s\<lparr>free_map := fm, bounces := tl (bounces s), fs_disk := d\<rparr>"]) (simp add: sectors_used_def)
    next
      case (got fm d sec)
      then show ?thesis
        by (intro disjI2 exI[of _ "s\<lparr>free_map := fm, bounces := tl (bounces s), fs_disk := d\<rparr>"] exI[of _ sec]) (simp add: sector_range_def fm_range_def)
    qed }
  note alloc = this
  show "\<exists>s' r. free_map_allocate s n = Some (s', r)" if "fm_mem s" using alloc[OF that] by blast
  show "fm_mem s'" if "fm_mem s" "free_map_allocate s n = Some (s', r)" using alloc[OF that(1)] that by auto
  show "fm_range s' b k" if "fm_mem s" "free_map_allocate s n = Some (s', r)" "fm_range s b k"
    using alloc[OF that(1)] that by (auto simp: fm_range_def)
  show "sectors_used s' = sectors_used s" if "fm_mem s" "free_map_allocate s n = Some (s', None)"
    using alloc[OF that(1)] that by auto
  show "sector_range a n \<inter> sectors_used s = {} \<and> sectors_used s' = sectors_used s \<union> sector_range a n \<and> fm_range s' a n"
    if "fm_mem s" "free_map_allocate s n = Some (s', Some a)" using alloc[OF that(1)] that by auto
  { assume h: "fm_mem s" "fm_range s a n" "sector_range a n \<subseteq> sectors_used s"
    have "\<exists>s'. free_map_release s a n = Some s' \<and> fm_mem s' \<and> sectors_used s' = sectors_used s - sector_range a n \<and>
        bit_cnt (free_map s') = bit_cnt (free_map s)"
      by (rule free_map_release_any[OF h(1) h(2)[unfolded fm_range_def] h(3)[unfolded sector_range_def]]) (auto simp: sector_range_def) }
  note rel = this
  show "\<exists>s'. free_map_release s a n = Some s' \<and> fm_mem s' \<and> sectors_used s' = sectors_used s - sector_range a n"
    if "fm_mem s" "fm_range s a n" "sector_range a n \<subseteq> sectors_used s" using rel[OF that] by blast
  show "fm_range s' b k" if "fm_mem s" "fm_range s a n" "sector_range a n \<subseteq> sectors_used s" "free_map_release s a n = Some s'" "fm_range s b k"
    using rel[OF that(1-3)] that(4,5) by (auto simp: fm_range_def)
qed

text \<open>A release brings the saved part of the new free map to disk.\<close>

lemma free_map_release_file:
  assumes "fm_mem st" and "fm_range st a n" and "sector_range a n \<subseteq> sectors_used st"
  shows "\<exists>st'. free_map_release st a n = Some st' \<and> sectors_used st' = sectors_used st - sector_range a n \<and>
    ino_bytes (fs_disk st') (fm_inode st') = take (saved_len st) (bitmap_bytes (free_map st')) @ drop (saved_len st) (ino_bytes (fs_disk st) (fm_inode st)) \<and>
    (bounce_ok st \<longrightarrow> fm_saved st') \<and> bounces st' = tl (bounces st)"
proof (rule free_map_release_any[OF assms(1) assms(2)[unfolded fm_range_def] assms(3)[unfolded sector_range_def]])
  fix fm d
  let ?st' = "st\<lparr>free_map := fm, bounces := tl (bounces st), fs_disk := d\<rparr>"
  assume r: "free_map_release st a n = Some ?st'" "sectors_used ?st' = sectors_used st - {unat a..<unat a + unat n}" "length (bits fm) = length (bits (free_map st))"
    "ino_bytes d (fm_inode st) = take (saved_len st) (bitmap_bytes fm) @ drop (saved_len st) (ino_bytes (fs_disk st) (fm_inode st))"
  have i: "fm_inode ?st' = fm_inode st" by (simp add: fm_inode_def)
  have "bounce_ok st \<longrightarrow> fm_saved ?st'" using fm_saved_full[OF assms(1) _ r(3,4)] by (simp add: fm_saved_def i)
  then show ?thesis using r i by (intro exI[of _ ?st']) (simp add: sector_range_def)
qed

text \<open>An allocation that succeeds has saved the free map; one that finds no memory problem leaves it saved.\<close>

lemma free_map_allocate_file:
  assumes "fm_mem st" and "free_map_allocate st n = Some (st', r)"
  shows "(r \<noteq> None \<longrightarrow> fm_saved st') \<and> (bounces st = [] \<and> fm_saved st \<longrightarrow> fm_saved st' \<and> bounces st' = []) \<and>
    (r = None \<longrightarrow> bitmap_abs (free_map st') = bitmap_abs (free_map st))"
  using assms(1)
proof (cases rule: free_map_allocate_any[where cnt = n])
  case (got fm d sec)
  then show ?thesis using assms(2) by auto
qed (use assms(2) in auto)

lemma runs_saved:
  "alloc_runs free_map_allocate free_map_release (\<lambda>_. True) st0 st live \<Longrightarrow> fm_mem st0 \<Longrightarrow> bounces st0 = [] \<and> fm_saved st0 \<Longrightarrow>
   bounces st = [] \<and> fm_saved st"
proof (induction rule: alloc_runs.induct)
  case (got st live n st' a)
  then have "fm_mem st" using free_sectors.runs_live_ok by (auto simp: free_sectors.live_ok_def)
  then show ?case using free_map_allocate_file[of st n st' "Some a"] got by blast
next
  case (refused st live n st')
  then have "fm_mem st" using free_sectors.runs_live_ok by (auto simp: free_sectors.live_ok_def)
  then show ?case using free_map_allocate_file[of st n st' None] refused by blast
next
  case (freed st us a n vs st')
  then have l: "free_sectors.live_ok st0 st (us @ (a, n) # vs)" using free_sectors.runs_live_ok by blast
  then have "fm_mem st" "fm_range st a n" "sector_range a n \<subseteq> sectors_used st" by (auto simp: free_sectors.live_ok_def)
  then show ?case using free_map_release_file[of st a n] freed by auto
qed


definition example_fm_disk :: disk where
  "example_fm_disk = example_disk\<lparr>sectors := \<lambda>s. if s = 2 then 7 # replicate 511 0
     else if s = 0 then inode_disk_bytes \<lparr>start = 2, len = 16, magic = INODE_MAGIC\<rparr> else replicate 512 0\<rparr>"

definition example_fm_fs :: fs where
  "example_fm_fs = \<lparr>fs_disk = example_fm_disk, free_map = \<lparr>bit_cnt = 100, bits = [7, 0, 0, 0]\<rparr>, free_map_file = Some \<lparr>f_inode = 100, f_pos = 0, deny_write = False\<rparr>,
     inodes = \<lambda>_. (example_inode 2 16)\<lparr>sector := 0\<rparr>, open_inodes = [100], mallocs = [200, 300], bounces = []\<rparr>"

lemma example_fm_ino_sectors: "ino_sectors (fm_inode example_fm_fs) = {2}"
  by (auto simp: example_fm_fs_def fm_inode_def ino_sectors_def example_inode_def)

lemma example_fm_wf: "bitmap_wf (free_map example_fm_fs)"
  by (simp add: example_fm_fs_def bitmap_wf_def elem_cnt_def DIV_ROUND_UP_def)

lemma example_fm_inode_ok: "inode_ok (fs_disk example_fm_fs) (fm_inode example_fm_fs)"
  using example_fm_ino_sectors
  by (simp add: inode_ok_def disk_ok_def example_fm_fs_def example_fm_disk_def example_disk_def fm_inode_def example_inode_def)

lemma example_fm_saved: "fm_saved example_fm_fs"
proof -
  have "ino_byte example_fm_disk (fm_inode example_fm_fs) j = (7 # replicate 15 0) ! j" if "j < 16" for j
    using that by (cases j) (simp_all add: ino_byte_def example_fm_disk_def example_fm_fs_def fm_inode_def example_inode_def)
  then have "ino_bytes example_fm_disk (fm_inode example_fm_fs) = 7 # replicate 15 0"
    by (intro nth_equalityI) (simp_all add: ino_bytes_def example_fm_fs_def fm_inode_def example_inode_def)
  moreover have "bitmap_bytes \<lparr>bit_cnt = 100, bits = [7, 0, 0, 0]\<rparr> = 7 # replicate 15 0" by code_simp
  ultimately show ?thesis by (simp add: fm_saved_def example_fm_fs_def)
qed

lemma example_fm_inv: "fm_inv example_fm_fs"
  using example_fm_wf example_fm_inode_ok example_fm_saved
  by (simp add: fm_inv_def fm_ok_iff) (simp add: example_fm_fs_def fm_inode_def example_inode_def)

lemma example_fm_used: "sectors_used example_fm_fs = {0, 1, 2}"
proof -
  have "filter (\<lambda>k. bitmap_abs \<lparr>bit_cnt = 100, bits = [7, 0, 0, 0]\<rparr> ! k) [0..<100] = [0, 1, 2]" by code_simp
  then have "set (filter (\<lambda>k. bitmap_abs \<lparr>bit_cnt = 100, bits = [7, 0, 0, 0]\<rparr> ! k) [0..<100]) = set [0, 1, 2]" by (rule arg_cong)
  then show ?thesis by (simp add: sectors_used_def example_fm_fs_def)
qed


section \<open>Creating a file\<close>

lemma bytes_to_sectors_eval:
  assumes "0 \<le> n" and "n < 2 ^ 31 - 511"
  shows "unat (bytes_to_sectors n) = (nat n + 511) div 512"
proof -
  have "signed_take_bit 31 (n + 511) = n + 511" using assms by (intro signed_take_bit_int_eq_self) simp_all
  moreover have "n + 511 = int (nat n + 511)" using assms(1) by simp
  then have "(n + 511) div 512 = int ((nat n + 511) div 512)" by (simp add: zdiv_int)
  moreover have "\<not> n + 511 < 0" using assms(1) by simp
  ultimately have "bytes_to_sectors n = of_nat ((nat n + 511) div 512)" by (simp only: bytes_to_sectors_def Let_def if_False of_int_of_nat_eq)
  moreover have "(nat n + 511) div 512 < 2 ^ 32" using assms by simp
  ultimately show ?thesis by (simp add: unat_of_nat32)
qed

lemma zero_sectors_eval:
  "disk_ok d \<Longrightarrow> unat sec + n \<le> unat (capacity d) \<Longrightarrow> \<exists>d'. zero_sectors d sec n = Some d' \<and> capacity d' = capacity d \<and> disk_ok d' \<and>
     (\<forall>s. sectors d' s = (if unat sec \<le> unat s \<and> unat s < unat sec + n then replicate 512 0 else sectors d s))"
proof (induction n arbitrary: d sec)
  case (Suc n)
  then have sec: "sec < capacity d" by (simp add: word_less_nat_alt)
  note inc = unat_inc[OF sec]
  let ?d = "d\<lparr>sectors := (sectors d)(sec := replicate 512 0), write_cnt := write_cnt d + 1\<rparr>"
  have w: "write_sector d sec (replicate 512 0) = Some ?d" using Suc.prems(1) sec by (intro write_sector_eval) (simp_all add: disk_ok_def)
  have "disk_ok ?d" "unat (sec + 1) + n \<le> unat (capacity ?d)" using Suc.prems inc by (simp_all add: disk_ok_def)
  from Suc.IH[OF this] obtain d' where d': "zero_sectors ?d (sec + 1) n = Some d'" "capacity d' = capacity d" "disk_ok d'"
    "\<And>s. sectors d' s = (if unat (sec + 1) \<le> unat s \<and> unat s < unat (sec + 1) + n then replicate 512 0 else sectors ?d s)" by auto
  have "sectors d' s = (if unat sec \<le> unat s \<and> unat s < unat sec + Suc n then replicate 512 0 else sectors d s)" for s
  proof (cases "s = sec")
    case True
    then show ?thesis using d'(4)[of s] inc by simp
  next
    case False
    then have "unat s \<noteq> unat sec" by (simp add: word_unat_eq_iff)
    then show ?thesis using d'(4)[of s] inc False by auto
  qed
  then show ?case using w d' by simp
qed auto

text \<open>An inode as it is on disk, and as it is in memory when it has just been opened.\<close>

definition fresh_inode :: "disk_sector_t \<Rightarrow> inode_disk \<Rightarrow> inode" where
  "fresh_inode sec i = \<lparr>sector = sec, open_cnt = 1, removed = False, deny_write_cnt = 0, data = i\<rparr>"

lemma fresh_inode_simps [simp]:
  "data (fresh_inode sec i) = i" "sector (fresh_inode sec i) = sec" "open_cnt (fresh_inode sec i) = 1"
  "\<not> removed (fresh_inode sec i)" "deny_write_cnt (fresh_inode sec i) = 0"
  by (simp_all add: fresh_inode_def)

lemma zero_file:
  assumes "inode_ok d i" and "\<And>s. unat s \<in> ino_sectors i \<Longrightarrow> sectors d s = replicate 512 0"
  shows "ino_bytes d i = replicate (nat (len (data i))) 0"
proof (rule nth_equalityI)
  fix j assume "j < length (ino_bytes d i)"
  then have j: "j < nat (len (data i))" by simp
  note s = inode_ok_sector[OF assms(1) j]
  have "sectors d (start (data i) + of_nat (j div 512)) = replicate 512 0" using assms(2) s(1,3) by simp
  then show "ino_bytes d i ! j = replicate (nat (len (data i))) 0 ! j" using j by (simp add: ino_bytes_def ino_byte_def)
qed simp

text \<open>The part of \<open>inode_create\<close> that writes: the inode and the zeros.\<close>

lemma create_writes:
  assumes "disk_ok d" and "sec < capacity d" and "unat (start i) + k \<le> unat (capacity d)" and "k = (nat (len i) + 511) div 512"
    and "unat sec \<notin> ino_sectors (fresh_inode sec i)" and "0 \<le> len i"
  obtains d1 d2 where "write_sector d sec (inode_disk_bytes i) = Some d1" "zero_sectors d1 (start i) k = Some d2" "k = 0 \<longrightarrow> d2 = d1"
    "capacity d2 = capacity d" "disk_ok d2" "sectors d2 sec = inode_disk_bytes i" "ino_bytes d2 (fresh_inode sec i) = replicate (nat (len i)) 0"
    "\<And>s. unat s \<notin> {unat sec} \<union> ino_sectors (fresh_inode sec i) \<Longrightarrow> sectors d2 s = sectors d s"
proof -
  let ?d1 = "d\<lparr>sectors := (sectors d)(sec := inode_disk_bytes i), write_cnt := write_cnt d + 1\<rparr>"
  have w: "write_sector d sec (inode_disk_bytes i) = Some ?d1" using assms(1,2) by (intro write_sector_eval) (simp_all add: disk_ok_def)
  have d1: "disk_ok ?d1" "unat (start i) + k \<le> unat (capacity ?d1)" using assms(1,3) by (simp_all add: disk_ok_def)
  obtain d2 where d2: "zero_sectors ?d1 (start i) k = Some d2" "capacity d2 = capacity d" "disk_ok d2"
    "\<And>s. sectors d2 s = (if unat (start i) \<le> unat s \<and> unat s < unat (start i) + k then replicate 512 0 else sectors ?d1 s)"
    using zero_sectors_eval[OF d1] by auto
  have secs: "ino_sectors (fresh_inode sec i) = {unat (start i)..<unat (start i) + k}" by (simp add: ino_sectors_def assms(4))
  then have "\<not> (unat (start i) \<le> unat sec \<and> unat sec < unat (start i) + k)" using assms(5) by auto
  from d2(4)[of sec, unfolded if_not_P[OF this]] have s2: "sectors d2 sec = inode_disk_bytes i" by simp
  have "inode_ok d2 (fresh_inode sec i)" using d2(2,3) assms(3,6) secs by (auto simp: inode_ok_def)
  then have "ino_bytes d2 (fresh_inode sec i) = replicate (nat (len i)) 0"
    using zero_file[of d2 "fresh_inode sec i"] d2(4) secs by simp
  moreover have "sectors d2 s = sectors d s" if "unat s \<notin> {unat sec} \<union> ino_sectors (fresh_inode sec i)" for s
    using that d2(4)[of s] secs by (auto simp: word_unat_eq_iff)
  moreover have "k = 0 \<longrightarrow> d2 = ?d1" using d2(1) by auto
  ultimately show ?thesis using that[OF w d2(1) _ d2(2,3) s2] by blast
qed

lemma inode_create_cases:
  assumes "fm_inv st" and cap: "bit_cnt (free_map st) = capacity (fs_disk st)" and sec: "unat sec \<in> sectors_used st - ino_sectors (fm_inode st)"
    and fmi: "ino_sectors (fm_inode st) \<subseteq> sectors_used st" and m: "mallocs st = p # ps" and n: "0 \<le> n" "n < 2 ^ 31 - 511"
  obtains (failed) "inode_create st sec n = Some (st\<lparr>mallocs := ps\<rparr>, False)"
      "p = NULL \<or> (\<forall>i. \<not> bit_group (bitmap_abs (free_map st)) i ((nat n + 511) div 512) False)"
    | (created) fm d i where "inode_create st sec n = Some (st\<lparr>mallocs := ps, free_map := fm, fs_disk := d\<rparr>, True)" "p \<noteq> NULL"
      "len i = n" "sectors d sec = inode_disk_bytes i" "inode_disk_of (inode_disk_bytes i) = i" "ino_bytes d (fresh_inode sec i) = replicate (nat n) 0"
      "ino_sectors (fresh_inode sec i) \<inter> sectors_used st = {}" "capacity d = capacity (fs_disk st)" "bit_cnt fm = bit_cnt (free_map st)"
      "sectors_used (st\<lparr>mallocs := ps, free_map := fm, fs_disk := d\<rparr>) = sectors_used st \<union> ino_sectors (fresh_inode sec i)"
      "fm_inv (st\<lparr>mallocs := ps, free_map := fm, fs_disk := d\<rparr>)" "ino_sectors (fresh_inode sec i) \<subseteq> {0..<unat (capacity d)}"
      "\<And>s. unat s \<notin> {unat sec} \<union> ino_sectors (fresh_inode sec i) \<union> ino_sectors (fm_inode st) \<Longrightarrow> sectors d s = sectors (fs_disk st) s"
      "unat (start i) \<le> unat (capacity d)"
proof (cases "p = NULL")
  case True
  then show ?thesis using failed m n(1) by (simp add: inode_create_def fs_malloc_def)
next
  case p: False
  let ?st = "st\<lparr>mallocs := ps\<rparr>"
  have mal: "fs_malloc st = (p, ?st)" using m by (simp add: fs_malloc_def)
  have fmi_eq: "fm_inode ?st = fm_inode st" by (simp add: fm_inode_def)
  have ok: "fm_ok ?st" using assms(1) by (simp add: fm_inv_def fm_ok_iff fm_inode_def)
  have used: "sectors_used ?st = sectors_used st" by (simp add: sectors_used_def)
  note k = bytes_to_sectors_eval[OF n]
  let ?k = "(nat n + 511) div 512"
  from ok show ?thesis
  proof (cases rule: free_map_allocate_cases[where cnt = "bytes_to_sectors n"])
    case (full fm)
    then show ?thesis using failed mal n(1) p k by (simp add: inode_create_def)
  next
    case (got fm d first)
    let ?i = "\<lparr>start = first, len = n, magic = INODE_MAGIC\<rparr>"
    let ?ino = "fresh_inode sec ?i"
    have secs: "ino_sectors ?ino = {unat first..<unat first + ?k}" by (simp add: ino_sectors_def)
    have dok: "disk_ok d" using got(2) by (simp add: fm_ok_iff inode_ok_def)
    have "unat sec < unat (capacity d)" using sec cap got(8) by (simp add: sectors_used_def)
    then have secd: "sec < capacity d" by (simp add: word_less_nat_alt)
    have bnd: "unat first + ?k \<le> unat (capacity d)" using got(5,8) cap k by simp
    have notin: "unat sec \<notin> ino_sectors ?ino" using got(6) sec used k secs by auto
    obtain d1 d2 where w: "write_sector d sec (inode_disk_bytes ?i) = Some d1" "zero_sectors d1 first ?k = Some d2" "?k = 0 \<longrightarrow> d2 = d1"
      and d2: "capacity d2 = capacity d" "disk_ok d2" "sectors d2 sec = inode_disk_bytes ?i" "ino_bytes d2 ?ino = replicate (nat n) 0"
      and dd: "\<And>s. unat s \<notin> {unat sec} \<union> ino_sectors ?ino \<Longrightarrow> sectors d2 s = sectors d s"
      by (rule create_writes[OF dok secd, of ?i ?k]) (use bnd notin n(1) in simp_all)
    let ?st' = "st\<lparr>mallocs := ps, free_map := fm, fs_disk := d2\<rparr>"
    have c: "inode_create st sec n = Some (?st', True)"
      using mal n(1) p got(1) w k by (cases "bytes_to_sectors n = 0") (simp_all add: inode_create_def word_neq_0_conv)
    have fm_out: "ino_sectors (fm_inode st) \<inter> ({unat sec} \<union> ino_sectors ?ino) = {}" using got(6) sec fmi used secs k by auto
    have fmd: "inode_ok d (fm_inode st)" "ino_bytes d (fm_inode st) = bitmap_bytes fm"
      using got(2,3) by (simp_all add: fm_ok_iff fm_saved_def fm_inode_def)
    have "ino_bytes d2 (fm_inode st) = ino_bytes d (fm_inode st)"
      by (rule ino_bytes_cong[OF fmd(1)]) (use dd fm_out in blast)
    moreover have "inode_ok d2 (fm_inode st)" using fmd(1) d2(1,2) by (simp add: inode_ok_def)
    ultimately have inv: "fm_inv ?st'" using got(2) fmd by (simp add: fm_inv_def fm_ok_iff fm_saved_def fm_inode_def)
    have dd': "sectors d2 s = sectors (fs_disk st) s" if "unat s \<notin> {unat sec} \<union> ino_sectors ?ino \<union> ino_sectors (fm_inode st)" for s
      using that dd got(9)[of s] fmi_eq by simp
    have rt: "inode_disk_of (inode_disk_bytes ?i) = ?i" using n by (intro inode_disk_roundtrip) simp_all
    have u: "sectors_used ?st' = sectors_used st \<union> ino_sectors ?ino" "ino_sectors ?ino \<inter> sectors_used st = {}"
      using got(6,7) used secs k by (simp_all add: sectors_used_def)
    have cap': "capacity d2 = capacity (fs_disk st)" "bit_cnt fm = bit_cnt (free_map st)" "ino_sectors ?ino \<subseteq> {0..<unat (capacity d2)}"
      using d2(1) got(4,8) bnd secs by auto
    show ?thesis
      by (rule created[OF c p _ d2(3) rt d2(4) u(2) cap'(1,2) u(1) inv cap'(3) dd']) (use bnd d2(1) in simp_all)
  qed
qed

text \<open>
  C22. A new file has the right length and is all zeros, on sectors that were free. With the free map up to date and no bounce buffer refused,
  \<open>inode_create\<close> of \<open>n\<close> bytes either fails, when there is no memory or no run of free sectors, and leaves disk and free map alone,
  or it succeeds: opening the sector then gives an inode of length \<open>n\<close> whose bytes are all zero, whose sectors were free before and
  are marked now; the free map on disk is up to date, and no sector is written other than the inode's own, those of its
  data and those of the free map.
\<close>

theorem inode_create_fresh:
  assumes "fm_inv st" and "bit_cnt (free_map st) = capacity (fs_disk st)" and "unat sec \<in> sectors_used st - ino_sectors (fm_inode st)"
    and "ino_sectors (fm_inode st) \<subseteq> sectors_used st" and "mallocs st = p # q # qs" and "q \<noteq> NULL"
    and "sec \<notin> (\<lambda>r. sector (inodes st r)) ` set (open_inodes st)" and "0 \<le> n" and "n < 2 ^ 31 - 511"
  shows "(\<exists>st'. inode_create st sec n = Some (st', False) \<and> fs_disk st' = fs_disk st \<and> free_map st' = free_map st \<and>
            (p = NULL \<or> (\<forall>i. \<not> bit_group (bitmap_abs (free_map st)) i ((nat n + 511) div 512) False))) \<or>
    (\<exists>st' st'' i. inode_create st sec n = Some (st', True) \<and> inode_open st' sec = Some (st'', q) \<and> i = inodes st'' q \<and>
            inode_length i = n \<and> ino_bytes (fs_disk st') i = replicate (nat n) 0 \<and> ino_sectors i \<inter> sectors_used st = {} \<and>
            sectors_used st' = sectors_used st \<union> ino_sectors i \<and> fm_inv st' \<and>
            (\<forall>s. unat s \<notin> {unat sec} \<union> ino_sectors i \<union> ino_sectors (fm_inode st) \<longrightarrow> sectors (fs_disk st') s = sectors (fs_disk st) s))"
  using assms(1-5,8,9)
proof (cases rule: inode_create_cases)
  case failed
  then show ?thesis by auto
next
  case (created fm d i)
  let ?st' = "st\<lparr>mallocs := q # qs, free_map := fm, fs_disk := d\<rparr>"
  have "unat sec < unat (capacity d)" using assms(2,3) created(8) by (simp add: sectors_used_def)
  moreover have "disk_ok d" using created(11) by (simp add: fm_inv_def fm_ok_iff inode_ok_def)
  ultimately have "read_sector d sec = Some (d\<lparr>read_cnt := read_cnt d + 1\<rparr>, inode_disk_bytes i)"
    using created(4) by (subst read_sector_eval) (simp_all add: disk_ok_def word_less_nat_alt)
  moreover have "find (\<lambda>p. sector (inodes ?st' p) = sec) (open_inodes ?st') = None" using assms(7) by (auto simp: find_None_iff)
  ultimately obtain st'' where "inode_open ?st' sec = Some (st'', q)" "inodes st'' q = fresh_inode sec i"
    using assms(6) created(5) by (simp add: inode_open_def fs_malloc_def fresh_inode_def)
  then show ?thesis using created by (intro disjI2 exI[of _ ?st'] exI[of _ st''] exI[of _ "fresh_inode sec i"]) (simp add: inode_length_def)
qed

theorem inode_create_fresh_witness:
  "\<exists>st' st''. inode_create example_fm_fs 1 1000 = Some (st', True) \<and> inode_open st' 1 = Some (st'', 300) \<and> inode_length (inodes st'' 300) = 1000"
proof -
  have g: "bit_group (bitmap_abs (free_map example_fm_fs)) 5 ((nat 1000 + 511) div 512) False"
    unfolding example_fm_fs_def fs.simps by code_simp
  have "bit_cnt (free_map example_fm_fs) = capacity (fs_disk example_fm_fs)" "mallocs example_fm_fs = [200, 300]"
    by (simp_all add: example_fm_fs_def example_fm_disk_def example_disk_def)
  moreover have "unat (1 :: 32 word) \<in> sectors_used example_fm_fs - ino_sectors (fm_inode example_fm_fs)"
    "ino_sectors (fm_inode example_fm_fs) \<subseteq> sectors_used example_fm_fs"
    by (simp_all add: example_fm_used example_fm_ino_sectors)
  moreover have "1 \<notin> (\<lambda>r. sector (inodes example_fm_fs r)) ` set (open_inodes example_fm_fs)" by (simp add: example_fm_fs_def)
  ultimately show ?thesis using inode_create_fresh[OF example_fm_inv, of 1 200 300 "[]" 1000] g by auto
qed

section \<open>Reading the free map back\<close>

lemma drop_bitmap_bytes: "i < length ws \<Longrightarrow> drop (4 * i) (concat (map bytes_of_word ws)) = bytes_of_word (ws ! i) @ concat (map bytes_of_word (drop (Suc i) ws))"
proof (induction ws arbitrary: i)
  case (Cons w ws)
  then show ?case by (cases i) simp_all
qed simp

lemma words_of_bitmap_bytes: "words_of_bytes (bitmap_bytes b) = bits b"
proof (rule nth_equalityI)
  fix i assume "i < length (words_of_bytes (bitmap_bytes b))"
  then have i: "i < length (bits b)" by (simp add: words_of_bytes_def)
  then have "words_of_bytes (bitmap_bytes b) ! i = word_of_bytes (drop (4 * i) (bitmap_bytes b))" by (simp add: words_of_bytes_def)
  also have "\<dots> = bits b ! i" unfolding bitmap_bytes_def drop_bitmap_bytes[OF i] by simp
  finally show "words_of_bytes (bitmap_bytes b) ! i = bits b ! i" .
qed (simp add: words_of_bytes_def)

text \<open>
  C26. The free map survives a restart. Take any state in which the free map on disk is up to date, and restart with the disk
  as it is, nothing open, memory for an inode, a file and the bounce buffers, and a bitmap of the right size with arbitrary contents:
  \<open>free_map_open\<close> succeeds, exactly the sectors that were in use are in use again, and the free map can be used and saved as before.
\<close>

theorem free_map_reboot:
  assumes "fm_mem st0 \<and> fm_saved st0" and "sectors (fs_disk st0) FREE_MAP_SECTOR = inode_disk_bytes (data (fm_inode st0))" and "capacity (fs_disk st0) > 0"
    and "fs_disk st = fs_disk st0" and "open_inodes st = []" and "mallocs st = p # q # qs" and "p \<noteq> NULL" and "q \<noteq> NULL" and "bounces st = []"
    and "bitmap_wf (free_map st)" and "bit_cnt (free_map st) = bit_cnt (free_map st0)"
  shows "\<exists>st'. free_map_open st = Some st' \<and> sectors_used st' = sectors_used st0 \<and> fm_ok st'"
proof -
  let ?i = "\<lparr>sector = FREE_MAP_SECTOR, open_cnt = 1, removed = False, deny_write_cnt = 0, data = data (fm_inode st0)\<rparr>"
    and ?d = "(fs_disk st0)\<lparr>read_cnt := read_cnt (fs_disk st0) + 1\<rparr>" and ?n = "length (bits (free_map st0))" and ?c = "bit_cnt (free_map st0)"
  have ok: "inode_ok (fs_disk st0) (fm_inode st0)" "?c \<le> 0x10000000" "bitmap_wf (free_map st0)" "len (data (fm_inode st0)) = 4 * int ?n"
    using assms(1) by (simp_all add: fm_mem_def)
  have eq: "length (bits (free_map st)) = ?n" using assms(10,11) ok(3) by (simp add: bitmap_wf_def)
  note sz = byte_cnt_eval[OF ok(3,2)]
  have "inode_disk_of (inode_disk_bytes (data (fm_inode st0))) = data (fm_inode st0)"
    using ok(4) sz sint_lt[of "byte_cnt ?c"] by (intro inode_disk_roundtrip) simp_all
  moreover have "read_sector (fs_disk st0) FREE_MAP_SECTOR = Some (?d, inode_disk_bytes (data (fm_inode st0)))"
    using ok(1) assms(2,3) by (subst read_sector_eval) (simp_all add: inode_ok_def disk_ok_def)
  ultimately obtain st1 where st1: "inode_open st FREE_MAP_SECTOR = Some (st1, p)" "inodes st1 p = ?i" "fs_disk st1 = ?d" "mallocs st1 = q # qs"
    "bounces st1 = []" "free_map st1 = free_map st"
    using assms(4-9) by (simp add: inode_open_def fs_malloc_def)
  let ?f = "\<lparr>f_inode = p, f_pos = 0, deny_write = False\<rparr>"
  let ?st2 = "st1\<lparr>mallocs := qs, free_map_file := Some ?f\<rparr>"
  have "ino_byte ?d ?i = ino_byte (fs_disk st0) (fm_inode st0)" by (rule ext) (simp add: ino_byte_def)
  then have i: "inode_ok ?d ?i" "ino_bytes ?d ?i = bitmap_bytes (free_map st0)"
    using ok(1) assms(1) by (simp_all add: fm_saved_def inode_ok_def disk_ok_def ino_sectors_def ino_bytes_def)
  obtain k c where "inode_read_at ?d True ?i (sint (byte_cnt ?c)) 0 = Some (?d\<lparr>read_cnt := c\<rparr>, take k (drop (nat 0) (ino_bytes ?d ?i)))"
    and "k = xfer ?i (sint (byte_cnt ?c)) 0"
    by (rule inode_read_at_eval[OF i(1), of 0 True "sint (byte_cnt ?c)"]) simp_all
  moreover have "xfer ?i (sint (byte_cnt ?c)) 0 = 4 * ?n" using sz(1) ok(4) by (simp add: xfer_def nat_mult_distrib)
  ultimately have r: "file_read_at ?st2 ?f (sint (byte_cnt ?c)) 0 = Some (?st2\<lparr>fs_disk := ?d\<lparr>read_cnt := c\<rparr>\<rparr>, bitmap_bytes (free_map st0))"
    using st1 i(2) by (simp add: file_read_at_def)
  obtain fm where fm: "bitmap_read (free_map st) (bits (free_map st0), byte_cnt ?c) = Some (fm, True)" "bitmap_wf fm" "bit_cnt fm = ?c"
    "bitmap_abs fm = bitmap_abs ((free_map st)\<lparr>bits := bits (free_map st0)\<rparr>)"
    using bitmap_read_abs[OF assms(10), of "bits (free_map st0)" "byte_cnt ?c"] eq assms(11) by (auto simp: bitmap_file_size_def)
  have abs: "bitmap_abs fm = bitmap_abs (free_map st0)" using fm(4) assms(11) by (simp add: bitmap_abs_def bm_bit_def)
  have "of_nat (4 * ?n) = byte_cnt ?c" using sz(2) by (metis of_nat_unat ucast_id)
  then have "\<exists>d'. free_map_open st = Some (?st2\<lparr>fs_disk := d', free_map := fm\<rparr>) \<and> (d' = ?d \<or> d' = ?d\<lparr>read_cnt := c\<rparr>)"
  proof (cases "?c = 0")
    case True
    then have "bitmap_read (free_map st) x = Some (free_map st, True)" for x using assms(11) by (simp add: bitmap_read_def)
    then show ?thesis using fm(1) st1 assms(7,8,11) True
      by (intro exI[of _ ?d]) (simp add: free_map_open_def file_open_def fs_malloc_def)
  next
    case False
    then show ?thesis using fm(1) st1 r assms(7,8,11) eq \<open>of_nat (4 * ?n) = byte_cnt ?c\<close>
      by (intro exI[of _ "?d\<lparr>read_cnt := c\<rparr>"]) (simp add: free_map_open_def file_open_def fs_malloc_def words_of_bitmap_bytes word_neq_0_conv)
  qed
  then obtain d' where d': "free_map_open st = Some (?st2\<lparr>fs_disk := d', free_map := fm\<rparr>)" "d' = ?d \<or> d' = ?d\<lparr>read_cnt := c\<rparr>" by blast
  moreover have "inode_ok d' ?i" using i(1) d'(2) by (auto simp: inode_ok_def disk_ok_def)
  moreover have "length (bits fm) = ?n" using fm(2,3) ok(3) by (simp add: bitmap_wf_def)
  ultimately show ?thesis using abs fm(2,3) ok st1 by (auto simp: fm_ok_iff fm_inode_def sectors_used_def)
qed

theorem free_map_reboot_witness:
  "\<exists>st'. free_map_open (example_fm_fs\<lparr>free_map := \<lparr>bit_cnt = 100, bits = [0, 1, 2, 3]\<rparr>, open_inodes := []\<rparr>) = Some st' \<and> sectors_used st' = {0, 1, 2}"
proof -
  have 1: "sectors (fs_disk example_fm_fs) FREE_MAP_SECTOR = inode_disk_bytes (data (fm_inode example_fm_fs))" "capacity (fs_disk example_fm_fs) > 0"
    by (simp_all add: example_fm_fs_def example_fm_disk_def example_disk_def fm_inode_def example_inode_def)
  have 2: "bitmap_wf \<lparr>bit_cnt = 100, bits = [0, 1, 2, 3]\<rparr>" by (simp add: bitmap_wf_def elem_cnt_def DIV_ROUND_UP_def)
  show ?thesis
    using free_map_reboot[OF _ 1, of "example_fm_fs\<lparr>free_map := \<lparr>bit_cnt = 100, bits = [0, 1, 2, 3]\<rparr>, open_inodes := []\<rparr>" 200 300 "[]"] 2
      example_fm_used example_fm_inv[unfolded fm_inv_def fm_ok_def] by (auto simp: example_fm_fs_def)
qed

end
