(* ===== verification/Directory.thy ===== *)
theory Directory
  imports Files
begin

text \<open>
  Directories: \<open>src/filesys/directory.c\<close>. A \<open>struct dir\<close> is a
  value; a \<open>struct dir_entry\<close> is its 20 bytes: the inode sector, the name of 15 bytes and the flag. Names are the bytes of a C
  string without the terminator; comparing a name with a stored one stops at the terminator, which
  for stored names lies within the 15 bytes. The entry that the functions declare as a local variable has
  its initial contents as an argument.

  The abstraction is the map from names to sectors; adding, searching and listing are shown to be the operations of that map.
\<close>

section \<open>The code\<close>

text \<open>A directory, and the bytes of a directory entry: sector, name and flag.\<close>

record dir =
  d_inode :: ptr
  d_pos :: off_t

abbreviation (input) NAME_MAX :: nat where "NAME_MAX \<equiv> 14"

type_synonym dir_entry = "uint8 list"

definition inode_sector :: "dir_entry \<Rightarrow> disk_sector_t" where
  "inode_sector e = word_of_bytes e"

definition e_name :: "dir_entry \<Rightarrow> uint8 list" where
  "e_name e = take (NAME_MAX + 1) (drop 4 e)"

definition in_use :: "dir_entry \<Rightarrow> bool" where
  "in_use e \<longleftrightarrow> e ! 19 \<noteq> 0"

text \<open>\<open>!strcmp (name, e.name)\<close>, and assigning the three fields, the name with \<open>strlcpy\<close>.\<close>

definition name_is :: "uint8 list \<Rightarrow> dir_entry \<Rightarrow> bool" where
  "name_is name e \<longleftrightarrow> take (length name + 1) (e_name e) = name @ [0]"

definition set_in_use :: "bool \<Rightarrow> dir_entry \<Rightarrow> dir_entry" where
  "set_in_use v e = e[19 := (if v then 1 else 0)]"

definition set_name :: "uint8 list \<Rightarrow> dir_entry \<Rightarrow> dir_entry" where
  "set_name name e = (let s = take NAME_MAX name @ [0] in take 4 e @ s @ drop (4 + length s) e)"

definition set_sector :: "disk_sector_t \<Rightarrow> dir_entry \<Rightarrow> dir_entry" where
  "set_sector sec e = bytes_of_word sec @ drop 4 e"

definition dir_create :: "fs \<Rightarrow> disk_sector_t \<Rightarrow> size_t \<Rightarrow> (fs \<times> bool) option" where
  "dir_create st sec entry_cnt = inode_create st sec (sint (entry_cnt * 20))"

definition dir_open :: "fs \<Rightarrow> ptr \<Rightarrow> (fs \<times> dir option) option" where
  "dir_open st inode = do {
     let (dir, st) = fs_malloc st;
     if inode \<noteq> NULL \<and> dir \<noteq> NULL then Some (st, Some \<lparr>d_inode = inode, d_pos = 0\<rparr>)
     else do { st \<leftarrow> inode_close st inode; Some (st, None) }
   }"

definition dir_open_root :: "fs \<Rightarrow> (fs \<times> dir option) option" where
  "dir_open_root st = do { (st, inode) \<leftarrow> inode_open st ROOT_DIR_SECTOR; dir_open st inode }"

definition dir_reopen :: "fs \<Rightarrow> dir \<Rightarrow> (fs \<times> dir option) option" where
  "dir_reopen st dir = (let (st, inode) = inode_reopen st (d_inode dir) in dir_open st inode)"

definition dir_close :: "fs \<Rightarrow> dir option \<Rightarrow> fs option" where
  "dir_close st dir = (case dir of None \<Rightarrow> Some st | Some d \<Rightarrow> inode_close st (d_inode d))"

definition dir_get_inode :: "dir \<Rightarrow> ptr" where
  "dir_get_inode dir = d_inode dir"

text \<open>
  \<open>inode_read_at (dir->inode, &e, sizeof e, ofs)\<close>: the state, the entry and the number of bytes read. A short read changes only the beginning of the entry.
\<close>

definition read_entry :: "fs \<Rightarrow> dir \<Rightarrow> dir_entry \<Rightarrow> off_t \<Rightarrow> (fs \<times> dir_entry \<times> nat) option" where
  "read_entry st dir e ofs = do {
     (d, bs) \<leftarrow> inode_read_at (fs_disk st) (bounce_ok st) (inodes st (d_inode dir)) 20 ofs;
     Some ((spend st)\<lparr>fs_disk := d\<rparr>, bs @ drop (length bs) e, length bs)
   }"

definition write_entry :: "fs \<Rightarrow> dir \<Rightarrow> dir_entry \<Rightarrow> off_t \<Rightarrow> (fs \<times> off_t) option" where
  "write_entry st dir e ofs = do {
     (d, n) \<leftarrow> inode_write_at (fs_disk st) (bounce_ok st) (inodes st (d_inode dir)) e 20 ofs;
     Some ((spend st)\<lparr>fs_disk := d\<rparr>, n)
   }"

partial_function (option) lookup_loop :: "fs \<Rightarrow> dir \<Rightarrow> uint8 list \<Rightarrow> dir_entry \<Rightarrow> off_t \<Rightarrow> (fs \<times> (dir_entry \<times> off_t) option) option" where
  "lookup_loop st dir name e ofs = do {
     (st, e, n) \<leftarrow> read_entry st dir e ofs;
     if n = 20 then (if in_use e \<and> name_is name e then Some (st, Some (e, ofs)) else lookup_loop st dir name e (ofs + 20))
     else Some (st, None)
   }"

text \<open>The entry \<open>e\<close> is a local variable; \<open>e0\<close> is its initial contents.\<close>

definition lookup :: "fs \<Rightarrow> dir \<Rightarrow> uint8 list \<Rightarrow> dir_entry \<Rightarrow> (fs \<times> (dir_entry \<times> off_t) option) option" where
  "lookup st dir name e0 = lookup_loop st dir name e0 0"

definition dir_lookup :: "fs \<Rightarrow> dir \<Rightarrow> uint8 list \<Rightarrow> dir_entry \<Rightarrow> (fs \<times> ptr) option" where
  "dir_lookup st dir name e0 = do {
     (st, r) \<leftarrow> lookup st dir name e0;
     case r of Some (e, _) \<Rightarrow> inode_open st (inode_sector e) | None \<Rightarrow> Some (st, NULL)
   }"

partial_function (option) free_slot_loop :: "fs \<Rightarrow> dir \<Rightarrow> dir_entry \<Rightarrow> off_t \<Rightarrow> (fs \<times> dir_entry \<times> off_t) option" where
  "free_slot_loop st dir e ofs = do {
     (st, e, n) \<leftarrow> read_entry st dir e ofs;
     if n = 20 then (if \<not> in_use e then Some (st, e, ofs) else free_slot_loop st dir e (ofs + 20))
     else Some (st, e, ofs)
   }"

definition dir_add :: "fs \<Rightarrow> dir \<Rightarrow> uint8 list \<Rightarrow> disk_sector_t \<Rightarrow> dir_entry \<Rightarrow> (fs \<times> bool) option" where
  "dir_add st dir name sec e0 =
     (if name = [] \<or> length name > NAME_MAX then Some (st, False)
      else do {
        (st, r) \<leftarrow> lookup st dir name e0;
        if r \<noteq> None then Some (st, False)
        else do {
          (st, e, ofs) \<leftarrow> free_slot_loop st dir e0 0;
          let e = set_sector sec (set_name name (set_in_use True e));
          (st, n) \<leftarrow> write_entry st dir e ofs;
          Some (st, n = 20)
        }
      })"

definition dir_remove :: "fs \<Rightarrow> dir \<Rightarrow> uint8 list \<Rightarrow> dir_entry \<Rightarrow> (fs \<times> bool) option" where
  "dir_remove st dir name e0 = do {
     (st, r) \<leftarrow> lookup st dir name e0;
     case r of
       None \<Rightarrow> Some (st, False)
     | Some (e, ofs) \<Rightarrow> do {
         (st, inode) \<leftarrow> inode_open st (inode_sector e);
         if inode = NULL then Some (st, False)
         else do {
           (st, n) \<leftarrow> write_entry st dir (set_in_use False e) ofs;
           if n \<noteq> 20 then do { st \<leftarrow> inode_close st inode; Some (st, False) }
           else do {
             st \<leftarrow> inode_remove st inode;
             st \<leftarrow> inode_close st inode;
             Some (st, True)
           }
         }
       }
   }"

partial_function (option) dir_readdir :: "fs \<Rightarrow> dir \<Rightarrow> dir_entry \<Rightarrow> (fs \<times> dir \<times> uint8 list option) option" where
  "dir_readdir st dir e = do {
     (st, e, n) \<leftarrow> read_entry st dir e (d_pos dir);
     if n = 20 then
       let dir = dir\<lparr>d_pos := d_pos dir + 20\<rparr>
       in if in_use e then Some (st, dir, Some (take NAME_MAX (takeWhile (\<lambda>c. c \<noteq> 0) (e_name e)))) else dir_readdir st dir e
     else Some (st, dir, None)
   }"

declare lookup_loop.simps [code] free_slot_loop.simps [code] dir_readdir.simps [code]

section \<open>A directory as a list of entries\<close>

definition entries :: "disk \<Rightarrow> inode \<Rightarrow> dir_entry list" where
  "entries d i = map (\<lambda>k. take 20 (drop (20 * k) (ino_bytes d i))) [0..<nat (len (data i)) div 20]"

abbreviation entries_of :: "fs \<Rightarrow> dir \<Rightarrow> dir_entry list" where
  "entries_of st dir \<equiv> entries (fs_disk st) (inodes st (d_inode dir))"

definition dir_ok :: "fs \<Rightarrow> dir \<Rightarrow> bool" where
  "dir_ok st dir \<longleftrightarrow> inode_ok (fs_disk st) (inodes st (d_inode dir)) \<and> bounces st = [] \<and> deny_write_cnt (inodes st (d_inode dir)) = 0 \<and>
     len (data (inodes st (d_inode dir))) mod 20 = 0"

text \<open>States that differ only in the count of disk reads.\<close>

definition counted :: "64 word \<Rightarrow> fs \<Rightarrow> fs" where
  "counted c st = st\<lparr>fs_disk := (fs_disk st)\<lparr>read_cnt := c\<rparr>\<rparr>"

lemma counted_simps [simp]:
  "counted c (counted c' st) = counted c st" "inodes (counted c st) = inodes st" "bounces (counted c st) = bounces st"
  "free_map (counted c st) = free_map st" "free_map_file (counted c st) = free_map_file st" "open_inodes (counted c st) = open_inodes st"
  "mallocs (counted c st) = mallocs st" "sectors (fs_disk (counted c st)) = sectors (fs_disk st)" "capacity (fs_disk (counted c st)) = capacity (fs_disk st)"
  by (simp_all add: counted_def)

lemma disk_ok_counted [simp]: "disk_ok (d\<lparr>read_cnt := c\<rparr>) = disk_ok d"
  by (simp add: disk_ok_def)

lemma inode_ok_counted [simp]: "inode_ok (d\<lparr>read_cnt := c\<rparr>) i = inode_ok d i"
  by (simp add: inode_ok_def)

lemma ino_byte_counted [simp]: "ino_byte (d\<lparr>read_cnt := c\<rparr>) i = ino_byte d i"
  by (rule ext) (simp add: ino_byte_def)

lemma ino_bytes_counted [simp]: "ino_bytes (d\<lparr>read_cnt := c\<rparr>) i = ino_bytes d i"
  by (simp add: ino_bytes_def)

lemma entries_counted [simp]: "entries (d\<lparr>read_cnt := c\<rparr>) i = entries d i"
  by (simp add: entries_def)

lemma entries_of_counted [simp]: "entries (fs_disk (counted c st)) i = entries (fs_disk st) i"
  "ino_bytes (fs_disk (counted c st)) i = ino_bytes (fs_disk st) i" "inode_ok (fs_disk (counted c st)) i = inode_ok (fs_disk st) i"
  by (simp_all add: counted_def)

lemma dir_ok_counted [simp]: "dir_ok (counted c st) dir = dir_ok st dir"
  by (simp add: dir_ok_def)

lemma length_entries: "int (length (entries_of st dir)) * 20 = len (data (inodes st (d_inode dir)))" if "dir_ok st dir"
proof -
  have "0 \<le> len (data (inodes st (d_inode dir)))" "len (data (inodes st (d_inode dir))) mod 20 = 0" using that by (simp_all add: dir_ok_def inode_ok_def)
  then show ?thesis by (simp add: entries_def zdiv_int flip: minus_mod_eq_div_mult)
qed

lemma nth_entries: "k < length (entries d i) \<Longrightarrow> entries d i ! k = take 20 (drop (20 * k) (ino_bytes d i))"
  by (simp add: entries_def)

lemma length_entry: "dir_ok st dir \<Longrightarrow> k < length (entries_of st dir) \<Longrightarrow> length (entries_of st dir ! k) = 20"
  using length_entries[of st dir] by (simp add: nth_entries)

lemma read_entry_eval:
  assumes "dir_ok st dir" and "length e = 20" and "k \<le> length (entries_of st dir)"
  obtains c where "read_entry st dir e (20 * int k) =
    Some (counted c st, if k < length (entries_of st dir) then (entries_of st dir ! k, 20) else (e, 0))"
proof -
  let ?i = "inodes st (d_inode dir)"
  have ok: "inode_ok (fs_disk st) ?i" "bounces st = []" using assms(1) by (simp_all add: dir_ok_def)
  obtain n c where r: "inode_read_at (fs_disk st) True ?i 20 (20 * int k) =
      Some ((fs_disk st)\<lparr>read_cnt := c\<rparr>, take n (drop (nat (20 * int k)) (ino_bytes (fs_disk st) ?i)))"
    and n: "n = xfer ?i 20 (20 * int k)"
    by (rule inode_read_at_eval[OF ok(1), of "20 * int k" True 20]) simp_all
  have nk: "nat (20 * int k) = 20 * k" by simp
  show ?thesis
  proof (cases "k < length (entries_of st dir)")
    case True
    then have "n = 20" using n length_entries[OF assms(1)] by (simp add: xfer_def)
    then have "read_entry st dir e (20 * int k) = Some (counted c st, entries_of st dir ! k, 20)"
      using r ok(2) assms(2) length_entry[OF assms(1) True] nk by (simp add: read_entry_def counted_def nth_entries[OF True])
    then show ?thesis using that True by simp
  next
    case False
    then have "n = 0" using n length_entries[OF assms(1)] assms(3) by (simp add: xfer_def)
    then show ?thesis using that False r ok(2) by (simp add: read_entry_def counted_def)
  qed
qed

lemma read_entry_in:
  assumes "dir_ok st dir" and "length e = 20" and "k < length (entries_of st dir)"
  shows "\<exists>c. read_entry st dir e (20 * int k) = Some (counted c st, entries_of st dir ! k, 20)"
  by (rule read_entry_eval[OF assms(1,2), of k]) (use assms(3) in auto)

lemma read_entry_end:
  assumes "dir_ok st dir" and "length e = 20"
  shows "\<exists>c. read_entry st dir e (20 * int (length (entries_of st dir))) = Some (counted c st, e, 0)"
  by (rule read_entry_eval[OF assms, of "length (entries_of st dir)"]) auto

lemma upt_find_step: "k < n \<Longrightarrow> find P [k..<n] = (if P k then Some k else find P [Suc k..<n])"
  by (simp add: upt_conv_Cons)

lemma lookup_loop_eval:
  assumes "dir_ok st dir" and "length e = 20" and "k \<le> length (entries_of st dir)"
  shows "\<exists>c. lookup_loop st dir name e (20 * int k) = Some (counted c st, map_option (\<lambda>j. (entries_of st dir ! j, 20 * int j))
    (find (\<lambda>j. in_use (entries_of st dir ! j) \<and> name_is name (entries_of st dir ! j)) [k..<length (entries_of st dir)]))"
  using assms
proof (induction "length (entries_of st dir) - k" arbitrary: st e k)
  case 0
  then have "k = length (entries_of st dir)" by simp
  then obtain c where "read_entry st dir e (20 * int k) = Some (counted c st, e, 0)"
    using read_entry_end[OF 0(2,3)] by auto
  then show ?case using 0(1) by (subst lookup_loop.simps) auto
next
  case (Suc n)
  then have k: "k < length (entries_of st dir)" by simp
  obtain c where r: "read_entry st dir e (20 * int k) = Some (counted c st, entries_of st dir ! k, 20)"
    using read_entry_in[OF Suc(3,4) k] by blast
  have s: "20 * int k + 20 = 20 * int (Suc k)" by simp
  have n: "n = length (entries_of st dir) - Suc k" using Suc(2) by simp
  from Suc(1)[of "counted c st" "Suc k" "entries_of st dir ! k"] obtain c' where
    "lookup_loop (counted c st) dir name (entries_of st dir ! k) (20 * int (Suc k)) = Some (counted c' st, map_option (\<lambda>j. (entries_of st dir ! j, 20 * int j))
    (find (\<lambda>j. in_use (entries_of st dir ! j) \<and> name_is name (entries_of st dir ! j)) [Suc k..<length (entries_of st dir)]))"
    using n Suc(3) k length_entry[OF Suc(3) k] by auto
  then show ?case using r k upt_find_step[OF k] by (subst lookup_loop.simps) (auto simp: s)
qed

lemma free_slot_loop_eval:
  assumes "dir_ok st dir" and "length e = 20" and "k \<le> length (entries_of st dir)"
  shows "\<exists>c e'. length e' = 20 \<and> free_slot_loop st dir e (20 * int k) = Some (counted c st,
    case find (\<lambda>j. \<not> in_use (entries_of st dir ! j)) [k..<length (entries_of st dir)] of
      Some j \<Rightarrow> (entries_of st dir ! j, 20 * int j) | None \<Rightarrow> (e', 20 * int (length (entries_of st dir))))"
  using assms
proof (induction "length (entries_of st dir) - k" arbitrary: st e k)
  case 0
  then have "k = length (entries_of st dir)" by simp
  then obtain c where "read_entry st dir e (20 * int k) = Some (counted c st, e, 0)"
    using read_entry_end[OF 0(2,3)] by auto
  then show ?case using 0 by (subst free_slot_loop.simps) auto
next
  case (Suc n)
  then have k: "k < length (entries_of st dir)" by simp
  obtain c where r: "read_entry st dir e (20 * int k) = Some (counted c st, entries_of st dir ! k, 20)"
    using read_entry_in[OF Suc(3,4) k] by blast
  have s: "20 * int k + 20 = 20 * int (Suc k)" by simp
  have n: "n = length (entries_of st dir) - Suc k" using Suc(2) by simp
  from Suc(1)[of "counted c st" "Suc k" "entries_of st dir ! k", unfolded counted_simps entries_of_counted dir_ok_counted] obtain c' e' where
    "length e' = 20" "free_slot_loop (counted c st) dir (entries_of st dir ! k) (20 * int (Suc k)) = Some (counted c' st, 
     case find (\<lambda>j. \<not> in_use (entries_of st dir ! j)) [Suc k..<length (entries_of st dir)] of
      Some j \<Rightarrow> (entries_of st dir ! j, 20 * int j) | None \<Rightarrow> (e', 20 * int (length (entries_of st dir))))"
    using n Suc(3) k length_entry[OF Suc(3) k] by auto
  then show ?case using r k upt_find_step[OF k] length_entry[OF Suc(3) k] by (subst free_slot_loop.simps) (auto simp: s)
qed

text \<open>Writing one entry.\<close>

lemma take_drop_splice:
  assumes "length cs = n" and "n * k + n \<le> length bs" and "n * m + n \<le> length bs" and "0 < n"
  shows "take n (drop (n * m) (take (n * k) bs @ cs @ drop (n * k + n) bs)) = (if m = k then cs else take n (drop (n * m) bs))"
proof -
  consider "m = k" | "m < k" | "k < m" by linarith
  then show ?thesis
  proof cases
    case 2
    then have "n * m + n \<le> n * k" by (metis Suc_leI add.commute mult_Suc_right mult_le_mono2)
    then show ?thesis using 2 assms by (auto intro!: nth_equalityI simp: nth_append)
  next
    case 3
    then have "n * k + n \<le> n * m" by (metis Suc_leI add.commute mult_Suc_right mult_le_mono2)
    then show ?thesis using 3 assms by (auto intro!: nth_equalityI simp: nth_append)
  qed (use assms in simp)
qed

lemma write_entry_eval:
  assumes "dir_ok st dir" and "length e = 20" and "k < length (entries_of st dir)"
  obtains d where "write_entry st dir e (20 * int k) = Some (st\<lparr>fs_disk := d\<rparr>, 20)" "dir_ok (st\<lparr>fs_disk := d\<rparr>) dir"
    "entries_of (st\<lparr>fs_disk := d\<rparr>) dir = (entries_of st dir)[k := e]" "capacity d = capacity (fs_disk st)"
    "\<And>s. unat s \<notin> ino_sectors (inodes st (d_inode dir)) \<Longrightarrow> sectors d s = sectors (fs_disk st) s"
proof -
  let ?i = "inodes st (d_inode dir)"
  have ok: "inode_ok (fs_disk st) ?i" "bounces st = []" "deny_write_cnt ?i = 0" "len (data ?i) mod 20 = 0" using assms(1) by (simp_all add: dir_ok_def)
  have "nat 20 \<le> length e" using assms(2) by simp
  from inode_write_at_eval[OF ok(1) _ this ok(3), of "20 * int k" True, OF mult_nonneg_nonneg[OF zero_le_numeral of_nat_0_le_iff]] obtain n d where
    w: "inode_write_at (fs_disk st) True ?i e 20 (20 * int k) = Some (d, int n)" and n: "n = xfer ?i 20 (20 * int k)"
    and d: "inode_ok d ?i" "capacity d = capacity (fs_disk st)"
    and bs: "ino_bytes d ?i = take (nat (20 * int k)) (ino_bytes (fs_disk st) ?i) @ take n e @ drop (nat (20 * int k) + n) (ino_bytes (fs_disk st) ?i) \<or>
      n = 0 \<and> ino_bytes d ?i = ino_bytes (fs_disk st) ?i"
    and o: "\<And>s. unat s \<notin> ino_sectors ?i \<Longrightarrow> sectors d s = sectors (fs_disk st) s" by blast
  have n20: "n = 20" using n assms(3) length_entries[OF assms(1)] by (simp add: xfer_def)
  have nk: "nat (20 * int k) = 20 * k" by simp
  have le: "20 * m + 20 \<le> length (ino_bytes (fs_disk st) ?i)" if "m < length (entries_of st dir)" for m
    using that length_entries[OF assms(1)] by simp
  have "ino_bytes d ?i = take (20 * k) (ino_bytes (fs_disk st) ?i) @ e @ drop (20 * k + 20) (ino_bytes (fs_disk st) ?i)"
    using bs n20 assms(2) nk by auto
  note sp = take_drop_splice[OF assms(2) le[OF assms(3)] le, folded this]
  have len: "length (entries d ?i) = length (entries_of st dir)" by (simp add: entries_def)
  have "entries d ?i = (entries_of st dir)[k := e]"
    by (rule nth_equalityI) (use sp len assms(3) in \<open>auto simp: nth_entries nth_list_update\<close>)
  then show ?thesis using that w n20 ok d o by (simp add: write_entry_def dir_ok_def)
qed

section \<open>A directory as a map\<close>

definition entry_name :: "dir_entry \<Rightarrow> uint8 list" where
  "entry_name e = takeWhile (\<lambda>c. c \<noteq> 0) (e_name e)"

definition names :: "dir_entry list \<Rightarrow> uint8 list list" where
  "names es = map entry_name (filter in_use es)"

definition dir_map :: "dir_entry list \<Rightarrow> uint8 list \<Rightarrow> disk_sector_t option" where
  "dir_map es name = map_option (\<lambda>j. inode_sector (es ! j)) (find (\<lambda>j. in_use (es ! j) \<and> entry_name (es ! j) = name) [0..<length es])"

text \<open>Stored names are terminated and no two entries in use have the same name.\<close>

definition dir_wf :: "dir_entry list \<Rightarrow> bool" where
  "dir_wf es \<longleftrightarrow> distinct (names es) \<and> (\<forall>e\<in>set es. in_use e \<longrightarrow> 0 \<in> set (e_name e))"

lemma takeWhile_eq_terminated:
  assumes "0 \<in> set (xs :: uint8 list)" and "0 \<notin> set ys"
  shows "take (length ys + 1) xs = ys @ [0] \<longleftrightarrow> takeWhile (\<lambda>c. c \<noteq> 0) xs = ys"
  using assms
proof (induction xs arbitrary: ys)
  case (Cons x xs)
  then show ?case by (cases ys) auto
qed simp

lemma name_is_entry_name: "dir_wf es \<Longrightarrow> e \<in> set es \<Longrightarrow> in_use e \<Longrightarrow> 0 \<notin> set name \<Longrightarrow> name_is name e \<longleftrightarrow> entry_name e = name"
  using takeWhile_eq_terminated[of "e_name e" name] by (simp add: name_is_def entry_name_def dir_wf_def)

lemma names_nth: "distinct (names es) \<longleftrightarrow> (\<forall>i<length es. \<forall>j<length es. in_use (es ! i) \<longrightarrow> in_use (es ! j) \<longrightarrow> entry_name (es ! i) = entry_name (es ! j) \<longrightarrow> i = j)"
proof (induction es)
  case (Cons e es)
  have "entry_name e \<in> set (names es) \<longleftrightarrow> (\<exists>j<length es. in_use (es ! j) \<and> entry_name e = entry_name (es ! j))"
    by (auto simp: names_def in_set_conv_nth)
  moreover have "names (e # es) = (if in_use e then [entry_name e] else []) @ names es" by (simp add: names_def)
  ultimately show ?case using Cons by (cases "in_use e") (simp_all add: All_less_Suc2, fastforce)
qed (simp add: names_def)

lemma find_upt_Some: "find P [0..<n] = Some j \<longleftrightarrow> j < n \<and> P j \<and> (\<forall>i<j. \<not> P i)"
  by (auto simp: find_Some_iff)

lemma dir_map_Some:
  assumes "dir_wf es"
  shows "dir_map es name = Some s \<longleftrightarrow> (\<exists>j<length es. in_use (es ! j) \<and> entry_name (es ! j) = name \<and> inode_sector (es ! j) = s)"
proof -
  have "find (\<lambda>j. in_use (es ! j) \<and> entry_name (es ! j) = name) [0..<length es] = Some j \<longleftrightarrow>
      j < length es \<and> in_use (es ! j) \<and> entry_name (es ! j) = name" for j
  proof -
    have "i = j" if "i < j" "j < length es" "in_use (es ! i)" "in_use (es ! j)" "entry_name (es ! i) = entry_name (es ! j)" for i
      using assms that unfolding dir_wf_def names_nth by (meson order.strict_trans)
    then show ?thesis unfolding find_upt_Some by fastforce
  qed
  then show ?thesis by (auto simp: dir_map_def)
qed

lemma dir_map_None: "dir_map es name = None \<longleftrightarrow> (\<forall>j<length es. in_use (es ! j) \<longrightarrow> entry_name (es ! j) \<noteq> name)"
  by (auto simp: dir_map_def find_None_iff)

lemma lookup_eval:
  assumes "dir_ok st dir" and "dir_wf (entries_of st dir)" and "length e = 20" and "0 \<notin> set name"
  obtains c where "lookup st dir name e = Some (counted c st, None)" "dir_map (entries_of st dir) name = None"
  | c j where "lookup st dir name e = Some (counted c st, Some (entries_of st dir ! j, 20 * int j))" "j < length (entries_of st dir)"
      "in_use (entries_of st dir ! j)" "entry_name (entries_of st dir ! j) = name" "dir_map (entries_of st dir) name = Some (inode_sector (entries_of st dir ! j))"
proof -
  let ?es = "entries_of st dir"
  have "find (\<lambda>j. in_use (?es ! j) \<and> name_is name (?es ! j)) [0..<length ?es] = find (\<lambda>j. in_use (?es ! j) \<and> entry_name (?es ! j) = name) [0..<length ?es]"
    by (rule find_cong) (use name_is_entry_name[OF assms(2) _ _ assms(4)] in auto)
  then obtain c where l: "lookup st dir name e = Some (counted c st, map_option (\<lambda>j. (?es ! j, 20 * int j))
      (find (\<lambda>j. in_use (?es ! j) \<and> entry_name (?es ! j) = name) [0..<length ?es]))"
    using lookup_loop_eval[OF assms(1,3), of 0 name] by (auto simp: lookup_def)
  show ?thesis
  proof (cases "find (\<lambda>j. in_use (?es ! j) \<and> entry_name (?es ! j) = name) [0..<length ?es]")
    case None
    then show ?thesis using that(1) l by (simp add: dir_map_def)
  next
    case (Some j)
    then have "j < length ?es" "in_use (?es ! j)" "entry_name (?es ! j) = name" by (auto simp: find_Some_iff)
    then show ?thesis using that(2) l Some by (simp add: dir_map_def)
  qed
qed

text \<open>The entry \<open>dir_add\<close> writes.\<close>

lemma new_entry:
  assumes "length e = 20" and "0 \<notin> set name" and "length name \<le> 14"
    and e'_def: "e' = set_sector sec (set_name name (set_in_use True e))"
  shows "length e' = 20" "in_use e'" "inode_sector e' = sec" "entry_name e' = name" "0 \<in> set (e_name e')"
proof -
  let ?k = "5 + length name"
  have e': "e' = bytes_of_word sec @ (name @ [0]) @ drop ?k (e[19 := 1])"
    using assms by (simp add: e'_def set_sector_def set_name_def set_in_use_def)
  then show "length e' = 20" using assms by simp
  have "e' ! 19 = 1"
  proof -
    have "e' ! 19 = drop ?k (e[19 := 1]) ! (19 - ?k)" using e' assms(3) by (simp add: nth_append)
    also have "\<dots> = e[19 := 1] ! (?k + (19 - ?k))" using assms(1,3) by (intro nth_drop) simp
    also have "?k + (19 - ?k) = 19" using assms(3) by simp
    finally show ?thesis using assms(1) by simp
  qed
  then show "in_use e'" by (simp add: in_use_def)
  show "inode_sector e' = sec" using e' by (simp add: inode_sector_def)
  have "15 - length name = Suc (14 - length name)" using assms(3) by simp
  then have "e_name e' = name @ 0 # take (14 - length name) (drop ?k (e[19 := 1]))" using e' assms(3) by (simp add: e_name_def)
  moreover have "takeWhile (\<lambda>c. c \<noteq> 0) (name @ 0 # xs) = name" for xs using assms(2) by (induction name) auto
  ultimately show "entry_name e' = name" "0 \<in> set (e_name e')" by (simp_all add: entry_name_def)
qed

lemma ex_list_update: "\<not> Q e \<Longrightarrow> \<not> Q (es ! k) \<Longrightarrow> (\<exists>j<length es. Q (es[k := e] ! j)) \<longleftrightarrow> (\<exists>j<length es. Q (es ! j))"
  by (metis nth_list_update_eq nth_list_update_neq)

lemma dir_wf_update:
  assumes "dir_wf es" and "k < length es" and "\<not> in_use (es ! k)" and "in_use e" and "dir_map es (entry_name e) = None" and "0 \<in> set (e_name e)"
  shows "dir_wf (es[k := e])" and "dir_map (es[k := e]) = (dir_map es)(entry_name e \<mapsto> inode_sector e)"
proof -
  show wf: "dir_wf (es[k := e])"
    using assms set_update_subset_insert[of es k e]
    by (auto simp: dir_wf_def names_nth nth_list_update dir_map_None)
  show "dir_map (es[k := e]) = (dir_map es)(entry_name e \<mapsto> inode_sector e)"
  proof (rule ext)
    fix n
    show "dir_map (es[k := e]) n = ((dir_map es)(entry_name e \<mapsto> inode_sector e)) n"
    proof (cases "n = entry_name e")
      case True
      then show ?thesis using assms(2,4) by (simp add: dir_map_Some[OF wf]) (auto intro!: exI[of _ k])
    next
      case False
      have "dir_map (es[k := e]) n = Some s \<longleftrightarrow> dir_map es n = Some s" for s
        unfolding dir_map_Some[OF wf] dir_map_Some[OF assms(1)] length_list_update
        by (rule ex_list_update) (use False assms in auto)
      then show ?thesis using False by (metis fun_upd_other not_Some_eq)
    qed
  qed
qed

lemma dir_wf_erase:
  assumes "dir_wf es" and "k < length es" and "in_use (es ! k)" and "\<not> in_use e"
  shows "dir_wf (es[k := e])" and "dir_map (es[k := e]) = (dir_map es)(entry_name (es ! k) := None)"
proof -
  show wf: "dir_wf (es[k := e])"
    using assms set_update_subset_insert[of es k e] by (auto simp: dir_wf_def names_nth nth_list_update)
  show "dir_map (es[k := e]) = (dir_map es)(entry_name (es ! k) := None)"
  proof (rule ext)
    fix n
    show "dir_map (es[k := e]) n = ((dir_map es)(entry_name (es ! k) := None)) n"
    proof (cases "n = entry_name (es ! k)")
      case True
      then have "dir_map (es[k := e]) n = None"
        unfolding dir_map_None using assms by (auto simp: nth_list_update dir_wf_def names_nth)
      then show ?thesis using True by simp
    next
      case False
      have "dir_map (es[k := e]) n = Some s \<longleftrightarrow> dir_map es n = Some s" for s
        unfolding dir_map_Some[OF wf] dir_map_Some[OF assms(1)] length_list_update
        by (rule ex_list_update) (use False assms in auto)
      then show ?thesis using False by (metis fun_upd_other not_Some_eq)
    qed
  qed
qed

lemma write_entry_end:
  assumes "dir_ok st dir"
  shows "write_entry st dir e (20 * int (length (entries_of st dir))) = Some (st, 0)"
proof -
  let ?i = "inodes st (d_inode dir)"
  have "len (data ?i) = 20 * int (length (entries_of st dir))" using length_entries[OF assms] by simp
  then have "inode_write_at (fs_disk st) (bounce_ok st) ?i e 20 (20 * int (length (entries_of st dir))) = Some (fs_disk st, 0)"
    using chunk_facts(1)[of 20 "20 * int (length (entries_of st dir))" ?i] by (simp add: inode_write_at_def write_loop.simps[of ?i])
  then show ?thesis using assms by (simp add: write_entry_def dir_ok_def)
qed

lemma dir_add_cases:
  assumes "dir_ok st dir" and "dir_wf (entries_of st dir)" and "length e0 = 20" and "0 \<notin> set name"
  obtains (refused) c where "dir_add st dir name sec e0 = Some (counted c st, False)"
      "\<not> (name \<noteq> [] \<and> length name \<le> 14 \<and> dir_map (entries_of st dir) name = None \<and> (\<exists>e\<in>set (entries_of st dir). \<not> in_use e))"
    | (added) d where "dir_add st dir name sec e0 = Some (st\<lparr>fs_disk := d\<rparr>, True)"
      "name \<noteq> []" "length name \<le> 14" "dir_map (entries_of st dir) name = None" "\<exists>e\<in>set (entries_of st dir). \<not> in_use e"
      "dir_ok (st\<lparr>fs_disk := d\<rparr>) dir" "dir_wf (entries d (inodes st (d_inode dir)))" "capacity d = capacity (fs_disk st)"
      "dir_map (entries d (inodes st (d_inode dir))) = (dir_map (entries_of st dir))(name \<mapsto> sec)"
      "\<And>s. unat s \<notin> ino_sectors (inodes st (d_inode dir)) \<Longrightarrow> sectors d s = sectors (fs_disk st) s"
proof (cases "name = [] \<or> length name > 14")
  case True
  then show ?thesis using refused[of "read_cnt (fs_disk st)"] by (auto simp: dir_add_def counted_def)
next
  case valid: False
  show ?thesis
  proof (rule lookup_eval[OF assms])
    fix c j assume "lookup st dir name e0 = Some (counted c st, Some (entries_of st dir ! j, 20 * int j))"
      "dir_map (entries_of st dir) name = Some (inode_sector (entries_of st dir ! j))"
    then show ?thesis using refused[of c] valid by (simp add: dir_add_def)
  next
    fix c assume l: "lookup st dir name e0 = Some (counted c st, None)" and new: "dir_map (entries_of st dir) name = None"
    let ?es = "entries_of st dir" and ?st = "counted c st"
    have ok: "dir_ok ?st dir" using assms(1) by simp
    obtain c' e' where f: "length e' = 20" "free_slot_loop ?st dir e0 0 = Some (counted c' st,
        case find (\<lambda>j. \<not> in_use (?es ! j)) [0..<length ?es] of Some j \<Rightarrow> (?es ! j, 20 * int j) | None \<Rightarrow> (e', 20 * int (length ?es)))"
      using free_slot_loop_eval[OF ok assms(3), of 0, unfolded counted_simps entries_of_counted] by auto
    show ?thesis
    proof (cases "find (\<lambda>j. \<not> in_use (?es ! j)) [0..<length ?es]")
      case None
      then have full: "\<forall>e\<in>set ?es. in_use e" by (auto simp: find_None_iff all_set_conv_all_nth)
      let ?e = "set_sector sec (set_name name (set_in_use True e'))"
      have "length ?e = 20" by (rule new_entry[OF _ _ _ refl]) (use f(1) assms(4) valid in auto)
      have okc: "dir_ok (counted c' st) dir" using assms(1) by simp
      have "write_entry (counted c' st) dir ?e (20 * int (length ?es)) = Some (counted c' st, 0)"
        using write_entry_end[OF okc, of ?e] by simp
      then show ?thesis using refused[of c'] full l f(2) None valid by (simp add: dir_add_def)
    next
      case (Some k)
      then have k: "k < length ?es" "\<not> in_use (?es ! k)" by (auto simp: find_Some_iff)
      let ?e = "set_sector sec (set_name name (set_in_use True (?es ! k)))"
      have e: "length ?e = 20" "in_use ?e" "inode_sector ?e = sec" "entry_name ?e = name" "0 \<in> set (e_name ?e)"
        by (rule new_entry[OF _ _ _ refl]; use length_entry[OF assms(1) k(1)] assms(4) valid in simp)+
      have okc: "dir_ok (counted c' st) dir" using assms(1) by simp
      obtain d where d: "write_entry (counted c' st) dir ?e (20 * int k) = Some (counted c' st\<lparr>fs_disk := d\<rparr>, 20)"
        "dir_ok (counted c' st\<lparr>fs_disk := d\<rparr>) dir" "entries_of (counted c' st\<lparr>fs_disk := d\<rparr>) dir = ?es[k := ?e]" "capacity d = capacity (fs_disk st)"
        "\<And>s. unat s \<notin> ino_sectors (inodes st (d_inode dir)) \<Longrightarrow> sectors d s = sectors (fs_disk st) s"
        by (rule write_entry_eval[OF okc e(1), of k]) (use k in auto)
      have std: "counted c' st\<lparr>fs_disk := d\<rparr> = st\<lparr>fs_disk := d\<rparr>" by (simp add: counted_def)
      note w = dir_wf_update[OF assms(2) k e(2) _ e(5), unfolded e(3,4), OF new]
      have ent: "entries d (inodes st (d_inode dir)) = ?es[k := ?e]" using d(3) by simp
      show ?thesis
        by (rule added[of d]) (use d l f(2) Some valid w new k nth_mem std ent in \<open>auto simp: dir_add_def\<close>)
    qed
  qed
qed

text \<open>
  C12. A directory behaves as a map from names to inode sectors. On a well-formed directory \<open>dir_add\<close> always returns; it succeeds exactly when the
  name is not empty, has at most 14 characters, is not in the directory, and a slot is free. Then the map has gained that
  name and nothing else, otherwise it is as before; the directory stays well formed, no sector outside the directory's own file is
  written, and a later search for any name gives what the new map says.
\<close>

theorem dir_add_correct:
  assumes "dir_ok st dir" and "dir_wf (entries_of st dir)" and "length e0 = 20" and "0 \<notin> set name"
  shows "\<exists>st' ok. dir_add st dir name sec e0 = Some (st', ok) \<and>
    (ok \<longleftrightarrow> name \<noteq> [] \<and> length name \<le> 14 \<and> dir_map (entries_of st dir) name = None \<and> (\<exists>e\<in>set (entries_of st dir). \<not> in_use e)) \<and>
    dir_map (entries_of st' dir) = (if ok then (dir_map (entries_of st dir))(name \<mapsto> sec) else dir_map (entries_of st dir)) \<and>
    dir_ok st' dir \<and> dir_wf (entries_of st' dir) \<and>
    (\<forall>s. unat s \<notin> ino_sectors (inodes st (d_inode dir)) \<longrightarrow> sectors (fs_disk st') s = sectors (fs_disk st) s) \<and>
    (\<forall>nm. 0 \<notin> set nm \<longrightarrow> (\<exists>st'' r. lookup st' dir nm e0 = Some (st'', r) \<and> map_option (\<lambda>(e, _). inode_sector e) r = dir_map (entries_of st' dir) nm))"
proof -
  have look: "\<exists>st'' r. lookup st' dir nm e0 = Some (st'', r) \<and> map_option (\<lambda>(e, _). inode_sector e) r = dir_map (entries_of st' dir) nm"
    if "dir_ok st' dir" "dir_wf (entries_of st' dir)" "0 \<notin> set nm" for st' nm
    by (rule lookup_eval[OF that(1,2) assms(3) that(3)]) auto
  from assms show ?thesis
  proof (cases rule: dir_add_cases[where sec = sec])
    case (refused c)
    then show ?thesis using look[of "counted c st"] assms
      by (intro exI[of _ "counted c st"] exI[of _ False]) simp
  next
    case (added d)
    then show ?thesis using look[of "st\<lparr>fs_disk := d\<rparr>"] by (intro exI[of _ "st\<lparr>fs_disk := d\<rparr>"] exI[of _ True]) simp
  qed
qed

text \<open>A directory with room for three entries, in one sector.\<close>

definition example_dir_fs :: fs where
  "example_dir_fs = example_fm_fs\<lparr>inodes := (\<lambda>p. if p = 100 then (example_inode 2 16)\<lparr>sector := 0\<rparr> else example_inode 5 60), open_inodes := [100, 400]\<rparr>"

definition example_dir :: dir where
  "example_dir = \<lparr>d_inode = 400, d_pos = 0\<rparr>"

lemma example_dir_ok: "dir_ok example_dir_fs example_dir"
proof -
  have "ino_sectors (example_inode 5 60) \<subseteq> {0..<100}" by (simp add: ino_sectors_def example_inode_def)
  moreover have "disk_ok example_fm_disk" by (simp add: disk_ok_def example_fm_disk_def example_disk_def)
  ultimately have "inode_ok example_fm_disk (example_inode 5 60)"
    by (simp add: inode_ok_def example_fm_disk_def example_disk_def) (simp add: example_inode_def)
  then show ?thesis by (simp add: dir_ok_def example_dir_fs_def example_dir_def example_fm_fs_def example_inode_def)
qed

lemma example_dir_entries: "entries_of example_dir_fs example_dir = replicate 3 (replicate 20 0)"
proof -
  have "ino_byte example_fm_disk (example_inode 5 60) j = 0" if "j < 60" for j
    using that by (simp add: ino_byte_def example_fm_disk_def example_inode_def)
  then have "ino_bytes example_fm_disk (example_inode 5 60) = replicate 60 0"
    by (intro nth_equalityI) (simp_all add: ino_bytes_def example_inode_def)
  then show ?thesis by (simp add: entries_def example_dir_fs_def example_dir_def example_fm_fs_def example_inode_def upt_rec numeral_3_eq_3)
qed

lemma example_dir_wf: "dir_wf (entries_of example_dir_fs example_dir)"
  unfolding example_dir_entries by (simp add: dir_wf_def names_def in_use_def)

theorem dir_add_correct_witness:
  "\<exists>st'. dir_add example_dir_fs example_dir [97, 98] 7 (replicate 20 0) = Some (st', True) \<and> dir_map (entries_of st' example_dir) [97, 98] = Some 7"
proof -
  have "dir_map (entries_of example_dir_fs example_dir) [97, 98] = None" "\<exists>e\<in>set (entries_of example_dir_fs example_dir). \<not> in_use e"
    unfolding example_dir_entries by (simp_all add: dir_map_None in_use_def)
  then show ?thesis
    using dir_add_correct[OF example_dir_ok example_dir_wf, of "replicate 20 0" "[97, 98]" 7] by auto
qed

section \<open>Listing a directory\<close>

text \<open>What a client sees that calls \<open>dir_readdir\<close> until it reports the end.\<close>

fun readdir_all :: "nat \<Rightarrow> fs \<Rightarrow> dir \<Rightarrow> dir_entry \<Rightarrow> uint8 list list option" where
  "readdir_all 0 st dir e = None"
| "readdir_all (Suc fuel) st dir e = do {
     (st, dir, r) \<leftarrow> dir_readdir st dir e;
     case r of None \<Rightarrow> Some [] | Some name \<Rightarrow> do { ns \<leftarrow> readdir_all fuel st dir e; Some (name # ns) }
   }"

lemma dir_readdir_eval:
  assumes "dir_ok st dir" and "length e = 20" and "k \<le> length (entries_of st dir)" and "d_pos dir = 20 * int k"
  shows "\<exists>c. dir_readdir st dir e = Some (counted c st,
    case find (\<lambda>j. in_use (entries_of st dir ! j)) [k..<length (entries_of st dir)] of
      Some j \<Rightarrow> (dir\<lparr>d_pos := 20 * int (Suc j)\<rparr>, Some (take 14 (entry_name (entries_of st dir ! j))))
    | None \<Rightarrow> (dir\<lparr>d_pos := 20 * int (length (entries_of st dir))\<rparr>, None))"
  using assms
proof (induction "length (entries_of st dir) - k" arbitrary: st dir e k)
  case 0
  then have k: "k = length (entries_of st dir)" by simp
  then obtain c where r: "read_entry st dir e (20 * int k) = Some (counted c st, e, 0)"
    using read_entry_end[OF 0(2,3)] by auto
  have "dir\<lparr>d_pos := 20 * int k\<rparr> = dir" using 0(5) by (cases dir) simp
  then show ?case using r 0(5) unfolding k by (subst dir_readdir.simps) auto
next
  case (Suc n)
  then have k: "k < length (entries_of st dir)" by simp
  obtain c where r: "read_entry st dir e (20 * int k) = Some (counted c st, entries_of st dir ! k, 20)"
    using read_entry_in[OF Suc(3,4) k] by blast
  let ?dir = "dir\<lparr>d_pos := 20 * int (Suc k)\<rparr>"
  have s: "20 * int k + 20 = 20 * int (Suc k)" by simp
  have n: "n = length (entries_of (counted c st) ?dir) - Suc k" using Suc(2) by simp
  have "dir_ok (counted c st) ?dir" using Suc(3) by (simp add: dir_ok_def)
  from Suc(1)[OF n this length_entry[OF Suc(3) k]] k obtain c' where
    "dir_readdir (counted c st) ?dir (entries_of st dir ! k) = Some (counted c' st,
      case find (\<lambda>j. in_use (entries_of st dir ! j)) [Suc k..<length (entries_of st dir)] of
        Some j \<Rightarrow> (dir\<lparr>d_pos := 20 * int (Suc j)\<rparr>, Some (take 14 (entry_name (entries_of st dir ! j))))
      | None \<Rightarrow> (dir\<lparr>d_pos := 20 * int (length (entries_of st dir))\<rparr>, None))"
    unfolding entries_of_counted counted_simps by (auto simp del: of_nat_Suc cong: option.case_cong)
  then show ?case using r k upt_find_step[OF k] Suc(6)
    by (subst dir_readdir.simps) (auto simp: s entry_name_def simp del: of_nat_Suc)
qed

lemma names_from:
  "names (drop k es) = (case find (\<lambda>j. in_use (es ! j)) [k..<length es] of None \<Rightarrow> [] | Some j \<Rightarrow> entry_name (es ! j) # names (drop (Suc j) es))"
proof (induction "length es - k" arbitrary: k)
  case 0
  then show ?case by (simp add: names_def)
next
  case (Suc n)
  then have k: "k < length es" by simp
  have "names (drop k es) = (if in_use (es ! k) then [entry_name (es ! k)] else []) @ names (drop (Suc k) es)"
    using k by (simp add: names_def flip: Cons_nth_drop_Suc)
  then show ?case using Suc(1)[of "Suc k"] Suc(2) upt_find_step[OF k] by (simp split: option.split)
qed

lemma readdir_all_eval:
  assumes "dir_ok st dir" and "length e = 20" and "k \<le> length (entries_of st dir)" and "d_pos dir = 20 * int k" and "length (entries_of st dir) - k < fuel"
    and "\<forall>n\<in>set (names (entries_of st dir)). length n \<le> 14"
  shows "readdir_all fuel st dir e = Some (names (drop k (entries_of st dir)))"
  using assms
proof (induction fuel arbitrary: st dir k)
  case (Suc fuel)
  let ?es = "entries_of st dir"
  obtain c where r: "dir_readdir st dir e = Some (counted c st,
    case find (\<lambda>j. in_use (?es ! j)) [k..<length ?es] of
      Some j \<Rightarrow> (dir\<lparr>d_pos := 20 * int (Suc j)\<rparr>, Some (take 14 (entry_name (?es ! j))))
    | None \<Rightarrow> (dir\<lparr>d_pos := 20 * int (length ?es)\<rparr>, None))" using dir_readdir_eval[OF Suc.prems(1-4)] by blast
  show ?case
  proof (cases "find (\<lambda>j. in_use (?es ! j)) [k..<length ?es]")
    case None
    then show ?thesis using r names_from[of k ?es] by simp
  next
    case (Some j)
    then have j: "k \<le> j" "j < length ?es" "in_use (?es ! j)" by (auto simp: find_Some_iff)
    let ?dir = "dir\<lparr>d_pos := 20 * int (Suc j)\<rparr>"
    have "dir_ok (counted c st) ?dir" using Suc.prems(1) by (simp add: dir_ok_def)
    then have "readdir_all fuel (counted c st) ?dir e = Some (names (drop (Suc j) ?es))"
      using Suc.IH[of "counted c st" ?dir "Suc j"] Suc.prems j by simp
    moreover have "entry_name (?es ! j) \<in> set (names ?es)" using j by (auto simp: names_def)
    ultimately show ?thesis using r Some names_from[of k ?es] Suc.prems(6) by simp
  qed
qed simp

lemma length_entry_name:
  assumes "0 \<in> set (e_name e)"
  shows "length (entry_name e) \<le> 14"
proof -
  have "length (takeWhile (\<lambda>c. c \<noteq> 0) xs) < length xs" if "0 \<in> set xs" for xs :: "uint8 list"
    using that by (induction xs) auto
  then have "length (takeWhile (\<lambda>c. c \<noteq> 0) (e_name e)) < length (e_name e)" using assms by blast
  moreover have "length (e_name e) \<le> 15" by (simp add: e_name_def)
  ultimately show ?thesis by (simp add: entry_name_def)
qed

text \<open>
  C30. Listing a directory terminates and reports every name once. Calling \<open>dir_readdir\<close> from the start until it reports the
  end takes at most one call per entry and one more, and gives exactly the names in the directory, each once: those for which a search succeeds.
  (No bounce buffer is refused: \<open>dir_readdir\<close> takes a read that fails for the end of the directory.)
\<close>

theorem dir_listing:
  assumes "dir_ok st dir" and "dir_wf (entries_of st dir)" and "length e = 20" and "d_pos dir = 0"
  shows "\<exists>ns. readdir_all (Suc (length (entries_of st dir))) st dir e = Some ns \<and> distinct ns \<and>
    (\<forall>n. n \<in> set ns \<longleftrightarrow> dir_map (entries_of st dir) n \<noteq> None)"
proof -
  have "\<forall>n\<in>set (names (entries_of st dir)). length n \<le> 14"
    using assms(2) length_entry_name by (auto simp: names_def dir_wf_def)
  then have "readdir_all (Suc (length (entries_of st dir))) st dir e = Some (names (entries_of st dir))"
    using readdir_all_eval[OF assms(1,3), of 0 "Suc (length (entries_of st dir))"] assms(4) by simp
  moreover have "n \<in> set (names (entries_of st dir)) \<longleftrightarrow> dir_map (entries_of st dir) n \<noteq> None" for n
    unfolding dir_map_None names_def by (auto simp: in_set_conv_nth) 
  ultimately show ?thesis using assms(2) by (auto simp: dir_wf_def)
qed

text \<open>A directory with the names \<open>a\<close> and \<open>b\<close> and a free entry between them.\<close>

definition example_entries :: "dir_entry list" where
  "example_entries = [[8, 0, 0, 0, 97] @ replicate 14 0 @ [1], replicate 20 0, [9, 0, 0, 0, 98] @ replicate 14 0 @ [1]]"

definition example_list_fs :: fs where
  "example_list_fs = example_dir_fs\<lparr>fs_disk := example_fm_disk\<lparr>sectors := (sectors example_fm_disk)(5 := concat example_entries @ replicate 452 0)\<rparr>\<rparr>"

lemma length_example_entries: "length (concat example_entries) = 60"
  by (simp add: example_entries_def)

lemma example_list_ok: "dir_ok example_list_fs example_dir"
  using example_dir_ok length_example_entries
  by (auto simp: dir_ok_def inode_ok_def disk_ok_def example_list_fs_def example_dir_fs_def example_fm_fs_def)

lemma example_list_entries: "entries_of example_list_fs example_dir = example_entries"
proof -
  let ?d = "fs_disk example_list_fs"
  have "ino_byte ?d (example_inode 5 60) j = concat example_entries ! j" if "j < 60" for j
    using that length_example_entries by (simp add: ino_byte_def example_list_fs_def example_inode_def nth_append)
  then have "ino_bytes ?d (example_inode 5 60) = concat example_entries"
    using length_example_entries by (intro nth_equalityI) (simp_all add: ino_bytes_def example_inode_def)
  moreover have "map (\<lambda>k. take 20 (drop (20 * k) (concat example_entries))) [0..<3] = example_entries" by code_simp
  ultimately show ?thesis
    by (simp add: entries_def example_list_fs_def example_dir_fs_def example_dir_def example_inode_def)
qed

lemma example_list_wf: "dir_wf example_entries"
  by code_simp

theorem dir_listing_witness:
  "\<exists>ns. readdir_all 4 example_list_fs example_dir (replicate 20 0) = Some ns \<and> distinct ns \<and> [97] \<in> set ns \<and> [98] \<in> set ns \<and> [99] \<notin> set ns"
proof -
  have "dir_map example_entries [97] = Some 8" "dir_map example_entries [98] = Some 9" "dir_map example_entries [99] = None"
    by code_simp+
  moreover have "d_pos example_dir = 0" "Suc (length example_entries) = 4" by (simp_all add: example_dir_def example_entries_def)
  ultimately show ?thesis
    using dir_listing[OF example_list_ok, of "replicate 20 0"] example_list_wf
    unfolding example_list_entries by auto
qed

end
