(* ===== verification/Filesys.thy ===== *)
theory Filesys
  imports Directory
begin

text \<open>
  The file system interface: \<open>src/filesys/filesys.c\<close>, the composition of the free map, inodes, directories and open files.

  The invariant \<open>fs_wf\<close> says that the disk is consistent: the free map on disk is up to date, the fixed inodes and their data are
  in use and do not overlap, the root directory is well formed. The lemmas follow a call through all the components and
  show that it is preserved, what files exist afterwards and which sectors are in use; one theorem shows where sectors are lost.
\<close>

section \<open>The code\<close>

definition do_format :: "fs \<Rightarrow> fs option" where
  "do_format st = do {
     st \<leftarrow> free_map_create st;
     (st, ok) \<leftarrow> dir_create st ROOT_DIR_SECTOR 16;
     ASSERT ok;
     free_map_close st
   }"

text \<open>
  \<open>filesys_init\<close> gets the result of \<open>disk_get\<close>, whether the memory for the free map could be had, and the contents of that memory.
\<close>

definition filesys_init :: "fs \<Rightarrow> disk option \<Rightarrow> bool \<Rightarrow> elem_type list option \<Rightarrow> bool \<Rightarrow> fs option" where
  "filesys_init st filesys_disk m_struct m_bits format = do {
     d \<leftarrow> filesys_disk;
     fm \<leftarrow> free_map_init d m_struct m_bits;
     let st = st\<lparr>fs_disk := d, open_inodes := [], free_map := fm\<rparr>;
     st \<leftarrow> (if format then do_format st else Some st);
     free_map_open st
   }"

definition filesys_done :: "fs \<Rightarrow> fs option" where
  "filesys_done st = free_map_close st"

definition filesys_create :: "fs \<Rightarrow> uint8 list \<Rightarrow> off_t \<Rightarrow> dir_entry \<Rightarrow> (fs \<times> bool) option" where
  "filesys_create st name initial_size e0 = do {
     (st, dir) \<leftarrow> dir_open_root st;
     (st, sec, success) \<leftarrow>
       (case dir of
          None \<Rightarrow> Some (st, 0, False)
        | Some d \<Rightarrow> do {
            (st, r) \<leftarrow> free_map_allocate st 1;
            case r of
              None \<Rightarrow> Some (st, 0, False)
            | Some sec \<Rightarrow> do {
                (st, ok) \<leftarrow> inode_create st sec initial_size;
                if ok then do {
                  (st, ok) \<leftarrow> dir_add st d name sec e0;
                  Some (st, sec, ok)
                } else Some (st, sec, False)
              }
          });
     st \<leftarrow> (if \<not> success \<and> sec \<noteq> 0 then free_map_release st sec 1 else Some st);
     st \<leftarrow> dir_close st dir;
     Some (st, success)
   }"

definition filesys_open :: "fs \<Rightarrow> uint8 list \<Rightarrow> dir_entry \<Rightarrow> (fs \<times> ofile option) option" where
  "filesys_open st name e0 = do {
     (st, dir) \<leftarrow> dir_open_root st;
     (st, inode) \<leftarrow> (case dir of None \<Rightarrow> Some (st, NULL) | Some d \<Rightarrow> dir_lookup st d name e0);
     st \<leftarrow> dir_close st dir;
     file_open st inode
   }"

definition filesys_remove :: "fs \<Rightarrow> uint8 list \<Rightarrow> dir_entry \<Rightarrow> (fs \<times> bool) option" where
  "filesys_remove st name e0 = do {
     (st, dir) \<leftarrow> dir_open_root st;
     (st, success) \<leftarrow> (case dir of None \<Rightarrow> Some (st, False) | Some d \<Rightarrow> dir_remove st d name e0);
     st \<leftarrow> dir_close st dir;
     Some (st, success)
   }"

section \<open>The whole file system\<close>

text \<open>The root directory as it is on disk.\<close>

definition root_inode :: "fs \<Rightarrow> inode" where
  "root_inode st = fresh_inode ROOT_DIR_SECTOR (inode_disk_of (sectors (fs_disk st) ROOT_DIR_SECTOR))"

definition root_map :: "fs \<Rightarrow> uint8 list \<Rightarrow> disk_sector_t option" where
  "root_map st = dir_map (entries (fs_disk st) (root_inode st))"

definition fm_ptr :: "fs \<Rightarrow> ptr" where
  "fm_ptr st = f_inode (the (free_map_file st))"

text \<open>
  The invariant between calls: the free map is up to date; the sectors of the two fixed inodes and of their data are in use and do not
  overlap; the root directory is well formed and not open; the sectors of open inodes are in use; \<open>malloc\<close> returns no inode that is in use;
  and no transfer fails for want of a bounce buffer.
\<close>

definition fs_wf :: "fs \<Rightarrow> bool" where
  "fs_wf st \<longleftrightarrow> fm_inv st \<and> bit_cnt (free_map st) = capacity (fs_disk st) \<and>
     {0, 1} \<union> ino_sectors (fm_inode st) \<union> ino_sectors (root_inode st) \<subseteq> sectors_used st \<and>
     {0, 1} \<inter> (ino_sectors (fm_inode st) \<union> ino_sectors (root_inode st)) = {} \<and> ino_sectors (fm_inode st) \<inter> ino_sectors (root_inode st) = {} \<and>
     inode_ok (fs_disk st) (root_inode st) \<and> len (data (root_inode st)) mod 20 = 0 \<and> dir_wf (entries (fs_disk st) (root_inode st)) \<and>
     (\<forall>p\<in>set (open_inodes st). sector (inodes st p) \<noteq> ROOT_DIR_SECTOR \<and> unat (sector (inodes st p)) \<in> sectors_used st) \<and>
     set (mallocs st) \<inter> insert (fm_ptr st) (set (open_inodes st)) = {}"

text \<open>The sectors that must stay in use while files are created and removed.\<close>

definition fixed_sectors :: "fs \<Rightarrow> nat set" where
  "fixed_sectors st = {0, 1} \<union> ino_sectors (fm_inode st) \<union> ino_sectors (root_inode st) \<union> (\<lambda>p. unat (sector (inodes st p))) ` set (open_inodes st)"

lemma fixed_sectors_used: "fs_wf st \<Longrightarrow> fixed_sectors st \<subseteq> sectors_used st"
  by (auto simp: fs_wf_def fixed_sectors_def)

lemma fs_wf_step:
  assumes "fs_wf st" and "fm_inv st'" and "free_map_file st' = free_map_file st" and "fm_inode st' = fm_inode st"
    and "bit_cnt (free_map st') = bit_cnt (free_map st)" and "capacity (fs_disk st') = capacity (fs_disk st)"
    and "sectors (fs_disk st') ROOT_DIR_SECTOR = sectors (fs_disk st) ROOT_DIR_SECTOR" and "fixed_sectors st \<subseteq> sectors_used st'"
    and "dir_wf (entries (fs_disk st') (root_inode st))" and "open_inodes st' = open_inodes st"
    and "\<forall>q\<in>set (open_inodes st). inodes st' q = inodes st q" and "set (mallocs st') \<subseteq> set (mallocs st)"
  shows "fs_wf st'"
proof -
  have r: "root_inode st' = root_inode st" using assms(7) by (simp add: root_inode_def)
  have d: "disk_ok (fs_disk st')" using assms(2) by (simp add: fm_inv_def fm_ok_iff inode_ok_def)
  show ?thesis
    using assms d unfolding fs_wf_def r inode_ok_def fm_ptr_def fixed_sectors_def by auto
qed

text \<open>The states between opening the root directory and closing it; \<open>p\<close> is its inode.\<close>

definition within :: "fs \<Rightarrow> ptr \<Rightarrow> fs \<Rightarrow> bool" where
  "within st p st' \<longleftrightarrow> p \<noteq> NULL \<and> p \<notin> set (open_inodes st) \<and> p \<noteq> fm_ptr st \<and> fm_inv st' \<and> free_map_file st' = free_map_file st \<and>
     bit_cnt (free_map st') = bit_cnt (free_map st) \<and> capacity (fs_disk st') = capacity (fs_disk st) \<and> bounces st' = bounces st \<and>
     open_inodes st' = p # open_inodes st \<and> inodes st' p = root_inode st \<and>
     (\<forall>q\<in>insert (fm_ptr st) (set (open_inodes st)). inodes st' q = inodes st q) \<and> set (mallocs st') \<subseteq> set (mallocs st)"

lemma within_fm_inode: "within st p st' \<Longrightarrow> fm_inode st' = fm_inode st"
  by (auto simp: within_def fm_inode_def fm_ptr_def)

lemma dir_open_root_eval:
  assumes "fs_wf st" and "mallocs st = p # q # ms" and "p \<noteq> NULL" and "q \<noteq> NULL"
  obtains st1 where "dir_open_root st = Some (st1, Some \<lparr>d_inode = p, d_pos = 0\<rparr>)" "within st p st1" "mallocs st1 = ms"
    "sectors (fs_disk st1) = sectors (fs_disk st)" "free_map st1 = free_map st"
proof -
  let ?d = "(fs_disk st)\<lparr>read_cnt := read_cnt (fs_disk st) + 1\<rparr>"
  let ?st1 = "st\<lparr>mallocs := ms, open_inodes := p # open_inodes st, fs_disk := ?d, inodes := (inodes st)(p := root_inode st)\<rparr>"
  have dok: "disk_ok (fs_disk st)" and used: "1 \<in> sectors_used st" "bit_cnt (free_map st) = capacity (fs_disk st)"
    using assms(1) by (auto simp: fs_wf_def inode_ok_def)
  have "1 < capacity (fs_disk st)" using used by (simp add: sectors_used_def word_less_nat_alt)
  then have "read_sector (fs_disk st) ROOT_DIR_SECTOR = Some (?d, sectors (fs_disk st) ROOT_DIR_SECTOR)"
    using dok by (intro read_sector_eval) (simp_all add: disk_ok_def)
  moreover have "find (\<lambda>p. sector (inodes st p) = ROOT_DIR_SECTOR) (open_inodes st) = None"
    using assms(1) by (auto simp: fs_wf_def find_None_iff)
  ultimately have "dir_open_root st = Some (?st1, Some \<lparr>d_inode = p, d_pos = 0\<rparr>)"
    using assms(2-4) by (simp add: dir_open_root_def inode_open_def dir_open_def fs_malloc_def root_inode_def fresh_inode_def)
  moreover have "fm_inode ?st1 = fm_inode st" "p \<notin> set (open_inodes st)" "p \<noteq> fm_ptr st"
    using assms(1,2) by (auto simp: fs_wf_def fm_inode_def fm_ptr_def)
  moreover from this(1) have "fm_inv st \<Longrightarrow> fm_inv ?st1" by (simp add: fm_inv_def fm_ok_iff fm_saved_def)
  then have "fm_inv ?st1" using assms(1) by (simp add: fs_wf_def)
  ultimately have "within st p ?st1" using assms(2,3) by (auto simp: within_def)
  then show ?thesis using that[of ?st1] \<open>dir_open_root st = _\<close> by simp
qed

lemma dir_close_eval:
  assumes "within st p st'"
  shows "dir_close st' (Some \<lparr>d_inode = p, d_pos = 0\<rparr>) =
    Some (st'\<lparr>inodes := (inodes st')(p := (root_inode st)\<lparr>open_cnt := 0\<rparr>), open_inodes := open_inodes st\<rparr>)"
  using assms by (simp add: dir_close_def inode_close_def within_def Let_def upd_inode_def root_inode_def fresh_inode_def)

lemma within_dir_ok:
  assumes "fs_wf st" and "within st p st'"
  shows "dir_ok st' \<lparr>d_inode = p, d_pos = 0\<rparr>"
proof -
  have "disk_ok (fs_disk st')" using assms(2) by (simp add: within_def fm_inv_def fm_ok_iff inode_ok_def)
  then show ?thesis using assms by (simp add: dir_ok_def within_def fs_wf_def inode_ok_def fm_inv_def fm_ok_iff) (simp add: root_inode_def)
qed

text \<open>Closing the root directory restores the invariant, if nothing in use was released and the directory is well formed.\<close>

lemma close_root:
  assumes "fs_wf st" and "within st p st'" and "sectors (fs_disk st') ROOT_DIR_SECTOR = sectors (fs_disk st) ROOT_DIR_SECTOR"
    and "fixed_sectors st \<subseteq> sectors_used st'" and "dir_wf (entries (fs_disk st') (root_inode st))"
  obtains st'' where "dir_close st' (Some \<lparr>d_inode = p, d_pos = 0\<rparr>) = Some st''" "fs_wf st''"
    "mallocs st'' = mallocs st'" "open_inodes st'' = open_inodes st" "\<And>q. q \<in> set (open_inodes st) \<Longrightarrow> inodes st'' q = inodes st q"
    "fs_disk st'' = fs_disk st'" "free_map st'' = free_map st'" "root_map st'' = dir_map (entries (fs_disk st') (root_inode st))"
    "fixed_sectors st'' = fixed_sectors st"
proof -
  let ?st = "st'\<lparr>inodes := (inodes st')(p := (root_inode st)\<lparr>open_cnt := 0\<rparr>), open_inodes := open_inodes st\<rparr>"
  have w: "p \<notin> set (open_inodes st)" "p \<noteq> fm_ptr st" "fm_inv st'" "free_map_file st' = free_map_file st" "bit_cnt (free_map st') = bit_cnt (free_map st)"
    "capacity (fs_disk st') = capacity (fs_disk st)" "set (mallocs st') \<subseteq> set (mallocs st)" using assms(2) by (simp_all add: within_def)
  have wi: "\<forall>q\<in>insert (fm_ptr st) (set (open_inodes st)). inodes st' q = inodes st q" using assms(2) unfolding within_def by blast
  then have fi: "fm_inode ?st = fm_inode st" using w(2,4) by (simp add: fm_inode_def fm_ptr_def)
  then have "fm_inv ?st" using w(3) within_fm_inode[OF assms(2)] by (simp add: fm_inv_def fm_ok_iff fm_saved_def)
  then have "fs_wf ?st"
    using fs_wf_step[OF assms(1), of ?st] assms(3-5) w wi fi by (auto simp: sectors_used_def)
  moreover have "root_map ?st = dir_map (entries (fs_disk st') (root_inode st))"
    using assms(3) by (simp add: root_map_def root_inode_def)
  moreover have "inodes ?st r = inodes st r" if "r \<in> set (open_inodes st)" for r using that w(1) wi by auto
  moreover from this have "fixed_sectors ?st = fixed_sectors st" using fi assms(3) by (auto simp: fixed_sectors_def root_inode_def)
  ultimately show ?thesis using that[of ?st] dir_close_eval[OF assms(2)] by simp
qed

text \<open>Sectors of the root directory are not touched when others are written.\<close>

lemma root_kept:
  assumes "fs_wf st" and "within st p st'" and "\<And>s. unat s \<in> insert 1 (ino_sectors (root_inode st)) \<Longrightarrow> sectors (fs_disk st') s = sectors (fs_disk st) s"
  shows "sectors (fs_disk st') ROOT_DIR_SECTOR = sectors (fs_disk st) ROOT_DIR_SECTOR"
    and "entries (fs_disk st') (root_inode st) = entries (fs_disk st) (root_inode st)"
proof -
  show "sectors (fs_disk st') ROOT_DIR_SECTOR = sectors (fs_disk st) ROOT_DIR_SECTOR" using assms(3)[of 1] by simp
  have "ino_bytes (fs_disk st') (root_inode st) = ino_bytes (fs_disk st) (root_inode st)"
    by (rule ino_bytes_cong) (use assms in \<open>auto simp: fs_wf_def\<close>)
  then show "entries (fs_disk st') (root_inode st) = entries (fs_disk st) (root_inode st)" by (simp add: entries_def)
qed

lemma within_frame:
  assumes "within st p st1" and "fm_inv (st1\<lparr>mallocs := ms, free_map := fm, fs_disk := d\<rparr>)" and "bit_cnt fm = bit_cnt (free_map st1)"
    and "capacity d = capacity (fs_disk st1)" and "set ms \<subseteq> set (mallocs st1)"
  shows "within st p (st1\<lparr>mallocs := ms, free_map := fm, fs_disk := d\<rparr>)"
  using assms by (auto simp: within_def)

subsection \<open>Creating a file\<close>

lemma bit_group_used:
  "bit_group (bitmap_abs (free_map st)) i k False \<longleftrightarrow> i + k \<le> unat (bit_cnt (free_map st)) \<and> {i..<i + k} \<inter> sectors_used st = {}"
proof -
  have "(\<forall>j<k. \<not> bitmap_abs (free_map st) ! (i + j)) \<longleftrightarrow> {i..<i + k} \<inter> sectors_used st = {}" if le: "i + k \<le> unat (bit_cnt (free_map st))"
  proof -
    have "(\<forall>j<k. \<not> bitmap_abs (free_map st) ! (i + j)) \<longleftrightarrow> (\<forall>x\<in>{i..<i + k}. \<not> bitmap_abs (free_map st) ! x)"
      by (auto simp: nat_le_iff_add)
    then show ?thesis using le by (auto simp: sectors_used_def)
  qed
  then show ?thesis by (auto simp: bit_group_def)
qed

lemma within_counted: "within st p st' \<Longrightarrow> within st p (counted c st')"
proof -
  have "fm_inode (counted c st') = fm_inode st'" by (simp add: fm_inode_def)
  then have "fm_inv (counted c st') = fm_inv st'" by (simp add: fm_inv_def fm_ok_iff fm_saved_def)
  then show "within st p st' \<Longrightarrow> within st p (counted c st')" by (simp add: within_def)
qed

lemma alloc_sector:
  assumes "within st p st1"
  obtains (none) "free_map_allocate st1 1 = Some (st1, None)" "\<And>x. x < unat (bit_cnt (free_map st1)) \<Longrightarrow> x \<in> sectors_used st1"
    | (some) st2 sec where "free_map_allocate st1 1 = Some (st2, Some sec)" "within st p st2" "mallocs st2 = mallocs st1"
      "sectors_used st2 = insert (unat sec) (sectors_used st1)" "unat sec \<notin> sectors_used st1"
      "\<And>s. unat s \<notin> ino_sectors (fm_inode st) \<Longrightarrow> sectors (fs_disk st2) s = sectors (fs_disk st1) s"
proof -
  have ok: "fm_ok st1" using assms by (simp add: within_def fm_inv_def)
  then show ?thesis
  proof (cases rule: free_map_allocate_cases[where cnt = 1])
    case (full fm)
    have "x \<in> sectors_used st1" if "x < unat (bit_cnt (free_map st1))" for x
      using full(3)[of x] that by (auto simp: bit_group_used)
    then show ?thesis using none full(1,2) by simp
  next
    case (got fm d sec)
    have "within st p (st1\<lparr>free_map := fm, fs_disk := d\<rparr>)"
      using within_frame[OF assms, where ms = "mallocs st1" and fm = fm and d = d] got by (simp add: fm_inv_def)
    then show ?thesis using some[OF got(1)] got(6,7,9) within_fm_inode[OF assms] by simp
  qed
qed

lemma release_sector:
  assumes "within st p st1" and "unat sec \<in> sectors_used st1"
  obtains st2 where "free_map_release st1 sec 1 = Some st2" "within st p st2" "sectors_used st2 = sectors_used st1 - {unat sec}"
    "\<And>s. unat s \<notin> ino_sectors (fm_inode st) \<Longrightarrow> sectors (fs_disk st2) s = sectors (fs_disk st1) s"
proof -
  have ok: "fm_ok st1" using assms(1) by (simp add: within_def fm_inv_def)
  have r: "{unat sec..<unat sec + unat (1 :: size_t)} = {unat sec}" by auto
  obtain fm d where g: "free_map_release st1 sec 1 = Some (st1\<lparr>free_map := fm, fs_disk := d\<rparr>)"
      "fm_ok (st1\<lparr>free_map := fm, fs_disk := d\<rparr>)" "fm_saved (st1\<lparr>free_map := fm, fs_disk := d\<rparr>)" "bit_cnt fm = bit_cnt (free_map st1)"
      "sectors_used (st1\<lparr>free_map := fm, fs_disk := d\<rparr>) = sectors_used st1 - {unat sec}"
      "capacity d = capacity (fs_disk st1)" "\<And>s. unat s \<notin> ino_sectors (fm_inode st1) \<Longrightarrow> sectors d s = sectors (fs_disk st1) s"
    by (rule free_map_release_eval[OF ok, of sec 1, unfolded r]) (use assms(2) in \<open>auto simp: sectors_used_def\<close>)
  have "within st p (st1\<lparr>free_map := fm, fs_disk := d\<rparr>)"
    using within_frame[OF assms(1), where ms = "mallocs st1" and fm = fm and d = d] g by (simp add: fm_inv_def)
  then show ?thesis using that[OF g(1)] g(5,7) within_fm_inode[OF assms(1)] by simp
qed

lemma filesys_create_cases:
  assumes wf: "fs_wf st" and m: "mallocs st = p # q # r # ms" and pq: "p \<noteq> NULL" "q \<noteq> NULL" and n: "0 \<le> n" "n < 2 ^ 31 - 511"
    and nm: "0 \<notin> set name" and e0: "length e0 = 20"
  obtains (fail) st' where "filesys_create st name n e0 = Some (st', False)" "fs_wf st'" "root_map st' = root_map st" "sectors_used st' = sectors_used st"
      "r = NULL \<or> (\<exists>x. \<forall>i. i + (nat n + 511) div 512 \<le> unat (capacity (fs_disk st)) \<longrightarrow> {i..<i + (nat n + 511) div 512} \<inter> insert x (sectors_used st) \<noteq> {})
        \<or> (\<forall>x<unat (capacity (fs_disk st)). x \<in> sectors_used st)"
    | (leak) st' D where "filesys_create st name n e0 = Some (st', False)" "fs_wf st'" "root_map st' = root_map st"
      "sectors_used st' = sectors_used st \<union> D" "D \<inter> sectors_used st = {}" "card D = (nat n + 511) div 512" "finite D"
      "\<not> (name \<noteq> [] \<and> length name \<le> 14 \<and> root_map st name = None \<and> (\<exists>e\<in>set (entries (fs_disk st) (root_inode st)). \<not> in_use e))"
    | (ok) st' sec i where "filesys_create st name n e0 = Some (st', True)" "fs_wf st'" "root_map st name = None" "root_map st' = (root_map st)(name \<mapsto> sec)"
      "unat sec \<notin> sectors_used st" "inode_disk_of (sectors (fs_disk st') sec) = i" "len i = n" "ino_bytes (fs_disk st') (fresh_inode sec i) = replicate (nat n) 0"
      "ino_sectors (fresh_inode sec i) \<inter> insert (unat sec) (sectors_used st) = {}"
      "sectors_used st' = insert (unat sec) (sectors_used st) \<union> ino_sectors (fresh_inode sec i)"
      "mallocs st' = ms" "open_inodes st' = open_inodes st" "\<And>q. q \<in> set (open_inodes st) \<Longrightarrow> inodes st' q = inodes st q"
      "fixed_sectors st' = fixed_sectors st" "unat (start i) \<le> unat (capacity (fs_disk st'))"
proof -
  let ?dir = "\<lparr>d_inode = p, d_pos = 0\<rparr>" and ?k = "(nat n + 511) div 512" and ?fm = "ino_sectors (fm_inode st)" and ?rt = "ino_sectors (root_inode st)"
  have inv: "fm_inv st" "bit_cnt (free_map st) = capacity (fs_disk st)" "{0, 1} \<union> ?fm \<union> ?rt \<subseteq> sectors_used st" "{0, 1} \<inter> (?fm \<union> ?rt) = {}" "?fm \<inter> ?rt = {}"
    "inode_ok (fs_disk st) (root_inode st)" "dir_wf (entries (fs_disk st) (root_inode st))"
    using wf by (simp_all add: fs_wf_def)
  obtain st1 where st1: "dir_open_root st = Some (st1, Some ?dir)" "within st p st1" "mallocs st1 = r # ms"
    "sectors (fs_disk st1) = sectors (fs_disk st)" "free_map st1 = free_map st"
    using dir_open_root_eval[OF wf m pq] by blast
  have used1: "sectors_used st1 = sectors_used st" using st1(5) by (simp add: sectors_used_def)
  have cap: "within st p s \<Longrightarrow> bit_cnt (free_map s) = capacity (fs_disk s)" for s using inv(2) by (simp add: within_def)
  \<comment> \<open>closing the directory after a failure\<close>
  have close: "\<exists>st'. dir_close s (Some ?dir) = Some st' \<and> fs_wf st' \<and> root_map st' = root_map st \<and> sectors_used st' = sectors_used s"
    if s: "within st p s" "sectors_used st \<subseteq> sectors_used s" and keep: "\<And>x. unat x \<in> insert 1 ?rt \<Longrightarrow> sectors (fs_disk s) x = sectors (fs_disk st) x" for s
  proof -
    note rk = root_kept[OF wf s(1) keep]
    obtain st'' where "dir_close s (Some ?dir) = Some st''" "fs_wf st''" "free_map st'' = free_map s" "root_map st'' = dir_map (entries (fs_disk s) (root_inode st))"
      by (rule close_root[OF wf s(1) rk(1)]) (use rk(2) inv(7) s(2) fixed_sectors_used[OF wf] in auto)
    then show ?thesis using rk(2) by (simp add: root_map_def sectors_used_def)
  qed
  from st1(2) show ?thesis
  proof (cases rule: alloc_sector)
    case none
    obtain st' where st': "dir_close st1 (Some ?dir) = Some st'" "fs_wf st'" "root_map st' = root_map st" "sectors_used st' = sectors_used st1"
      using close[OF st1(2)] st1(4) used1 by auto
    show ?thesis
      by (rule fail[of st']) (use st' st1(1,5) none used1 inv(2) in \<open>auto simp: filesys_create_def\<close>)
  next
    case (some st2 sec)
    have used2: "sectors_used st2 = insert (unat sec) (sectors_used st)" "unat sec \<notin> sectors_used st" using some(4,5) used1 by simp_all
    then have sec0: "sec \<noteq> 0" using inv(3) by auto
    have k2: "sectors (fs_disk st2) x = sectors (fs_disk st) x" if "unat x \<notin> ?fm" for x using some(6)[OF that] st1(4) by simp
    note fi2 = within_fm_inode[OF some(2)]
    have c: "fm_inv st2" "bit_cnt (free_map st2) = capacity (fs_disk st2)" "unat sec \<in> sectors_used st2 - ino_sectors (fm_inode st2)"
      "ino_sectors (fm_inode st2) \<subseteq> sectors_used st2" "mallocs st2 = r # ms"
      using some(2,3) cap[OF some(2)] used2 inv(3) fi2 st1(3) by (auto simp: within_def)
    from c n show ?thesis
    proof (cases rule: inode_create_cases)
      case failed
      let ?s = "st2\<lparr>mallocs := ms\<rparr>"
      have w: "within st p ?s" using within_frame[OF some(2), where ms = ms and fm = "free_map st2" and d = "fs_disk st2"] c(1,5)
        by (simp add: fm_inv_def fm_ok_iff fm_saved_def fm_inode_def) auto
      have us: "sectors_used ?s = sectors_used st2" by (simp add: sectors_used_def)
      obtain s where s: "free_map_release ?s sec 1 = Some s" "within st p s" "sectors_used s = sectors_used st2 - {unat sec}"
        "\<And>x. unat x \<notin> ?fm \<Longrightarrow> sectors (fs_disk s) x = sectors (fs_disk ?s) x"
        using release_sector[OF w, of sec] us used2(1) by auto
      have "sectors_used s = sectors_used st" using s(3) used2 by auto
      moreover have "sectors (fs_disk s) x = sectors (fs_disk st) x" if "unat x \<in> insert 1 ?rt" for x using that s(4)[of x] k2[of x] inv(4,5) by auto
      ultimately obtain st' where st': "dir_close s (Some ?dir) = Some st'" "fs_wf st'" "root_map st' = root_map st" "sectors_used st' = sectors_used st"
        using close[OF s(2)] by auto
      have cp: "bit_cnt (free_map st2) = capacity (fs_disk st)" using some(2) inv(2) by (simp add: within_def)
      show ?thesis
        by (rule fail[OF _ st'(2-4)]) (use st'(1) st1(1) some(1) failed s(1) sec0 used2(1) cp in \<open>auto simp: filesys_create_def bit_group_used\<close>)
    next
      case (created fm d i)
      let ?s = "st2\<lparr>mallocs := ms, free_map := fm, fs_disk := d\<rparr>" and ?D = "ino_sectors (fresh_inode sec i)"
      have w: "within st p ?s" by (rule within_frame[OF some(2) created(11,9,8)]) (use c(5) in auto)
      have Dst: "?D \<inter> insert (unat sec) (sectors_used st) = {}" using created(7) used2(1) by simp
      have ks: "sectors d x = sectors (fs_disk st) x" if "unat x \<notin> {unat sec} \<union> ?D \<union> ?fm" for x
        using that created(13)[of x] k2[of x] fi2 by simp
      have "insert 1 ?rt \<subseteq> sectors_used st" "insert 1 ?rt \<inter> ?fm = {}" using inv(3) Int_insert_left[of 1 ?rt ?fm] inv(4,5) by (blast, auto)
      then have keep: "sectors (fs_disk ?s) x = sectors (fs_disk st) x" if "unat x \<in> insert 1 ?rt" for x
      proof -
        have "unat x \<in> sectors_used st" "unat x \<notin> ?fm" using that inv(3) \<open>insert 1 ?rt \<inter> ?fm = {}\<close> by auto
        then have "unat x \<notin> {unat sec} \<union> ?D \<union> ?fm" using used2(2) Dst by auto
        then show ?thesis using ks by simp
      qed
      note rk = root_kept[OF wf w keep]
      have wfs: "dir_wf (entries_of ?s ?dir)" and ent: "entries_of ?s ?dir = entries (fs_disk st) (root_inode st)"
        using rk(2) inv(7) w by (simp_all add: within_def)
      from within_dir_ok[OF wf w] wfs e0 nm show ?thesis
      proof (cases rule: dir_add_cases[where sec = sec])
        case (refused c)
        have w': "within st p (counted c ?s)" using w by (rule within_counted)
        have us: "sectors_used (counted c ?s) = sectors_used ?s" by (simp add: sectors_used_def)
        obtain s where s: "free_map_release (counted c ?s) sec 1 = Some s" "within st p s" "sectors_used s = sectors_used ?s - {unat sec}"
          "\<And>x. unat x \<notin> ?fm \<Longrightarrow> sectors (fs_disk s) x = sectors (fs_disk (counted c ?s)) x"
          using release_sector[OF w', of sec] us created(10) used2(1) by auto
        have su: "sectors_used s = sectors_used st \<union> ?D" using s(3) created(10) used2 Dst by auto
        moreover have "sectors (fs_disk s) x = sectors (fs_disk st) x" if "unat x \<in> insert 1 ?rt" for x
          using that s(4)[of x] keep[OF that] inv(4,5) by auto
        ultimately obtain st' where st': "dir_close s (Some ?dir) = Some st'" "fs_wf st'" "root_map st' = root_map st" "sectors_used st' = sectors_used st \<union> ?D"
          using close[OF s(2)] by auto
        have "finite ?D" "card ?D = ?k" using created(3) by (simp_all add: ino_sectors_def)
        then show ?thesis
          using leak[OF _ st'(2-4)] st'(1) st1(1) some(1) created(1) refused s(1) sec0 Dst ent by (auto simp: filesys_create_def root_map_def)
      next
        case (added d')
        let ?s' = "?s\<lparr>fs_disk := d'\<rparr>"
        have ip: "inodes ?s (d_inode ?dir) = root_inode st" using w by (simp add: within_def)
        note out = added(10)[unfolded ip]
        have fmd: "inode_ok d (fm_inode st)" "ino_bytes d (fm_inode st) = bitmap_bytes fm"
          using created(11) within_fm_inode[OF w] by (simp_all add: fm_inv_def fm_ok_iff fm_saved_def)
        have "ino_bytes d' (fm_inode st) = ino_bytes d (fm_inode st)" by (rule ino_bytes_cong[OF fmd(1)]) (use out inv(5) in auto)
        moreover have "disk_ok d'" using added(6) by (simp add: dir_ok_def inode_ok_def)
        ultimately have "fm_inv ?s'" using created(11) fmd within_fm_inode[OF w] added(8)
          by (simp add: fm_inv_def fm_ok_iff fm_saved_def fm_inode_def inode_ok_def)
        then have w': "within st p ?s'" using within_frame[OF w, where ms = ms and fm = fm and d = d'] added(8) by simp
        have secd: "sectors d' sec = inode_disk_bytes i" using out[of sec] created(4) used2(2) inv(3) by auto
        have "inode_ok d (fresh_inode sec i)" using created(3,11,12) n(1) by (simp add: inode_ok_def fm_inv_def fm_ok_iff)
        then have zero: "ino_bytes d' (fresh_inode sec i) = replicate (nat n) 0"
          using ino_bytes_cong[of d "fresh_inode sec i" d'] out created(6) Dst inv(3) by auto
        have us: "sectors_used ?s' = insert (unat sec) (sectors_used st) \<union> ?D" using created(10) used2(1) by (simp add: sectors_used_def)
        have r1: "sectors (fs_disk ?s') ROOT_DIR_SECTOR = sectors (fs_disk st) ROOT_DIR_SECTOR" using out[of 1] rk(1) inv(4) by auto
        obtain st' where st': "dir_close ?s' (Some ?dir) = Some st'" "fs_wf st'" "fs_disk st' = d'" "free_map st' = fm"
          "root_map st' = dir_map (entries d' (root_inode st))"
          "mallocs st' = ms" "open_inodes st' = open_inodes st" "\<And>q. q \<in> set (open_inodes st) \<Longrightarrow> inodes st' q = inodes st q"
          "fixed_sectors st' = fixed_sectors st"
          by (rule close_root[OF wf w' r1]) (use us added(7) ip fixed_sectors_used[OF wf] in auto)
        have "sectors_used st' = sectors_used ?s'" using st'(4) by (simp add: sectors_used_def)
        then show ?thesis
          by (intro ok[of st' sec i]) (use st' st1(1) some(1) created(1,3,5,14) added(1,4,8,9) secd zero us Dst used2(2) ent ip in \<open>auto simp: filesys_create_def root_map_def\<close>)
      qed
    qed
  qed
qed

subsection \<open>Opening and removing a file\<close>

text \<open>What opening a sector that is not open does.\<close>

definition opened :: "fs \<Rightarrow> ptr \<Rightarrow> disk_sector_t \<Rightarrow> ptr list \<Rightarrow> 64 word \<Rightarrow> fs" where
  "opened st i s ms c = st\<lparr>mallocs := ms, open_inodes := i # open_inodes st, fs_disk := (fs_disk st)\<lparr>read_cnt := c\<rparr>,
     inodes := (inodes st)(i := fresh_inode s (inode_disk_of (sectors (fs_disk st) s)))\<rparr>"

lemma inode_open_fresh:
  assumes "mallocs st = i # ms" and "i \<noteq> NULL" and "disk_ok (fs_disk st)" and "s < capacity (fs_disk st)"
    and "\<forall>q\<in>set (open_inodes st). sector (inodes st q) \<noteq> s"
  shows "inode_open st s = Some (opened st i s ms (read_cnt (fs_disk st) + 1), i)"
proof -
  have "find (\<lambda>q. sector (inodes st q) = s) (open_inodes st) = None" using assms(5) by (simp add: find_None_iff)
  moreover have "read_sector (fs_disk st) s = Some ((fs_disk st)\<lparr>read_cnt := read_cnt (fs_disk st) + 1\<rparr>, sectors (fs_disk st) s)"
    using assms(3,4) by (intro read_sector_eval) (simp_all add: disk_ok_def)
  ultimately show ?thesis using assms(1,2) by (simp add: inode_open_def fs_malloc_def opened_def fresh_inode_def)
qed

text \<open>Finding a name in the root directory, once it is open.\<close>

lemma root_lookup:
  assumes wf: "fs_wf st" and w: "within st p st1" and "sectors (fs_disk st1) = sectors (fs_disk st)" and "root_map st name = Some s"
    and "0 \<notin> set name" and "length e0 = 20"
  obtains c j where "lookup st1 \<lparr>d_inode = p, d_pos = 0\<rparr> name e0 = Some (counted c st1, Some (entries (fs_disk st) (root_inode st) ! j, 20 * int j))"
    "j < length (entries (fs_disk st) (root_inode st))" "in_use (entries (fs_disk st) (root_inode st) ! j)"
    "entry_name (entries (fs_disk st) (root_inode st) ! j) = name" "inode_sector (entries (fs_disk st) (root_inode st) ! j) = s"
proof -
  have ent: "entries_of st1 \<lparr>d_inode = p, d_pos = 0\<rparr> = entries (fs_disk st) (root_inode st)"
    using root_kept(2)[OF wf w] assms(3) w by (simp add: within_def)
  have "dir_wf (entries (fs_disk st) (root_inode st))" using wf by (simp add: fs_wf_def)
  then show ?thesis
  proof (rule lookup_eval[OF within_dir_ok[OF wf w] _ assms(6,5), unfolded ent])
    assume "dir_map (entries (fs_disk st) (root_inode st)) name = None"
    then show ?thesis using assms(4) by (simp add: root_map_def)
  next
    fix c j assume "lookup st1 \<lparr>d_inode = p, d_pos = 0\<rparr> name e0 = Some (counted c st1, Some (entries (fs_disk st) (root_inode st) ! j, 20 * int j))"
      "j < length (entries (fs_disk st) (root_inode st))" "in_use (entries (fs_disk st) (root_inode st) ! j)"
      "entry_name (entries (fs_disk st) (root_inode st) ! j) = name"
      "dir_map (entries (fs_disk st) (root_inode st)) name = Some (inode_sector (entries (fs_disk st) (root_inode st) ! j))"
    then show ?thesis using that assms(4) by (simp add: root_map_def)
  qed
qed

lemma filesys_open_eval:
  assumes wf: "fs_wf st" and m: "mallocs st = p # q # i # f # ms" and nn: "p \<noteq> NULL" "q \<noteq> NULL" "i \<noteq> NULL" "f \<noteq> NULL" and "i \<noteq> p"
    and s: "root_map st name = Some s" "s < capacity (fs_disk st)" "s \<noteq> ROOT_DIR_SECTOR" "\<forall>r\<in>set (open_inodes st). sector (inodes st r) \<noteq> s"
    and nm: "0 \<notin> set name" and e0: "length e0 = 20"
  obtains st' where "filesys_open st name e0 = Some (st', Some \<lparr>f_inode = i, f_pos = 0, deny_write = False\<rparr>)"
    "inodes st' i = fresh_inode s (inode_disk_of (sectors (fs_disk st) s))" "sectors (fs_disk st') = sectors (fs_disk st)"
    "capacity (fs_disk st') = capacity (fs_disk st)" "bounces st' = []" "disk_ok (fs_disk st')"
proof -
  let ?dir = "\<lparr>d_inode = p, d_pos = 0\<rparr>"
  obtain st1 where st1: "dir_open_root st = Some (st1, Some ?dir)" "within st p st1" "mallocs st1 = i # f # ms"
    "sectors (fs_disk st1) = sectors (fs_disk st)" "free_map st1 = free_map st" using dir_open_root_eval[OF wf m nn(1,2)] by blast
  obtain c j where l: "lookup st1 ?dir name e0 = Some (counted c st1, Some (entries (fs_disk st) (root_inode st) ! j, 20 * int j))"
    "inode_sector (entries (fs_disk st) (root_inode st) ! j) = s"
    using root_lookup[OF wf st1(2,4) s(1) nm e0] by metis
  have w: "open_inodes st1 = p # open_inodes st" "inodes st1 p = root_inode st" "\<forall>q\<in>insert (fm_ptr st) (set (open_inodes st)). inodes st1 q = inodes st q"
    "p \<notin> set (open_inodes st)" "capacity (fs_disk st1) = capacity (fs_disk st)" "bounces st1 = bounces st" using st1(2) by (simp_all add: within_def)
  have ok: "disk_ok (fs_disk st1)" using st1(2) by (simp add: within_def fm_inv_def fm_ok_iff inode_ok_def)
  let ?st1 = "counted c st1"
  have "disk_ok (fs_disk ?st1)" using ok by (simp add: counted_def)
  moreover have "\<forall>q\<in>set (open_inodes ?st1). sector (inodes ?st1 q) \<noteq> s" using w s(3,4) by (auto simp: root_inode_def)
  ultimately have o: "inode_open ?st1 s = Some (opened ?st1 i s (f # ms) (read_cnt (fs_disk ?st1) + 1), i)"
    using inode_open_fresh[of ?st1 i "f # ms" s] st1(3) nn(3) s(2) w(5) by simp
  let ?st2 = "opened ?st1 i s (f # ms) (read_cnt (fs_disk ?st1) + 1)"
  have "inodes ?st2 p = root_inode st" using w(2) assms(7) by (simp add: opened_def)
  then have cl: "dir_close ?st2 (Some ?dir) =
      Some (?st2\<lparr>inodes := (inodes ?st2)(p := (root_inode st)\<lparr>open_cnt := 0\<rparr>), open_inodes := i # open_inodes st\<rparr>)"
    using nn(1) w(1,4) assms(7) by (simp add: dir_close_def inode_close_def Let_def upd_inode_def root_inode_def fresh_inode_def opened_def)
  define st2 where "st2 = ?st2"
  define st3 where "st3 = st2\<lparr>inodes := (inodes st2)(p := (root_inode st)\<lparr>open_cnt := 0\<rparr>), open_inodes := i # open_inodes st\<rparr>"
  note o' = o[folded st2_def] and cl' = cl[folded st2_def, folded st3_def]
  have "mallocs st3 = f # ms" by (simp add: st3_def st2_def opened_def)
  then have "filesys_open st name e0 = Some (st3\<lparr>mallocs := ms\<rparr>, Some \<lparr>f_inode = i, f_pos = 0, deny_write = False\<rparr>)"
    using st1(1) l o' cl' nn by (simp add: filesys_open_def dir_lookup_def file_open_def fs_malloc_def)
  moreover have "bounces st = []" using wf by (simp add: fs_wf_def fm_inv_def fm_ok_iff)
  ultimately show ?thesis
    using that[of "st3\<lparr>mallocs := ms\<rparr>"] st1(4) assms(7) w ok by (simp add: st3_def st2_def opened_def) (simp add: counted_def)
qed

text \<open>The last reference to a removed inode gives its sectors back.\<close>

lemma inode_close_removed:
  assumes ok: "fm_ok st" and p: "p \<noteq> NULL" "p \<noteq> fm_ptr st" and i: "open_cnt (inodes st p) = 1" "removed (inodes st p)"
    and n: "0 \<le> len (data (inodes st p))" "len (data (inodes st p)) < 2 ^ 31 - 511" and bnd: "unat (start (data (inodes st p))) \<le> unat (bit_cnt (free_map st))"
    and used: "insert (unat (sector (inodes st p))) (ino_sectors (inodes st p)) \<subseteq> sectors_used st" and d: "unat (sector (inodes st p)) \<notin> ino_sectors (inodes st p)"
  obtains fm dk where "inode_close st p = Some (st\<lparr>inodes := (inodes st)(p := (inodes st p)\<lparr>open_cnt := 0\<rparr>), open_inodes := remove1 p (open_inodes st), free_map := fm, fs_disk := dk\<rparr>)"
    "fm_inv (st\<lparr>inodes := (inodes st)(p := (inodes st p)\<lparr>open_cnt := 0\<rparr>), open_inodes := remove1 p (open_inodes st), free_map := fm, fs_disk := dk\<rparr>)"
    "bit_cnt fm = bit_cnt (free_map st)" "capacity dk = capacity (fs_disk st)"
    "sectors_used (st\<lparr>free_map := fm\<rparr>) = sectors_used st - insert (unat (sector (inodes st p))) (ino_sectors (inodes st p))"
    "\<And>s. unat s \<notin> ino_sectors (fm_inode st) \<Longrightarrow> sectors dk s = sectors (fs_disk st) s"
proof -
  let ?i = "inodes st p" and ?st = "st\<lparr>inodes := (inodes st)(p := (inodes st p)\<lparr>open_cnt := 0\<rparr>), open_inodes := remove1 p (open_inodes st)\<rparr>"
  have fi: "fm_inode ?st = fm_inode st" using p(2) by (auto simp: fm_inode_def fm_ptr_def)
  have ok1: "fm_ok ?st" using ok fi by (simp add: fm_ok_iff)
  have u1: "sectors_used ?st = sectors_used st" by (simp add: sectors_used_def)
  have r1: "{unat (sector ?i)..<unat (sector ?i) + unat (1 :: size_t)} = {unat (sector ?i)}" by auto
  have s1: "{unat (sector ?i)} \<subseteq> sectors_used ?st" "unat (sector ?i) + unat (1 :: size_t) \<le> unat (bit_cnt (free_map ?st))"
    using used u1 by (auto simp: sectors_used_def)
  obtain fm1 d1 where 1: "free_map_release ?st (sector ?i) 1 = Some (?st\<lparr>free_map := fm1, fs_disk := d1\<rparr>)"
      "fm_ok (?st\<lparr>free_map := fm1, fs_disk := d1\<rparr>)" "fm_saved (?st\<lparr>free_map := fm1, fs_disk := d1\<rparr>)" "bit_cnt fm1 = bit_cnt (free_map ?st)"
      "sectors_used (?st\<lparr>free_map := fm1, fs_disk := d1\<rparr>) = sectors_used ?st - {unat (sector ?i)}"
      "capacity d1 = capacity (fs_disk ?st)" "\<And>s. unat s \<notin> ino_sectors (fm_inode ?st) \<Longrightarrow> sectors d1 s = sectors (fs_disk ?st) s"
    by (rule free_map_release_eval[OF ok1 s1(2), unfolded r1, OF s1(1)]) (rule that)
  let ?st1 = "?st\<lparr>free_map := fm1, fs_disk := d1\<rparr>" and ?k = "bytes_to_sectors (len (data ?i))"
  have fi1: "fm_inode ?st1 = fm_inode st" using fi by (simp add: fm_inode_def)
  have r2: "{unat (start (data ?i))..<unat (start (data ?i)) + unat ?k} = ino_sectors ?i"
    using bytes_to_sectors_eval[OF n] by (simp add: ino_sectors_def)
  have le: "unat (start (data ?i)) + unat ?k \<le> unat (bit_cnt (free_map st))"
  proof (cases "unat ?k")
    case (Suc k)
    then have "unat (start (data ?i)) + k \<in> ino_sectors ?i" unfolding r2[symmetric] by simp
    then have "unat (start (data ?i)) + k \<in> sectors_used st" using used by auto
    then show ?thesis using Suc by (simp add: sectors_used_def)
  qed (use bnd in simp)
  have le1: "unat (start (data ?i)) + unat ?k \<le> unat (bit_cnt (free_map ?st1))" using le 1(4) by simp
  have sub: "ino_sectors ?i \<subseteq> sectors_used ?st1" unfolding 1(5) u1 using used d by auto
  obtain fm2 d2 where 2: "free_map_release ?st1 (start (data ?i)) ?k = Some (?st1\<lparr>free_map := fm2, fs_disk := d2\<rparr>)"
      "fm_ok (?st1\<lparr>free_map := fm2, fs_disk := d2\<rparr>)" "fm_saved (?st1\<lparr>free_map := fm2, fs_disk := d2\<rparr>)" "bit_cnt fm2 = bit_cnt (free_map ?st1)"
      "sectors_used (?st1\<lparr>free_map := fm2, fs_disk := d2\<rparr>) = sectors_used ?st1 - ino_sectors ?i"
      "capacity d2 = capacity (fs_disk ?st1)" "\<And>s. unat s \<notin> ino_sectors (fm_inode ?st1) \<Longrightarrow> sectors d2 s = sectors (fs_disk ?st1) s"
    by (rule free_map_release_eval[OF 1(2) le1, unfolded r2, OF sub]) (rule that)
  have "inode_close st p = Some (?st\<lparr>free_map := fm2, fs_disk := d2\<rparr>)"
    using p(1) i 1(1) 2(1) by (simp add: inode_close_def Let_def upd_inode_def)
  moreover have "sectors_used (st\<lparr>free_map := fm2\<rparr>) = sectors_used st - insert (unat (sector ?i)) (ino_sectors ?i)"
    using 2(5) 1(5) by (auto simp: sectors_used_def)
  moreover have "fm_inv (?st\<lparr>free_map := fm2, fs_disk := d2\<rparr>)" using 2(2,3) by (simp add: fm_inv_def)
  ultimately show ?thesis using that[where fm = fm2 and dk = d2] 1(4,6,7) 2(4,6,7) fi fi1 by simp
qed

text \<open>A file whose sectors are in use and shared with nothing else.\<close>

definition file_ok :: "fs \<Rightarrow> disk_sector_t \<Rightarrow> bool" where
  "file_ok st s \<longleftrightarrow> (let i = fresh_inode s (inode_disk_of (sectors (fs_disk st) s)) in
     0 \<le> len (data i) \<and> len (data i) < 2 ^ 31 - 511 \<and> unat (start (data i)) \<le> unat (capacity (fs_disk st)) \<and>
     insert (unat s) (ino_sectors i) \<subseteq> sectors_used st - fixed_sectors st \<and> unat s \<notin> ino_sectors i)"

lemma set_in_use_False: "length e = 20 \<Longrightarrow> \<not> in_use (set_in_use False e) \<and> length (set_in_use False e) = 20"
  by (simp add: in_use_def set_in_use_def)

lemma filesys_remove_eval:
  assumes wf: "fs_wf st" and m: "mallocs st = p # q # i # ms" and nn: "p \<noteq> NULL" "q \<noteq> NULL" "i \<noteq> NULL" and "i \<noteq> p"
    and s: "root_map st name = Some s" and fok: "file_ok st s" and nm: "0 \<notin> set name" and e0: "length e0 = 20"
  obtains st' where "filesys_remove st name e0 = Some (st', True)" "fs_wf st'" "root_map st' = (root_map st)(name := None)"
    "sectors_used st' = sectors_used st - insert (unat s) (ino_sectors (fresh_inode s (inode_disk_of (sectors (fs_disk st) s))))"
proof -
  let ?dir = "\<lparr>d_inode = p, d_pos = 0\<rparr>" and ?fi = "fresh_inode s (inode_disk_of (sectors (fs_disk st) s))" and ?es = "entries (fs_disk st) (root_inode st)"
  have F: "0 \<le> len (data ?fi)" "len (data ?fi) < 2 ^ 31 - 511" "unat (start (data ?fi)) \<le> unat (capacity (fs_disk st))"
     "insert (unat s) (ino_sectors ?fi) \<subseteq> sectors_used st" "insert (unat s) (ino_sectors ?fi) \<inter> fixed_sectors st = {}" "unat s \<notin> ino_sectors ?fi"
    using fok by (auto simp: file_ok_def Let_def)
  have inv: "bit_cnt (free_map st) = capacity (fs_disk st)" "{0, 1} \<inter> (ino_sectors (fm_inode st) \<union> ino_sectors (root_inode st)) = {}"
    "ino_sectors (fm_inode st) \<inter> ino_sectors (root_inode st) = {}" "dir_wf ?es" "inode_ok (fs_disk st) (root_inode st)" using wf by (simp_all add: fs_wf_def)
  have i: "i \<noteq> fm_ptr st" "i \<notin> set (open_inodes st)" using wf m by (auto simp: fs_wf_def)
  obtain st1 where st1: "dir_open_root st = Some (st1, Some ?dir)" "within st p st1" "mallocs st1 = i # ms"
    "sectors (fs_disk st1) = sectors (fs_disk st)" "free_map st1 = free_map st" using dir_open_root_eval[OF wf m nn(1,2)] by blast
  obtain c j where l: "lookup st1 ?dir name e0 = Some (counted c st1, Some (?es ! j, 20 * int j))" "j < length ?es" "in_use (?es ! j)"
    "entry_name (?es ! j) = name" "inode_sector (?es ! j) = s"
    using root_lookup[OF wf st1(2,4) s nm e0] by metis
  define st1' where "st1' = counted c st1"
  have w: "within st p st1'" unfolding st1'_def using st1(2) by (rule within_counted)
  have w1: "open_inodes st1' = p # open_inodes st" "inodes st1' p = root_inode st" "\<forall>q\<in>insert (fm_ptr st) (set (open_inodes st)). inodes st1' q = inodes st q"
    "p \<notin> set (open_inodes st)" "capacity (fs_disk st1') = capacity (fs_disk st)" "fm_inv st1'" "p \<noteq> fm_ptr st" using w by (simp_all add: within_def)
  have s1: "sectors (fs_disk st1') = sectors (fs_disk st)" "mallocs st1' = i # ms" "free_map st1' = free_map st" using st1 by (simp_all add: st1'_def)
  have "unat s < unat (capacity (fs_disk st))" using F(4) inv(1) by (auto simp: sectors_used_def)
  then have sc: "s < capacity (fs_disk st1')" using w1(5) by (simp add: word_less_nat_alt)
  have "\<forall>q\<in>set (open_inodes st1'). sector (inodes st1' q) \<noteq> s" using w1(1-3) F(5) by (auto simp: root_inode_def fixed_sectors_def)
  moreover have "disk_ok (fs_disk st1')" using w1(6) by (simp add: fm_inv_def fm_ok_iff inode_ok_def)
  ultimately have o: "inode_open st1' s = Some (opened st1' i s ms (read_cnt (fs_disk st1') + 1), i)"
    using inode_open_fresh[of st1' i ms s] s1(2) nn(3) sc by blast
  define st2 where "st2 = opened st1' i s ms (read_cnt (fs_disk st1') + 1)"
  have i2: "inodes st2 = (inodes st1')(i := ?fi)" "open_inodes st2 = i # p # open_inodes st" "sectors (fs_disk st2) = sectors (fs_disk st)"
    "free_map st2 = free_map st" "capacity (fs_disk st2) = capacity (fs_disk st)" "mallocs st2 = ms" "free_map_file st2 = free_map_file st" "bounces st2 = bounces st"
    using w1 s1 w by (simp_all add: st2_def opened_def within_def)
  have fi2: "fm_inode st2 = fm_inode st" using i2(1,7) i(1) w1(3) by (auto simp: fm_inode_def fm_ptr_def)
  have "fm_inode st1' = fm_inode st" using w by (rule within_fm_inode)
  then have fok2: "fm_ok st2" using w1(6) fi2 by (simp add: fm_inv_def fm_ok_iff st2_def opened_def)
  have p2: "inodes st2 (d_inode ?dir) = root_inode st" using i2(1) w1(2) assms(6) by simp
  have dok: "dir_ok st2 ?dir" using within_dir_ok[OF wf w] p2 w1(2) by (simp add: dir_ok_def st2_def opened_def)
  have es2: "entries_of st2 ?dir = ?es"
    unfolding p2 entries_def using ino_bytes_cong[OF inv(5), of "fs_disk st2"] i2(3) by simp
  have e': "length (set_in_use False (?es ! j)) = 20" "\<not> in_use (set_in_use False (?es ! j))"
    using set_in_use_False length_entry[OF dok] es2 l(2) by simp_all
  have j2: "j < length (entries_of st2 ?dir)" using l(2) es2 by simp
  obtain d3 where d3: "write_entry st2 ?dir (set_in_use False (?es ! j)) (20 * int j) = Some (st2\<lparr>fs_disk := d3\<rparr>, 20)"
    "dir_ok (st2\<lparr>fs_disk := d3\<rparr>) ?dir" "entries_of (st2\<lparr>fs_disk := d3\<rparr>) ?dir = (entries_of st2 ?dir)[j := set_in_use False (?es ! j)]"
    "capacity d3 = capacity (fs_disk st2)" "\<And>x. unat x \<notin> ino_sectors (inodes st2 (d_inode ?dir)) \<Longrightarrow> sectors d3 x = sectors (fs_disk st2) x"
    by (rule write_entry_eval[OF dok e'(1) j2]) (rule that)
  define st4 where "st4 = upd_inode (\<lambda>i. i\<lparr>removed := True\<rparr>) i (st2\<lparr>fs_disk := d3\<rparr>)"
  have i4: "inodes st4 = (inodes st1')(i := ?fi\<lparr>removed := True\<rparr>)" "open_inodes st4 = i # p # open_inodes st" "free_map st4 = free_map st" "fs_disk st4 = d3"
    "mallocs st4 = ms" "free_map_file st4 = free_map_file st" "bounces st4 = bounces st"
    using i2 by (simp_all add: st4_def upd_inode_def)
  have fp4: "fm_ptr st4 = fm_ptr st" using i4(6) by (simp add: fm_ptr_def)
  have fi4: "fm_inode st4 = fm_inode st" using i4(1,6) i(1) w1(3) by (auto simp: fm_inode_def fm_ptr_def)
  have ok4: "fm_ok st4"
    using fok2 fi2 fi4 i4(3,4,6,7) i2(4,5,7,8) d3(2,4) by (simp add: fm_ok_iff inode_ok_def dir_ok_def)
  have u4: "sectors_used st4 = sectors_used st" using i4(3) by (simp add: sectors_used_def)
  have isec: "ino_sectors (inodes st4 i) = ino_sectors ?fi" "sector (inodes st4 i) = s" using i4(1) by (simp_all add: ino_sectors_def)
  obtain fm dk where r: "inode_close st4 i = Some (st4\<lparr>inodes := (inodes st4)(i := (inodes st4 i)\<lparr>open_cnt := 0\<rparr>), open_inodes := remove1 i (open_inodes st4), free_map := fm, fs_disk := dk\<rparr>)"
    "fm_inv (st4\<lparr>inodes := (inodes st4)(i := (inodes st4 i)\<lparr>open_cnt := 0\<rparr>), open_inodes := remove1 i (open_inodes st4), free_map := fm, fs_disk := dk\<rparr>)"
    "bit_cnt fm = bit_cnt (free_map st4)" "capacity dk = capacity (fs_disk st4)"
    "sectors_used (st4\<lparr>free_map := fm\<rparr>) = sectors_used st4 - insert (unat (sector (inodes st4 i))) (ino_sectors (inodes st4 i))"
    "\<And>x. unat x \<notin> ino_sectors (fm_inode st4) \<Longrightarrow> sectors dk x = sectors (fs_disk st4) x"
    by (rule inode_close_removed[OF ok4 nn(3)]) (use i(1) fp4 i4(1,3) F inv(1) isec u4 in auto)
  define st5 where "st5 = st4\<lparr>inodes := (inodes st4)(i := (inodes st4 i)\<lparr>open_cnt := 0\<rparr>), open_inodes := remove1 i (open_inodes st4), free_map := fm, fs_disk := dk\<rparr>"
  have w5: "within st p st5"
    using r(2,3,4) i4 i w1 assms(6) nn(1) d3(4) i2(5) m by (auto simp: within_def st5_def)
  have u5: "sectors_used st5 = sectors_used st - insert (unat s) (ino_sectors ?fi)" using r(5) isec u4 by (simp add: st5_def sectors_used_def)
  have out: "sectors (fs_disk st5) x = sectors d3 x" if "unat x \<notin> ino_sectors (fm_inode st)" for x using r(6)[of x] that fi4 i4(4) by (simp add: st5_def)
  have root1: "sectors (fs_disk st5) ROOT_DIR_SECTOR = sectors (fs_disk st) ROOT_DIR_SECTOR"
    using out[of 1] d3(5)[of 1] p2 i2(3) inv(2) by auto
  have ok3: "inode_ok d3 (root_inode st)" using d3(2) p2 by (simp add: dir_ok_def)
  have "ino_bytes (fs_disk st5) (root_inode st) = ino_bytes d3 (root_inode st)"
    by (rule ino_bytes_cong[OF ok3]) (use out inv(3) in auto)
  then have "entries (fs_disk st5) (root_inode st) = entries d3 (root_inode st)" by (simp add: entries_def)
  then have es5: "entries (fs_disk st5) (root_inode st) = ?es[j := set_in_use False (?es ! j)]"
    using d3(3) p2 es2 by simp
  note er = dir_wf_erase[OF inv(4) l(2,3) e'(2)]
  obtain st6 where st6: "dir_close st5 (Some ?dir) = Some st6" "fs_wf st6" "free_map st6 = free_map st5" "root_map st6 = dir_map (entries (fs_disk st5) (root_inode st))"
    by (rule close_root[OF wf w5 root1]) (use u5 F(5) fixed_sectors_used[OF wf] es5 er(1) in auto)
  have "filesys_remove st name e0 = Some (st6, True)"
    using st1(1) l o[folded st2_def] d3(1) r(1)[folded st5_def] st6(1) nn(3)
    by (simp add: filesys_remove_def dir_remove_def inode_remove_def flip: st1'_def st4_def)
  then show ?thesis
    using that[of st6] st6 es5 er(2) l(4) u5 by (simp add: root_map_def sectors_used_def)
qed

subsection \<open>Properties of the file system\<close>

text \<open>
  C1. \<open>filesys_create\<close> keeps the file system consistent and is atomic as seen through the root directory. It always
  returns. If it succeeds, the name was new, it now maps to a sector that was free, and that sector holds an inode of the requested
  length whose data is zero and lies on sectors that were free; exactly those sectors become used. If it fails, the root directory is the same
  map and no sector that was in use is released. (This is for a state in which there is memory for the inode and the directory, and in which no
  bounce buffer is refused, which is part of \<open>fs_wf\<close>: the search in a directory takes a failed read for its end.)
\<close>

theorem filesys_create_correct:
  assumes "fs_wf st" and "mallocs st = p # q # r # ms" and "p \<noteq> NULL" and "q \<noteq> NULL" and "0 \<le> n" and "n < 2 ^ 31 - 511"
    and "0 \<notin> set name" and "length e0 = 20"
  shows "\<exists>st' ok. filesys_create st name n e0 = Some (st', ok) \<and> fs_wf st' \<and>
    (if ok then \<exists>sec i. root_map st name = None \<and> root_map st' = (root_map st)(name \<mapsto> sec) \<and> unat sec \<notin> sectors_used st \<and>
         i = fresh_inode sec (inode_disk_of (sectors (fs_disk st') sec)) \<and> inode_length i = n \<and> ino_bytes (fs_disk st') i = replicate (nat n) 0 \<and>
         ino_sectors i \<inter> insert (unat sec) (sectors_used st) = {} \<and> sectors_used st' = insert (unat sec) (sectors_used st) \<union> ino_sectors i
     else root_map st' = root_map st \<and> sectors_used st \<subseteq> sectors_used st')"
  using assms
proof (cases rule: filesys_create_cases)
  case (fail st')
  then show ?thesis by (intro exI[of _ st'] exI[of _ False]) simp
next
  case (leak st' D)
  then show ?thesis by (intro exI[of _ st'] exI[of _ False]) simp
next
  case (ok st' sec i)
  then show ?thesis
    by (intro exI[of _ st'] exI[of _ True]) (simp add: inode_length_def, intro exI[of _ sec], simp)
qed

text \<open>
  C34. A failed \<open>filesys_create\<close> can lose disk space. If the name already exists, there is memory, and enough consecutive sectors are free for the
  new file even after one more sector is taken, then the call fails and releases the inode's sector only: the sectors
  allocated for the data, as many as \<open>n\<close> bytes need, stay marked although no directory entry leads to them.
\<close>

theorem filesys_create_leaks:
  assumes "fs_wf st" and "mallocs st = p # q # r # ms" and "p \<noteq> NULL" and "q \<noteq> NULL" and "r \<noteq> NULL" and "0 \<le> n" and "n < 2 ^ 31 - 511"
    and "0 \<notin> set name" and "length e0 = 20" and "root_map st name \<noteq> None"
    and "\<forall>x. \<exists>i. i + (nat n + 511) div 512 \<le> unat (capacity (fs_disk st)) \<and> {i..<i + (nat n + 511) div 512} \<inter> insert x (sectors_used st) = {}"
    and "\<exists>x<unat (capacity (fs_disk st)). x \<notin> sectors_used st"
  shows "\<exists>st' D. filesys_create st name n e0 = Some (st', False) \<and> root_map st' = root_map st \<and>
    card D = (nat n + 511) div 512 \<and> D \<inter> sectors_used st = {} \<and> sectors_used st' = sectors_used st \<union> D"
  using assms(1-4,6-9)
proof (cases rule: filesys_create_cases)
  case (fail st')
  then show ?thesis using assms(5,11,12) by auto
next
  case (leak st' D)
  then show ?thesis by blast
next
  case (ok st' sec i)
  then show ?thesis using assms(10) by simp
qed

text \<open>
  C19. A file that was created can be opened under its name and reads as zeros: after a successful \<open>filesys_create\<close> of \<open>n\<close> bytes,
  \<open>filesys_open\<close> of that name gives a file of length \<open>n\<close> at position 0, and \<open>file_read\<close> of \<open>n\<close> bytes returns \<open>n\<close> zeros and moves the position to the end.
\<close>

theorem filesys_create_open:
  assumes "fs_wf st" and "mallocs st = p # q # r # p' # q' # i # f # ms" and "NULL \<notin> {p, q, p', q', i, f}" and "i \<noteq> p'"
    and "0 \<le> n" and "n < 2 ^ 31 - 511" and "0 \<notin> set name" and "length e0 = 20"
    and "filesys_create st name n e0 = Some (st', True)"
  shows "\<exists>st'' file st3 file'. filesys_open st' name e0 = Some (st'', Some file) \<and> file_length st'' file = n \<and> file_tell file = 0 \<and>
    file_read st'' file n = Some (st3, file', replicate (nat n) 0) \<and> file_tell file' = n"
proof -
  have pq: "p \<noteq> NULL" "q \<noteq> NULL" "p' \<noteq> NULL" "q' \<noteq> NULL" "i \<noteq> NULL" "f \<noteq> NULL" using assms(3) by auto
  from assms(1,2) pq(1,2) assms(5-8) show ?thesis
  proof (cases rule: filesys_create_cases)
    case (ok sta sec ino)
    then have st': "sta = st'" using assms(9) by simp
    note ok = ok[unfolded st']
    have su: "unat sec \<in> sectors_used st'" using ok(10) by simp
    have cap: "bit_cnt (free_map st') = capacity (fs_disk st')" using ok(2) by (simp add: fs_wf_def)
    have "sec < capacity (fs_disk st')" using su cap by (simp add: sectors_used_def word_less_nat_alt)
    moreover have "sec \<noteq> ROOT_DIR_SECTOR" using ok(5) assms(1) by (auto simp: fs_wf_def)
    moreover have "\<forall>r\<in>set (open_inodes st'). sector (inodes st' r) \<noteq> sec" using ok(5,12,13) assms(1) by (auto simp: fs_wf_def)
    moreover have "root_map st' name = Some sec" using ok(4) by simp
    ultimately obtain st'' where st'': "filesys_open st' name e0 = Some (st'', Some \<lparr>f_inode = i, f_pos = 0, deny_write = False\<rparr>)"
      "inodes st'' i = fresh_inode sec ino" "sectors (fs_disk st'') = sectors (fs_disk st')"
      "capacity (fs_disk st'') = capacity (fs_disk st')" "bounces st'' = []" "disk_ok (fs_disk st'')"
      using filesys_open_eval[OF ok(2,11) pq(3-6) assms(4) _ _ _ _ assms(7,8)] ok(6) by metis
    let ?i = "fresh_inode sec ino"
    have "ino_sectors ?i \<subseteq> sectors_used st'" using ok(10) by auto
    then have iok: "inode_ok (fs_disk st'') ?i" using st''(4,6) cap ok(7) assms(5) by (auto simp: inode_ok_def sectors_used_def)
    have "ino_bytes (fs_disk st') ?i = ino_bytes (fs_disk st'') ?i" by (rule ino_bytes_cong[OF iok]) (simp add: st''(3))
    then have bs: "ino_bytes (fs_disk st'') ?i = replicate (nat n) 0" using ok(8) by simp
    obtain k c where "inode_read_at (fs_disk st'') True ?i n 0 = Some ((fs_disk st'')\<lparr>read_cnt := c\<rparr>, take k (drop (nat 0) (ino_bytes (fs_disk st'') ?i)))"
      "k = xfer ?i n 0"
      by (rule inode_read_at_eval[OF iok, of 0 True n]) simp_all
    moreover have "xfer ?i n 0 = nat n" using ok(7) by (simp add: xfer_def)
    ultimately have "inode_read_at (fs_disk st'') True ?i n 0 = Some ((fs_disk st'')\<lparr>read_cnt := c\<rparr>, replicate (nat n) 0)" using bs by simp
    then show ?thesis using st'' ok(7) assms(5) by (simp add: file_length_def inode_length_def file_tell_def file_read_def)
  qed (use assms(9) in simp_all)
qed

text \<open>
  C18. Removing a file that nobody has open gives back everything it used: after a successful \<open>filesys_create\<close> and \<open>filesys_remove\<close> of the same name the sectors in use and the map of
  the root directory are those from before, and the file system is consistent.
\<close>

theorem filesys_create_remove:
  assumes "fs_wf st" and "mallocs st = p # q # r # p' # q' # i # ms" and "NULL \<notin> {p, q, p', q', i}" and "i \<noteq> p'"
    and "0 \<le> n" and "n < 2 ^ 31 - 511" and "0 \<notin> set name" and "length e0 = 20"
    and "filesys_create st name n e0 = Some (st', True)"
  shows "\<exists>st''. filesys_remove st' name e0 = Some (st'', True) \<and> fs_wf st'' \<and> root_map st'' = root_map st \<and> sectors_used st'' = sectors_used st"
proof -
  have pq: "p \<noteq> NULL" "q \<noteq> NULL" "p' \<noteq> NULL" "q' \<noteq> NULL" "i \<noteq> NULL" using assms(3) by auto
  from assms(1,2) pq(1,2) assms(5-8) show ?thesis
  proof (cases rule: filesys_create_cases)
    case (ok sta sec ino)
    then have st': "sta = st'" using assms(9) by simp
    note ok = ok[unfolded st']
    let ?F = "insert (unat sec) (ino_sectors (fresh_inode sec ino))"
    have cap: "bit_cnt (free_map st') = capacity (fs_disk st')" using ok(2) by (simp add: fs_wf_def)
    have F: "?F \<inter> sectors_used st = {}" "sectors_used st' = sectors_used st \<union> ?F" "unat sec \<notin> ino_sectors (fresh_inode sec ino)"
      using ok(5,9,10) by auto
    have fx: "fixed_sectors st' \<subseteq> sectors_used st" using ok(14) fixed_sectors_used[OF assms(1)] by simp
    have "file_ok st' sec" using ok(6,7) assms(5,6) F fx ok(15) by (auto simp: file_ok_def Let_def)
    moreover have "root_map st' name = Some sec" using ok(4) by simp
    ultimately obtain st'' where "filesys_remove st' name e0 = Some (st'', True)" "fs_wf st''" "root_map st'' = (root_map st')(name := None)"
      "sectors_used st'' = sectors_used st' - ?F"
      using filesys_remove_eval[OF ok(2,11) pq(3-5) assms(4) _ _ assms(7,8)] ok(6) by metis
    moreover have "(root_map st')(name := None) = root_map st" using ok(3,4) by auto
    ultimately show ?thesis using F by auto
  qed (use assms(9) in simp_all)
qed

subsection \<open>An example\<close>

text \<open>A disk of 100 sectors with one file, whose name is \<open>a\<close>, in its root directory.\<close>

definition example_entry :: dir_entry where
  "example_entry = bytes_of_word 9 @ [97] @ replicate 14 0 @ [1]"

definition example_root_disk :: disk where
  "example_root_disk = example_disk\<lparr>sectors := \<lambda>s.
     if s = 0 then inode_disk_bytes \<lparr>start = 2, len = 16, magic = INODE_MAGIC\<rparr>
     else if s = 1 then inode_disk_bytes \<lparr>start = 3, len = 60, magic = INODE_MAGIC\<rparr>
     else if s = 2 then 15 # replicate 511 0
     else if s = 3 then example_entry @ replicate 492 0 else replicate 512 0\<rparr>"

definition example_root_fs :: fs where
  "example_root_fs = \<lparr>fs_disk = example_root_disk, free_map = \<lparr>bit_cnt = 100, bits = [15, 0, 0, 0]\<rparr>,
     free_map_file = Some \<lparr>f_inode = 100, f_pos = 0, deny_write = False\<rparr>,
     inodes = \<lambda>_. (example_inode 2 16)\<lparr>sector := 0\<rparr>, open_inodes = [100], mallocs = [200, 300, 400, 500, 600, 700, 800], bounces = []\<rparr>"

lemma example_root_disk_ok: "disk_ok example_root_disk"
proof -
  have "length example_entry = 20" by (simp add: example_entry_def)
  then show ?thesis by (simp add: disk_ok_def example_root_disk_def example_disk_def)
qed

lemma example_root_inodes:
  "fm_inode example_root_fs = (example_inode 2 16)\<lparr>sector := 0\<rparr>"
  "root_inode example_root_fs = fresh_inode 1 \<lparr>start = 3, len = 60, magic = INODE_MAGIC\<rparr>"
  "ino_sectors (fm_inode example_root_fs) = {2}" "ino_sectors (root_inode example_root_fs) = {3}"
proof -
  show 1: "fm_inode example_root_fs = (example_inode 2 16)\<lparr>sector := 0\<rparr>" by (simp add: fm_inode_def example_root_fs_def)
  show 2: "root_inode example_root_fs = fresh_inode 1 \<lparr>start = 3, len = 60, magic = INODE_MAGIC\<rparr>"
    by (simp add: root_inode_def example_root_fs_def example_root_disk_def inode_disk_roundtrip)
  show "ino_sectors (fm_inode example_root_fs) = {2}" "ino_sectors (root_inode example_root_fs) = {3}"
    unfolding 1 2 by (auto simp: ino_sectors_def example_inode_def)
qed

lemma example_root_used: "sectors_used example_root_fs = {0, 1, 2, 3}"
proof -
  have "filter (\<lambda>k. bitmap_abs \<lparr>bit_cnt = 100, bits = [15, 0, 0, 0]\<rparr> ! k) [0..<100] = [0, 1, 2, 3]" by code_simp
  then have "set (filter (\<lambda>k. bitmap_abs \<lparr>bit_cnt = 100, bits = [15, 0, 0, 0]\<rparr> ! k) [0..<100]) = set [0, 1, 2, 3]" by (rule arg_cong)
  then show ?thesis by (simp add: sectors_used_def example_root_fs_def)
qed

lemma example_root_fm_inv: "fm_inv example_root_fs"
proof -
  have "ino_byte example_root_disk (fm_inode example_root_fs) j = (15 # replicate 15 0) ! j" if "j < 16" for j
    using that by (cases j) (simp_all add: ino_byte_def example_root_disk_def example_root_inodes(1) example_inode_def)
  then have "ino_bytes example_root_disk (fm_inode example_root_fs) = 15 # replicate 15 0"
    by (intro nth_equalityI) (simp_all add: ino_bytes_def example_root_inodes(1) example_inode_def)
  moreover have "bitmap_bytes \<lparr>bit_cnt = 100, bits = [15, 0, 0, 0]\<rparr> = 15 # replicate 15 0" by code_simp
  ultimately have "fm_saved example_root_fs" by (simp add: fm_saved_def) (simp add: example_root_fs_def)
  moreover have "bitmap_wf (free_map example_root_fs)" by (simp add: example_root_fs_def bitmap_wf_def elem_cnt_def DIV_ROUND_UP_def)
  moreover have "inode_ok (fs_disk example_root_fs) (fm_inode example_root_fs)"
    using example_root_disk_ok example_root_inodes(3)
    by (simp add: inode_ok_def example_root_inodes(1)) (simp add: example_root_fs_def example_root_disk_def example_disk_def example_inode_def)
  moreover have "deny_write_cnt (fm_inode example_root_fs) = 0" "len (data (fm_inode example_root_fs)) = 16"
    unfolding example_root_inodes(1) by (simp_all add: example_inode_def)
  ultimately show ?thesis by (simp add: fm_inv_def fm_ok_iff) (simp add: example_root_fs_def)
qed

lemma example_root_entries: "entries (fs_disk example_root_fs) (root_inode example_root_fs) = [example_entry, replicate 20 0, replicate 20 0]"
proof -
  have len: "length example_entry = 20" by (simp add: example_entry_def)
  have "ino_byte example_root_disk (root_inode example_root_fs) j = (example_entry @ replicate 40 0) ! j" if "j < 60" for j
    using that len by (simp add: ino_byte_def example_root_disk_def example_root_inodes(2) nth_append)
  then have "ino_bytes example_root_disk (root_inode example_root_fs) = example_entry @ replicate 40 0"
    using len by (intro nth_equalityI) (simp_all add: ino_bytes_def example_root_inodes(2))
  moreover have "[0..<3] = [0, 1, 2 :: nat]" by (simp add: upt_rec numeral_2_eq_2 numeral_3_eq_3)
  ultimately show ?thesis using len by (simp add: entries_def example_root_inodes(2)) (simp add: example_root_fs_def)
qed

lemma example_entry_facts: "in_use example_entry" "entry_name example_entry = [97]" "0 \<in> set (e_name example_entry)" "length example_entry = 20"
  by code_simp+

lemma example_root_wf: "fs_wf example_root_fs"
proof -
  have "\<not> in_use (replicate 20 0)" by (simp add: in_use_def)
  then have "dir_wf (entries (fs_disk example_root_fs) (root_inode example_root_fs))"
    unfolding example_root_entries using example_entry_facts by (simp add: dir_wf_def names_def)
  moreover have "inode_ok (fs_disk example_root_fs) (root_inode example_root_fs)"
    using example_root_disk_ok example_root_inodes(4)
    by (simp add: inode_ok_def example_root_inodes(2)) (simp add: example_root_fs_def example_root_disk_def example_disk_def)
  moreover have "bit_cnt (free_map example_root_fs) = capacity (fs_disk example_root_fs)" "fm_ptr example_root_fs = 100"
    "open_inodes example_root_fs = [100]" "mallocs example_root_fs = [200, 300, 400, 500, 600, 700, 800]" "sector (inodes example_root_fs 100) = 0"
    by (simp_all add: example_root_fs_def example_root_disk_def example_disk_def fm_ptr_def)
  ultimately show ?thesis
    unfolding fs_wf_def example_root_inodes(3,4) example_root_used using example_root_fm_inv
    by (simp add: example_root_inodes(2))
qed

lemma example_root_map: "root_map example_root_fs [97] \<noteq> None" "root_map example_root_fs [98] = None"
proof -
  have "\<not> in_use (replicate 20 0)" by (simp add: in_use_def)
  then show "root_map example_root_fs [98] = None" "root_map example_root_fs [97] \<noteq> None"
    unfolding root_map_def example_root_entries dir_map_None using example_entry_facts by (auto simp: nth_Cons' intro!: exI[of _ 0])
qed

lemma example_root_room:
  "\<forall>x. \<exists>i. i + (nat 1000 + 511) div 512 \<le> unat (capacity (fs_disk example_root_fs)) \<and> {i..<i + (nat 1000 + 511) div 512} \<inter> insert x (sectors_used example_root_fs) = {}"
  "\<exists>x<unat (capacity (fs_disk example_root_fs)). x \<notin> sectors_used example_root_fs"
proof -
  have c: "unat (capacity (fs_disk example_root_fs)) = 100" by (simp add: example_root_fs_def example_root_disk_def example_disk_def)
  show "\<exists>x<unat (capacity (fs_disk example_root_fs)). x \<notin> sectors_used example_root_fs"
    unfolding c example_root_used by (rule exI[of _ 50]) simp
  have "\<exists>i. i + 2 \<le> 100 \<and> {i..<i + 2} \<inter> insert x {0, 1, 2, 3} = {}" for x :: nat
    by (cases "x < 20") (auto intro: exI[of _ 30] exI[of _ 10])
  then show "\<forall>x. \<exists>i. i + (nat 1000 + 511) div 512 \<le> unat (capacity (fs_disk example_root_fs)) \<and> {i..<i + (nat 1000 + 511) div 512} \<inter> insert x (sectors_used example_root_fs) = {}"
    unfolding c example_root_used by simp
qed

lemma example_create: "\<exists>st'. filesys_create example_root_fs [98] 1000 (replicate 20 0) = Some (st', True)"
proof -
  have m: "mallocs example_root_fs = 200 # 300 # 400 # [500, 600, 700, 800]" by (simp add: example_root_fs_def)
  have e: "\<exists>e\<in>set (entries (fs_disk example_root_fs) (root_inode example_root_fs)). \<not> in_use e"
    unfolding example_root_entries by (simp add: in_use_def)
  have side: "(200 :: ptr) \<noteq> NULL" "(300 :: ptr) \<noteq> NULL" "0 \<le> (1000 :: int)" "(1000 :: int) < 2 ^ 31 - 511" "0 \<notin> set [98 :: uint8]" "length (replicate 20 (0 :: uint8)) = 20"
    by simp_all
  from example_root_wf m side show ?thesis
  proof (cases rule: filesys_create_cases)
    case (fail st')
    then show ?thesis using example_root_room by auto
  next
    case (leak st' D)
    then show ?thesis using example_root_map(2) e by simp
  qed blast
qed

theorem filesys_create_correct_witness:
  "\<exists>st' ok. filesys_create example_root_fs [98] 1000 (replicate 20 0) = Some (st', ok) \<and> fs_wf st'"
proof -
  have "mallocs example_root_fs = 200 # 300 # 400 # [500, 600, 700, 800]" by (simp add: example_root_fs_def)
  then show ?thesis using filesys_create_correct[OF example_root_wf, of 200 300 400 "[500, 600, 700, 800]" 1000 "[98]" "replicate 20 0"] by auto
qed

theorem filesys_create_leaks_witness:
  "\<exists>st' D. filesys_create example_root_fs [97] 1000 (replicate 20 0) = Some (st', False) \<and> card D = 2 \<and> D \<inter> sectors_used example_root_fs = {} \<and> D \<subseteq> sectors_used st'"
proof -
  have m: "mallocs example_root_fs = 200 # 300 # 400 # [500, 600, 700, 800]" by (simp add: example_root_fs_def)
  have k: "(nat 1000 + 511) div 512 = 2" by simp
  show ?thesis
    using filesys_create_leaks[OF example_root_wf m _ _ _ _ _ _ _ example_root_map(1) example_root_room, of "replicate 20 0"] unfolding k by auto
qed

theorem filesys_create_open_witness:
  "\<exists>st' st'' file. filesys_create example_root_fs [98] 1000 (replicate 20 0) = Some (st', True) \<and>
     filesys_open st' [98] (replicate 20 0) = Some (st'', Some file) \<and> file_length st'' file = 1000"
proof -
  have m: "mallocs example_root_fs = 200 # 300 # 400 # 500 # 600 # 700 # 800 # []" by (simp add: example_root_fs_def)
  obtain st' where c: "filesys_create example_root_fs [98] 1000 (replicate 20 0) = Some (st', True)" using example_create by blast
  show ?thesis using filesys_create_open[OF example_root_wf m _ _ _ _ _ _ c] c by auto
qed

theorem filesys_create_remove_witness:
  "\<exists>st' st''. filesys_create example_root_fs [98] 1000 (replicate 20 0) = Some (st', True) \<and>
     filesys_remove st' [98] (replicate 20 0) = Some (st'', True) \<and> sectors_used st'' = {0, 1, 2, 3}"
proof -
  have m: "mallocs example_root_fs = 200 # 300 # 400 # 500 # 600 # 700 # [800]" by (simp add: example_root_fs_def)
  obtain st' where c: "filesys_create example_root_fs [98] 1000 (replicate 20 0) = Some (st', True)" using example_create by blast
  show ?thesis using filesys_create_remove[OF example_root_wf m _ _ _ _ _ _ c] c example_root_used by auto
qed

end
