(* ===== verification/Arith.thy ===== *)
theory Arith
  imports Prelude "HOL-Library.Signed_Division"
begin

text \<open>
  64-bit division from 32-bit division: \<open>src/lib/arithmetic.c\<close>. The divide instruction is a partial function; an operand
  on which it traps gives \<open>None\<close>. The number of leading zeros is a natural number; all other values are words of the width the code has.

  The unsigned routine is shown to be division and never to trap, including the estimate of the quotient for divisors of more than
  32 bits; the signed one to truncate towards zero; the remainders are the low 32 bits of the remainder.
\<close>

section \<open>The code\<close>

text \<open>The x86 instruction: a divide error when the quotient does not fit or the divisor is zero.\<close>

definition divl :: "uint64 \<Rightarrow> uint32 \<Rightarrow> uint32 option" where
  "divl n d = (if d = 0 \<or> unat n div unat d \<ge> 2 ^ 32 then None else Some (of_nat (unat n div unat d)))"

definition nlz :: "uint32 \<Rightarrow> nat" where
  "nlz x =
     (let (n, x) = (if x \<le> 0x0000FFFF then (16, push_bit 16 x) else (0, x));
          (n, x) = (if x \<le> 0x00FFFFFF then (n + 8, push_bit 8 x) else (n, x));
          (n, x) = (if x \<le> 0x0FFFFFFF then (n + 4, push_bit 4 x) else (n, x));
          (n, x) = (if x \<le> 0x3FFFFFFF then (n + 2, push_bit 2 x) else (n, x))
      in if x \<le> 0x7FFFFFFF then n + 1 else n)"

definition udiv64 :: "uint64 \<Rightarrow> uint64 \<Rightarrow> uint64 option" where
  "udiv64 n d =
     (if drop_bit 32 d = 0 then do {
        let b = push_bit 32 1;
        let n1 = (ucast (drop_bit 32 n) :: uint32);
        let n0 = (ucast n :: uint32);
        let d0 = (ucast d :: uint32);
        ASSERT (d0 \<noteq> 0);
        q \<leftarrow> divl (b * ucast (n1 mod d0) + ucast n0) d0;
        Some (ucast q + b * ucast (n1 div d0))
      }
      else if n < d then Some 0
      else do {
        let d1 = (ucast (drop_bit 32 d) :: uint32);
        let s = nlz d1;
        q \<leftarrow> divl (drop_bit 1 n) (ucast (drop_bit 32 (push_bit s d)));
        let q = (ucast (drop_bit (31 - s) q) :: uint64);
        Some (if n - (q - 1) * d < d then q - 1 else q)
      })"

definition umod64 :: "uint64 \<Rightarrow> uint64 \<Rightarrow> uint32 option" where
  "umod64 n d = do { q \<leftarrow> udiv64 n d; Some (ucast (n - d * q)) }"

definition sdiv64 :: "uint64 \<Rightarrow> uint64 \<Rightarrow> uint64 option" where
  "sdiv64 n d = do {
     let n_abs = (if sint n \<ge> 0 then n else - n);
     let d_abs = (if sint d \<ge> 0 then d else - d);
     q_abs \<leftarrow> udiv64 n_abs d_abs;
     Some (if (sint n < 0) = (sint d < 0) then q_abs else - q_abs)
   }"

definition smod64 :: "uint64 \<Rightarrow> uint64 \<Rightarrow> uint32 option" where
  "smod64 n d = do { q \<leftarrow> sdiv64 n d; Some (ucast (n - d * q)) }"

text \<open>The routines the compiler calls; the remainders are widened from 32 bits.\<close>

definition divdi3 :: "uint64 \<Rightarrow> uint64 \<Rightarrow> uint64 option" where
  "divdi3 n d = sdiv64 n d"

definition moddi3 :: "uint64 \<Rightarrow> uint64 \<Rightarrow> uint64 option" where
  "moddi3 n d = do { r \<leftarrow> smod64 n d; Some (scast r) }"

definition udivdi3 :: "uint64 \<Rightarrow> uint64 \<Rightarrow> uint64 option" where
  "udivdi3 n d = udiv64 n d"

definition umoddi3 :: "uint64 \<Rightarrow> uint64 \<Rightarrow> uint64 option" where
  "umoddi3 n d = do { r \<leftarrow> umod64 n d; Some (ucast r) }"

section \<open>Leading zeros\<close>

text \<open>
  One step of \<open>nlz\<close>: when the upper \<open>k\<close> bits are zero they are shifted out. A pair of a count and a word is related
  to \<open>x\<close> if the word is \<open>x\<close> shifted by the count and has at most \<open>k\<close> leading zeros.
\<close>

definition shifted :: "uint32 \<Rightarrow> nat \<Rightarrow> nat \<times> uint32 \<Rightarrow> bool" where
  "shifted x k p \<longleftrightarrow> unat (snd p) = 2 ^ fst p * unat x \<and> 2 ^ (32 - k) \<le> unat (snd p)"

lemma unat_push_bit:
  assumes "unat (y :: uint32) < 2 ^ (32 - k)" and "k \<le> 32"
  shows "unat (push_bit k y) = 2 ^ k * unat y"
proof -
  have "2 ^ k * unat y < 2 ^ k * 2 ^ (32 - k)" using assms(1) by simp
  also have "\<dots> = 2 ^ 32" using assms(2) by (simp flip: power_add)
  finally have lt: "2 ^ k * unat y < 2 ^ 32" .
  have "push_bit k y = of_nat (2 ^ k * unat y)" by (simp add: push_bit_eq_mult mult.commute)
  then show ?thesis using lt by (metis unat_of_nat32)
qed

lemma nlz_step:
  assumes "shifted x (2 * k) (n, y)" and "unat t = 2 ^ (32 - k) - 1" and "2 * k \<le> 32"
  shows "shifted x k (if y \<le> t then (n + k, push_bit k y) else (n, y))"
proof (cases "y \<le> t")
  case True
  then have "unat y \<le> 2 ^ (32 - k) - 1" using assms(2) by (simp add: word_le_nat_alt)
  moreover have "0 < (2 :: nat) ^ (32 - k)" by simp
  ultimately have lt: "unat y < 2 ^ (32 - k)" by linarith
  have "2 ^ (32 - k) = 2 ^ k * (2 ^ (32 - 2 * k) :: nat)" using assms(3) by (simp flip: power_add)
  then show ?thesis using True assms(1,3) unat_push_bit[OF lt] by (simp add: shifted_def power_add)
next
  case False
  then have "2 ^ (32 - k) \<le> unat y" using assms(2) by (simp add: word_le_nat_alt)
  then show ?thesis using False assms(1) by (simp add: shifted_def)
qed

lemma nlz_spec:
  assumes "x \<noteq> 0"
  shows "2 ^ 31 \<le> 2 ^ nlz x * unat x" and "2 ^ nlz x * unat x < 2 ^ 32" and "nlz x \<le> 31"
proof -
  define p1 where "p1 = (if x \<le> 0x0000FFFF then (0 + 16, push_bit 16 x) else (0 :: nat, x))"
  define p2 where "p2 = (if snd p1 \<le> 0x00FFFFFF then (fst p1 + 8, push_bit 8 (snd p1)) else (fst p1, snd p1))"
  define p3 where "p3 = (if snd p2 \<le> 0x0FFFFFFF then (fst p2 + 4, push_bit 4 (snd p2)) else (fst p2, snd p2))"
  define p4 where "p4 = (if snd p3 \<le> 0x3FFFFFFF then (fst p3 + 2, push_bit 2 (snd p3)) else (fst p3, snd p3))"
  define p5 where "p5 = (if snd p4 \<le> 0x7FFFFFFF then (fst p4 + 1, push_bit 1 (snd p4)) else (fst p4, snd p4))"
  have "shifted x (2 * 16) (0, x)" using assms by (simp add: shifted_def Suc_leI unat_gt_0)
  then have "shifted x (2 * 8) p1" unfolding p1_def using nlz_step[of x 16 0 x "0x0000FFFF"] by simp
  then have "shifted x (2 * 4) p2" unfolding p2_def using nlz_step[of x 8 "fst p1" "snd p1" "0x00FFFFFF"] by simp
  then have "shifted x (2 * 2) p3" unfolding p3_def using nlz_step[of x 4 "fst p2" "snd p2" "0x0FFFFFFF"] by simp
  then have "shifted x (2 * 1) p4" unfolding p4_def using nlz_step[of x 2 "fst p3" "snd p3" "0x3FFFFFFF"] by simp
  then have 5: "shifted x 1 p5" unfolding p5_def using nlz_step[of x 1 "fst p4" "snd p4" "0x7FFFFFFF"] by simp
  have "nlz x = fst p5" by (simp add: nlz_def Let_def p1_def p2_def p3_def p4_def p5_def)
  then have e: "unat (snd p5) = 2 ^ nlz x * unat x" using 5 by (simp add: shifted_def)
  show "2 ^ 31 \<le> 2 ^ nlz x * unat x" using 5 e by (simp add: shifted_def)
  show lt: "2 ^ nlz x * unat x < 2 ^ 32" using unat_lt_2p32[of "snd p5"] e by simp
  have "(2 :: nat) ^ nlz x \<le> 2 ^ nlz x * unat x" using assms by (simp add: Suc_leI unat_gt_0)
  then have "(2 :: nat) ^ nlz x < 2 ^ 32" using lt by linarith
  then show "nlz x \<le> 31" using power_less_imp_less_exp[of "2 :: nat" "nlz x" 32] by simp
qed

section \<open>Unsigned division\<close>

text \<open>
  The estimate of the quotient for a divisor of more than 32 bits: it is obtained by dividing by the divisor with
  all but its 32 most significant bits cleared, and is too large by at most one.
\<close>

lemma quotient_estimate:
  fixes n d s :: nat
  assumes d: "2 ^ 63 \<le> 2 ^ s * d" "2 ^ s * d < 2 ^ 64" and s: "s \<le> 31" and n: "n < 2 ^ 64"
    and d1: "d1 = 2 ^ s * d div 2 ^ 32" and q: "q = n div 2 div d1 div 2 ^ (31 - s)"
  shows "n div d \<le> q" and "q \<le> n div d + 1" and "n div 2 div d1 < 2 ^ 32" and "2 ^ 31 \<le> d1" and "d1 < 2 ^ 32"
proof -
  have pw: "(2 :: nat) ^ 32 = 2 ^ s * 2 ^ (32 - s)" "(2 :: nat) ^ (32 - s) = 2 * 2 ^ (31 - s)"
    using s by (simp_all flip: power_add power_Suc add: Suc_diff_le)
  show d1_ge: "2 ^ 31 \<le> d1" unfolding d1 using div_le_mono[OF d(1), of "2 ^ 32"] by simp
  show "d1 < 2 ^ 32" unfolding d1 using d(2) by (intro less_mult_imp_div_less) simp
  define v where "v = d1 * 2 ^ (32 - s)"
  have "v = 2 * d1 * 2 ^ (31 - s)" unfolding v_def pw(2) by simp
  then have qv: "q = n div v" unfolding q by (simp only: div_mult2_eq)
  have "d1 * 2 ^ 32 \<le> 2 ^ s * d" "2 ^ s * d < (d1 + 1) * 2 ^ 32"
    unfolding d1 by (simp_all add: div_times_less_eq_dividend dividend_less_div_times)
  then have "2 ^ s * v \<le> 2 ^ s * d" "2 ^ s * d < 2 ^ s * (v + 2 ^ (32 - s))"
    unfolding v_def pw(1) by (simp_all add: algebra_simps)
  then have v: "v \<le> d" "d < v + 2 ^ (32 - s)" by simp_all
  have d0: "0 < d" using d(1) by (cases d) simp_all
  have v0: "0 < v" using d1_ge by (simp add: v_def)
  show "n div d \<le> q" unfolding qv by (rule div_le_mono2[OF v0 v(1)])
  show "n div 2 div d1 < 2 ^ 32"
  proof -
    have "n div 2 div d1 \<le> n div 2 div 2 ^ 31" using d1_ge by (intro div_le_mono2) simp_all
    also have "\<dots> < 2 ^ 32" using n by (simp add: div_mult2_eq[symmetric] less_mult_imp_div_less)
    finally show ?thesis .
  qed
  show "q \<le> n div d + 1"
  proof (rule ccontr)
    define Q where "Q = n div d"
    define e where "e = d - v"
    assume "\<not> q \<le> n div d + 1"
    then have "(Q + 2) * v \<le> q * v" unfolding Q_def by (intro mult_right_mono) simp_all
    also have "\<dots> \<le> n" unfolding qv by (rule div_times_less_eq_dividend)
    also have "\<dots> < (Q + 1) * d" unfolding Q_def using dividend_less_div_times[OF d0, of n] by (simp add: algebra_simps)
    finally have "(Q + 2) * v < (Q + 1) * (v + e)" using v(1) by (simp add: e_def)
    then have ve: "v < (Q + 1) * e" by (simp add: algebra_simps)
    have "Q * 2 ^ 63 \<le> 2 ^ s * (Q * d)" using mult_left_mono[OF d(1), of Q] by (simp add: algebra_simps)
    also have "\<dots> \<le> 2 ^ s * n" unfolding Q_def by (intro mult_left_mono) (simp_all add: div_times_less_eq_dividend)
    also have "\<dots> < 2 ^ s * 2 ^ 64" using n by simp
    also have "\<dots> = 2 ^ (s + 1) * 2 ^ 63" by simp
    finally have "Q + 1 \<le> 2 ^ (s + 1)" by simp
    then have "(Q + 1) * e \<le> 2 ^ (s + 1) * (2 ^ (32 - s) - 1)" using v(2) by (intro mult_mono) (simp_all add: e_def)
    also have "\<dots> = 2 ^ 33 - 2 ^ (s + 1)" using s by (simp add: diff_mult_distrib2 flip: power_add power_Suc)
    finally have "v < 2 ^ 33 - 2 ^ (s + 1)" using ve by simp
    moreover have "2 ^ 31 * 2 ^ (32 - s) \<le> v" unfolding v_def using d1_ge by (rule mult_right_mono) simp
    moreover have "(2 :: nat) ^ 31 * 2 ^ (32 - s) = 2 ^ (63 - s)" using s by (subst power_add[symmetric]) simp
    ultimately have "2 ^ (63 - s) \<le> v" "v < 2 ^ 33 - 2 ^ (s + 1)" by simp_all
    moreover have "(2 :: nat) ^ 33 \<le> 2 ^ (63 - s) + 2 ^ (s + 1)"
    proof (cases "s = 31")
      case False
      then have "(2 :: nat) ^ 33 \<le> 2 ^ (63 - s)" using s by (intro power_increasing) simp_all
      then show ?thesis by simp
    qed simp
    ultimately show False by linarith
  qed
qed

lemma quotient_correct:
  fixes n d q :: nat
  assumes "0 < d" and "d \<le> n" and "n div d \<le> q" and "q \<le> n div d + 1"
  shows "1 \<le> q" and "(q - 1) * d \<le> n" and "(if n - (q - 1) * d < d then q - 1 else q) = n div d"
proof -
  have Q: "1 \<le> n div d" using assms(1,2) by (simp add: Suc_le_eq div_greater_zero_iff)
  then show "1 \<le> q" using assms(3) by simp
  have r: "n = n div d * d + n mod d" "n mod d < d" using assms(1) by simp_all
  consider "q = n div d" | "q = n div d + 1" using assms(3,4) by linarith
  then have "(q - 1) * d \<le> n \<and> (if n - (q - 1) * d < d then q - 1 else q) = n div d"
  proof cases
    case 1
    then obtain k where k: "q = Suc k" using Q by (metis One_nat_def Suc_le_D)
    have nk: "n div d = Suc k" using 1 k by simp
    then have "n = k * d + (d + n mod d)" using r(1) by (metis add.assoc add.commute mult_Suc)
    then have "k * d \<le> n" "n - k * d = d + n mod d" by linarith+
    moreover have "q - 1 = k" using k by simp
    ultimately show ?thesis using 1 by simp
  next
    case 2
    then have "n - (q - 1) * d = n mod d" "(q - 1) * d \<le> n" using minus_div_mult_eq_mod[of n d] by simp_all
    then show ?thesis using 2 r(2) by simp
  qed
  then show "(q - 1) * d \<le> n" "(if n - (q - 1) * d < d then q - 1 else q) = n div d" by blast+
qed

lemma divl_eval: "d \<noteq> 0 \<Longrightarrow> unat n div unat d < 2 ^ 32 \<Longrightarrow> divl n d = Some (of_nat (unat n div unat d))"
  by (simp add: divl_def)

lemma unat_lt_2p64: "unat (x :: uint64) < 2 ^ 64"
proof -
  have "unat x < 2 ^ LENGTH(64)" by (rule unsigned_less)
  then show ?thesis by simp
qed

lemma unat_of_nat64: "n < 2 ^ 64 \<Longrightarrow> unat (of_nat n :: uint64) = n"
  by (simp add: unsigned_of_nat take_bit_nat_eq_self)

lemma unat_halves:
  fixes n :: uint64
  shows "unat (ucast (drop_bit 32 n) :: uint32) = unat n div 2 ^ 32" and "unat (ucast n :: uint32) = unat n mod 2 ^ 32"
proof -
  have "unat n div 2 ^ 32 < 2 ^ 32" using unat_lt_2p64[of n] by (intro less_mult_imp_div_less) simp
  then show "unat (ucast (drop_bit 32 n) :: uint32) = unat n div 2 ^ 32"
    by (simp add: unsigned_ucast_eq drop_bit_eq_div unat_div take_bit_eq_mod)
  show "unat (ucast n :: uint32) = unat n mod 2 ^ 32" by (simp add: unsigned_ucast_eq take_bit_eq_mod)
qed

lemma udiv64_small:
  assumes "d \<noteq> 0" and "drop_bit 32 d = 0"
  shows "udiv64 n d = Some (n div d)"
proof -
  define N D where "N = unat n" and "D = unat d"
  have "unat (drop_bit 32 d) = D div 2 ^ 32" by (simp add: D_def drop_bit_eq_div unat_div)
  then have D: "D < 2 ^ 32" "0 < D" using assms by (simp_all add: D_def unat_gt_0 div_eq_0_iff)
  let ?n1 = "ucast (drop_bit 32 n) :: uint32" and ?n0 = "ucast n :: uint32" and ?d0 = "ucast d :: uint32"
  have u: "unat ?n1 = N div 2 ^ 32" "unat ?n0 = N mod 2 ^ 32" "unat ?d0 = D" using unat_halves[of n] unat_halves(2)[of d] D(1) by (simp_all add: N_def D_def)
  have d0: "?d0 \<noteq> 0" using u(3) D(2) by (metis unat_0 less_irrefl)
  define r where "r = (N div 2 ^ 32) mod D"
  have r: "r < D" using D(2) by (simp add: r_def)
  have "2 ^ 32 * r + N mod 2 ^ 32 < 2 ^ 32 * (r + 1)" by simp
  also have "\<dots> \<le> 2 ^ 32 * D" using r by (intro mult_left_mono) simp_all
  finally have lt: "2 ^ 32 * r + N mod 2 ^ 32 < 2 ^ 32 * D" .
  then have q: "(2 ^ 32 * r + N mod 2 ^ 32) div D < 2 ^ 32" by (simp add: less_mult_imp_div_less)
  have big: "2 ^ 32 * r + N mod 2 ^ 32 < 2 ^ 64" using lt D(1) by simp
  have c: "(ucast x :: uint64) = of_nat (unat x)" for x :: uint32 by simp
  have b: "push_bit 32 1 = (of_nat (2 ^ 32) :: uint64)" by (simp add: push_bit_eq_mult)
  have w: "push_bit 32 1 * ucast (?n1 mod ?d0) + ucast ?n0 = (of_nat (2 ^ 32 * r + N mod 2 ^ 32) :: uint64)"
    unfolding b c by (simp only: unat_mod u r_def of_nat_add of_nat_mult)
  have "divl (push_bit 32 1 * ucast (?n1 mod ?d0) + ucast ?n0) ?d0 = Some (of_nat ((2 ^ 32 * r + N mod 2 ^ 32) div D))"
    unfolding w using divl_eval[OF d0, of "of_nat (2 ^ 32 * r + N mod 2 ^ 32)"] u(3) q unat_of_nat64[OF big] by simp
  moreover have "ucast (of_nat ((2 ^ 32 * r + N mod 2 ^ 32) div D) :: uint32) = (of_nat ((2 ^ 32 * r + N mod 2 ^ 32) div D) :: uint64)"
    unfolding c using unat_of_nat32[OF q] by simp
  moreover have "ucast (?n1 div ?d0) = (of_nat (N div 2 ^ 32 div D) :: uint64)" unfolding c by (simp only: unat_div u)
  moreover have "(2 ^ 32 * r + N mod 2 ^ 32) div D + 2 ^ 32 * (N div 2 ^ 32 div D) = N div D"
  proof -
    have "N = 2 ^ 32 * (N div 2 ^ 32) + N mod 2 ^ 32" by simp
    also have "N div 2 ^ 32 = D * (N div 2 ^ 32 div D) + r" by (simp add: r_def)
    finally have "N = (2 ^ 32 * r + N mod 2 ^ 32) + D * (2 ^ 32 * (N div 2 ^ 32 div D))" by (simp add: algebra_simps)
    then have "N div D = ((2 ^ 32 * r + N mod 2 ^ 32) + D * (2 ^ 32 * (N div 2 ^ 32 div D))) div D" by (rule arg_cong)
    also have "\<dots> = 2 ^ 32 * (N div 2 ^ 32 div D) + (2 ^ 32 * r + N mod 2 ^ 32) div D" using D(2) by (intro div_mult_self2) simp
    finally show ?thesis by simp
  qed
  then have "(of_nat ((2 ^ 32 * r + N mod 2 ^ 32) div D) :: uint64) + push_bit 32 1 * of_nat (N div 2 ^ 32 div D) = of_nat (N div D)"
    unfolding b by (metis of_nat_add of_nat_mult)
  moreover have "n div d = of_nat (N div D)" unfolding N_def D_def unat_div[symmetric] by simp
  ultimately show ?thesis using assms(2) d0 by (simp add: udiv64_def Let_def)
qed

lemma unat_drop_bit: "unat (drop_bit k (w :: 'a::len word)) = unat w div 2 ^ k"
  unfolding unsigned_drop_bit_eq by (simp add: drop_bit_eq_div take_bit_nat_eq_self)

lemma unat_push_bit64:
  assumes "2 ^ k * unat (y :: uint64) < 2 ^ 64"
  shows "unat (push_bit k y) = 2 ^ k * unat y"
proof -
  have "push_bit k y = of_nat (2 ^ k * unat y)" by (simp add: push_bit_eq_mult mult.commute)
  then show ?thesis using unat_of_nat64[OF assms] by simp
qed

lemma normalised_divisor:
  fixes D s :: nat
  assumes "2 ^ 31 \<le> 2 ^ s * (D div 2 ^ 32)" and "2 ^ s * (D div 2 ^ 32) < 2 ^ 32" and "s \<le> 31"
  shows "2 ^ 63 \<le> 2 ^ s * D" and "2 ^ s * D < 2 ^ 64"
proof -
  define h where "h = D div 2 ^ 32"
  have h: "h * 2 ^ 32 \<le> D" "D < (h + 1) * 2 ^ 32"
    unfolding h_def using dividend_less_div_times[of "2 ^ 32" D] by (simp_all add: div_times_less_eq_dividend)
  have "(2 :: nat) ^ 63 = 2 ^ 31 * 2 ^ 32" by simp
  also have "\<dots> \<le> 2 ^ s * h * 2 ^ 32" using assms(1) unfolding h_def by (rule mult_right_mono) simp
  also have "\<dots> \<le> 2 ^ s * D" using h(1) by (simp add: mult.assoc)
  finally show "2 ^ 63 \<le> 2 ^ s * D" .
  have p: "(2 :: nat) ^ 32 = 2 ^ s * 2 ^ (32 - s)" using assms(3) by (simp flip: power_add)
  have "2 ^ s * h < 2 ^ s * 2 ^ (32 - s)" using assms(2) p unfolding h_def by metis
  then have "h + 1 \<le> 2 ^ (32 - s)" by simp
  then have "2 ^ s * (h + 1) \<le> 2 ^ 32" unfolding p by (rule mult_left_mono) simp
  then have "2 ^ s * (h + 1) * 2 ^ 32 \<le> 2 ^ 32 * 2 ^ 32" by (rule mult_right_mono) simp
  moreover have "2 ^ s * D < 2 ^ s * (h + 1) * 2 ^ 32" using h(2) by (subst mult.assoc) (rule mult_strict_left_mono, simp_all)
  ultimately have "2 ^ s * D < 2 ^ 32 * 2 ^ 32" by (rule order.strict_trans2[rotated])
  then show "2 ^ s * D < 2 ^ 64" by simp
qed

lemma udiv64_large:
  assumes "drop_bit 32 d \<noteq> 0"
  shows "udiv64 n d = Some (n div d)"
proof (cases "n < d")
  case True
  then have "n div d = 0" by (simp add: word_arith_nat_div word_less_nat_alt)
  then show ?thesis using assms True by (simp add: udiv64_def)
next
  case False
  define N D where "N = unat n" and "D = unat d"
  let ?d1 = "ucast (drop_bit 32 d) :: uint32"
  define s where "s = nlz ?d1"
  have u1: "unat ?d1 = D div 2 ^ 32" unfolding D_def by (rule unat_halves)
  have "unat (drop_bit 32 d) = D div 2 ^ 32" by (simp add: D_def drop_bit_eq_div unat_div)
  then have "?d1 \<noteq> 0" using assms u1 by (metis unat_0 unat_0_iff)
  note s = nlz_spec[OF this, folded s_def, unfolded u1]
  note D = normalised_divisor[OF s]
  have N: "N < 2 ^ 64" unfolding N_def by (rule unat_lt_2p64)
  define h where "h = 2 ^ s * D div 2 ^ 32"
  define q where "q = N div 2 div h div 2 ^ (31 - s)"
  note est = quotient_estimate[OF D s(3) N h_def q_def]
  have dn: "0 < D" "D \<le> N" using False D(1) by (cases D; simp add: N_def D_def word_less_nat_alt)+
  note qc = quotient_correct[OF dn est(1,2)]
  let ?dd = "ucast (drop_bit 32 (push_bit s d)) :: uint32"
  have dd: "unat ?dd = h" unfolding unat_halves(1) h_def using unat_push_bit64[of s d] D(2) by (simp add: D_def)
  then have "?dd \<noteq> 0" using est(4) by (metis not_numeral_le_zero power_eq_0_iff unat_0 le_zero_eq)
  then have dv: "divl (drop_bit 1 n) ?dd = Some (of_nat (N div 2 div h))"
    using divl_eval[of ?dd "drop_bit 1 n"] dd est(3) by (simp add: N_def drop_bit_eq_div unat_div)
  let ?q = "ucast (drop_bit (31 - s) (of_nat (N div 2 div h) :: uint32)) :: uint64"
  have uq: "unat (drop_bit (31 - s) (of_nat (N div 2 div h) :: uint32)) = q"
    unfolding q_def using unat_of_nat32[OF est(3)] by (simp add: unat_drop_bit)
  then have "q < 2 ^ 32" by (metis unat_lt_2p32)
  then have q: "unat ?q = q" using uq by (simp add: unsigned_ucast_eq take_bit_nat_eq_self)
  have "?q \<noteq> 0" using q qc(1) by auto
  then have q1: "unat (?q - 1) = q - 1" using q by (simp add: unat_minus_one)
  have m: "unat ((?q - 1) * d) = (q - 1) * D" using qc(2) N q1 by (subst unat_mult_lem[THEN iffD1]) (simp_all add: D_def)
  then have "unat (n - (?q - 1) * d) = N - (q - 1) * D" using qc(2) by (subst unat_sub) (simp_all add: word_le_nat_alt N_def)
  then have "n - (?q - 1) * d < d \<longleftrightarrow> N - (q - 1) * D < D" by (simp add: word_less_nat_alt D_def)
  then have "unat (if n - (?q - 1) * d < d then ?q - 1 else ?q) = N div D" using qc(3) q q1 by (simp split: if_splits)
  also have "\<dots> = unat (n div d)" by (simp add: N_def D_def unat_div)
  finally have "(if n - (?q - 1) * d < d then ?q - 1 else ?q) = n div d" by (simp add: word_unat_eq_iff)
  then show ?thesis using assms False dv by (simp add: udiv64_def Let_def flip: s_def split: if_splits)
qed

lemma udiv64_correct: "d \<noteq> 0 \<Longrightarrow> udiv64 n d = Some (n div d)"
  using udiv64_small udiv64_large by blast

text \<open>
  C23. The 64-bit division routine is division. For every dividend and every divisor other than zero, \<open>udivdi3\<close> returns the quotient
  rounded down; in particular neither of its uses of the 32-bit divide instruction traps. The remainder \<open>umoddi3\<close>
  is computed from it but truncated to 32 bits: it is the remainder exactly when that fits in 32 bits.
\<close>

theorem udivdi3_correct:
  assumes "d \<noteq> 0"
  shows "udivdi3 n d = Some (n div d) \<and>
    (\<exists>r. umoddi3 n d = Some r \<and> unat r = unat (n mod d) mod 2 ^ 32 \<and> (r = n mod d \<longleftrightarrow> unat (n mod d) < 2 ^ 32))"
proof -
  have r: "n - d * (n div d) = n mod d" by (simp add: minus_mult_div_eq_mod)
  let ?r = "ucast (ucast (n mod d) :: uint32) :: uint64"
  have u: "unat ?r = unat (n mod d) mod 2 ^ 32" by (simp add: unsigned_ucast_eq take_bit_eq_mod unat_mod)
  then have "?r = n mod d \<longleftrightarrow> unat (n mod d) < 2 ^ 32"
    unfolding word_unat_eq_iff[of ?r] by (metis mod_less mod_less_divisor zero_less_numeral zero_less_power)
  then show ?thesis using u r assms by (simp add: udivdi3_def umoddi3_def umod64_def udiv64_correct)
qed

theorem udivdi3_correct_witness:
  "udivdi3 0x123456789ABCDEF0 0x300000007 = Some (0x123456789ABCDEF0 div 0x300000007) \<and> udivdi3 100 7 = Some 14"
proof -
  have "udivdi3 100 7 = Some (100 div 7)" using udivdi3_correct[of 7 100] by simp
  moreover have "(100 :: uint64) div 7 = 14" by code_simp
  ultimately show ?thesis using udivdi3_correct[of "0x300000007" "0x123456789ABCDEF0"] by simp
qed

text \<open>
  The 64-bit remainder routine is wrong for some operands: \<open>umoddi3\<close> of \<open>2 ^ 32\<close> and \<open>2 ^ 33\<close> is 0.
\<close>

lemma umoddi3_truncates: "umoddi3 0x100000000 0x200000000 = Some 0 \<and> (0x100000000 :: uint64) mod 0x200000000 = 0x100000000"
proof -
  have m: "(0x100000000 :: uint64) mod 0x200000000 = 0x100000000" by code_simp
  have "udiv64 0x100000000 0x200000000 = Some (0x100000000 div 0x200000000)" by (rule udiv64_correct) simp
  moreover have "(0x100000000 :: uint64) div 0x200000000 = 0" by code_simp
  ultimately show ?thesis using m by (simp add: umoddi3_def umod64_def)
qed

section \<open>Signed division\<close>

lemma abs_word: "unat (if sint n \<ge> 0 then n else - n) = nat \<bar>sint (n :: uint64)\<bar>"
proof -
  have lt: "sint n < 2 ^ 63" "- (2 ^ 63) \<le> sint n" using sint_lt[of n] sint_ge[of n] by simp_all
  have "of_int \<bar>sint n\<bar> = (if sint n \<ge> 0 then n else - n)" by simp
  moreover have "unat (of_int \<bar>sint n\<bar> :: uint64) = nat \<bar>sint n\<bar>"
    using lt by (simp add: unat_eq_nat_uint uint_word_of_int)
  ultimately show ?thesis by simp
qed

lemma sdiv64_eval:
  assumes "d \<noteq> 0"
  shows "sdiv64 n d = Some (of_int (sint n sdiv sint d))"
proof -
  let ?n = "if sint n \<ge> 0 then n else - n" and ?d = "if sint d \<ge> 0 then d else - d"
  have "?d \<noteq> 0" using assms by simp
  then have u: "udiv64 ?n ?d = Some (?n div ?d)" by (rule udiv64_correct)
  have "?n div ?d = of_nat (nat \<bar>sint n\<bar> div nat \<bar>sint d\<bar>)" unfolding abs_word[symmetric] unat_div[symmetric] by simp
  also have "\<dots> = of_int (int (nat \<bar>sint n\<bar> div nat \<bar>sint d\<bar>))" by (rule of_int_of_nat_eq[symmetric])
  also have "int (nat \<bar>sint n\<bar> div nat \<bar>sint d\<bar>) = \<bar>sint n\<bar> div \<bar>sint d\<bar>" by (simp add: zdiv_int)
  finally have q: "?n div ?d = of_int (\<bar>sint n\<bar> div \<bar>sint d\<bar>)" .
  have "sint d \<noteq> 0" using assms by (simp add: signed_eq_0_iff)
  then have "sint n sdiv sint d = (if (sint n < 0) = (sint d < 0) then \<bar>sint n\<bar> div \<bar>sint d\<bar> else - (\<bar>sint n\<bar> div \<bar>sint d\<bar>))"
    by (cases "sint n" "0 :: int" rule: linorder_cases; cases "sint d" "0 :: int" rule: linorder_cases) (simp_all add: signed_divide_int_def)
  then show ?thesis using u q by (simp add: sdiv64_def Let_def)
qed

text \<open>
  Signed 64-bit division truncates towards zero, as C requires: \<open>divdi3\<close> of any dividend and a divisor other than zero is their quotient, except that the most negative
  number divided by -1, whose quotient is not representable, gives the most negative number.
\<close>

lemma divdi3_correct:
  assumes "d \<noteq> 0"
  shows "\<exists>q. divdi3 n d = Some q \<and>
    sint q = (if sint n = - (2 ^ 63) \<and> sint d = - 1 then - (2 ^ 63) else sint n sdiv sint d)"
proof -
  have lt: "sint n < 2 ^ 63" "- (2 ^ 63) \<le> sint n" using sint_lt[of n] sint_ge[of n] by simp_all
  have d: "sint d \<noteq> 0" using assms by (simp add: signed_eq_0_iff)
  define a b where "a = sint n" and "b = sint d"
  have "sint (of_int (a sdiv b) :: uint64) = (if a = - (2 ^ 63) \<and> b = - 1 then - (2 ^ 63) else a sdiv b)"
  proof (cases "a = - (2 ^ 63) \<and> b = - 1")
    case True
    then show ?thesis by (simp add: signed_divide_int_def sint_uint)
  next
    case False
    have "\<bar>a\<bar> div \<bar>b\<bar> \<le> \<bar>a\<bar>" using d zdiv_mono2[of "\<bar>a\<bar>" 1 "\<bar>b\<bar>"] by (simp add: b_def)
    moreover have pos: "\<bar>\<bar>a\<bar> div \<bar>b\<bar>\<bar> = \<bar>a\<bar> div \<bar>b\<bar>" by (cases "b = 0") (simp_all add: pos_imp_zdiv_nonneg_iff)
    then have ab: "\<bar>a sdiv b\<bar> \<le> \<bar>a\<bar> div \<bar>b\<bar>" by (simp add: signed_divide_int_def abs_mult abs_sgn_eq)
    ultimately have le: "\<bar>a sdiv b\<bar> \<le> \<bar>a\<bar>" by linarith
    have "a sdiv b < 2 ^ 63 \<and> - (2 ^ 63) \<le> a sdiv b"
    proof (cases "a = - (2 ^ 63)")
      case True
      show ?thesis
      proof (cases "b = 1")
        case b1: True
        then show ?thesis using True by (simp add: signed_divide_int_def)
      next
        case b1: False
        then have "2 \<le> \<bar>b\<bar>" using False True d by (simp add: b_def)
        then have "\<bar>a\<bar> div \<bar>b\<bar> \<le> \<bar>a\<bar> div 2" by (intro zdiv_mono2) simp_all
        then have "\<bar>a\<bar> div \<bar>b\<bar> < 2 ^ 63" using True by simp
        then show ?thesis using ab by linarith
      qed
    next
      case F: False
      then show ?thesis using le lt[folded a_def] by linarith
    qed
    then show ?thesis using False by (simp add: signed_of_int signed_take_bit_int_eq_self)
  qed
  then show ?thesis using sdiv64_eval[OF assms, of n] by (simp add: divdi3_def a_def b_def)
qed

end
