(* ===== verification/Stdlib.thy ===== *)
theory Stdlib
  imports Strings "HOL-Library.Multiset"
begin

text \<open>
  The utilities of \<open>src/lib/stdlib.c\<close> and the character classes of \<open>src/lib/ctype.h\<close>: heap sort, binary search and \<open>atoi\<close>.

  Sorting and searching move and compare whole elements, so the array is a list of elements and a pointer into it an index; the byte
  loop of \<open>do_swap\<close> exchanges two elements. The assertions of \<open>sort\<close> on its pointers and on a positive size of
  elements hold for such an array. Indexes are natural numbers: a heap in 32 bits of address space has fewer than
  \<open>2\<^sup>3\<^sup>1\<close> nodes with children, so that \<open>2 * i + 1\<close> does not wrap. \<open>atoi\<close> works on memory and
  accumulates its result in 32 bits.

  The heap sort is shown to sort, binary search to find a match exactly if there is one, and \<open>atoi\<close> to return the number that is written in memory.
\<close>

section \<open>The code\<close>

subsection \<open>Heap sort\<close>

definition compare_thunk :: "'a \<Rightarrow> 'a \<Rightarrow> ('a \<Rightarrow> 'a \<Rightarrow> int) \<Rightarrow> int" where
  "compare_thunk a b aux = aux a b"

text \<open>Swapping and comparing elements by their 1-based indexes.\<close>

definition do_swap :: "'a list \<Rightarrow> nat \<Rightarrow> nat \<Rightarrow> 'a list" where
  "do_swap array a_idx b_idx = array[a_idx - 1 := array ! (b_idx - 1), b_idx - 1 := array ! (a_idx - 1)]"

definition do_compare :: "'a list \<Rightarrow> nat \<Rightarrow> nat \<Rightarrow> ('a \<Rightarrow> 'a \<Rightarrow> 'x \<Rightarrow> int) \<Rightarrow> 'x \<Rightarrow> int" where
  "do_compare array a_idx b_idx compare aux = compare (array ! (a_idx - 1)) (array ! (b_idx - 1)) aux"

function heapify :: "'a list \<Rightarrow> nat \<Rightarrow> nat \<Rightarrow> ('a \<Rightarrow> 'a \<Rightarrow> 'x \<Rightarrow> int) \<Rightarrow> 'x \<Rightarrow> 'a list" where
  "heapify array i cnt compare aux =
     (let left = 2 * i;
          right = 2 * i + 1;
          mx = i;
          mx = (if left \<le> cnt \<and> do_compare array left mx compare aux > 0 then left else mx);
          mx = (if right \<le> cnt \<and> do_compare array right mx compare aux > 0 then right else mx)
      in if mx = i then array else heapify (do_swap array i mx) mx cnt compare aux)"
  by pat_completeness auto
termination
  by (relation "measure (\<lambda>(_, i, cnt, _). Suc cnt - i)") (auto simp: Let_def split: if_splits)

declare heapify.simps [simp del]

fun build_heap :: "'a list \<Rightarrow> nat \<Rightarrow> nat \<Rightarrow> ('a \<Rightarrow> 'a \<Rightarrow> 'x \<Rightarrow> int) \<Rightarrow> 'x \<Rightarrow> 'a list" where
  "build_heap array 0 cnt compare aux = array"
| "build_heap array (Suc i) cnt compare aux = build_heap (heapify array (Suc i) cnt compare aux) i cnt compare aux"

fun sort_heap :: "'a list \<Rightarrow> nat \<Rightarrow> ('a \<Rightarrow> 'a \<Rightarrow> 'x \<Rightarrow> int) \<Rightarrow> 'x \<Rightarrow> 'a list" where
  "sort_heap array 0 compare aux = array"
| "sort_heap array (Suc i) compare aux =
     (if Suc i > 1 then sort_heap (heapify (do_swap array 1 (Suc i)) 1 i compare aux) i compare aux else array)"

definition sort_array :: "'a list \<Rightarrow> nat \<Rightarrow> ('a \<Rightarrow> 'a \<Rightarrow> 'x \<Rightarrow> int) \<Rightarrow> 'x \<Rightarrow> 'a list" where
  "sort_array array cnt compare aux = sort_heap (build_heap array (cnt div 2) cnt compare aux) cnt compare aux"

definition qsort :: "'a list \<Rightarrow> nat \<Rightarrow> ('a \<Rightarrow> 'a \<Rightarrow> int) \<Rightarrow> 'a list" where
  "qsort array cnt compare = sort_array array cnt compare_thunk compare"

subsection \<open>Binary search\<close>

text \<open>\<open>first\<close> and \<open>last\<close> are indexes; the result is the index of a match.\<close>

function binary_search_loop :: "'k \<Rightarrow> 'a list \<Rightarrow> nat \<Rightarrow> nat \<Rightarrow> ('k \<Rightarrow> 'a \<Rightarrow> 'x \<Rightarrow> int) \<Rightarrow> 'x \<Rightarrow> nat option" where
  "binary_search_loop key array fst_idx last_idx compare aux =
     (if fst_idx < last_idx then
        let range = last_idx - fst_idx;
            middle = fst_idx + range div 2;
            cmp = compare key (array ! middle) aux
        in if cmp < 0 then binary_search_loop key array fst_idx middle compare aux
           else if cmp > 0 then binary_search_loop key array (middle + 1) last_idx compare aux
           else Some middle
      else None)"
  by pat_completeness auto
termination
  by (relation "measure (\<lambda>(_, _, f, l, _). l - f)") auto

declare binary_search_loop.simps [simp del]

definition binary_search :: "'k \<Rightarrow> 'a list \<Rightarrow> nat \<Rightarrow> ('k \<Rightarrow> 'a \<Rightarrow> 'x \<Rightarrow> int) \<Rightarrow> 'x \<Rightarrow> nat option" where
  "binary_search key array cnt compare aux = binary_search_loop key array 0 cnt compare aux"

definition bsearch :: "'a \<Rightarrow> 'a list \<Rightarrow> nat \<Rightarrow> ('a \<Rightarrow> 'a \<Rightarrow> int) \<Rightarrow> nat option" where
  "bsearch key array cnt compare = binary_search key array cnt compare_thunk compare"

subsection \<open>Numbers\<close>

text \<open>The character classes of \<open>src/lib/ctype.h\<close>.\<close>

definition islower :: "int \<Rightarrow> bool" where
  "islower c \<longleftrightarrow> 97 \<le> c \<and> c \<le> 122"

definition isupper :: "int \<Rightarrow> bool" where
  "isupper c \<longleftrightarrow> 65 \<le> c \<and> c \<le> 90"

definition isalpha :: "int \<Rightarrow> bool" where
  "isalpha c \<longleftrightarrow> islower c \<or> isupper c"

definition isdigit :: "int \<Rightarrow> bool" where
  "isdigit c \<longleftrightarrow> 48 \<le> c \<and> c \<le> 57"

definition isalnum :: "int \<Rightarrow> bool" where
  "isalnum c \<longleftrightarrow> isalpha c \<or> isdigit c"

definition isxdigit :: "int \<Rightarrow> bool" where
  "isxdigit c \<longleftrightarrow> isdigit c \<or> 97 \<le> c \<and> c \<le> 102 \<or> 65 \<le> c \<and> c \<le> 70"

definition isspace :: "int \<Rightarrow> bool" where
  "isspace c \<longleftrightarrow> c = 32 \<or> c = 12 \<or> c = 10 \<or> c = 13 \<or> c = 9 \<or> c = 11"

definition isblank :: "int \<Rightarrow> bool" where
  "isblank c \<longleftrightarrow> c = 32 \<or> c = 9"

definition isgraph :: "int \<Rightarrow> bool" where
  "isgraph c \<longleftrightarrow> c > 32 \<and> c < 127"

definition isprint :: "int \<Rightarrow> bool" where
  "isprint c \<longleftrightarrow> c \<ge> 32 \<and> c < 127"

definition iscntrl :: "int \<Rightarrow> bool" where
  "iscntrl c \<longleftrightarrow> c \<ge> 0 \<and> c < 32 \<or> c = 127"

definition isascii :: "int \<Rightarrow> bool" where
  "isascii c \<longleftrightarrow> c \<ge> 0 \<and> c < 128"

definition ispunct :: "int \<Rightarrow> bool" where
  "ispunct c \<longleftrightarrow> isprint c \<and> \<not> isalnum c \<and> \<not> isspace c"

definition tolower :: "int \<Rightarrow> int" where
  "tolower c = (if isupper c then c - 65 + 97 else c)"

definition toupper :: "int \<Rightarrow> int" where
  "toupper c = (if islower c then c - 97 + 65 else c)"

partial_function (option) skip_spaces :: "mem \<Rightarrow> ptr \<Rightarrow> ptr option" where
  "skip_spaces m s = do { c \<leftarrow> rd8 m s; if isspace (uint c) then skip_spaces m (s + 1) else Some s }"

text \<open>The value is accumulated as a negative number in 32 bits.\<close>

partial_function (option) parse_digits :: "mem \<Rightarrow> ptr \<Rightarrow> 32 word \<Rightarrow> 32 word option" where
  "parse_digits m s v = do {
     c \<leftarrow> rd8 m s;
     if isdigit (sint c) then parse_digits m (s + 1) (v * 10 - of_int (sint c - 48)) else Some v
   }"

definition atoi :: "mem \<Rightarrow> ptr \<Rightarrow> int option" where
  "atoi m s = do {
     ASSERT (s \<noteq> NULL);
     s \<leftarrow> skip_spaces m s;
     c \<leftarrow> rd8 m s;
     let (negative, s) = (if c = 43 then (False, s + 1) else if c = 45 then (True, s + 1) else (False, s));
     v \<leftarrow> parse_digits m s 0;
     Some (sint (if \<not> negative then - v else v))
   }"

declare skip_spaces.simps [code] parse_digits.simps [code]

section \<open>Heap sort sorts\<close>

text \<open>What is required of the comparison function: it is a three-way comparison for a total preorder.\<close>

definition comparison :: "('a \<Rightarrow> 'a \<Rightarrow> 'x \<Rightarrow> int) \<Rightarrow> 'x \<Rightarrow> bool" where
  "comparison cmp aux \<longleftrightarrow> (\<forall>a b. cmp a b aux > 0 \<longleftrightarrow> cmp b a aux < 0) \<and> (\<forall>a b c. cmp a b aux \<le> 0 \<longrightarrow> cmp b c aux \<le> 0 \<longrightarrow> cmp a c aux \<le> 0)"

definition at :: "'a list \<Rightarrow> nat \<Rightarrow> 'a" where
  "at xs k = xs ! (k - 1)"

lemma length_do_swap [simp]: "length (do_swap xs a b) = length xs"
  by (simp add: do_swap_def)

lemma at_do_swap:
  assumes "1 \<le> a" "a \<le> length xs" "1 \<le> b" "b \<le> length xs" "1 \<le> k" "k \<le> length xs"
  shows "at (do_swap xs a b) k = (if k = a then at xs b else if k = b then at xs a else at xs k)"
  using assms by (auto simp: at_def do_swap_def nth_list_update) 

lemma mset_do_swap: "1 \<le> a \<Longrightarrow> a \<le> length xs \<Longrightarrow> 1 \<le> b \<Longrightarrow> b \<le> length xs \<Longrightarrow> mset (do_swap xs a b) = mset xs"
  by (simp add: do_swap_def mset_swap)

text \<open>The heap condition at one node, and on all nodes from \<open>l\<close> except possibly \<open>i\<close>, whose parent then dominates the children of \<open>i\<close>.\<close>

definition heap_at :: "('a \<Rightarrow> 'a \<Rightarrow> 'x \<Rightarrow> int) \<Rightarrow> 'x \<Rightarrow> 'a list \<Rightarrow> nat \<Rightarrow> nat \<Rightarrow> bool" where
  "heap_at cmp aux xs cnt j \<longleftrightarrow> (\<forall>c. c div 2 = j \<longrightarrow> c \<le> cnt \<longrightarrow> cmp (at xs c) (at xs j) aux \<le> 0)"

definition heap_but :: "('a \<Rightarrow> 'a \<Rightarrow> 'x \<Rightarrow> int) \<Rightarrow> 'x \<Rightarrow> 'a list \<Rightarrow> nat \<Rightarrow> nat \<Rightarrow> nat \<Rightarrow> bool" where
  "heap_but cmp aux xs cnt l i \<longleftrightarrow> (\<forall>j\<ge>l. j \<noteq> i \<longrightarrow> heap_at cmp aux xs cnt j) \<and>
     (l \<le> i div 2 \<longrightarrow> (\<forall>c. c div 2 = i \<longrightarrow> c \<le> cnt \<longrightarrow> cmp (at xs c) (at xs (i div 2)) aux \<le> 0))"

lemma comparison_trans: "comparison cmp aux \<Longrightarrow> cmp a b aux \<le> 0 \<Longrightarrow> cmp b c aux \<le> 0 \<Longrightarrow> cmp a c aux \<le> 0"
  unfolding comparison_def by blast

lemma comparison_flip: "comparison cmp aux \<Longrightarrow> cmp a b aux > 0 \<longleftrightarrow> cmp b a aux < 0"
  unfolding comparison_def by blast

lemma comparison_refl: "comparison cmp aux \<Longrightarrow> cmp a a aux \<le> 0"
  using comparison_flip[of cmp aux a a] by linarith

lemma child_iff: "c div 2 = (i :: nat) \<longleftrightarrow> c = 2 * i \<or> c = 2 * i + 1"
  by linarith

text \<open>The index \<open>heapify\<close> computes: of a greatest element among a node and its children.\<close>

definition top_child :: "('a \<Rightarrow> 'a \<Rightarrow> 'x \<Rightarrow> int) \<Rightarrow> 'x \<Rightarrow> 'a list \<Rightarrow> nat \<Rightarrow> nat \<Rightarrow> nat" where
  "top_child cmp aux xs cnt i =
     (let mx = (if 2 * i \<le> cnt \<and> cmp (at xs (2 * i)) (at xs i) aux > 0 then 2 * i else i)
      in if 2 * i + 1 \<le> cnt \<and> cmp (at xs (2 * i + 1)) (at xs mx) aux > 0 then 2 * i + 1 else mx)"

lemma heapify_unfold:
  "heapify xs i cnt cmp aux = (if top_child cmp aux xs cnt i = i then xs
     else heapify (do_swap xs i (top_child cmp aux xs cnt i)) (top_child cmp aux xs cnt i) cnt cmp aux)"
  by (subst heapify.simps) (simp only: Let_def do_compare_def top_child_def at_def)

lemma top_child_facts:
  assumes "comparison cmp aux" and "1 \<le> i"
  shows "top_child cmp aux xs cnt i = i \<Longrightarrow> heap_at cmp aux xs cnt i"
    and "top_child cmp aux xs cnt i \<noteq> i \<Longrightarrow> top_child cmp aux xs cnt i div 2 = i \<and> top_child cmp aux xs cnt i \<le> cnt"
    and "c = i \<or> c div 2 = i \<Longrightarrow> c \<le> cnt \<Longrightarrow> cmp (at xs c) (at xs (top_child cmp aux xs cnt i)) aux \<le> 0"
proof -
  let ?L = "at xs (2 * i)" and ?R = "at xs (2 * i + 1)" and ?I = "at xs i"
  note tr = comparison_trans[OF assms(1)] and fl = comparison_flip[OF assms(1)] and rf = comparison_refl[OF assms(1)]
  have gt: "cmp a b aux > 0 \<Longrightarrow> cmp b a aux \<le> 0" for a b using fl[of a b] by linarith
  show *: "c = i \<or> c div 2 = i \<Longrightarrow> c \<le> cnt \<Longrightarrow> cmp (at xs c) (at xs (top_child cmp aux xs cnt i)) aux \<le> 0" for c
    unfolding child_iff top_child_def Let_def
    using rf[of ?L] rf[of ?R] rf[of ?I] gt[of ?L ?I] gt[of ?R ?I] gt[of ?R ?L] tr[of ?I ?L ?R] tr[of ?L ?I ?R] by (auto simp: not_less)
  show "heap_at cmp aux xs cnt i" if "top_child cmp aux xs cnt i = i" using *[unfolded that] by (auto simp: heap_at_def)
  show "top_child cmp aux xs cnt i \<noteq> i \<Longrightarrow> top_child cmp aux xs cnt i div 2 = i \<and> top_child cmp aux xs cnt i \<le> cnt"
    by (simp add: top_child_def Let_def split: if_splits)
qed

lemma heap_but_step:
  assumes cmp: "comparison cmp aux" and b: "heap_but cmp aux xs cnt l i" and l: "1 \<le> l" "l \<le> i" and i: "i \<le> cnt" "cnt \<le> length xs"
    and t: "t = top_child cmp aux xs cnt i" "t \<noteq> i"
  shows "heap_but cmp aux (do_swap xs i t) cnt l t"
proof -
  have i1: "1 \<le> i" using l by simp
  note tf = top_child_facts[OF cmp i1, where xs = xs and cnt = cnt, folded t(1)]
  have t2: "t div 2 = i" "t \<le> cnt" using tf(2)[OF t(2)] by simp_all
  have ti: "i < t" using t2(1) i1 by linarith
  have sw: "at (do_swap xs i t) k = (if k = i then at xs t else if k = t then at xs i else at xs k)" if "1 \<le> k" "k \<le> cnt" for k
    using at_do_swap[of i xs t k] that i1 i t2 ti by simp
  have old: "cmp (at xs c) (at xs j) aux \<le> 0" if "l \<le> j" "j \<noteq> i" "c div 2 = j" "c \<le> cnt" for c j
    using b that unfolding heap_but_def heap_at_def by blast
  have par: "cmp (at xs c) (at xs (i div 2)) aux \<le> 0" if "l \<le> i div 2" "c div 2 = i" "c \<le> cnt" for c
    using b that unfolding heap_but_def by blast
  have "heap_at cmp aux (do_swap xs i t) cnt j" if j: "l \<le> j" "j \<noteq> t" for j
    unfolding heap_at_def
  proof (intro allI impI)
    fix c assume c: "c div 2 = j" "c \<le> cnt"
    have cj: "1 \<le> c" "1 \<le> j" "j \<le> cnt" "j < c" using c j(1) l(1) by linarith+
    consider "j = i" | "j \<noteq> i" "c = i" | "j \<noteq> i" "c \<noteq> i" by blast
    then show "cmp (at (do_swap xs i t) c) (at (do_swap xs i t) j) aux \<le> 0"
    proof cases
      case 1
      then show ?thesis using sw[OF cj(1) c(2)] sw[OF cj(2,3)] tf(3)[of i] tf(3)[of c] c cj(4) i by auto
    next
      case 2
      then show ?thesis using sw[OF cj(1) c(2)] sw[OF cj(2,3)] j(2) par[of t] c(1) j(1) t2 by simp
    next
      case 3
      then have "c \<noteq> t" using c(1) t2(1) by auto
      then show ?thesis using 3 sw[OF cj(1) c(2)] sw[OF cj(2,3)] j old c by simp
    qed
  qed
  moreover have "cmp (at (do_swap xs i t) c) (at (do_swap xs i t) (t div 2)) aux \<le> 0" if "c div 2 = t" "c \<le> cnt" for c
  proof -
    have "t < c" using that(1) ti by linarith
    then show ?thesis using sw[of c] sw[of i] that ti i1 i t2 old[of t c] l(2) by simp
  qed
  ultimately show ?thesis unfolding heap_but_def by blast
qed

lemma heapify_correct:
  assumes "comparison cmp aux" and "heap_but cmp aux xs cnt l i" and "1 \<le> l" and "l \<le> i" and "i \<le> cnt" and "cnt \<le> length xs"
  shows "(\<forall>j\<ge>l. heap_at cmp aux (heapify xs i cnt cmp aux) cnt j) \<and> mset (heapify xs i cnt cmp aux) = mset xs \<and>
    (\<forall>k. cnt \<le> k \<longrightarrow> k < length xs \<longrightarrow> heapify xs i cnt cmp aux ! k = xs ! k)"
  using assms
proof (induction "cnt - i" arbitrary: xs i rule: less_induct)
  case less
  define t where "t = top_child cmp aux xs cnt i"
  have i1: "1 \<le> i" using less.prems by simp
  note tf = top_child_facts[OF less.prems(1) i1, where xs = xs and cnt = cnt, folded t_def]
  show ?case
  proof (cases "t = i")
    case True
    then have "heapify xs i cnt cmp aux = xs" using heapify_unfold[of xs i cnt cmp aux] by (simp add: t_def)
    then show ?thesis using tf(1)[OF True] less.prems(2) unfolding heap_but_def by metis
  next
    case False
    have t: "t div 2 = i" "t \<le> cnt" using tf(2)[OF False] by simp_all
    then have ti: "i < t" using i1 by linarith
    have e: "heapify xs i cnt cmp aux = heapify (do_swap xs i t) t cnt cmp aux" using heapify_unfold[of xs i cnt cmp aux] False by (simp add: t_def)
    have "cnt - t < cnt - i" using ti t(2) by linarith
    note ih = less.hyps[OF this less.prems(1) heap_but_step[OF less.prems t_def False] less.prems(3)]
    have "do_swap xs i t ! k = xs ! k" if "cnt \<le> k" for k using that ti t(2) i1 by (simp add: do_swap_def)
    moreover have "mset (do_swap xs i t) = mset xs" using mset_do_swap[of i xs t] less.prems i1 ti t by simp
    ultimately show ?thesis using ih ti t less.prems unfolding e by simp
  qed
qed

lemma build_heap_correct:
  assumes "comparison cmp aux" and "\<forall>j\<ge>Suc i. heap_at cmp aux xs cnt j" and "i \<le> cnt" and "cnt \<le> length xs"
  shows "(\<forall>j\<ge>1. heap_at cmp aux (build_heap xs i cnt cmp aux) cnt j) \<and> mset (build_heap xs i cnt cmp aux) = mset xs \<and>
    (\<forall>k. cnt \<le> k \<longrightarrow> k < length xs \<longrightarrow> build_heap xs i cnt cmp aux ! k = xs ! k)"
  using assms
proof (induction i arbitrary: xs)
  case (Suc i)
  have "heap_but cmp aux xs cnt (Suc i) (Suc i)" using Suc.prems(2) by (simp add: heap_but_def)
  note h = heapify_correct[OF Suc.prems(1) this _ order.refl Suc.prems(3,4)]
  then have "length (heapify xs (Suc i) cnt cmp aux) = length xs" by (metis One_nat_def Suc_leI mset_eq_length zero_less_Suc)
  then show ?case using Suc.IH[OF Suc.prems(1), of "heapify xs (Suc i) cnt cmp aux"] h Suc.prems by simp
qed simp

lemma heap_root_max:
  assumes "comparison cmp aux" and "\<forall>j\<ge>1. heap_at cmp aux xs cnt j" and "1 \<le> k" and "k \<le> cnt"
  shows "cmp (at xs k) (at xs 1) aux \<le> 0"
  using assms(3,4)
proof (induction k rule: less_induct)
  case (less k)
  show ?case
  proof (cases "k = 1")
    case False
    then have k: "1 \<le> k div 2" "k div 2 < k" using less.prems by linarith+
    then have "cmp (at xs k) (at xs (k div 2)) aux \<le> 0" using assms(2) less.prems unfolding heap_at_def by blast
    moreover have "cmp (at xs (k div 2)) (at xs 1) aux \<le> 0" using less.IH[OF k(2,1)] k less.prems by simp
    ultimately show ?thesis by (rule comparison_trans[OF assms(1)])
  qed (simp add: comparison_refl[OF assms(1)])
qed

text \<open>The loop that takes the greatest element of the heap and puts it behind the heap.\<close>

definition sorting :: "('a \<Rightarrow> 'a \<Rightarrow> 'x \<Rightarrow> int) \<Rightarrow> 'x \<Rightarrow> nat \<Rightarrow> 'a list \<Rightarrow> bool" where
  "sorting cmp aux i xs \<longleftrightarrow> i \<le> length xs \<and> (\<forall>j\<ge>1. heap_at cmp aux xs i j) \<and> sorted_wrt (\<lambda>a b. cmp a b aux \<le> 0) (drop i xs) \<and>
     (\<forall>a\<in>set (take i xs). \<forall>b\<in>set (drop i xs). cmp a b aux \<le> 0)"

lemma sorting_step:
  assumes cmp: "comparison cmp aux" and s: "sorting cmp aux (Suc i) xs" and i: "1 \<le> i"
  defines "xs' \<equiv> heapify (do_swap xs 1 (Suc i)) 1 i cmp aux"
  shows "sorting cmp aux i xs'" and "mset xs' = mset xs"
proof -
  let ?ys = "do_swap xs 1 (Suc i)"
  have len: "Suc i \<le> length xs" and heap: "\<forall>j\<ge>1. heap_at cmp aux xs (Suc i) j" using s by (simp_all add: sorting_def)
  have sw: "at ?ys k = at xs k" if "2 \<le> k" "k \<le> i" for k using at_do_swap[of 1 xs "Suc i" k] that len by simp
  have "heap_at cmp aux ?ys i j" if "1 < j" for j
    unfolding heap_at_def
  proof (intro allI impI)
    fix c assume c: "c div 2 = j" "c \<le> i"
    have "2 \<le> c" "2 \<le> j" "j \<le> i" using c that by linarith+
    then show "cmp (at ?ys c) (at ?ys j) aux \<le> 0" using sw c heap that unfolding heap_at_def by simp
  qed
  then have "heap_but cmp aux ?ys i 1 1" by (simp add: heap_but_def le_neq_implies_less)
  note h = heapify_correct[OF cmp this order.refl order.refl i]
  have l: "length ?ys = length xs" by simp
  have h1: "\<forall>j\<ge>1. heap_at cmp aux xs' i j" and m: "mset xs' = mset ?ys" and tl: "\<forall>k. i \<le> k \<longrightarrow> k < length xs \<longrightarrow> xs' ! k = ?ys ! k"
    using h len l by (simp_all add: xs'_def)
  show "mset xs' = mset xs" using m mset_do_swap[of 1 xs "Suc i"] len by simp
  have len': "length xs' = length xs" using m l by (metis mset_eq_length)
  have dr: "drop i xs' = drop i ?ys" by (rule nth_equalityI) (use tl len' in simp_all)
  have "mset (take i xs') + mset (drop i xs') = mset (take i ?ys) + mset (drop i ?ys)"
    using m by (metis append_take_drop_id mset_append)
  then have tk: "set (take i xs') = set (take i ?ys)" using dr by (metis add_right_cancel set_mset_mset)
  have d2: "drop i ?ys = at xs 1 # drop (Suc i) xs"
  proof -
    have "drop i ?ys = ?ys ! i # drop (Suc i) ?ys" using len by (simp add: Cons_nth_drop_Suc)
    moreover have "?ys ! i = at xs 1" using len i by (simp add: do_swap_def at_def)
    moreover have "drop (Suc i) ?ys = drop (Suc i) xs" by (simp add: do_swap_def)
    ultimately show ?thesis by simp
  qed
  have t2: "set (take i ?ys) \<subseteq> set (take (Suc i) xs)"
  proof
    fix a assume "a \<in> set (take i ?ys)"
    then obtain k where k: "k < i" "a = ?ys ! k" using len by (auto simp: in_set_conv_nth)
    have "?ys ! k = (if k = 0 then xs ! i else xs ! k)" using k(1) len less_le_trans[OF zero_less_Suc len]
      by (simp add: do_swap_def nth_list_update)
    moreover have "xs ! j \<in> set (take (Suc i) xs)" if "j \<le> i" for j
      using that len nth_mem[of j "take (Suc i) xs"] by simp
    ultimately show "a \<in> set (take (Suc i) xs)" using k by auto
  qed
  have mx: "cmp a (at xs 1) aux \<le> 0" if a: "a \<in> set (take (Suc i) xs)" for a
  proof -
    obtain k where "k < Suc i" "a = xs ! k" using a len by (auto simp: in_set_conv_nth)
    then show ?thesis using heap_root_max[OF cmp heap, of "Suc k"] by (simp add: at_def)
  qed
  have "at xs 1 \<in> set (take (Suc i) xs)" using len by (cases xs) (simp_all add: at_def)
  then show "sorting cmp aux i xs'"
    using s h1 mx t2 len len' unfolding sorting_def dr d2 tk by auto
qed

lemma sort_heap_correct:
  "comparison cmp aux \<Longrightarrow> sorting cmp aux i xs \<Longrightarrow>
   sorted_wrt (\<lambda>a b. cmp a b aux \<le> 0) (sort_heap xs i cmp aux) \<and> mset (sort_heap xs i cmp aux) = mset xs"
proof (induction i arbitrary: xs)
  case 0
  then show ?case by (simp add: sorting_def)
next
  case (Suc i)
  show ?case
  proof (cases "1 \<le> i")
    case True
    then show ?thesis using Suc.IH[OF Suc.prems(1)] sorting_step[OF Suc.prems True] by simp
  next
    case False
    then have "i = 0" by simp
    have "sorted_wrt (\<lambda>a b. cmp a b aux \<le> 0) xs"
      using Suc.prems(2) \<open>i = 0\<close> by (cases xs) (auto simp: sorting_def)
    then show ?thesis using \<open>i = 0\<close> by simp
  qed
qed

text \<open>
  C24. \<open>sort\<close> and \<open>qsort\<close> sort: for any array and any three-way comparison of a total preorder, the heap sort ends and leaves a
  permutation of the elements in ascending order.
\<close>

theorem sort_array_correct:
  assumes "comparison cmp aux"
  shows "sorted_wrt (\<lambda>a b. cmp a b aux \<le> 0) (sort_array xs (length xs) cmp aux) \<and> mset (sort_array xs (length xs) cmp aux) = mset xs"
proof -
  have "heap_at cmp aux xs (length xs) j" if "Suc (length xs div 2) \<le> j" for j
    unfolding heap_at_def
  proof (intro allI impI)
    fix c assume "c div 2 = j" "c \<le> length xs"
    then have "c div 2 \<le> length xs div 2" by (simp add: div_le_mono)
    then show "cmp (at xs c) (at xs j) aux \<le> 0" using that \<open>c div 2 = j\<close> by simp
  qed
  then have b: "\<forall>j\<ge>1. heap_at cmp aux (build_heap xs (length xs div 2) (length xs) cmp aux) (length xs) j"
    "mset (build_heap xs (length xs div 2) (length xs) cmp aux) = mset xs"
    using build_heap_correct[OF assms, of "length xs div 2" xs "length xs"] by simp_all
  then have "sorting cmp aux (length xs) (build_heap xs (length xs div 2) (length xs) cmp aux)"
    by (simp add: sorting_def) (metis mset_eq_length order.refl drop_all set_empty2 sorted_wrt.simps(1) empty_iff)
  then show ?thesis using sort_heap_correct[OF assms] b(2) by (simp add: sort_array_def)
qed

theorem sort_array_correct_witness:
  "comparison compare_thunk (\<lambda>a b. a - b :: int) \<and> sorted (qsort [5, 3, 9, 1, 3 :: int] 5 (\<lambda>a b. a - b)) \<and>
   mset (qsort [5, 3, 9, 1, 3 :: int] 5 (\<lambda>a b. a - b)) = mset [5, 3, 9, 1, 3] \<and>
   qsort [5, 3, 9, 1, 3 :: int] 5 (\<lambda>a b. a - b) = [1, 3, 3, 5, 9]"
proof -
  have c: "comparison compare_thunk (\<lambda>a b. a - b :: int)" by (simp add: comparison_def compare_thunk_def)
  have q: "qsort [5, 3, 9, 1, 3 :: int] 5 (\<lambda>a b. a - b) = [1, 3, 3, 5, 9]" by code_simp
  have "length [5, 3, 9, 1, 3 :: int] = 5" by simp
  then show ?thesis using c q sort_array_correct[OF c, of "[5, 3, 9, 1, 3]"] by (simp add: qsort_def compare_thunk_def)
qed

section \<open>Binary search\<close>

text \<open>The elements are in order as seen from the key: first those below it, then those that match, then those above.\<close>

definition ordered_for :: "'k \<Rightarrow> 'a list \<Rightarrow> ('k \<Rightarrow> 'a \<Rightarrow> 'x \<Rightarrow> int) \<Rightarrow> 'x \<Rightarrow> bool" where
  "ordered_for key xs cmp aux \<longleftrightarrow> (\<forall>i j. i < j \<longrightarrow> j < length xs \<longrightarrow>
     (cmp key (xs ! i) aux < 0 \<longrightarrow> cmp key (xs ! j) aux < 0) \<and> (cmp key (xs ! j) aux > 0 \<longrightarrow> cmp key (xs ! i) aux > 0))"

lemma binary_search_loop_correct:
  assumes "ordered_for key xs cmp aux" and "l \<le> length xs"
  shows "(case binary_search_loop key xs f l cmp aux of Some m \<Rightarrow> f \<le> m \<and> m < l \<and> cmp key (xs ! m) aux = 0
    | None \<Rightarrow> \<forall>m. f \<le> m \<longrightarrow> m < l \<longrightarrow> cmp key (xs ! m) aux \<noteq> 0)"
  using assms(2)
proof (induction "l - f" arbitrary: f l rule: less_induct)
  case less
  show ?case
  proof (cases "f < l")
    case True
    define m where "m = f + (l - f) div 2"
    have m: "f \<le> m" "m < l" using True by (simp_all add: m_def)
    have up: "cmp key (xs ! k) aux < 0" if "cmp key (xs ! m) aux < 0" "m \<le> k" "k < l" for k
      using assms(1)[unfolded ordered_for_def, THEN spec, THEN spec, of m k] that less.prems by (cases "m = k") simp_all
    have dn: "cmp key (xs ! k) aux > 0" if "cmp key (xs ! m) aux > 0" "k \<le> m" for k
      using assms(1)[unfolded ordered_for_def, THEN spec, THEN spec, of k m] that less.prems m by (cases "m = k") simp_all
    have e: "binary_search_loop key xs f l cmp aux = (if cmp key (xs ! m) aux < 0 then binary_search_loop key xs f m cmp aux
        else if cmp key (xs ! m) aux > 0 then binary_search_loop key xs (m + 1) l cmp aux else Some m)"
      using True by (subst binary_search_loop.simps) (simp add: Let_def m_def)
    consider "cmp key (xs ! m) aux < 0" | "cmp key (xs ! m) aux > 0" | "cmp key (xs ! m) aux = 0" by linarith
    then show ?thesis
    proof cases
      case 1
      have IH: "case binary_search_loop key xs f m cmp aux of Some k \<Rightarrow> f \<le> k \<and> k < m \<and> cmp key (xs ! k) aux = 0
        | None \<Rightarrow> \<forall>k. f \<le> k \<longrightarrow> k < m \<longrightarrow> cmp key (xs ! k) aux \<noteq> 0" using less.hyps[of m f] m less.prems by simp
      have "cmp key (xs ! k) aux \<noteq> 0" if "f \<le> k" "k < l" "binary_search_loop key xs f m cmp aux = None" for k
        using up[OF 1, of k] IH that by (cases "m \<le> k") simp_all
      then show ?thesis using 1 e IH m by (cases "binary_search_loop key xs f m cmp aux") simp_all
    next
      case 2
      have IH: "case binary_search_loop key xs (m + 1) l cmp aux of Some k \<Rightarrow> m + 1 \<le> k \<and> k < l \<and> cmp key (xs ! k) aux = 0
        | None \<Rightarrow> \<forall>k. m + 1 \<le> k \<longrightarrow> k < l \<longrightarrow> cmp key (xs ! k) aux \<noteq> 0" using less.hyps[of l "m + 1"] m less.prems by simp
      have "cmp key (xs ! k) aux \<noteq> 0" if "f \<le> k" "k < l" "binary_search_loop key xs (m + 1) l cmp aux = None" for k
        using dn[OF 2, of k] IH that by (cases "k \<le> m") simp_all
      then show ?thesis using 2 e IH m by (cases "binary_search_loop key xs (m + 1) l cmp aux") simp_all
    next
      case 3
      then show ?thesis using e m by simp
    qed
  next
    case False
    then show ?thesis by (subst binary_search_loop.simps) simp
  qed
qed

lemma binary_search_correct:
  assumes "ordered_for key xs cmp aux"
  shows "(\<exists>m. binary_search key xs (length xs) cmp aux = Some m \<and> m < length xs \<and> cmp key (xs ! m) aux = 0) \<or>
    binary_search key xs (length xs) cmp aux = None \<and> (\<forall>x\<in>set xs. cmp key x aux \<noteq> 0)"
  using binary_search_loop_correct[OF assms order.refl, of 0]
  by (auto simp: binary_search_def in_set_conv_nth split: option.splits)

section \<open>Reading a number\<close>

text \<open>The bytes \<open>bs\<close> lie in memory from \<open>p\<close> on.\<close>

fun holds :: "mem \<Rightarrow> ptr \<Rightarrow> uint8 list \<Rightarrow> bool" where
  "holds m p [] \<longleftrightarrow> True"
| "holds m p (b # bs) \<longleftrightarrow> p \<noteq> NULL \<and> m p = b \<and> holds m (p + 1) bs"

lemma holds_append [simp]: "holds m p (bs @ cs) \<longleftrightarrow> holds m p bs \<and> holds m (p + of_nat (length bs)) cs"
  by (induction bs arbitrary: p) (auto simp: algebra_simps)

definition digits_value :: "uint8 list \<Rightarrow> int" where
  "digits_value ds = foldl (\<lambda>v d. 10 * v + (sint d - 48)) 0 ds"

lemma skip_spaces_eval:
  assumes "holds m p (ws @ [c])" and "\<forall>w\<in>set ws. isspace (uint w)" and "\<not> isspace (uint c)"
  shows "skip_spaces m p = Some (p + of_nat (length ws))"
  using assms
proof (induction ws arbitrary: p)
  case Nil
  then show ?case by (subst skip_spaces.simps) (simp add: rd8_def)
next
  case (Cons w ws)
  then show ?case by (subst skip_spaces.simps) (simp add: rd8_def algebra_simps)
qed

lemma parse_digits_eval:
  assumes "holds m p (ds @ [c])" and "\<forall>d\<in>set ds. isdigit (sint d)" and "\<not> isdigit (sint c)"
  shows "parse_digits m p (of_int v) = Some (of_int (foldl (\<lambda>v d. 10 * v - (sint d - 48)) v ds))"
  using assms
proof (induction ds arbitrary: p v)
  case Nil
  then show ?case by (subst parse_digits.simps) (simp add: rd8_def)
next
  case (Cons d ds)
  let ?v = "10 * v - (sint d - 48)"
  have e: "(of_int v * 10 - of_int (sint d - 48) :: 32 word) = of_int ?v"
    unfolding of_int_diff of_int_mult by (simp only: mult.commute of_int_numeral)
  have "parse_digits m p (of_int v) = parse_digits m (p + 1) (of_int ?v)"
    unfolding e[symmetric] using Cons.prems by (subst parse_digits.simps) (simp only: rd8_def, simp)
  also have "\<dots> = Some (of_int (foldl (\<lambda>v d. 10 * v - (sint d - 48)) ?v ds))"
    by (rule Cons.IH) (use Cons.prems in simp_all)
  finally show ?case by (simp only: foldl_Cons)
qed

lemma digits_value_neg: "foldl (\<lambda>v d. 10 * v - (sint d - 48)) (- v) ds = - foldl (\<lambda>v d. 10 * v + (sint d - 48)) v (ds :: uint8 list)"
proof (induction ds arbitrary: v)
  case (Cons d ds)
  have "10 * - v - (sint d - 48) = - (10 * v + (sint d - 48))" by simp
  then show ?case using Cons.IH[of "10 * v + (sint d - 48)"] by (simp only: foldl_Cons)
qed simp

lemma mod_shift: "0 \<le> (x :: int) \<Longrightarrow> x < 256 \<Longrightarrow> (x + 128) mod 256 - 128 = (if x < 128 then x else x - 256)"
  using mod_add_self2[of "x - 128" 256] by (cases "x < 128") (simp, simp add: add.commute[of 128])

lemma sint_byte: "sint (d :: 8 word) = (if uint d < 128 then uint d else uint d - 256)"
proof -
  have "uint d < 256" using unsigned_less[where w = d and ?'a = int] by simp
  moreover have "sint d = (uint d + 128) mod 256 - 128"
    by (simp add: sint_uint signed_take_bit_eq_take_bit_shift take_bit_eq_mod)
  ultimately show ?thesis using mod_shift[OF uint_ge_0, of d] by simp
qed

lemma sint_of_int32: "- (2 ^ 31) \<le> v \<Longrightarrow> v < 2 ^ 31 \<Longrightarrow> sint (of_int v :: 32 word) = v"
  by (simp add: signed_of_int signed_take_bit_int_eq_self)

lemma atoi_eval:
  assumes "holds m p (ws @ sign @ ds @ [c])" and "\<forall>w\<in>set ws. isspace (uint w)" and "sign \<in> {[], [43], [45]}"
    and "\<forall>d\<in>set ds. isdigit (sint d)" and "\<not> isdigit (sint c)" and "ds \<noteq> []"
    and "v = (if sign = [45] then - digits_value ds else digits_value ds)" and "- (2 ^ 31) \<le> v" and "v < 2 ^ 31"
  shows "atoi m p = Some v"
proof -
  obtain d ds' where ds: "ds = d # ds'" using assms(6) by (cases ds) auto
  have dig: "isdigit (sint d)" using assms(4) ds by simp
  then have nd: "\<not> isspace (uint d)" "d \<noteq> 43" "d \<noteq> 45"
    using sint_byte[of d] unsigned_less[where w = d and ?'a = int] by (auto simp: isspace_def isdigit_def split: if_splits)
  obtain a as where as: "sign @ ds @ [c] = a # as" by (cases sign) (auto simp: ds)
  have na: "\<not> isspace (uint a)" using as assms(3) nd ds by (auto simp: isspace_def)
  have p0: "p \<noteq> NULL" using assms(1) as by (cases ws) auto
  have "holds m p (ws @ [a])" using assms(1) as by simp
  note sk = skip_spaces_eval[OF this assms(2) na]
  let ?q = "p + of_nat (length ws)"
  have q: "?q \<noteq> NULL" "m ?q = a" using assms(1) as by (metis holds.simps(2) holds_append)+
  have hd: "holds m (?q + of_nat (length sign)) (ds @ [c])" using assms(1) by simp
  have pd: "parse_digits m (?q + of_nat (length sign)) 0 = Some (- of_int (digits_value ds))"
    using parse_digits_eval[OF hd assms(4,5), of 0] digits_value_neg[of 0 ds] by (simp add: digits_value_def)
  have sg: "a = (if sign = [] then d else hd sign)" using as ds by (cases sign) auto
  have *: "atoi m p = Some (sint (if sign = [45] then - of_int (digits_value ds) else of_int (digits_value ds) :: 32 word))"
    using sk q pd sg nd assms(3) p0 by (auto simp: atoi_def rd8_def)
  have "sint (of_int v :: 32 word) = v" by (rule sint_of_int32[OF assms(8,9)])
  then show ?thesis unfolding * using assms(7) by auto
qed

end
