(* ===== verification/Palloc.thy ===== *)
theory Palloc
  imports Bitmap Strings Vaddr Extents
begin

text \<open>
  The page allocator: \<open>src/threads/palloc.c\<close>. The state is the two pools, each a bitmap of used
  pages and the address of its first page; memory is the one of \<open>Strings\<close>. The scan of
  the bitmap runs with the pool's lock held and is one step here.

  Page numbers are addresses divided by the page size. The main results: a request is
  refused only if no group of free pages is large enough, pages that are handed out are free
  and belong to the right pool, and (through the interpretation of \<open>extent_allocator\<close>)
  no page is ever handed out twice before it is freed.
\<close>

section \<open>The code\<close>

record pool =
  used_map :: bitmap
  base :: ptr

record palloc =
  kernel_pool :: pool
  user_pool :: pool

abbreviation PAL_ASSERT :: "32 word" where "PAL_ASSERT \<equiv> 1"
abbreviation PAL_ZERO :: "32 word" where "PAL_ZERO \<equiv> 2"
abbreviation PAL_USER :: "32 word" where "PAL_USER \<equiv> 4"

text \<open>
  \<open>init_pool\<close> puts the bitmap at the base of the pool; \<open>es\<close> is what the memory there holds before.
  A pool that is too small for its bitmap panics.
\<close>

definition init_pool :: "elem_type list \<Rightarrow> ptr \<Rightarrow> size_t \<Rightarrow> pool option" where
  "init_pool es bs page_cnt = do {
     let bm_pages = DIV_ROUND_UP (bitmap_buf_size page_cnt) PGSIZE;
     ASSERT (\<not> bm_pages > page_cnt);
     let page_cnt = page_cnt - bm_pages;
     b \<leftarrow> bitmap_create_in_buf page_cnt es (bm_pages * PGSIZE);
     Some \<lparr>used_map = b, base = bs + bm_pages * PGSIZE\<rparr>
   }"

text \<open>\<open>kend\<close> is the address of the linker symbol \<open>_end\<close>; \<open>ram_pages\<close> and \<open>user_page_limit\<close> are the globals.\<close>

definition palloc_init ::
  "ptr \<Rightarrow> size_t \<Rightarrow> size_t \<Rightarrow> elem_type list \<Rightarrow> elem_type list \<Rightarrow> palloc option" where
  "palloc_init kend ram_pages user_page_limit es1 es2 = do {
     let free_start = pg_round_up kend;
     free_end \<leftarrow> ptov (ram_pages * PGSIZE);
     let free_pages = (free_end - free_start) div PGSIZE;
     let user_pages = free_pages div 2;
     let user_pages = (if user_pages > user_page_limit then user_page_limit else user_pages);
     let kernel_pages = free_pages - user_pages;
     k \<leftarrow> init_pool es1 free_start kernel_pages;
     u \<leftarrow> init_pool es2 (free_start + kernel_pages * PGSIZE) user_pages;
     Some \<lparr>kernel_pool = k, user_pool = u\<rparr>
   }"

definition palloc_get_multiple :: "palloc \<Rightarrow> mem \<Rightarrow> 32 word \<Rightarrow> size_t \<Rightarrow> (palloc \<times> mem \<times> ptr) option" where
  "palloc_get_multiple st m flags page_cnt =
     (let user = (flags AND PAL_USER \<noteq> 0); pool = (if user then user_pool st else kernel_pool st) in
      if page_cnt = 0 then Some (st, m, NULL)
      else do {
        (um, page_idx) \<leftarrow> bitmap_scan_and_flip (used_map pool) 0 page_cnt False;
        let st = (if user then st\<lparr>user_pool := pool\<lparr>used_map := um\<rparr>\<rparr>
                  else st\<lparr>kernel_pool := pool\<lparr>used_map := um\<rparr>\<rparr>);
        let pages = (if page_idx \<noteq> BITMAP_ERROR then base pool + PGSIZE * page_idx else NULL);
        if pages \<noteq> NULL then
          (if flags AND PAL_ZERO \<noteq> 0 then do {
             (m, _) \<leftarrow> memset m pages 0 (PGSIZE * page_cnt);
             Some (st, m, pages)
           } else Some (st, m, pages))
        else do {
          ASSERT (flags AND PAL_ASSERT = 0);
          Some (st, m, pages)
        }
      })"

definition palloc_get_page :: "palloc \<Rightarrow> mem \<Rightarrow> 32 word \<Rightarrow> (palloc \<times> mem \<times> ptr) option" where
  "palloc_get_page st m flags = palloc_get_multiple st m flags 1"

definition page_from_pool :: "pool \<Rightarrow> ptr \<Rightarrow> bool" where
  "page_from_pool pool page =
     (let page_no = pg_no page; start_page = pg_no (base pool);
          end_page = start_page + bitmap_size (used_map pool)
      in page_no \<ge> start_page \<and> page_no < end_page)"

definition palloc_free_multiple :: "palloc \<Rightarrow> mem \<Rightarrow> ptr \<Rightarrow> size_t \<Rightarrow> (palloc \<times> mem) option" where
  "palloc_free_multiple st m pages page_cnt = do {
     ASSERT (pg_ofs pages = 0);
     if pages = NULL \<or> page_cnt = 0 then Some (st, m)
     else do {
       let kernel = page_from_pool (kernel_pool st) pages;
       ASSERT (kernel \<or> page_from_pool (user_pool st) pages);
       let pool = (if kernel then kernel_pool st else user_pool st);
       let page_idx = pg_no pages - pg_no (base pool);
       (m, _) \<leftarrow> memset m pages 0xcc (PGSIZE * page_cnt);
       all_used \<leftarrow> bitmap_all (used_map pool) page_idx page_cnt;
       ASSERT all_used;
       um \<leftarrow> bitmap_set_multiple (used_map pool) page_idx page_cnt False;
       let pool = pool\<lparr>used_map := um\<rparr>;
       Some (if kernel then st\<lparr>kernel_pool := pool\<rparr> else st\<lparr>user_pool := pool\<rparr>, m)
     }
   }"

definition palloc_free_page :: "palloc \<Rightarrow> mem \<Rightarrow> ptr \<Rightarrow> (palloc \<times> mem) option" where
  "palloc_free_page st m page = palloc_free_multiple st m page 1"

section \<open>Pools\<close>

text \<open>
  A pool is well formed if its bitmap is, and its pages are page aligned and lie in kernel
  address space without wrapping. Its pages are the numbers of all its pages, its used
  pages those marked in the bitmap.
\<close>

definition pool_wf :: "pool \<Rightarrow> bool" where
  "pool_wf p \<longleftrightarrow> bitmap_wf (used_map p) \<and> pg_ofs (base p) = 0 \<and> is_kernel_vaddr (base p) \<and>
     unat (base p) + 4096 * unat (bit_cnt (used_map p)) \<le> 2 ^ 32"

definition pool_pages :: "pool \<Rightarrow> nat set" where
  "pool_pages p = {unat (pg_no (base p))..<unat (pg_no (base p)) + unat (bit_cnt (used_map p))}"

definition pool_used :: "pool \<Rightarrow> nat set" where
  "pool_used p = {unat (pg_no (base p)) + i | i. i < unat (bit_cnt (used_map p)) \<and> bitmap_abs (used_map p) ! i}"

definition palloc_wf :: "palloc \<Rightarrow> bool" where
  "palloc_wf st \<longleftrightarrow> pool_wf (kernel_pool st) \<and> pool_wf (user_pool st) \<and>
     pool_pages (kernel_pool st) \<inter> pool_pages (user_pool st) = {}"

definition page_range :: "ptr \<Rightarrow> size_t \<Rightarrow> nat set" where
  "page_range p n = {unat (pg_no p)..<unat (pg_no p) + unat n}"

lemma pool_used_sub: "pool_used p \<subseteq> pool_pages p"
  by (auto simp: pool_used_def pool_pages_def)

lemma pool_base: "pool_wf p \<Longrightarrow> unat (base p) = 4096 * unat (pg_no (base p))"
  using pg_ofs_mod[of "base p"] by (simp add: pool_wf_def pg_no_div mod_eq_0_iff_dvd)

text \<open>The address of the page with index \<open>i\<close> in a pool.\<close>

lemma pool_page_addr:
  assumes "pool_wf p" and "unat i < unat (bit_cnt (used_map p))"
  shows "unat (base p + PGSIZE * i) = unat (base p) + 4096 * unat i"
    and "unat (pg_no (base p + PGSIZE * i)) = unat (pg_no (base p)) + unat i"
    and "pg_ofs (base p + PGSIZE * i) = 0" and "base p + PGSIZE * i \<noteq> NULL"
proof -
  have le: "unat (base p) + 4096 * unat i < 2 ^ 32" using assms by (auto simp: pool_wf_def)
  then show u: "unat (base p + PGSIZE * i) = unat (base p) + 4096 * unat i"
    by (simp add: unat_word_ariths)
  show "unat (pg_no (base p + PGSIZE * i)) = unat (pg_no (base p)) + unat i"
    by (simp add: pg_no_div u del: PGSIZE_eq)
  have "unat (pg_ofs (base p + PGSIZE * i)) = 0"
    using assms(1) pg_ofs_mod[of "base p"] by (simp add: pg_ofs_mod u pool_wf_def del: PGSIZE_eq)
  then show "pg_ofs (base p + PGSIZE * i) = 0" by (simp add: unat_0_iff)
  have "unat (base p) \<ge> 3221225472" using assms(1) by (simp add: pool_wf_def is_kernel_vaddr_def word_le_nat_alt)
  then show "base p + PGSIZE * i \<noteq> NULL" using u by (auto simp flip: unat_0_iff)
qed

lemma pool_group:
  assumes "0 < n"
  shows "bit_group (bitmap_abs (used_map p)) i n False \<longleftrightarrow>
    {unat (pg_no (base p)) + i..<unat (pg_no (base p)) + i + n} \<subseteq> pool_pages p - pool_used p"
    (is "_ \<longleftrightarrow> {?b + i..<?b + i + n} \<subseteq> _")
proof
  assume g: "bit_group (bitmap_abs (used_map p)) i n False"
  show "{?b + i..<?b + i + n} \<subseteq> pool_pages p - pool_used p"
  proof
    fix x assume x: "x \<in> {?b + i..<?b + i + n}"
    then obtain k where k: "x = ?b + (i + k)" "k < n" by (auto simp: nat_le_iff_add)
    then have "i + k < unat (bit_cnt (used_map p))" "\<not> bitmap_abs (used_map p) ! (i + k)"
      using g by (auto simp: bit_group_def)
    then show "x \<in> pool_pages p - pool_used p" using k by (auto simp: pool_pages_def pool_used_def)
  qed
next
  assume s: "{?b + i..<?b + i + n} \<subseteq> pool_pages p - pool_used p"
  have in_free: "?b + (i + k) \<in> pool_pages p - pool_used p" if "k < n" for k
    using s that by (auto simp: subset_iff)
  then have "i + k < unat (bit_cnt (used_map p))" if "k < n" for k
    using that by (force simp: pool_pages_def)
  moreover have "\<not> bitmap_abs (used_map p) ! (i + k)" if "k < n" for k
    using in_free[OF that] calculation[OF that] by (auto simp: pool_used_def)
  moreover have "i + n \<le> unat (bit_cnt (used_map p))"
    using calculation(1)[of "n - 1"] assms by simp
  ultimately show "bit_group (bitmap_abs (used_map p)) i n False" by (simp add: bit_group_def)
qed

lemma pool_used_set_range:
  assumes "i + n \<le> unat (bit_cnt (used_map p))" and "bit_cnt um = bit_cnt (used_map p)"
    and "bitmap_abs um = set_range (bitmap_abs (used_map p)) i n v"
  shows "pool_used (p\<lparr>used_map := um\<rparr>) =
    (if v then pool_used p \<union> {unat (pg_no (base p)) + i..<unat (pg_no (base p)) + i + n}
     else pool_used p - {unat (pg_no (base p)) + i..<unat (pg_no (base p)) + i + n})"
    (is "_ = (if v then _ \<union> {?b + i..<?b + i + n} else _)")
proof -
  have nth: "bitmap_abs um ! k = (if i \<le> k \<and> k < i + n then v else bitmap_abs (used_map p) ! k)"
    if "k < unat (bit_cnt (used_map p))" for k
    using set_range_nth[of i n "bitmap_abs (used_map p)" k v] assms that by simp
  have mem: "x \<in> pool_used q \<longleftrightarrow> unat (pg_no (base q)) \<le> x \<and> x - unat (pg_no (base q)) < unat (bit_cnt (used_map q)) \<and>
      bitmap_abs (used_map q) ! (x - unat (pg_no (base q)))" for x q
    by (force simp: pool_used_def)
  have rng: "x \<in> {?b + i..<?b + i + n} \<longleftrightarrow> ?b \<le> x \<and> i \<le> x - ?b \<and> x - ?b < i + n" for x
    by auto
  show ?thesis
  proof (rule set_eqI)
    fix x
    show "x \<in> pool_used (p\<lparr>used_map := um\<rparr>) \<longleftrightarrow> x \<in> (if v then pool_used p \<union> {?b + i..<?b + i + n}
     else pool_used p - {?b + i..<?b + i + n})"
      using assms(1,2) nth[of "x - ?b"] by (cases v) (auto simp: mem rng split: if_splits simp del: atLeastLessThan_iff)
  qed
qed

lemma pool_get:
  assumes wf: "pool_wf p" and n: "n \<noteq> 0"
  obtains um idx where "bitmap_scan_and_flip (used_map p) 0 n False = Some (um, idx)"
    "pool_wf (p\<lparr>used_map := um\<rparr>)" "pool_pages (p\<lparr>used_map := um\<rparr>) = pool_pages p"
    "if idx = BITMAP_ERROR
     then pool_used (p\<lparr>used_map := um\<rparr>) = pool_used p \<and> \<not> (\<exists>i. {i..<i + unat n} \<subseteq> pool_pages p - pool_used p)
     else unat idx + unat n \<le> unat (bit_cnt (used_map p)) \<and>
       page_range (base p + PGSIZE * idx) n \<subseteq> pool_pages p - pool_used p \<and>
       pool_used (p\<lparr>used_map := um\<rparr>) = pool_used p \<union> page_range (base p + PGSIZE * idx) n"
proof -
  let ?b = "used_map p" and ?B = "unat (pg_no (base p))"
  have bwf: "bitmap_wf ?b" using wf by (simp add: pool_wf_def)
  have n0: "0 < unat n" using n by (simp add: unat_gt_0)
  obtain um where um: "bitmap_scan_and_flip ?b 0 n False = Some (um, scan_result (first_group (bitmap_abs ?b) 0 (unat n) False))"
    "bitmap_wf um" "bit_cnt um = bit_cnt ?b"
    "bitmap_abs um = (case first_group (bitmap_abs ?b) 0 (unat n) False of
       None \<Rightarrow> bitmap_abs ?b | Some i \<Rightarrow> set_range (bitmap_abs ?b) i (unat n) (\<not> False))"
    using bitmap_scan_and_flip_abs[OF bwf, of 0 n False] by (auto simp del: not_False_eq_True)
  have wf': "pool_wf (p\<lparr>used_map := um\<rparr>)" "pool_pages (p\<lparr>used_map := um\<rparr>) = pool_pages p"
    using wf um(2,3) by (simp_all add: pool_wf_def pool_pages_def)
  show thesis
  proof (cases "first_group (bitmap_abs ?b) 0 (unat n) False")
    case None
    have "\<not> {i..<i + unat n} \<subseteq> pool_pages p - pool_used p" for i
    proof (cases "?B \<le> i")
      case True
      then show ?thesis
        using None pool_group[OF n0, of p "i - ?B"] by (simp add: first_group_None)
    next
      case False
      then have "i \<in> {i..<i + unat n}" "i \<notin> pool_pages p" using n0 by (auto simp: pool_pages_def)
      then show ?thesis by blast
    qed
    moreover have "pool_used (p\<lparr>used_map := um\<rparr>) = pool_used p"
      using um(3,4) None by (simp add: pool_used_def)
    ultimately show thesis using that[OF _ wf', of BITMAP_ERROR] um(1) None by (simp add: scan_result_def)
  next
    case (Some i)
    note sr = scan_result_Some[OF bwf Some]
    have g: "bit_group (bitmap_abs ?b) i (unat n) False" using Some by (simp add: first_group_Some)
    then have le: "i + unat n \<le> unat (bit_cnt ?b)" by (simp add: bit_group_def)
    then have "unat (scan_result (Some i)) < unat (bit_cnt ?b)" using n0 sr(1) by simp
    then have pr: "page_range (base p + PGSIZE * scan_result (Some i)) n = {?B + i..<?B + i + unat n}"
      using pool_page_addr(2)[OF wf] sr(1) by (simp add: page_range_def del: PGSIZE_eq)
    show thesis
      using that[OF um(1)[unfolded Some] wf'] g pool_group[OF n0, of p i] pool_used_set_range[OF le um(3), of True] um(4) Some le sr
      unfolding pr by simp
  qed
qed

lemma nonnull_of_range: "p \<noteq> NULL \<Longrightarrow> unat p + n \<le> 2 ^ 32 \<Longrightarrow> nonnull p n"
proof -
  assume p: "p \<noteq> NULL" "unat p + n \<le> 2 ^ 32"
  have "p + of_nat i \<noteq> NULL" if "i < n" for i
  proof -
    have "unat (p + of_nat i) = unat p + i" using p(2) that unat_of_nat32[of i] by (simp add: unat_word_ariths)
    moreover have "0 < unat p" using p(1) by (simp add: unat_gt_0)
    ultimately show ?thesis by (auto simp flip: unat_0_iff)
  qed
  then show ?thesis by (simp add: nonnull_def)
qed

text \<open>A group of pages of one pool as a block of memory.\<close>

lemma pool_block:
  assumes wf: "pool_wf p" and a: "pg_ofs a = 0" and n: "n \<noteq> 0" and r: "page_range a n \<subseteq> pool_pages p"
  shows "unat (PGSIZE * n) = 4096 * unat n" and "nonnull a (4096 * unat n)"
    and "unat (pg_no a - pg_no (base p)) = unat (pg_no a) - unat (pg_no (base p))"
    and "unat (pg_no (base p)) \<le> unat (pg_no a)"
    and "unat (pg_no a) - unat (pg_no (base p)) + unat n \<le> unat (bit_cnt (used_map p))"
    and "page_from_pool p a"
proof -
  let ?B = "unat (pg_no (base p))"
  have n0: "0 < unat n" using n by (simp add: unat_gt_0)
  then have "unat (pg_no a) \<in> page_range a n" "unat (pg_no a) + unat n - 1 \<in> page_range a n"
    by (auto simp: page_range_def)
  then have "unat (pg_no a) \<in> pool_pages p" "unat (pg_no a) + unat n - 1 \<in> pool_pages p" using r by blast+
  then have rng: "?B \<le> unat (pg_no a)" "unat (pg_no a) + unat n \<le> ?B + unat (bit_cnt (used_map p))"
    using n0 by (auto simp: pool_pages_def)
  then show "?B \<le> unat (pg_no a)" "unat (pg_no a) - ?B + unat n \<le> unat (bit_cnt (used_map p))" by simp_all
  show "unat (pg_no a - pg_no (base p)) = unat (pg_no a) - ?B" using rng by (simp add: unat_sub word_le_nat_alt)
  have bs: "unat (base p) = 4096 * ?B" "3221225472 \<le> unat (base p)" "4096 * ?B + 4096 * unat (bit_cnt (used_map p)) \<le> 2 ^ 32"
    using pool_base[OF wf] wf by (simp_all add: pool_wf_def is_kernel_vaddr_def word_le_nat_alt)
  have "unat a mod 4096 = 0" using a pg_ofs_mod[of a] by simp
  then have ua: "unat a = 4096 * unat (pg_no a)" by (simp add: pg_no_div mod_eq_0_iff_dvd)
  then have fin: "unat a + 4096 * unat n \<le> 2 ^ 32" "a \<noteq> NULL" using rng bs by (auto simp flip: unat_0_iff)
  then show "nonnull a (4096 * unat n)" using nonnull_of_range by blast
  have "4096 * unat n < 2 ^ 32" using fin ua rng bs by linarith
  then show "unat (PGSIZE * n) = 4096 * unat n" by (simp add: unat_word_ariths)
  have "?B + unat (bit_cnt (used_map p)) < 2 ^ 32" using bs(3) by simp
  then have "unat (pg_no (base p) + bit_cnt (used_map p)) = ?B + unat (bit_cnt (used_map p))"
    by (simp add: unat_word_ariths)
  then show "page_from_pool p a"
    using rng n0 by (simp add: page_from_pool_def Let_def bitmap_size_def word_le_nat_alt word_less_nat_alt)
qed

definition palloc_used :: "palloc \<Rightarrow> nat set" where
  "palloc_used st = pool_used (kernel_pool st) \<union> pool_used (user_pool st)"

definition pool_of :: "palloc \<Rightarrow> 32 word \<Rightarrow> pool" where
  "pool_of st flags = (if flags AND PAL_USER \<noteq> 0 then user_pool st else kernel_pool st)"

definition set_pool_of :: "palloc \<Rightarrow> 32 word \<Rightarrow> pool \<Rightarrow> palloc" where
  "set_pool_of st flags p = (if flags AND PAL_USER \<noteq> 0 then st\<lparr>user_pool := p\<rparr> else st\<lparr>kernel_pool := p\<rparr>)"

lemma set_pool_of_wf:
  assumes "palloc_wf st" and "pool_wf p" and "pool_pages p = pool_pages (pool_of st flags)"
  shows "palloc_wf (set_pool_of st flags p)"
  using assms by (auto simp: palloc_wf_def set_pool_of_def pool_of_def)

lemma set_pool_of_used_add:
  "pool_used p = pool_used (pool_of st flags) \<union> R \<Longrightarrow> palloc_used (set_pool_of st flags p) = palloc_used st \<union> R"
  by (auto simp: palloc_used_def set_pool_of_def pool_of_def)

lemma set_pool_of_used_remove:
  assumes "palloc_wf st" and "pool_used p = pool_used (pool_of st flags) - R" and "R \<subseteq> pool_pages (pool_of st flags)"
  shows "palloc_used (set_pool_of st flags p) = palloc_used st - R"
proof -
  have "pool_used (kernel_pool st) \<inter> pool_pages (user_pool st) = {}" "pool_used (user_pool st) \<inter> pool_pages (kernel_pool st) = {}"
    using assms(1) pool_used_sub[of "kernel_pool st"] pool_used_sub[of "user_pool st"] unfolding palloc_wf_def by blast+
  then show ?thesis
    using assms(2,3) unfolding palloc_used_def set_pool_of_def pool_of_def by (simp split: if_splits) blast+
qed

lemma palloc_get_unfold:
  assumes "page_cnt \<noteq> 0" and "bitmap_scan_and_flip (used_map (pool_of st flags)) 0 page_cnt False = Some (um, idx)"
  shows "palloc_get_multiple st m flags page_cnt =
    (let st' = set_pool_of st flags ((pool_of st flags)\<lparr>used_map := um\<rparr>);
         pages = (if idx \<noteq> BITMAP_ERROR then base (pool_of st flags) + PGSIZE * idx else NULL)
     in if pages \<noteq> NULL then
          (if flags AND PAL_ZERO \<noteq> 0 then do { (m, _) \<leftarrow> memset m pages 0 (PGSIZE * page_cnt); Some (st', m, pages) }
           else Some (st', m, pages))
        else do { ASSERT (flags AND PAL_ASSERT = 0); Some (st', m, pages) })"
  using assms by (simp add: palloc_get_multiple_def pool_of_def set_pool_of_def Let_def del: PGSIZE_eq)

section \<open>Correctness\<close>

lemma pool_of_wf: "palloc_wf st \<Longrightarrow> pool_wf (pool_of st flags)"
  by (simp add: palloc_wf_def pool_of_def)

lemma set_pool_of_pages:
  "pool_pages p = pool_pages (pool_of st flags) \<Longrightarrow>
   pool_pages (kernel_pool (set_pool_of st flags p)) = pool_pages (kernel_pool st) \<and>
   pool_pages (user_pool (set_pool_of st flags p)) = pool_pages (user_pool st)"
  by (simp add: set_pool_of_def pool_of_def split: if_splits)

lemma palloc_get_refused:
  assumes wf: "palloc_wf st" and n: "n \<noteq> 0"
    and none: "\<not> (\<exists>i. {i..<i + unat n} \<subseteq> pool_pages (pool_of st flags) - pool_used (pool_of st flags))"
  shows "if flags AND PAL_ASSERT \<noteq> 0 then palloc_get_multiple st m flags n = None
    else \<exists>st'. palloc_get_multiple st m flags n = Some (st', m, NULL) \<and> palloc_wf st' \<and> palloc_used st' = palloc_used st \<and>
           pool_pages (kernel_pool st') = pool_pages (kernel_pool st) \<and> pool_pages (user_pool st') = pool_pages (user_pool st)"
proof -
  let ?p = "pool_of st flags"
  obtain um idx where g: "bitmap_scan_and_flip (used_map ?p) 0 n False = Some (um, idx)"
    "pool_wf (?p\<lparr>used_map := um\<rparr>)" "pool_pages (?p\<lparr>used_map := um\<rparr>) = pool_pages ?p"
    "if idx = BITMAP_ERROR
     then pool_used (?p\<lparr>used_map := um\<rparr>) = pool_used ?p \<and> \<not> (\<exists>i. {i..<i + unat n} \<subseteq> pool_pages ?p - pool_used ?p)
     else unat idx + unat n \<le> unat (bit_cnt (used_map ?p)) \<and>
       page_range (base ?p + PGSIZE * idx) n \<subseteq> pool_pages ?p - pool_used ?p \<and>
       pool_used (?p\<lparr>used_map := um\<rparr>) = pool_used ?p \<union> page_range (base ?p + PGSIZE * idx) n"
    by (rule pool_get[OF pool_of_wf[OF wf] n])
  have idx: "idx = BITMAP_ERROR"
  proof (rule ccontr)
    assume "idx \<noteq> BITMAP_ERROR"
    then have "page_range (base ?p + PGSIZE * idx) n \<subseteq> pool_pages ?p - pool_used ?p" using g(4) by simp
    then show False using none unfolding page_range_def by blast
  qed
  have "pool_used (?p\<lparr>used_map := um\<rparr>) = pool_used ?p \<union> {}" using g(4) idx by simp
  from set_pool_of_used_add[OF this] set_pool_of_wf[OF wf g(2,3)] set_pool_of_pages[OF g(3)] idx show ?thesis
    unfolding palloc_get_unfold[OF n g(1)] by (simp add: Let_def)
qed

lemma palloc_get_granted:
  assumes wf: "palloc_wf st" and n: "n \<noteq> 0"
    and some: "\<exists>i. {i..<i + unat n} \<subseteq> pool_pages (pool_of st flags) - pool_used (pool_of st flags)"
  shows "\<exists>st' m' a. palloc_get_multiple st m flags n = Some (st', m', a) \<and> palloc_wf st' \<and> a \<noteq> NULL \<and> pg_ofs a = 0 \<and>
      page_range a n \<subseteq> pool_pages (pool_of st flags) - pool_used (pool_of st flags) \<and>
      palloc_used st' = palloc_used st \<union> page_range a n \<and>
      pool_pages (kernel_pool st') = pool_pages (kernel_pool st) \<and> pool_pages (user_pool st') = pool_pages (user_pool st) \<and>
      m' = (if flags AND PAL_ZERO \<noteq> 0 then write_bytes m a (replicate (4096 * unat n) 0) else m)"
proof -
  let ?p = "pool_of st flags"
  obtain um idx where g: "bitmap_scan_and_flip (used_map ?p) 0 n False = Some (um, idx)"
    "pool_wf (?p\<lparr>used_map := um\<rparr>)" "pool_pages (?p\<lparr>used_map := um\<rparr>) = pool_pages ?p"
    "if idx = BITMAP_ERROR
     then pool_used (?p\<lparr>used_map := um\<rparr>) = pool_used ?p \<and> \<not> (\<exists>i. {i..<i + unat n} \<subseteq> pool_pages ?p - pool_used ?p)
     else unat idx + unat n \<le> unat (bit_cnt (used_map ?p)) \<and>
       page_range (base ?p + PGSIZE * idx) n \<subseteq> pool_pages ?p - pool_used ?p \<and>
       pool_used (?p\<lparr>used_map := um\<rparr>) = pool_used ?p \<union> page_range (base ?p + PGSIZE * idx) n"
    by (rule pool_get[OF pool_of_wf[OF wf] n])
  have idx: "idx \<noteq> BITMAP_ERROR" using g(4) some by (auto split: if_splits)
  let ?a = "base ?p + PGSIZE * idx"
  have r: "unat idx + unat n \<le> unat (bit_cnt (used_map ?p))" "page_range ?a n \<subseteq> pool_pages ?p - pool_used ?p"
    "pool_used (?p\<lparr>used_map := um\<rparr>) = pool_used ?p \<union> page_range ?a n" using g(4) idx by simp_all
  have "unat idx < unat (bit_cnt (used_map ?p))" using r(1) n unat_gt_0[of n] by linarith
  note ad = pool_page_addr[OF pool_of_wf[OF wf] this]
  note bl = pool_block[OF pool_of_wf[OF wf] ad(3) n, OF order_trans[OF r(2) Diff_subset]]
  have "memset m ?a 0 (PGSIZE * n) = Some (write_bytes m ?a (replicate (4096 * unat n) 0), ?a)"
    using memset_eval[of ?a "PGSIZE * n" m 0] bl(1,2) by (simp del: PGSIZE_eq)
  then show ?thesis
    unfolding palloc_get_unfold[OF n g(1)]
    using idx ad r(2) set_pool_of_used_add[OF r(3)] set_pool_of_wf[OF wf g(2,3)] set_pool_of_pages[OF g(3)]
    by (simp add: Let_def del: PGSIZE_eq)
qed

lemma page_from_pool_iff:
  assumes "pool_wf p"
  shows "page_from_pool p a \<longleftrightarrow> unat (pg_no a) \<in> pool_pages p"
proof -
  let ?B = "unat (pg_no (base p))"
  have "unat (base p) = 4096 * ?B" "4096 * ?B + 4096 * unat (bit_cnt (used_map p)) \<le> 2 ^ 32"
    using pool_base[OF assms] assms by (simp_all add: pool_wf_def)
  then have "?B + unat (bit_cnt (used_map p)) < 2 ^ 32" by simp
  then have "unat (pg_no (base p) + bit_cnt (used_map p)) = ?B + unat (bit_cnt (used_map p))"
    by (simp add: unat_word_ariths)
  then show ?thesis
    by (auto simp: page_from_pool_def Let_def bitmap_size_def word_le_nat_alt word_less_nat_alt pool_pages_def)
qed

lemma palloc_free_ok:
  assumes wf: "palloc_wf st" and a: "pg_ofs a = 0" "a \<noteq> NULL" and n: "n \<noteq> 0"
    and r: "page_range a n \<subseteq> pool_used (pool_of st flags)"
  shows "\<exists>st'. palloc_free_multiple st m a n = Some (st', write_bytes m a (replicate (4096 * unat n) 0xcc)) \<and>
      palloc_wf st' \<and> palloc_used st' = palloc_used st - page_range a n \<and>
      pool_pages (kernel_pool st') = pool_pages (kernel_pool st) \<and> pool_pages (user_pool st') = pool_pages (user_pool st)"
proof -
  let ?p = "pool_of st flags" and ?i = "pg_no a - pg_no (base (pool_of st flags))"
  have pw: "pool_wf ?p" using pool_of_wf[OF wf] .
  then have bw: "bitmap_wf (used_map ?p)" by (simp add: pool_wf_def)
  have n0: "0 < unat n" using n by (simp add: unat_gt_0)
  have rp: "page_range a n \<subseteq> pool_pages ?p" using r pool_used_sub by blast
  note bl = pool_block[OF pw a(1) n rp]
  have le: "unat ?i + unat n \<le> unat (bit_cnt (used_map ?p))" using bl(3,5) by simp
  have k: "page_from_pool (kernel_pool st) a \<longleftrightarrow> flags AND PAL_USER = 0"
    using wf bl(6) page_from_pool_iff[of "kernel_pool st" a] page_from_pool_iff[of "user_pool st" a]
    by (auto simp: palloc_wf_def pool_of_def split: if_splits)
  have kp: "(if page_from_pool (kernel_pool st) a then kernel_pool st else user_pool st) = ?p"
    "page_from_pool (kernel_pool st) a \<or> page_from_pool (user_pool st) a"
    using k bl(6) by (auto simp: pool_of_def)
  have "bit_group (bitmap_abs (used_map ?p)) (unat ?i) (unat n) True"
    unfolding bit_group_def
  proof (intro conjI allI impI)
    fix j assume j: "j < unat n"
    have "unat (pg_no a) + j \<in> pool_used ?p" using r j by (auto simp: page_range_def)
    then show "bitmap_abs (used_map ?p) ! (unat ?i + j) = True" using bl(3,4) by (auto simp: pool_used_def)
  qed (use le in simp)
  then have all: "bitmap_all (used_map ?p) ?i n = Some True" using bitmap_all_abs[OF bw le] by simp
  obtain um where um: "bitmap_set_multiple (used_map ?p) ?i n False = Some um" "bitmap_wf um"
    "bit_cnt um = bit_cnt (used_map ?p)" "bitmap_abs um = set_range (bitmap_abs (used_map ?p)) (unat ?i) (unat n) False"
    using bitmap_set_multiple_abs[OF bw le, of False] by auto
  have wf': "pool_wf (?p\<lparr>used_map := um\<rparr>)" and pg: "pool_pages (?p\<lparr>used_map := um\<rparr>) = pool_pages ?p"
    using pw um(2,3) by (simp_all add: pool_wf_def pool_pages_def)
  have us: "pool_used (?p\<lparr>used_map := um\<rparr>) = pool_used ?p - page_range a n"
    using pool_used_set_range[OF le um(3,4)] bl(3,4) by (simp add: page_range_def)
  have ms: "memset m a 0xcc (PGSIZE * n) = Some (write_bytes m a (replicate (4096 * unat n) 0xcc), a)"
    using memset_eval[of a "PGSIZE * n" m "0xcc"] bl(1,2) by (simp del: PGSIZE_eq)
  have "palloc_free_multiple st m a n =
      Some (set_pool_of st flags (?p\<lparr>used_map := um\<rparr>), write_bytes m a (replicate (4096 * unat n) 0xcc))"
    using a n k kp ms all um(1) by (simp add: palloc_free_multiple_def Let_def set_pool_of_def del: PGSIZE_eq) (simp add: pool_of_def)
  then show ?thesis
    using set_pool_of_wf[OF wf wf' pg] set_pool_of_used_remove[OF wf us rp] set_pool_of_pages[OF pg] by blast
qed


text \<open>
  The allocator as an instance of the contract. A request is the flags and the number of
  pages; \<open>PAL_ASSERT\<close> is left out, since it turns a refusal into a panic.
\<close>

definition palloc_request :: "palloc \<times> mem \<Rightarrow> 32 word \<times> size_t \<Rightarrow> ((palloc \<times> mem) \<times> ptr option) option" where
  "palloc_request s n = map_option (\<lambda>(st, m, a). ((st, m), if a = NULL then None else Some a))
     (palloc_get_multiple (fst s) (snd s) (fst n) (snd n))"

definition palloc_handle :: "palloc \<times> mem \<Rightarrow> ptr \<Rightarrow> 32 word \<times> size_t \<Rightarrow> bool" where
  "palloc_handle s a n \<longleftrightarrow> pg_ofs a = 0 \<and> a \<noteq> NULL \<and> snd n \<noteq> 0 \<and>
     page_range a (snd n) \<subseteq> pool_pages (pool_of (fst s) (fst n))"

lemma palloc_request_cases:
  assumes "palloc_wf (fst s)" and "fst n AND PAL_ASSERT = 0"
  obtains "palloc_request s n = Some (s, None)" and "snd n = 0"
  | st' where "palloc_request s n = Some ((st', snd s), None)" "palloc_wf st'" "palloc_used st' = palloc_used (fst s)"
      "pool_pages (kernel_pool st') = pool_pages (kernel_pool (fst s))" "pool_pages (user_pool st') = pool_pages (user_pool (fst s))"
  | st' m' a where "palloc_request s n = Some ((st', m'), Some a)" "palloc_wf st'" "palloc_handle (st', m') a n"
      "page_range a (snd n) \<inter> palloc_used (fst s) = {}" "palloc_used st' = palloc_used (fst s) \<union> page_range a (snd n)"
      "pool_pages (kernel_pool st') = pool_pages (kernel_pool (fst s))" "pool_pages (user_pool st') = pool_pages (user_pool (fst s))"
proof (cases "snd n = 0")
  case True
  then show thesis using that(1) by (simp add: palloc_request_def palloc_get_multiple_def Let_def)
next
  case False
  let ?p = "pool_of (fst s) (fst n)"
  show thesis
  proof (cases "\<exists>i. {i..<i + unat (snd n)} \<subseteq> pool_pages ?p - pool_used ?p")
    case True
    obtain st' m' a where g: "palloc_get_multiple (fst s) (snd s) (fst n) (snd n) = Some (st', m', a)" "palloc_wf st'"
      "a \<noteq> NULL" "pg_ofs a = 0" "page_range a (snd n) \<subseteq> pool_pages ?p - pool_used ?p"
      "palloc_used st' = palloc_used (fst s) \<union> page_range a (snd n)"
      "pool_pages (kernel_pool st') = pool_pages (kernel_pool (fst s))" "pool_pages (user_pool st') = pool_pages (user_pool (fst s))"
      using palloc_get_granted[OF assms(1) False True, of "snd s"] by blast
    have "pool_pages (pool_of st' (fst n)) = pool_pages ?p" using g(7,8) by (simp add: pool_of_def)
    then have "palloc_handle (st', m') a n" using g False by (auto simp: palloc_handle_def)
    moreover have "page_range a (snd n) \<inter> palloc_used (fst s) = {}"
      using g(5) assms(1) pool_used_sub[of "kernel_pool (fst s)"] pool_used_sub[of "user_pool (fst s)"]
      unfolding palloc_used_def palloc_wf_def pool_of_def by (simp split: if_splits) blast+
    ultimately show thesis using that(3)[of st' m' a] g by (simp add: palloc_request_def)
  next
    case none: False
    show thesis
      using palloc_get_refused[OF assms(1) False none, of "snd s"] assms(2) that(2) by (auto simp: palloc_request_def)
  qed
qed

lemma palloc_handle_pages:
  "pool_pages (kernel_pool st') = pool_pages (kernel_pool (fst s)) \<Longrightarrow> pool_pages (user_pool st') = pool_pages (user_pool (fst s)) \<Longrightarrow>
   palloc_handle (st', m') = palloc_handle s"
  by (simp add: palloc_handle_def pool_of_def fun_eq_iff)

definition palloc_release :: "palloc \<times> mem \<Rightarrow> ptr \<Rightarrow> 32 word \<times> size_t \<Rightarrow> (palloc \<times> mem) option" where
  "palloc_release s a n = palloc_free_multiple (fst s) (snd s) a (snd n)"

lemma palloc_release_ok:
  assumes "palloc_wf (fst s)" and "palloc_handle s a n" and "page_range a (snd n) \<subseteq> palloc_used (fst s)"
  shows "\<exists>st' m'. palloc_release s a n = Some (st', m') \<and> palloc_wf st' \<and> palloc_used st' = palloc_used (fst s) - page_range a (snd n) \<and>
    pool_pages (kernel_pool st') = pool_pages (kernel_pool (fst s)) \<and> pool_pages (user_pool st') = pool_pages (user_pool (fst s))"
proof -
  have "page_range a (snd n) \<subseteq> pool_used (pool_of (fst s) (fst n))"
    using assms pool_used_sub[of "kernel_pool (fst s)"] pool_used_sub[of "user_pool (fst s)"]
    unfolding palloc_handle_def palloc_used_def palloc_wf_def pool_of_def by (simp split: if_splits) blast+
  then show ?thesis
    using palloc_free_ok[OF assms(1), of a "snd n" "fst n" "snd s"] assms(2)
    unfolding palloc_handle_def palloc_release_def by blast
qed

interpretation pages: extent_allocator "\<lambda>s. palloc_wf (fst s)" "\<lambda>s. palloc_used (fst s)" "\<lambda>a n. page_range a (snd n)"
  palloc_handle "\<lambda>n. fst n AND PAL_ASSERT = 0" palloc_request palloc_release
proof
  fix s n s' r b k a
  show "\<exists>s' r. palloc_request s n = Some (s', r)" if "palloc_wf (fst s)" "fst n AND PAL_ASSERT = 0"
    using that by (rule palloc_request_cases) blast+
  show "palloc_wf (fst s')" if "palloc_wf (fst s)" "fst n AND PAL_ASSERT = 0" "palloc_request s n = Some (s', r)"
    by (rule palloc_request_cases[OF that(1,2)]) (use that in auto)
  show "palloc_handle s' b k"
    if "palloc_wf (fst s)" "fst n AND PAL_ASSERT = 0" "palloc_request s n = Some (s', r)" "palloc_handle s b k"
    by (rule palloc_request_cases[OF that(1,2)]) (use that palloc_handle_pages[of _ s] in auto)
  show "palloc_used (fst s') = palloc_used (fst s)"
    if "palloc_wf (fst s)" "fst n AND PAL_ASSERT = 0" "palloc_request s n = Some (s', None)"
    by (rule palloc_request_cases[OF that(1,2)]) (use that in auto)
  show "page_range a (snd n) \<inter> palloc_used (fst s) = {} \<and> palloc_used (fst s') = palloc_used (fst s) \<union> page_range a (snd n) \<and>
      palloc_handle s' a n" if "palloc_wf (fst s)" "fst n AND PAL_ASSERT = 0" "palloc_request s n = Some (s', Some a)"
    by (rule palloc_request_cases[OF that(1,2)]) (use that in auto)
  show "\<exists>s'. palloc_release s a n = Some s' \<and> palloc_wf (fst s') \<and> palloc_used (fst s') = palloc_used (fst s) - page_range a (snd n)"
    if "palloc_wf (fst s)" "palloc_handle s a n" "page_range a (snd n) \<subseteq> palloc_used (fst s)"
    using palloc_release_ok[OF that] by auto
  show "palloc_handle s' b k" if "palloc_wf (fst s)" "palloc_handle s a n" "page_range a (snd n) \<subseteq> palloc_used (fst s)"
      "palloc_release s a n = Some s'" "palloc_handle s b k"
    using palloc_release_ok[OF that(1-3)] that palloc_handle_pages[of _ s] by auto
qed

text \<open>
  C4. The page allocator never hands out a page twice: after any sequence of successful and refused requests
  and of releases of what was handed out, the blocks that are live are pairwise
  disjoint, the pages in use are exactly those in use at the start and those of the live
  blocks, and each live block can be freed.
\<close>

theorem palloc_no_overlap:
  assumes "palloc_wf st0" and "alloc_runs palloc_request palloc_release (\<lambda>n. fst n AND PAL_ASSERT = 0) (st0, m0) (st, m) live"
  shows "palloc_wf st \<and> disjoint_list (map (\<lambda>(a, n). page_range a (snd n)) live) \<and>
    palloc_used st = palloc_used st0 \<union> \<Union> (set (map (\<lambda>(a, n). page_range a (snd n)) live)) \<and>
    (\<forall>us a n vs. live = us @ (a, n) # vs \<longrightarrow> (\<exists>st' m'. palloc_free_multiple st m a (snd n) = Some (st', m')))"
proof -
  have l: "pages.live_ok (st0, m0) (st, m) live" using pages.runs_live_ok[OF assms(2)] assms(1) by simp
  have "\<exists>st' m'. palloc_free_multiple st m a (snd n) = Some (st', m')" if "live = us @ (a, n) # vs" for us a n vs
    using pages.live_release[of "(st0, m0)" "(st, m)" us a n vs] l that by (auto simp: palloc_release_def)
  with l show ?thesis unfolding pages.live_ok_def by simp
qed

lemma palloc_get_memory:
  assumes "palloc_wf st" and "n \<noteq> 0" and "pg_ofs a = 0" and "page_range a n \<subseteq> pool_pages (pool_of st flags)"
    and "m' = (if flags AND PAL_ZERO \<noteq> 0 then write_bytes m a (replicate (4096 * unat n) 0) else m)"
  shows "flags AND PAL_ZERO \<noteq> 0 \<Longrightarrow> read_bytes m' a (4096 * unat n) = replicate (4096 * unat n) 0"
    and "flags AND PAL_ZERO = 0 \<or> (\<forall>i<4096 * unat n. q \<noteq> a + of_nat i) \<Longrightarrow> m' q = m q"
proof -
  let ?z = "replicate (4096 * unat n) (0 :: uint8)"
  from nonnull_range[OF pool_block(2)[OF pool_of_wf[OF assms(1)] assms(3,2,4)]]
  have "length ?z \<le> 2 ^ 32" by simp
  from read_write_bytes[OF this, of m a] have "read_bytes (write_bytes m a ?z) a (4096 * unat n) = ?z" by simp
  then show "flags AND PAL_ZERO \<noteq> 0 \<Longrightarrow> read_bytes m' a (4096 * unat n) = replicate (4096 * unat n) 0"
    unfolding assms(5) by (simp only: if_True not_False_eq_True)
  have "write_bytes m a ?z q = m q" if "\<forall>i<4096 * unat n. q \<noteq> a + of_nat i"
    using that by (intro write_bytes_same) auto
  then show "flags AND PAL_ZERO = 0 \<or> (\<forall>i<4096 * unat n. q \<noteq> a + of_nat i) \<Longrightarrow> m' q = m q"
    unfolding assms(5) by auto
qed

text \<open>
  C27. \<open>palloc_get_multiple\<close> on every branch, on well-formed pools. A request for no pages returns a null pointer and changes nothing, also with
  \<open>PAL_ASSERT\<close>. Otherwise, if the pool selected by the flags has that many free pages in a row, the call returns the address of
  such a group, page aligned and not null; exactly these pages become used, they are zeroed if \<open>PAL_ZERO\<close> is set, and no
  other byte changes. If it has not, the call returns a null pointer and changes nothing, or panics if \<open>PAL_ASSERT\<close> is set.
\<close>

theorem palloc_get_correct:
  assumes "palloc_wf st"
  shows "if n = 0 then palloc_get_multiple st m flags n = Some (st, m, NULL)
    else if \<exists>i. {i..<i + unat n} \<subseteq> pool_pages (pool_of st flags) - pool_used (pool_of st flags)
    then \<exists>st' m' a. palloc_get_multiple st m flags n = Some (st', m', a) \<and> palloc_wf st' \<and> a \<noteq> NULL \<and> pg_ofs a = 0 \<and>
      page_range a n \<subseteq> pool_pages (pool_of st flags) - pool_used (pool_of st flags) \<and>
      palloc_used st' = palloc_used st \<union> page_range a n \<and>
      (flags AND PAL_ZERO \<noteq> 0 \<longrightarrow> read_bytes m' a (4096 * unat n) = replicate (4096 * unat n) 0) \<and>
      (\<forall>q. flags AND PAL_ZERO = 0 \<or> (\<forall>i<4096 * unat n. q \<noteq> a + of_nat i) \<longrightarrow> m' q = m q)
    else if flags AND PAL_ASSERT \<noteq> 0 then palloc_get_multiple st m flags n = None
    else \<exists>st'. palloc_get_multiple st m flags n = Some (st', m, NULL) \<and> palloc_wf st' \<and> palloc_used st' = palloc_used st"
proof (cases "n = 0")
  case True
  then show ?thesis by (simp add: palloc_get_multiple_def Let_def)
next
  case n: False
  show ?thesis
  proof (cases "\<exists>i. {i..<i + unat n} \<subseteq> pool_pages (pool_of st flags) - pool_used (pool_of st flags)")
    case True
    obtain st' m' a where g: "palloc_get_multiple st m flags n = Some (st', m', a)" "palloc_wf st'" "a \<noteq> NULL" "pg_ofs a = 0"
      "page_range a n \<subseteq> pool_pages (pool_of st flags) - pool_used (pool_of st flags)" "palloc_used st' = palloc_used st \<union> page_range a n"
      "m' = (if flags AND PAL_ZERO \<noteq> 0 then write_bytes m a (replicate (4096 * unat n) 0) else m)"
      using palloc_get_granted[OF assms n True, of m] by blast
    have sub: "page_range a n \<subseteq> pool_pages (pool_of st flags)" using g(5) by blast
    show ?thesis
      unfolding if_not_P[OF n] if_P[OF True] using g(1-6) palloc_get_memory[OF assms n g(4) sub g(7)] by blast
  next
    case False
    then show ?thesis using palloc_get_refused[OF assms n False, of m] n by auto
  qed
qed

lemma bitmap_buf_size_mono:
  assumes "unat n + 31 < 2 ^ 32" and "k \<le> n"
  shows "unat (bitmap_buf_size n) = 8 + 4 * ((unat n + 31) div 32)" and "bitmap_buf_size k \<le> bitmap_buf_size n"
proof -
  have u: "unat (bitmap_buf_size j) = 8 + 4 * ((unat j + 31) div 32)" if "unat j + 31 < 2 ^ 32" for j
  proof -
    have "(unat j + 31) div 32 < 2 ^ 27" using that by (simp add: less_mult_imp_div_less)
    then have "8 + 4 * ((unat j + 31) div 32) < 2 ^ 32" by simp
    then show ?thesis using unat_elem_cnt[OF that] by (simp add: bitmap_buf_size_def byte_cnt_def unat_word_ariths)
  qed
  show "unat (bitmap_buf_size n) = 8 + 4 * ((unat n + 31) div 32)" using u[OF assms(1)] .
  have "unat k \<le> unat n" using assms(2) by (simp add: word_le_nat_alt)
  then show "bitmap_buf_size k \<le> bitmap_buf_size n"
    using u[OF assms(1)] u[of k] assms(1) by (simp add: word_le_nat_alt div_le_mono)
qed

lemma init_pool_ok:
  assumes n: "unat bs + 4096 * unat n < 2 ^ 32" and bs: "pg_ofs bs = 0" "is_kernel_vaddr bs"
    and bm: "DIV_ROUND_UP (bitmap_buf_size n) PGSIZE \<le> n"
    and es: "length es = unat (elem_cnt (n - DIV_ROUND_UP (bitmap_buf_size n) PGSIZE))"
  shows "\<exists>p. init_pool es bs n = Some p \<and> pool_wf p \<and> pool_used p = {} \<and>
    pool_pages p \<subseteq> {unat (pg_no bs)..<unat (pg_no bs) + unat n} \<and>
    card (pool_pages p) = unat n - unat (DIV_ROUND_UP (bitmap_buf_size n) PGSIZE)"
proof -
  let ?bm = "DIV_ROUND_UP (bitmap_buf_size n) PGSIZE"
  have bk: "3221225472 \<le> unat bs" using bs(2) by (simp add: is_kernel_vaddr_def word_le_nat_alt)
  have n31: "unat n + 31 < 2 ^ 32" using n by simp
  have "unat n \<le> 262144" using n bk by simp
  then have sz: "unat (bitmap_buf_size n) \<le> 40000" using bitmap_buf_size_mono(1)[OF n31 order_refl] by simp
  have ubm: "unat ?bm = (unat (bitmap_buf_size n) + 4095) div 4096"
  proof -
    have "unat (bitmap_buf_size n + 4095) = unat (bitmap_buf_size n) + 4095"
      using sz by (simp add: unat_word_ariths(1))
    moreover have "DIV_ROUND_UP (bitmap_buf_size n) PGSIZE = (bitmap_buf_size n + 4095) div 4096"
      by (simp add: DIV_ROUND_UP_def add.commute)
    ultimately show ?thesis by (simp add: unat_div)
  qed
  have le: "unat ?bm \<le> unat n" using bm by (simp add: word_le_nat_alt)
  have bmsz: "unat (?bm * PGSIZE) = 4096 * unat ?bm" using le n bk by (simp add: unat_word_ariths)
  have sub: "unat (n - ?bm) = unat n - unat ?bm" using bm by (simp add: unat_sub)
  have "bitmap_buf_size (n - ?bm) \<le> ?bm * PGSIZE"
  proof -
    have "unat (bitmap_buf_size n) \<le> 4096 * unat ?bm" unfolding ubm by linarith
    moreover have "bitmap_buf_size (n - ?bm) \<le> bitmap_buf_size n"
      using bitmap_buf_size_mono(2)[OF n31, of "n - ?bm"] sub by (simp add: word_le_nat_alt)
    ultimately show ?thesis using bmsz by (simp add: word_le_nat_alt)
  qed
  moreover have "unat (n - ?bm) + 31 < 2 ^ 32" using sub n31 by simp
  ultimately obtain b where b: "bitmap_create_in_buf (n - ?bm) es (?bm * PGSIZE) = Some b" "bitmap_wf b" "bit_cnt b = n - ?bm"
    "bitmap_abs b = replicate (unat (n - ?bm)) False"
    using bitmap_create_in_buf_abs[OF _ es] by blast
  have "unat (bs + ?bm * PGSIZE) = unat bs + unat (?bm * PGSIZE)"
    using n le bmsz unat_word_ariths(1)[of bs "?bm * PGSIZE"] by (simp del: PGSIZE_eq)
  then have ub: "unat (bs + ?bm * PGSIZE) = unat bs + 4096 * unat ?bm" unfolding bmsz .
  have pn: "unat (pg_no (bs + ?bm * PGSIZE)) = unat (pg_no bs) + unat ?bm"
    by (simp add: pg_no_div ub del: PGSIZE_eq)
  have "unat (pg_ofs (bs + ?bm * PGSIZE)) = 0"
    using bs(1) pg_ofs_mod[of bs] by (simp add: pg_ofs_mod ub del: PGSIZE_eq)
  then have po: "pg_ofs (bs + ?bm * PGSIZE) = 0" by (simp add: unat_0_iff)
  let ?p = "\<lparr>used_map = b, base = bs + ?bm * PGSIZE\<rparr>"
  have "init_pool es bs n = Some ?p" using b(1) bm by (simp add: init_pool_def Let_def not_less del: PGSIZE_eq)
  moreover have "pool_wf ?p"
    using b(2,3) po n le ub sub bk by (simp add: pool_wf_def is_kernel_vaddr_def word_le_nat_alt del: PGSIZE_eq)
  moreover have "pool_used ?p = {}" using b(3,4) by (auto simp: pool_used_def)
  moreover have "pool_pages ?p = {unat (pg_no bs) + unat ?bm..<unat (pg_no bs) + unat n}"
    using b(3) pn sub le by (simp add: pool_pages_def del: PGSIZE_eq)
  ultimately show ?thesis by auto
qed


text \<open>
  C28. \<open>palloc_init\<close> splits the memory above the kernel into two disjoint pools of unused pages, at
  most half of it (and at most the limit) in the user pool. It succeeds whenever both
  halves have room for their bitmap, whatever the memory of the bitmaps held before.
\<close>

theorem palloc_init_correct:
  fixes kend ram_pages limit :: size_t
  assumes fs_def: "fs = pg_round_up kend" and fp_def: "fp = (ram_pages * PGSIZE + PHYS_BASE - pg_round_up kend) div PGSIZE"
    and up_def: "up = (if fp div 2 > limit then limit else fp div 2)" and kp_def: "kp = fp - up"
    and kend: "PHYS_BASE \<le> kend" "unat kend + 4095 < 2 ^ 32" and ram: "unat ram_pages < 262144"
    and fits: "unat (pg_round_up kend) \<le> 4096 * unat ram_pages + unat PHYS_BASE"
    and bm: "DIV_ROUND_UP (bitmap_buf_size kp) PGSIZE \<le> kp" "DIV_ROUND_UP (bitmap_buf_size up) PGSIZE \<le> up"
    and es: "length es1 = unat (elem_cnt (kp - DIV_ROUND_UP (bitmap_buf_size kp) PGSIZE))"
      "length es2 = unat (elem_cnt (up - DIV_ROUND_UP (bitmap_buf_size up) PGSIZE))"
  shows "\<exists>st. palloc_init kend ram_pages limit es1 es2 = Some st \<and> palloc_wf st \<and> palloc_used st = {} \<and>
    pool_pages (kernel_pool st) \<subseteq> {unat (pg_no fs)..<unat (pg_no fs) + unat kp} \<and>
    pool_pages (user_pool st) \<subseteq> {unat (pg_no fs) + unat kp..<unat (pg_no fs) + unat kp + unat up} \<and>
    unat kp + unat up = unat fp \<and> 2 * unat up \<le> unat fp \<and> unat up \<le> unat limit"
proof -
  have ufs: "unat fs = (unat kend + 4095) div 4096 * 4096"
    unfolding fs_def by (rule unat_pg_round_up[OF kend(2)])
  have kfs: "3221225472 \<le> unat fs" using kend(1) unfolding ufs by (simp add: word_le_nat_alt)
  have fsa: "pg_ofs fs = 0" using pg_ofs_mod[of fs] ufs by (simp add: unat_0_iff)
  have fk: "is_kernel_vaddr fs" using kfs by (simp add: is_kernel_vaddr_def word_le_nat_alt)
  have rp: "unat (ram_pages * PGSIZE) = 4096 * unat ram_pages" using ram by (simp add: unat_word_ariths)
  then have fe: "unat (ram_pages * PGSIZE + PHYS_BASE) = 4096 * unat ram_pages + 3221225472"
    using ram by (simp add: unat_word_ariths(1) del: PGSIZE_eq)
  have pt: "ptov (ram_pages * PGSIZE) = Some (ram_pages * PGSIZE + PHYS_BASE)"
    using rp ram by (simp add: ptov_def word_less_nat_alt del: PGSIZE_eq)
  have "fs \<le> ram_pages * PGSIZE + PHYS_BASE" using fits fe by (simp add: word_le_nat_alt fs_def del: PGSIZE_eq)
  then have "unat (ram_pages * PGSIZE + PHYS_BASE - fs) = 4096 * unat ram_pages + 3221225472 - unat fs"
    using fe by (simp add: unat_sub del: PGSIZE_eq)
  then have ufp: "unat fp = (4096 * unat ram_pages + 3221225472 - unat fs) div 4096"
    by (simp add: fp_def fs_def unat_div)
  have up: "2 * unat up \<le> unat fp" "unat up \<le> unat limit"
    by (auto simp: up_def word_less_nat_alt unat_div)
  then have kp: "unat kp + unat up = unat fp" by (simp add: kp_def unat_sub word_le_nat_alt)
  have tot: "unat fs + 4096 * unat fp < 2 ^ 32"
    using ufp ram kfs fits by (simp add: fs_def)
  let ?us = "fs + kp * PGSIZE"
  have "unat (kp * PGSIZE) = 4096 * unat kp" using tot kp by (simp add: unat_word_ariths)
  then have us: "unat ?us = unat fs + 4096 * unat kp"
    using tot kp by (simp add: unat_word_ariths(1) del: PGSIZE_eq)
  have "unat (pg_ofs ?us) = 0" using fsa pg_ofs_mod[of fs] by (simp add: pg_ofs_mod us del: PGSIZE_eq)
  then have usa: "pg_ofs ?us = 0" "is_kernel_vaddr ?us" "unat (pg_no ?us) = unat (pg_no fs) + unat kp"
    using kfs us by (simp_all add: unat_0_iff is_kernel_vaddr_def word_le_nat_alt pg_no_div del: PGSIZE_eq)
  obtain k where k: "init_pool es1 fs kp = Some k" "pool_wf k" "pool_used k = {}"
    "pool_pages k \<subseteq> {unat (pg_no fs)..<unat (pg_no fs) + unat kp}"
    using init_pool_ok[OF _ fsa fk bm(1) es(1)] tot kp by fastforce
  obtain u where u: "init_pool es2 ?us up = Some u" "pool_wf u" "pool_used u = {}"
    "pool_pages u \<subseteq> {unat (pg_no ?us)..<unat (pg_no ?us) + unat up}"
    using init_pool_ok[OF _ usa(1,2) bm(2) es(2)] tot kp us by fastforce
  have "palloc_init kend ram_pages limit es1 es2 = Some \<lparr>kernel_pool = k, user_pool = u\<rparr>"
  proof -
    have fp': "(ram_pages * PGSIZE + PHYS_BASE - fs) div PGSIZE = fp" by (simp add: fp_def fs_def)
    show ?thesis
      unfolding palloc_init_def Let_def pt bind.bind_lunit fs_def[symmetric] fp' up_def[symmetric] kp_def[symmetric] k(1) u(1) ..
  qed
  moreover have "pool_pages k \<inter> pool_pages u = {}" using k(4) u(4) usa(3) by fastforce
  ultimately show ?thesis using k u usa(3) kp up by (simp add: palloc_wf_def palloc_used_def del: PGSIZE_eq)
qed


theorem palloc_init_correct_witness:
  "\<exists>st. palloc_init 0xc0100000 1024 (- 1) (replicate 12 0) (replicate 12 0) = Some st \<and> palloc_wf st \<and> palloc_used st = {}"
proof -
  have 1: "pg_round_up 0xc0100000 = 0xc0100000" by (simp add: pg_round_up_def PGMASK_def BITMASK_def)
  have 2: "DIV_ROUND_UP (bitmap_buf_size 384) PGSIZE = 1" "elem_cnt (384 - 1) = 12"
    by (simp_all add: DIV_ROUND_UP_def bitmap_buf_size_def byte_cnt_def elem_cnt_def)
  have fp: "(768 :: size_t) = (1024 * PGSIZE + PHYS_BASE - pg_round_up 0xc0100000) div PGSIZE" unfolding 1 by simp
  have up: "(384 :: size_t) = (if 768 div 2 > (- 1 :: size_t) then - 1 else 768 div 2)" by simp
  have kp: "(384 :: size_t) = 768 - 384" by simp
  have ke: "PHYS_BASE \<le> 0xc0100000" "unat (0xc0100000 :: size_t) + 4095 < 2 ^ 32" "unat (1024 :: size_t) < 262144" by simp_all
  have fits: "unat (pg_round_up 0xc0100000) \<le> 4096 * unat (1024 :: size_t) + unat PHYS_BASE" unfolding 1 by simp
  have bm: "DIV_ROUND_UP (bitmap_buf_size 384) PGSIZE \<le> 384" unfolding 2 by simp
  have es: "length (replicate 12 (0 :: elem_type)) = unat (elem_cnt (384 - DIV_ROUND_UP (bitmap_buf_size 384) PGSIZE))"
    unfolding 2 by simp
  show ?thesis using palloc_init_correct[OF 1[symmetric] fp up kp ke fits bm bm es es] by blast
qed

text \<open>Two pools of four pages each, the first page of each in use.\<close>

definition example_pools :: palloc where
  "example_pools = \<lparr>kernel_pool = \<lparr>used_map = \<lparr>bit_cnt = 4, bits = [1]\<rparr>, base = 0xc0100000\<rparr>,
     user_pool = \<lparr>used_map = \<lparr>bit_cnt = 4, bits = [1]\<rparr>, base = 0xc0200000\<rparr>\<rparr>"

lemma example_pools_wf: "palloc_wf example_pools"
  by (simp add: example_pools_def palloc_wf_def pool_wf_def bitmap_wf_def elem_cnt_def DIV_ROUND_UP_def pg_ofs_def
      PGMASK_def BITMASK_def is_kernel_vaddr_def pool_pages_def pg_no_div)

lemma example_request: "\<exists>s'. palloc_request (example_pools, m) (0, 2) = Some (s', Some 0xc0101000)"
proof -
  have "bitmap_scan_and_flip \<lparr>bit_cnt = 4, bits = [1]\<rparr> 0 2 False = Some (\<lparr>bit_cnt = 4, bits = [7]\<rparr>, 1)" by code_simp
  then show ?thesis by (simp add: palloc_request_def palloc_get_multiple_def example_pools_def)
qed

theorem palloc_get_correct_witness:
  "palloc_wf example_pools \<and> (\<exists>st' m' a. palloc_get_multiple example_pools (\<lambda>_. 7) 2 2 = Some (st', m', a) \<and> a \<noteq> NULL \<and>
     read_bytes m' a 8192 = replicate 8192 0)"
proof -
  have four: "i = 0 \<or> i = 1 \<or> i = 2 \<or> i = 3" if "i < 4" for i :: nat using that by auto
  have p: "pool_pages (pool_of example_pools 2) = {786688..<786692}" "pool_used (pool_of example_pools 2) \<subseteq> {786688}"
    by (auto simp: example_pools_def pool_of_def pool_pages_def pool_used_def pg_no_div bitmap_abs_def bm_bit_def upt_conv_Cons dest!: four)
  then have "{786690..<786690 + unat (2 :: size_t)} \<subseteq> pool_pages (pool_of example_pools 2) - pool_used (pool_of example_pools 2)"
    by auto
  then have ex: "\<exists>i. {i..<i + unat (2 :: size_t)} \<subseteq> pool_pages (pool_of example_pools 2) - pool_used (pool_of example_pools 2)"
    by blast
  show ?thesis
    using palloc_get_correct[OF example_pools_wf, of 2 "\<lambda>_. 7" 2] example_pools_wf unfolding if_P[OF ex] by auto
qed

theorem palloc_no_overlap_witness:
  "palloc_wf example_pools \<and>
   (\<exists>st m. alloc_runs palloc_request palloc_release (\<lambda>n. fst n AND PAL_ASSERT = 0) (example_pools, \<lambda>_. 0) (st, m) [(0xc0101000, (0, 2))] \<and>
      palloc_wf st)"
proof -
  obtain st m where "palloc_request (example_pools, \<lambda>_. 0) (0, 2) = Some ((st, m), Some 0xc0101000)"
    using example_request by (metis prod.collapse)
  then have r: "alloc_runs palloc_request palloc_release (\<lambda>n. fst n AND PAL_ASSERT = 0) (example_pools, \<lambda>_. 0) (st, m) [(0xc0101000, (0, 2))]"
    by (intro alloc_runs.got[OF alloc_runs.start]) simp_all
  show ?thesis using palloc_no_overlap[OF example_pools_wf r] r example_pools_wf by blast
qed

lemma palloc_free_not_used:
  assumes wf: "palloc_wf st" and a: "pg_ofs a = 0" "a \<noteq> NULL" and n: "n \<noteq> 0"
    and rp: "page_range a n \<subseteq> pool_pages (pool_of st flags)" and r: "\<not> page_range a n \<subseteq> pool_used (pool_of st flags)"
  shows "palloc_free_multiple st m a n = None"
proof -
  let ?p = "pool_of st flags" and ?i = "pg_no a - pg_no (base (pool_of st flags))"
  have pw: "pool_wf ?p" using pool_of_wf[OF wf] .
  then have bw: "bitmap_wf (used_map ?p)" by (simp add: pool_wf_def)
  note bl = pool_block[OF pw a(1) n rp]
  have le: "unat ?i + unat n \<le> unat (bit_cnt (used_map ?p))" using bl(3,5) by simp
  have kp: "(if page_from_pool (kernel_pool st) a then kernel_pool st else user_pool st) = ?p"
    using wf bl(6) page_from_pool_iff[of "kernel_pool st" a] page_from_pool_iff[of "user_pool st" a]
    by (auto simp: palloc_wf_def pool_of_def split: if_splits)
  have "\<not> bit_group (bitmap_abs (used_map ?p)) (unat ?i) (unat n) True"
  proof
    assume g: "bit_group (bitmap_abs (used_map ?p)) (unat ?i) (unat n) True"
    have "x \<in> pool_used ?p" if x: "x \<in> page_range a n" for x
    proof -
      obtain j where j: "x = unat (pg_no a) + j" "j < unat n" using x by (auto simp: page_range_def nat_le_iff_add)
      then have "bitmap_abs (used_map ?p) ! (unat ?i + j)" "unat ?i + j < unat (bit_cnt (used_map ?p))"
        using g le by (auto simp: bit_group_def)
      moreover have "x = unat (pg_no (base ?p)) + (unat ?i + j)" using j(1) bl(3,4) by simp
      ultimately show ?thesis unfolding pool_used_def by blast
    qed
    with r show False by blast
  qed
  then have "bitmap_all (used_map ?p) ?i n = Some False" using bitmap_all_abs[OF bw le] by simp
  moreover have "memset m a 0xcc (PGSIZE * n) = Some (write_bytes m a (replicate (4096 * unat n) 0xcc), a)"
    using memset_eval[of a "PGSIZE * n" m "0xcc"] bl(1,2) by (simp del: PGSIZE_eq)
  ultimately show ?thesis
    using a n kp by (simp add: palloc_free_multiple_def Let_def del: PGSIZE_eq)
qed

text \<open>
  \<open>palloc_free_multiple\<close> of a group of pages of one pool. If all of them are in use, exactly these pages become free
  and their memory is overwritten with \<open>0xcc\<close>; if one of them is free, as in a double
  free, the kernel panics.
\<close>

lemma palloc_free_correct:
  assumes "palloc_wf st" and "pg_ofs a = 0" and "a \<noteq> NULL" and "n \<noteq> 0" and "page_range a n \<subseteq> pool_pages (pool_of st flags)"
  shows "if page_range a n \<subseteq> pool_used (pool_of st flags)
    then \<exists>st'. palloc_free_multiple st m a n = Some (st', write_bytes m a (replicate (4096 * unat n) 0xcc)) \<and>
      palloc_wf st' \<and> palloc_used st' = palloc_used st - page_range a n
    else palloc_free_multiple st m a n = None"
  using palloc_free_ok[OF assms(1-4), of flags m] palloc_free_not_used[OF assms, of m] by auto

end
