(* ===== verification/Thread.thy ===== *)
theory Thread
  imports Palloc
begin

text \<open>
  Kernel threads: \<open>src/threads/thread.c\<close>, the interrupt levels and the handling of external interrupts of \<open>src/threads/interrupt.c\<close>, and
  the timer interrupt of \<open>src/devices/timer.c\<close>.

  The state is one record. Threads are records at the addresses of their pages; the page allocator is the one of theory \<open>Palloc\<close>. The
  running thread is the one whose page the stack pointer is in, \<open>cpu\<close>. The lists of threads are lists of their addresses, as theory
  \<open>Klist\<close> justifies. A page that is given back is filled with \<open>0xcc\<close>; of the thread in it only the magic number is kept, which is then wrong.

  A function that gives up the processor returns when its thread runs again, so every thread has a stack of the calls it has yet to
  make. A definition below that models such a function pushes what is left of it before it switches. Code that runs with interrupts off
  is one step. The file table, the children, the supplemental page table and the page directory of a thread do not take part in
  scheduling; \<open>thread_exit_end\<close> is the part of \<open>thread_exit\<close> after they have been given up.
\<close>

unbundle bit_operations_syntax

section \<open>Data\<close>

datatype intr_level = INTR_OFF | INTR_ON

datatype thread_status = THREAD_RUNNING | THREAD_READY | THREAD_BLOCKED | THREAD_DYING | THREAD_DEAD

record semaphore =
  sema_value :: uint32
  waiters :: "ptr list"

record thread =
  t_tid :: "32 word"
  t_status :: thread_status
  t_exit_code :: "32 word"
  t_name :: "uint8 list"
  t_stack :: ptr
  t_priority :: int
  t_children :: "ptr list"
  t_parent :: ptr
  t_pagedir :: ptr
  t_magic :: uint32

text \<open>
  The code a thread has still to run, as a stack of calls. Each entry is a piece of code that runs with interrupts off or is one
  assignment: a call, or what is left of a call after the point where it can lose the processor. \<open>Client\<close> is any code that uses the
  calls below.
\<close>

datatype call =
    Client
  | Intr_set_level intr_level
  | Sema_down ptr
  | Sema_down_loop ptr intr_level
  | Sema_try_down ptr
  | Sema_up ptr
  | Lock_acquire ptr
  | Set_holder ptr
  | Lock_try_acquire ptr
  | Lock_release ptr
  | Cond_wait ptr ptr ptr
  | Cond_signal ptr ptr
  | Cond_broadcast ptr ptr
  | Thread_yield
  | Thread_create "uint8 list" int ptr ptr
  | Take_tid ptr
  | Push_frames ptr ptr ptr
  | Init_supplemental ptr
  | Kernel_thread ptr ptr
  | Idle ptr
  | Idle_loop
  | Idle_wake
  | Thread_exit

record kernel =
  threads :: "ptr \<Rightarrow> thread"
  ready_list :: "ptr list"
  cpu :: ptr
  idle_thread :: ptr
  initial_thread :: ptr
  level :: intr_level
  in_external_intr :: bool
  yield_on_return :: bool
  thread_ticks :: uint32
  idle_ticks :: uint64
  kernel_ticks :: uint64
  user_ticks :: uint64
  ticks :: uint64
  next_tid :: "32 word"
  semas :: "ptr \<Rightarrow> semaphore"
  holder :: "ptr \<Rightarrow> ptr"
  cond_waiters :: "ptr \<Rightarrow> ptr list"
  pal :: palloc
  kmem :: mem
  kstack :: "ptr \<Rightarrow> call list"
  tid_lock :: ptr
  addr_idle :: ptr
  addr_kernel_thread :: ptr
  addr_switch_entry :: ptr

abbreviation THREAD_MAGIC :: uint32 where "THREAD_MAGIC \<equiv> 0xcd6abf4b"
abbreviation (input) PRI_MIN :: int where "PRI_MIN \<equiv> 0"
abbreviation (input) PRI_DEFAULT :: int where "PRI_DEFAULT \<equiv> 31"
abbreviation (input) PRI_MAX :: int where "PRI_MAX \<equiv> 63"
abbreviation (input) TID_ERROR :: "32 word" where "TID_ERROR \<equiv> -1"
abbreviation (input) TIME_SLICE :: uint32 where "TIME_SLICE \<equiv> 4"

text \<open>The semaphore inside a lock.\<close>

definition lock_semaphore :: "ptr \<Rightarrow> ptr" where
  "lock_semaphore l = l + 4"

text \<open>The children lock inside a thread.\<close>

definition children_lock :: "ptr \<Rightarrow> ptr" where
  "children_lock t = t + 68"

definition upd_thread :: "(thread \<Rightarrow> thread) \<Rightarrow> ptr \<Rightarrow> kernel \<Rightarrow> kernel" where
  "upd_thread f t k = k\<lparr>threads := (threads k)(t := f (threads k t))\<rparr>"

definition set_status :: "ptr \<Rightarrow> thread_status \<Rightarrow> kernel \<Rightarrow> kernel" where
  "set_status t s k = upd_thread (\<lambda>th. th\<lparr>t_status := s\<rparr>) t k"

definition push_calls :: "ptr \<Rightarrow> call list \<Rightarrow> kernel \<Rightarrow> kernel" where
  "push_calls t cs k = k\<lparr>kstack := (kstack k)(t := cs @ kstack k t)\<rparr>"

section \<open>Interrupt levels\<close>

definition intr_get_level :: "kernel \<Rightarrow> intr_level" where
  "intr_get_level k = level k"

definition intr_context :: "kernel \<Rightarrow> bool" where
  "intr_context k = in_external_intr k"

definition intr_enable :: "kernel \<Rightarrow> (kernel \<times> intr_level) option" where
  "intr_enable k = do {
     let old_level = intr_get_level k;
     ASSERT (\<not> intr_context k);
     Some (k\<lparr>level := INTR_ON\<rparr>, old_level)
   }"

definition intr_disable :: "kernel \<Rightarrow> kernel \<times> intr_level" where
  "intr_disable k = (k\<lparr>level := INTR_OFF\<rparr>, intr_get_level k)"

definition intr_set_level :: "intr_level \<Rightarrow> kernel \<Rightarrow> (kernel \<times> intr_level) option" where
  "intr_set_level l k = (if l = INTR_ON then intr_enable k else Some (intr_disable k))"

definition intr_yield_on_return :: "kernel \<Rightarrow> kernel option" where
  "intr_yield_on_return k = do { ASSERT (intr_context k); Some (k\<lparr>yield_on_return := True\<rparr>) }"

section \<open>The scheduler\<close>

definition is_thread :: "kernel \<Rightarrow> ptr \<Rightarrow> bool" where
  "is_thread k t \<longleftrightarrow> t \<noteq> NULL \<and> t_magic (threads k t) = THREAD_MAGIC"

definition running_thread :: "kernel \<Rightarrow> ptr" where
  "running_thread k = cpu k"

definition thread_current :: "kernel \<Rightarrow> ptr option" where
  "thread_current k = do {
     let t = running_thread k;
     ASSERT (is_thread k t);
     ASSERT (t_status (threads k t) = THREAD_RUNNING);
     Some t
   }"

definition next_thread_to_run :: "kernel \<Rightarrow> kernel \<times> ptr" where
  "next_thread_to_run k = (case ready_list k of
       [] \<Rightarrow> (k, idle_thread k)
     | t # rest \<Rightarrow> (k\<lparr>ready_list := rest\<rparr>, t))"

text \<open>
  A page that is given back to the page allocator is filled with \<open>0xcc\<close>, so it is no thread any more. Activating the page directory
  and the kernel stack of the new thread changes nothing here.
\<close>

definition schedule_tail :: "ptr \<Rightarrow> kernel \<Rightarrow> kernel option" where
  "schedule_tail prev k = do {
     let cur = running_thread k;
     ASSERT (intr_get_level k = INTR_OFF);
     let k = set_status cur THREAD_RUNNING k;
     let k = k\<lparr>thread_ticks := 0\<rparr>;
     if prev \<noteq> NULL \<and> t_status (threads k prev) = THREAD_DYING \<and> prev \<noteq> initial_thread k then do {
       ASSERT (prev \<noteq> cur);
       (p, m) \<leftarrow> palloc_free_page (pal k) (kmem k) prev;
       let k = k\<lparr>pal := p, kmem := m\<rparr>;
       Some (upd_thread (\<lambda>th. th\<lparr>t_magic := 0xcccccccc\<rparr>) prev k)
     } else Some k
   }"

definition schedule :: "kernel \<Rightarrow> kernel option" where
  "schedule k = do {
     let cur = running_thread k;
     let (k, nxt) = next_thread_to_run k;
     ASSERT (intr_get_level k = INTR_OFF);
     ASSERT (t_status (threads k cur) \<noteq> THREAD_RUNNING);
     ASSERT (is_thread k nxt);
     if cur \<noteq> nxt then schedule_tail cur (k\<lparr>cpu := nxt\<rparr>) else schedule_tail NULL k
   }"

definition thread_block :: "kernel \<Rightarrow> kernel option" where
  "thread_block k = do {
     ASSERT (\<not> intr_context k);
     ASSERT (intr_get_level k = INTR_OFF);
     t \<leftarrow> thread_current k;
     schedule (set_status t THREAD_BLOCKED k)
   }"

definition thread_unblock :: "ptr \<Rightarrow> kernel \<Rightarrow> kernel option" where
  "thread_unblock t k = do {
     ASSERT (is_thread k t);
     let (k, old_level) = intr_disable k;
     ASSERT (t_status (threads k t) = THREAD_BLOCKED);
     let k = k\<lparr>ready_list := ready_list k @ [t]\<rparr>;
     let k = set_status t THREAD_READY k;
     (k, _) \<leftarrow> intr_set_level old_level k;
     Some k
   }"

text \<open>The level is restored when the thread runs again.\<close>

definition thread_yield :: "kernel \<Rightarrow> kernel option" where
  "thread_yield k = do {
     cur \<leftarrow> thread_current k;
     ASSERT (\<not> intr_context k);
     let (k, old_level) = intr_disable k;
     let k = (if cur \<noteq> idle_thread k then k\<lparr>ready_list := ready_list k @ [cur]\<rparr> else k);
     let k = set_status cur THREAD_READY k;
     schedule (push_calls cur [Intr_set_level old_level] k)
   }"

text \<open>The end of \<open>thread_exit\<close>, after the thread has given up what it owns.\<close>

definition thread_exit_end :: "kernel \<Rightarrow> kernel option" where
  "thread_exit_end k = do {
     t \<leftarrow> thread_current k;
     ASSERT (\<not> intr_context k);
     let (k, _) = intr_disable k;
     schedule (set_status t THREAD_DYING (k\<lparr>kstack := (kstack k)(t := [])\<rparr>))
   }"

definition thread_tick :: "kernel \<Rightarrow> kernel option" where
  "thread_tick k = do {
     t \<leftarrow> thread_current k;
     let k = (if t = idle_thread k then k\<lparr>idle_ticks := idle_ticks k + 1\<rparr>
              else if t_pagedir (threads k t) \<noteq> NULL then k\<lparr>user_ticks := user_ticks k + 1\<rparr>
              else k\<lparr>kernel_ticks := kernel_ticks k + 1\<rparr>);
     let k = k\<lparr>thread_ticks := thread_ticks k + 1\<rparr>;
     if thread_ticks k \<ge> TIME_SLICE then intr_yield_on_return k else Some k
   }"

definition timer_interrupt :: "kernel \<Rightarrow> kernel option" where
  "timer_interrupt k = thread_tick (k\<lparr>ticks := ticks k + 1\<rparr>)"

text \<open>An external interrupt is delivered with interrupts off; on return the level is what it was before.\<close>

definition intr_handler_external :: "(kernel \<Rightarrow> kernel option) \<Rightarrow> kernel \<Rightarrow> kernel option" where
  "intr_handler_external handler k = do {
     ASSERT (intr_get_level k = INTR_OFF);
     ASSERT (\<not> intr_context k);
     let k = k\<lparr>in_external_intr := True, yield_on_return := False\<rparr>;
     k \<leftarrow> handler k;
     ASSERT (intr_get_level k = INTR_OFF);
     ASSERT (intr_context k);
     let k = k\<lparr>in_external_intr := False\<rparr>;
     if yield_on_return k then thread_yield k else Some k
   }"

definition timer_intr :: "kernel \<Rightarrow> kernel option" where
  "timer_intr k =
     (let old_level = level k; k = push_calls (cpu k) [Intr_set_level old_level] (k\<lparr>level := INTR_OFF\<rparr>)
      in intr_handler_external timer_interrupt k)"

section \<open>Creating threads\<close>

definition init_thread :: "ptr \<Rightarrow> uint8 list \<Rightarrow> int \<Rightarrow> kernel \<Rightarrow> kernel option" where
  "init_thread t nm prio k = do {
     ASSERT (t \<noteq> NULL);
     ASSERT (PRI_MIN \<le> prio \<and> prio \<le> PRI_MAX);
     let k = k\<lparr>threads := (threads k)(t := \<lparr>t_tid = 0, t_status = THREAD_BLOCKED, t_exit_code = -1, t_name = take 15 nm,
       t_stack = t + PGSIZE, t_priority = prio, t_children = [], t_parent = NULL, t_pagedir = NULL, t_magic = THREAD_MAGIC\<rparr>)\<rparr>;
     Some (k\<lparr>holder := (holder k)(children_lock t := NULL),
       semas := (semas k)(lock_semaphore (children_lock t) := \<lparr>sema_value = 1, waiters = []\<rparr>)\<rparr>)
   }"

definition alloc_frame :: "ptr \<Rightarrow> size_t \<Rightarrow> kernel \<Rightarrow> (kernel \<times> ptr) option" where
  "alloc_frame t sz k = do {
     ASSERT (is_thread k t);
     ASSERT (sz mod 4 = 0);
     let k = upd_thread (\<lambda>th. th\<lparr>t_stack := t_stack th - sz\<rparr>) t k;
     Some (k, t_stack (threads k t))
   }"

text \<open>
  \<open>mk_thread\<close> up to the point where it asks for a thread identifier, and from there on. The first part, \<open>palloc_get_page\<close> and \<open>init_thread\<close>,
  is one step: the lock of the page pool, which \<open>palloc_get_multiple\<close> holds while it looks for a page, is not taken. The names of threads are
  values, so that no pointer to one can be null.
\<close>

definition mk_thread :: "uint8 list \<Rightarrow> int \<Rightarrow> ptr \<Rightarrow> ptr \<Rightarrow> kernel \<Rightarrow> kernel option" where
  "mk_thread nm prio fn aux k = do {
     ASSERT (fn \<noteq> NULL);
     (p, m, t) \<leftarrow> palloc_get_page (pal k) (kmem k) PAL_ZERO;
     let k = k\<lparr>pal := p, kmem := m\<rparr>;
     if t = NULL then Some k
     else do {
       k \<leftarrow> init_thread t nm prio k;
       Some (push_calls (cpu k) [Lock_acquire (tid_lock k), Take_tid t, Lock_release (tid_lock k), Push_frames t fn aux] k)
     }
   }"

definition allocate_tid :: "ptr \<Rightarrow> kernel \<Rightarrow> kernel" where
  "allocate_tid t k = (let tid = next_tid k; k = k\<lparr>next_tid := next_tid k + 1\<rparr> in upd_thread (\<lambda>th. th\<lparr>t_tid := tid\<rparr>) t k)"

definition put_word :: "ptr \<Rightarrow> 32 word \<Rightarrow> kernel \<Rightarrow> kernel" where
  "put_word p w k = k\<lparr>kmem := write_bytes (kmem k) p (bytes_of_word w)\<rparr>"

definition mk_frames :: "ptr \<Rightarrow> ptr \<Rightarrow> ptr \<Rightarrow> kernel \<Rightarrow> kernel option" where
  "mk_frames t fn aux k = do {
     (k, kf) \<leftarrow> alloc_frame t 12 k;
     let k = put_word (kf + 8) aux (put_word (kf + 4) fn (put_word kf NULL k));
     (k, ef) \<leftarrow> alloc_frame t 4 k;
     let k = put_word ef (addr_kernel_thread k) k;
     (k, sf) \<leftarrow> alloc_frame t 28 k;
     Some (put_word (sf + 16) (addr_switch_entry k) k)
   }"

text \<open>
  The rest of \<open>thread_create\<close>: the new thread starts in \<open>kernel_thread\<close>. Its supplemental page table is set up after it is on
  the ready list.
\<close>

definition thread_create_end :: "ptr \<Rightarrow> ptr \<Rightarrow> ptr \<Rightarrow> kernel \<Rightarrow> kernel option" where
  "thread_create_end t fn aux k = do {
     k \<leftarrow> mk_frames t fn aux k;
     let k = k\<lparr>kstack := (kstack k)(t := [Kernel_thread fn aux])\<rparr>;
     k \<leftarrow> thread_unblock t k;
     Some (push_calls (cpu k) [Init_supplemental t] k)
   }"

text \<open>
  The semaphore of the supplemental page table inside a thread. The table itself, which the same function sets up, does not take part in
  scheduling; it is in the theory \<open>Page\<close>.
\<close>

definition page_sema :: "ptr \<Rightarrow> ptr" where
  "page_sema t = t + 156"

definition init_supplemental_sema :: "ptr \<Rightarrow> kernel \<Rightarrow> kernel" where
  "init_supplemental_sema t k = k\<lparr>semas := (semas k)(page_sema t := \<lparr>sema_value = 1, waiters = []\<rparr>)\<rparr>"

definition kernel_thread :: "ptr \<Rightarrow> ptr \<Rightarrow> kernel \<Rightarrow> kernel option" where
  "kernel_thread fn aux k = do {
     ASSERT (fn \<noteq> NULL);
     (k, _) \<leftarrow> intr_enable k;
     Some (push_calls (cpu k) [if fn = addr_idle k then Idle aux else Client, Thread_exit] k)
   }"

section \<open>Attributes of the running thread\<close>

definition thread_name :: "kernel \<Rightarrow> uint8 list option" where
  "thread_name k = do { t \<leftarrow> thread_current k; Some (t_name (threads k t)) }"

definition thread_tid :: "kernel \<Rightarrow> 32 word option" where
  "thread_tid k = do { t \<leftarrow> thread_current k; Some (t_tid (threads k t)) }"

definition thread_set_priority :: "int \<Rightarrow> kernel \<Rightarrow> kernel option" where
  "thread_set_priority new_priority k = do {
     t \<leftarrow> thread_current k;
     Some (upd_thread (\<lambda>th. th\<lparr>t_priority := new_priority\<rparr>) t k)
   }"

definition thread_get_priority :: "kernel \<Rightarrow> int option" where
  "thread_get_priority k = do { t \<leftarrow> thread_current k; Some (t_priority (threads k t)) }"

text \<open>Not implemented in the code.\<close>

definition thread_set_nice :: "int \<Rightarrow> kernel \<Rightarrow> kernel" where
  "thread_set_nice nice k = k"

definition thread_get_nice :: "kernel \<Rightarrow> int" where
  "thread_get_nice k = 0"

definition thread_get_load_avg :: "kernel \<Rightarrow> int" where
  "thread_get_load_avg k = 0"

definition thread_get_recent_cpu :: "kernel \<Rightarrow> int" where
  "thread_get_recent_cpu k = 0"

section \<open>Reading the time\<close>

text \<open>The barrier changes nothing here.\<close>

definition timer_ticks :: "kernel \<Rightarrow> (kernel \<times> uint64) option" where
  "timer_ticks k = do {
     let (k, old_level) = intr_disable k;
     let t = ticks k;
     (k, _) \<leftarrow> intr_set_level old_level k;
     Some (k, t)
   }"

definition timer_elapsed :: "uint64 \<Rightarrow> kernel \<Rightarrow> (kernel \<times> uint64) option" where
  "timer_elapsed thn k = do { (k, t) \<leftarrow> timer_ticks k; Some (k, t - thn) }"

section \<open>The idle thread\<close>

definition idle :: "ptr \<Rightarrow> kernel \<Rightarrow> kernel option" where
  "idle idle_started k = do {
     t \<leftarrow> thread_current k;
     Some (push_calls t [Sema_up idle_started, Idle_loop] (k\<lparr>idle_thread := t\<rparr>))
   }"

definition idle_loop :: "kernel \<Rightarrow> kernel option" where
  "idle_loop k = (let (k, _) = intr_disable k in thread_block (push_calls (cpu k) [Idle_wake, Idle_loop] k))"

definition idle_wake :: "kernel \<Rightarrow> kernel" where
  "idle_wake k = k\<lparr>level := INTR_ON\<rparr>"

end
