(* ===== verification/Synch.thy ===== *)
theory Synch
  imports Thread
begin

text \<open>
  Semaphores, locks and condition variables: \<open>src/threads/synch.c\<close>, and the steps the kernel takes.

  Semaphores, holders of locks and waiters of condition variables are kept by address; the semaphore of a lock is inside it. A call that can be
  interrupted in the middle is split at that point: \<open>lock_acquire\<close> enters the holder after the semaphore has been taken, with
  interrupts possibly on, and \<open>lock_release\<close> clears the holder before the semaphore is given back. The address of the
  semaphore of a waiter, an automatic variable of \<open>cond_wait\<close> on the stack of the caller, is a parameter; it can be any
  address that no other semaphore in use has.
\<close>

section \<open>Semaphores\<close>

definition sema_init :: "ptr \<Rightarrow> uint32 \<Rightarrow> kernel \<Rightarrow> kernel option" where
  "sema_init sema v k = do {
     ASSERT (sema \<noteq> NULL);
     Some (k\<lparr>semas := (semas k)(sema := \<lparr>sema_value = v, waiters = []\<rparr>)\<rparr>)
   }"

definition upd_sema :: "(semaphore \<Rightarrow> semaphore) \<Rightarrow> ptr \<Rightarrow> kernel \<Rightarrow> kernel" where
  "upd_sema f s k = k\<lparr>semas := (semas k)(s := f (semas k s))\<rparr>"

text \<open>One turn of the loop of \<open>sema_down\<close>, with interrupts off; after \<open>thread_block\<close> the thread goes on with the next one.\<close>

definition sema_down_loop :: "ptr \<Rightarrow> intr_level \<Rightarrow> kernel \<Rightarrow> kernel option" where
  "sema_down_loop sema old_level k =
     (if sema_value (semas k sema) = 0 then do {
        t \<leftarrow> thread_current k;
        let k = upd_sema (\<lambda>s. s\<lparr>waiters := waiters s @ [t]\<rparr>) sema k;
        thread_block (push_calls t [Sema_down_loop sema old_level] k)
      } else do {
        let k = upd_sema (\<lambda>s. s\<lparr>sema_value := sema_value s - 1\<rparr>) sema k;
        (k, _) \<leftarrow> intr_set_level old_level k;
        Some k
      })"

definition sema_down :: "ptr \<Rightarrow> kernel \<Rightarrow> kernel option" where
  "sema_down sema k = do {
     ASSERT (sema \<noteq> NULL);
     ASSERT (\<not> intr_context k);
     let (k, old_level) = intr_disable k;
     sema_down_loop sema old_level k
   }"

definition sema_try_down :: "ptr \<Rightarrow> kernel \<Rightarrow> (kernel \<times> bool) option" where
  "sema_try_down sema k = do {
     ASSERT (sema \<noteq> NULL);
     let (k, old_level) = intr_disable k;
     let success = (sema_value (semas k sema) > 0);
     let k = (if success then upd_sema (\<lambda>s. s\<lparr>sema_value := sema_value s - 1\<rparr>) sema k else k);
     (k, _) \<leftarrow> intr_set_level old_level k;
     Some (k, success)
   }"

definition sema_up :: "ptr \<Rightarrow> kernel \<Rightarrow> kernel option" where
  "sema_up sema k = do {
     ASSERT (sema \<noteq> NULL);
     let (k, old_level) = intr_disable k;
     k \<leftarrow> (case waiters (semas k sema) of
         [] \<Rightarrow> Some k
       | t # ts \<Rightarrow> thread_unblock t (upd_sema (\<lambda>s. s\<lparr>waiters := ts\<rparr>) sema k));
     let k = upd_sema (\<lambda>s. s\<lparr>sema_value := sema_value s + 1\<rparr>) sema k;
     (k, _) \<leftarrow> intr_set_level old_level k;
     Some k
   }"

section \<open>Locks\<close>

definition lock_init :: "ptr \<Rightarrow> kernel \<Rightarrow> kernel option" where
  "lock_init l k = do {
     ASSERT (l \<noteq> NULL);
     sema_init (lock_semaphore l) 1 (k\<lparr>holder := (holder k)(l := NULL)\<rparr>)
   }"

definition lock_held_by_current_thread :: "ptr \<Rightarrow> kernel \<Rightarrow> bool option" where
  "lock_held_by_current_thread l k = do {
     ASSERT (l \<noteq> NULL);
     t \<leftarrow> thread_current k;
     Some (holder k l = t)
   }"

definition lock_acquire :: "ptr \<Rightarrow> kernel \<Rightarrow> kernel option" where
  "lock_acquire l k = do {
     ASSERT (l \<noteq> NULL);
     ASSERT (\<not> intr_context k);
     held \<leftarrow> lock_held_by_current_thread l k;
     ASSERT (\<not> held);
     Some (push_calls (cpu k) [Sema_down (lock_semaphore l), Set_holder l] k)
   }"

definition set_holder :: "ptr \<Rightarrow> kernel \<Rightarrow> kernel option" where
  "set_holder l k = do {
     t \<leftarrow> thread_current k;
     Some (k\<lparr>holder := (holder k)(l := t)\<rparr>)
   }"

definition lock_try_acquire :: "ptr \<Rightarrow> kernel \<Rightarrow> (kernel \<times> bool) option" where
  "lock_try_acquire l k = do {
     ASSERT (l \<noteq> NULL);
     held \<leftarrow> lock_held_by_current_thread l k;
     ASSERT (\<not> held);
     (k, success) \<leftarrow> sema_try_down (lock_semaphore l) k;
     Some (if success then push_calls (cpu k) [Set_holder l] k else k, success)
   }"

definition lock_release :: "ptr \<Rightarrow> kernel \<Rightarrow> kernel option" where
  "lock_release l k = do {
     ASSERT (l \<noteq> NULL);
     held \<leftarrow> lock_held_by_current_thread l k;
     ASSERT held;
     Some (push_calls (cpu k) [Sema_up (lock_semaphore l)] (k\<lparr>holder := (holder k)(l := NULL)\<rparr>))
   }"

section \<open>Condition variables\<close>

text \<open>A waiter of a condition variable is the address of its semaphore.\<close>

definition cond_init :: "ptr \<Rightarrow> kernel \<Rightarrow> kernel option" where
  "cond_init cond k = do {
     ASSERT (cond \<noteq> NULL);
     Some (k\<lparr>cond_waiters := (cond_waiters k)(cond := [])\<rparr>)
   }"

definition cond_wait :: "ptr \<Rightarrow> ptr \<Rightarrow> ptr \<Rightarrow> kernel \<Rightarrow> kernel option" where
  "cond_wait cond l waiter k = do {
     ASSERT (cond \<noteq> NULL);
     ASSERT (l \<noteq> NULL);
     ASSERT (\<not> intr_context k);
     held \<leftarrow> lock_held_by_current_thread l k;
     ASSERT held;
     k \<leftarrow> sema_init waiter 0 k;
     let k = k\<lparr>cond_waiters := (cond_waiters k)(cond := cond_waiters k cond @ [waiter])\<rparr>;
     Some (push_calls (cpu k) [Lock_release l, Sema_down waiter, Lock_acquire l] k)
   }"

definition cond_signal :: "ptr \<Rightarrow> ptr \<Rightarrow> kernel \<Rightarrow> kernel option" where
  "cond_signal cond l k = do {
     ASSERT (cond \<noteq> NULL);
     ASSERT (l \<noteq> NULL);
     ASSERT (\<not> intr_context k);
     held \<leftarrow> lock_held_by_current_thread l k;
     ASSERT held;
     case cond_waiters k cond of
       [] \<Rightarrow> Some k
     | w # ws \<Rightarrow> Some (push_calls (cpu k) [Sema_up w] (k\<lparr>cond_waiters := (cond_waiters k)(cond := ws)\<rparr>))
   }"

definition cond_broadcast :: "ptr \<Rightarrow> ptr \<Rightarrow> kernel \<Rightarrow> kernel option" where
  "cond_broadcast cond l k = do {
     ASSERT (cond \<noteq> NULL);
     ASSERT (l \<noteq> NULL);
     Some (if cond_waiters k cond \<noteq> [] then push_calls (cpu k) [Cond_signal cond l, Cond_broadcast cond l] k else k)
   }"

section \<open>Starting the threads\<close>

text \<open>The code that is running becomes the initial thread. The lock on the identifiers is free, so taking one needs no waiting.\<close>

definition thread_init :: "kernel \<Rightarrow> kernel option" where
  "thread_init k = do {
     ASSERT (intr_get_level k = INTR_OFF);
     k \<leftarrow> lock_init (tid_lock k) k;
     let k = k\<lparr>ready_list := []\<rparr>;
     let k = k\<lparr>initial_thread := running_thread k\<rparr>;
     k \<leftarrow> init_thread (initial_thread k) [109, 97, 105, 110] PRI_DEFAULT k;
     let k = set_status (initial_thread k) THREAD_RUNNING k;
     Some (allocate_tid (initial_thread k) k)
   }"

definition thread_start :: "ptr \<Rightarrow> kernel \<Rightarrow> kernel option" where
  "thread_start idle_started k = do {
     k \<leftarrow> sema_init idle_started 0 k;
     Some (push_calls (cpu k) [Thread_create [105, 100, 108, 101] PRI_MIN (addr_idle k) idle_started, Intr_set_level INTR_ON, Sema_down idle_started] k)
   }"

section \<open>Running the calls\<close>

text \<open>What the running thread does when it takes a call from its stack. The results of the two calls that try are up to the client to use.\<close>

fun exec :: "call \<Rightarrow> kernel \<Rightarrow> kernel option" where
  "exec Client k = Some k"
| "exec (Intr_set_level l) k = map_option fst (intr_set_level l k)"
| "exec (Sema_down s) k = sema_down s k"
| "exec (Sema_down_loop s l) k = sema_down_loop s l k"
| "exec (Sema_try_down s) k = map_option fst (sema_try_down s k)"
| "exec (Sema_up s) k = sema_up s k"
| "exec (Lock_acquire l) k = lock_acquire l k"
| "exec (Set_holder l) k = set_holder l k"
| "exec (Lock_try_acquire l) k = map_option fst (lock_try_acquire l k)"
| "exec (Lock_release l) k = lock_release l k"
| "exec (Cond_wait c l w) k = cond_wait c l w k"
| "exec (Cond_signal c l) k = cond_signal c l k"
| "exec (Cond_broadcast c l) k = cond_broadcast c l k"
| "exec Thread_yield k = thread_yield k"
| "exec (Thread_create nm prio fn aux) k = mk_thread nm prio fn aux k"
| "exec (Take_tid t) k = Some (allocate_tid t k)"
| "exec (Push_frames t fn aux) k = thread_create_end t fn aux k"
| "exec (Init_supplemental t) k = Some (init_supplemental_sema t k)"
| "exec (Kernel_thread fn aux) k = kernel_thread fn aux k"
| "exec (Idle s) k = idle s k"
| "exec Idle_loop k = idle_loop k"
| "exec Idle_wake k = Some (idle_wake k)"
| "exec Thread_exit k = thread_exit_end k"

definition pop_call :: "kernel \<Rightarrow> kernel" where
  "pop_call k = k\<lparr>kstack := (kstack k)(cpu k := tl (kstack k (cpu k)))\<rparr>"

text \<open>
  The steps of the kernel: the running thread takes the next call from its stack; client code calls one of the operations, as
  allowed by \<open>ok\<close>, or returns; and the timer interrupts whenever interrupts are on.
\<close>

inductive kstep :: "(kernel \<Rightarrow> call \<Rightarrow> bool) \<Rightarrow> kernel \<Rightarrow> kernel \<Rightarrow> bool" for ok where
  call: "kstack k (cpu k) = c # cs \<Longrightarrow> c \<noteq> Client \<Longrightarrow> exec c (pop_call k) = Some k' \<Longrightarrow> kstep ok k k'"
| client: "kstack k (cpu k) = Client # cs \<Longrightarrow> ok k c \<Longrightarrow> kstep ok k (push_calls (cpu k) [c] k)"
| return: "kstack k (cpu k) = Client # cs \<Longrightarrow> kstep ok k (pop_call k)"
| timer: "level k = INTR_ON \<Longrightarrow> timer_intr k = Some k' \<Longrightarrow> kstep ok k k'"

end
