(* ===== verification/Scheduler.thy ===== *)
theory Scheduler
  imports Synch
begin

text \<open>
  The invariant of the scheduler: one thread runs; the ready list holds the ready threads, each once; a thread is in the wait list of
  a semaphore exactly if it is blocked there; threads have pages of their own; and the idle thread is never on the ready list. The lemmas show that
  \<open>schedule\<close> never fails an assertion and re-establishes the invariant, and what a step may do to keep it.
\<close>

section \<open>The invariant of the scheduler\<close>

text \<open>Threads that are being created: set up by another thread, which has yet to put them on the ready list.\<close>

fun newborns :: "call list \<Rightarrow> ptr list" where
  "newborns [] = []"
| "newborns (Push_frames t _ _ # cs) = t # newborns cs"
| "newborns (_ # cs) = newborns cs"

fun waits_on :: "call list \<Rightarrow> ptr option" where
  "waits_on (Sema_down_loop s _ # _) = Some s"
| "waits_on _ = None"

fun no_loop :: "call list \<Rightarrow> bool" where
  "no_loop [] \<longleftrightarrow> True"
| "no_loop (Sema_down_loop _ _ # _) \<longleftrightarrow> False"
| "no_loop (_ # cs) \<longleftrightarrow> no_loop cs"

fun idle_calls :: "call list \<Rightarrow> bool" where
  "idle_calls (Idle_loop # _) \<longleftrightarrow> True"
| "idle_calls (Intr_set_level _ # cs) \<longleftrightarrow> idle_calls cs"
| "idle_calls (Idle_wake # cs) \<longleftrightarrow> idle_calls cs"
| "idle_calls _ \<longleftrightarrow> False"

abbreviation status_of :: "kernel \<Rightarrow> ptr \<Rightarrow> thread_status" where
  "status_of k t \<equiv> t_status (threads k t)"

definition ready_ok :: "kernel \<Rightarrow> bool" where
  "ready_ok k \<longleftrightarrow> distinct (ready_list k) \<and>
     (\<forall>t. t \<in> set (ready_list k) \<longleftrightarrow> is_thread k t \<and> status_of k t = THREAD_READY \<and> t \<noteq> idle_thread k)"

definition wait_ok :: "kernel \<Rightarrow> bool" where
  "wait_ok k \<longleftrightarrow> (\<forall>s. distinct (waiters (semas k s))) \<and>
     (\<forall>s t. t \<in> set (waiters (semas k s)) \<longleftrightarrow> is_thread k t \<and> status_of k t = THREAD_BLOCKED \<and> waits_on (kstack k t) = Some s)"

definition newborn_ok :: "kernel \<Rightarrow> bool" where
  "newborn_ok k \<longleftrightarrow> (\<forall>u. distinct (newborns (kstack k u))) \<and>
     (\<forall>t u. t \<in> set (newborns (kstack k u)) \<longrightarrow> is_thread k t \<and> status_of k t = THREAD_BLOCKED \<and> t \<noteq> idle_thread k \<and> kstack k t = [] \<and>
       (\<forall>u'. t \<in> set (newborns (kstack k u')) \<longrightarrow> u' = u))"

definition page_ok :: "kernel \<Rightarrow> bool" where
  "page_ok k \<longleftrightarrow> palloc_wf (pal k) \<and> unat (pg_no (initial_thread k)) \<notin> pool_pages (kernel_pool (pal k)) \<and>
     (\<forall>t. is_thread k t \<longrightarrow> pg_ofs t = 0 \<and> (t = initial_thread k \<or> unat (pg_no t) \<in> palloc_used (pal k) \<inter> pool_pages (kernel_pool (pal k))))"

definition gone :: "kernel \<Rightarrow> ptr \<Rightarrow> bool" where
  "gone k t \<longleftrightarrow> \<not> is_thread k t \<or> status_of k t = THREAD_DYING \<or> status_of k t = THREAD_DEAD"

definition stack_ok :: "kernel \<Rightarrow> bool" where
  "stack_ok k \<longleftrightarrow> (\<forall>t. gone k t \<longrightarrow> kstack k t = []) \<and> (\<forall>t. no_loop (tl (kstack k t))) \<and>
     is_thread k (idle_thread k) \<and> idle_calls (kstack k (idle_thread k)) \<and> \<not> in_external_intr k"

definition threads_ok :: "kernel \<Rightarrow> bool" where
  "threads_ok k \<longleftrightarrow> ready_ok k \<and> wait_ok k \<and> newborn_ok k \<and> page_ok k \<and> stack_ok k"

definition k_inv :: "kernel \<Rightarrow> bool" where
  "k_inv k \<longleftrightarrow> threads_ok k \<and> is_thread k (cpu k) \<and> status_of k (cpu k) = THREAD_RUNNING \<and>
     (\<forall>t. is_thread k t \<longrightarrow> status_of k t = THREAD_RUNNING \<longrightarrow> t = cpu k) \<and>
     (waits_on (kstack k (cpu k)) \<noteq> None \<longrightarrow> level k = INTR_OFF)"

text \<open>The state in which a thread gives up the processor.\<close>

definition descheduled :: "kernel \<Rightarrow> bool" where
  "descheduled k \<longleftrightarrow> threads_ok k \<and> is_thread k (cpu k) \<and> level k = INTR_OFF \<and>
     (\<forall>t. is_thread k t \<longrightarrow> status_of k t \<noteq> THREAD_RUNNING) \<and>
     (status_of k (cpu k) = THREAD_DYING \<longrightarrow> kstack k (cpu k) = [] \<and> cpu k \<noteq> idle_thread k)"

lemmas threads_ok_defs = threads_ok_def ready_ok_def wait_ok_def newborn_ok_def page_ok_def stack_ok_def

lemma is_thread_simps [simp]:
  "is_thread (k\<lparr>ready_list := r\<rparr>) = is_thread k" "is_thread (k\<lparr>cpu := c\<rparr>) = is_thread k"
  "is_thread (k\<lparr>level := l\<rparr>) = is_thread k" "is_thread (k\<lparr>semas := s\<rparr>) = is_thread k" "is_thread (k\<lparr>kstack := ks\<rparr>) = is_thread k"
  "is_thread (k\<lparr>holder := h\<rparr>) = is_thread k" "is_thread (k\<lparr>cond_waiters := cw\<rparr>) = is_thread k"
  "is_thread (k\<lparr>thread_ticks := tt\<rparr>) = is_thread k" "is_thread (k\<lparr>pal := p\<rparr>) = is_thread k" "is_thread (k\<lparr>kmem := m\<rparr>) = is_thread k"
  "is_thread (k\<lparr>in_external_intr := b\<rparr>) = is_thread k" "is_thread (k\<lparr>yield_on_return := b\<rparr>) = is_thread k"
  "is_thread (k\<lparr>idle_ticks := n\<rparr>) = is_thread k" "is_thread (k\<lparr>user_ticks := n\<rparr>) = is_thread k"
  "is_thread (k\<lparr>kernel_ticks := n\<rparr>) = is_thread k" "is_thread (k\<lparr>ticks := n\<rparr>) = is_thread k" "is_thread (k\<lparr>next_tid := i\<rparr>) = is_thread k"
  "is_thread (set_status t st k) = is_thread k"
  by (auto simp: is_thread_def set_status_def upd_thread_def fun_eq_iff)

lemma set_status_simps [simp]:
  "ready_list (set_status t st k) = ready_list k" "cpu (set_status t st k) = cpu k" "idle_thread (set_status t st k) = idle_thread k"
  "initial_thread (set_status t st k) = initial_thread k" "level (set_status t st k) = level k" "semas (set_status t st k) = semas k"
  "holder (set_status t st k) = holder k" "kstack (set_status t st k) = kstack k" "pal (set_status t st k) = pal k"
  "kmem (set_status t st k) = kmem k" "in_external_intr (set_status t st k) = in_external_intr k"
  "cond_waiters (set_status t st k) = cond_waiters k" "tid_lock (set_status t st k) = tid_lock k" "addr_idle (set_status t st k) = addr_idle k"
  "t_status (threads (set_status t st k) u) = (if u = t then st else status_of k u)"
  by (auto simp: set_status_def upd_thread_def)

lemma push_calls_simps [simp]:
  "threads (push_calls t cs k) = threads k" "ready_list (push_calls t cs k) = ready_list k" "cpu (push_calls t cs k) = cpu k"
  "idle_thread (push_calls t cs k) = idle_thread k" "initial_thread (push_calls t cs k) = initial_thread k"
  "level (push_calls t cs k) = level k" "semas (push_calls t cs k) = semas k" "holder (push_calls t cs k) = holder k"
  "pal (push_calls t cs k) = pal k" "kmem (push_calls t cs k) = kmem k" "in_external_intr (push_calls t cs k) = in_external_intr k"
  "cond_waiters (push_calls t cs k) = cond_waiters k" "tid_lock (push_calls t cs k) = tid_lock k" "addr_idle (push_calls t cs k) = addr_idle k"
  "kstack (push_calls t cs k) u = (if u = t then cs @ kstack k t else kstack k u)" "is_thread (push_calls t cs k) = is_thread k"
  by (auto simp: push_calls_def is_thread_def fun_eq_iff)

text \<open>The thread that runs next.\<close>

definition next_thread :: "kernel \<Rightarrow> ptr" where
  "next_thread k = (case ready_list k of [] \<Rightarrow> idle_thread k | t # _ \<Rightarrow> t)"

text \<open>After \<open>schedule\<close> everything but the processor, the ready list and the threads switched between is as before.\<close>

definition switched :: "kernel \<Rightarrow> kernel \<Rightarrow> bool" where
  "switched k k' \<longleftrightarrow> cpu k' = next_thread k \<and> ready_list k' = tl (ready_list k) \<and> semas k' = semas k \<and> holder k' = holder k \<and>
     kstack k' = kstack k \<and> cond_waiters k' = cond_waiters k \<and> level k' = INTR_OFF \<and> tid_lock k' = tid_lock k \<and> addr_idle k' = addr_idle k \<and>
     idle_thread k' = idle_thread k \<and> initial_thread k' = initial_thread k \<and>
     pool_pages (kernel_pool (pal k')) = pool_pages (kernel_pool (pal k)) \<and>
     (\<forall>t. is_thread k' t \<longleftrightarrow> is_thread k t \<and> \<not> (t = cpu k \<and> status_of k t = THREAD_DYING \<and> t \<noteq> initial_thread k)) \<and>
     (\<forall>t. status_of k' t = (if t = next_thread k then THREAD_RUNNING else status_of k t))"

lemma next_thread_ok:
  assumes "descheduled k"
  shows "is_thread k (next_thread k)" and "next_thread k \<noteq> NULL"
    and "status_of k (cpu k) = THREAD_DYING \<Longrightarrow> next_thread k \<noteq> cpu k"
proof -
  have r: "\<And>t. t \<in> set (ready_list k) \<Longrightarrow> is_thread k t \<and> status_of k t = THREAD_READY" and i: "is_thread k (idle_thread k)"
    and d: "status_of k (cpu k) = THREAD_DYING \<Longrightarrow> cpu k \<noteq> idle_thread k"
    using assms unfolding descheduled_def threads_ok_def ready_ok_def stack_ok_def by blast+
  show t: "is_thread k (next_thread k)" using r i by (cases "ready_list k") (simp_all add: next_thread_def)
  then show "next_thread k \<noteq> NULL" by (simp add: is_thread_def)
  show "next_thread k \<noteq> cpu k" if "status_of k (cpu k) = THREAD_DYING"
    using r[of "cpu k"] d that by (cases "ready_list k") (auto simp: next_thread_def)
qed

lemma kernel_pool_used: "palloc_wf st \<Longrightarrow> pool_used (kernel_pool st) = palloc_used st \<inter> pool_pages (kernel_pool st)"
  using pool_used_sub[of "kernel_pool st"] pool_used_sub[of "user_pool st"] by (auto simp: palloc_wf_def palloc_used_def)

lemma pg_no_inj: "pg_ofs a = 0 \<Longrightarrow> pg_ofs b = 0 \<Longrightarrow> unat (pg_no a) = unat (pg_no b) \<Longrightarrow> a = b"
  using pg_ofs_mod[of a] pg_ofs_mod[of b] pg_no_div[of a] pg_no_div[of b] by (metis mod_mult_div_eq unat_0 word_unat_eq_iff)

lemma page_range_1 [simp]: "page_range a 1 = {unat (pg_no a)}"
  by (auto simp: page_range_def)

text \<open>The page of a thread that has ended can be given back.\<close>

lemma free_thread_page:
  assumes "page_ok k" and "is_thread k t" and "t \<noteq> initial_thread k"
  obtains p m where "palloc_free_page (pal k) (kmem k) t = Some (p, m)" "palloc_wf p" "palloc_used p = palloc_used (pal k) - {unat (pg_no t)}"
    "pool_pages (kernel_pool p) = pool_pages (kernel_pool (pal k))"
proof -
  have t: "pg_ofs t = 0" "t \<noteq> NULL" "unat (pg_no t) \<in> palloc_used (pal k) \<inter> pool_pages (kernel_pool (pal k))" and wf: "palloc_wf (pal k)"
    using assms by (auto simp: page_ok_def is_thread_def)
  have "page_range t 1 \<subseteq> pool_used (pool_of (pal k) 0)" using t(3) kernel_pool_used[OF wf] by (simp add: pool_of_def)
  from palloc_free_ok[OF wf t(1,2) _ this, of "kmem k"] show ?thesis using that by (auto simp: palloc_free_page_def)
qed

lemma schedule_switched:
  assumes d: "descheduled k"
  shows "\<exists>k'. schedule k = Some k' \<and> switched k k' \<and> page_ok k' \<and> \<not> in_external_intr k'"
proof -
  define k1 where "k1 = k\<lparr>ready_list := tl (ready_list k)\<rparr>"
  have n: "next_thread_to_run k = (k1, next_thread k)"
    by (cases "ready_list k") (simp_all add: next_thread_to_run_def next_thread_def k1_def)
  note nt = next_thread_ok[OF d]
  have dk: "page_ok k" "is_thread k (cpu k)" "level k = INTR_OFF" "status_of k (cpu k) \<noteq> THREAD_RUNNING" "\<not> in_external_intr k"
    using d unfolding descheduled_def threads_ok_def stack_ok_def by blast+
  have k1: "level k1 = level k" "threads k1 = threads k" "initial_thread k1 = initial_thread k" "is_thread k1 = is_thread k" by (simp_all add: k1_def)
  have e: "schedule k = (if cpu k \<noteq> next_thread k then schedule_tail (cpu k) (k1\<lparr>cpu := next_thread k\<rparr>) else schedule_tail NULL k1)"
    using nt(1) dk k1 by (cases "cpu k = next_thread k") (simp_all add: schedule_def n running_thread_def intr_get_level_def)
  show ?thesis
  proof (cases "cpu k = next_thread k")
    case True
    then have nd: "status_of k (cpu k) \<noteq> THREAD_DYING" using nt(3) by metis
    have "schedule k = Some ((set_status (cpu k1) THREAD_RUNNING k1)\<lparr>thread_ticks := 0\<rparr>)"
      using e True dk by (simp add: schedule_tail_def intr_get_level_def running_thread_def) (simp add: k1_def)
    then show ?thesis using True nd dk by (auto simp: switched_def k1_def page_ok_def)
  next
    case False
    define k2 where "k2 = (set_status (next_thread k) THREAD_RUNNING (k1\<lparr>cpu := next_thread k\<rparr>))\<lparr>thread_ticks := 0\<rparr>"
    have k2: "level k2 = INTR_OFF" "pal k2 = pal k" "kmem k2 = kmem k" "initial_thread k2 = initial_thread k" "is_thread k2 = is_thread k" "page_ok k2"
      "status_of k2 (cpu k) = status_of k (cpu k)" "cpu k2 = next_thread k" "\<not> in_external_intr k2"
      using dk False by (simp_all add: k2_def k1_def page_ok_def)
    have sw: "switched k k2" if "\<not> (status_of k (cpu k) = THREAD_DYING \<and> cpu k \<noteq> initial_thread k)"
      using that dk by (auto simp: switched_def k2_def k1_def)
    have c0: "cpu k \<noteq> NULL" using dk(2) by (simp add: is_thread_def)
    have t: "schedule k = (if status_of k (cpu k) = THREAD_DYING \<and> cpu k \<noteq> initial_thread k
        then do { (p, m) \<leftarrow> palloc_free_page (pal k) (kmem k) (cpu k); Some (upd_thread (\<lambda>th. th\<lparr>t_magic := 0xcccccccc\<rparr>) (cpu k) (k2\<lparr>pal := p, kmem := m\<rparr>)) }
        else Some k2)"
      using e False c0 k2 k1 dk by (simp add: schedule_tail_def running_thread_def intr_get_level_def Let_def flip: k2_def)
    show ?thesis
    proof (cases "status_of k (cpu k) = THREAD_DYING \<and> cpu k \<noteq> initial_thread k")
      case True
      obtain p m where f: "palloc_free_page (pal k) (kmem k) (cpu k) = Some (p, m)" "palloc_wf p"
        "palloc_used p = palloc_used (pal k) - {unat (pg_no (cpu k))}" "pool_pages (kernel_pool p) = pool_pages (kernel_pool (pal k))"
        by (rule free_thread_page[OF dk(1,2)]) (use True in blast)+
      define k3 where "k3 = upd_thread (\<lambda>th. th\<lparr>t_magic := 0xcccccccc\<rparr>) (cpu k) (k2\<lparr>pal := p, kmem := m\<rparr>)"
      have s: "schedule k = Some k3" using t True f(1) by (simp add: k3_def)
      have it: "is_thread k3 u \<longleftrightarrow> is_thread k u \<and> u \<noteq> cpu k" for u
        using k2(5)[THEN fun_cong, of u] by (simp add: k3_def is_thread_def upd_thread_def)
      have st: "status_of k3 u = status_of k2 u" for u by (simp add: k3_def upd_thread_def)
      have "page_ok k3"
        using dk(1) f k2(4) pg_no_inj[of _ "cpu k"] dk(2) unfolding page_ok_def it by (auto simp: k3_def upd_thread_def)
      moreover have "switched k k3" using True it st f(4) dk(3) by (auto simp: switched_def) (simp_all add: k3_def upd_thread_def k2_def k1_def)
      ultimately show ?thesis using s k2(9) by (simp add: k3_def upd_thread_def)
    next
      case F: False
      have "schedule k = Some k2" using t F by (simp only: if_False)
      then show ?thesis using sw[OF F] k2(6,9) by blast
    qed
  qed
qed

lemma idle_calls_simps: "idle_calls cs \<Longrightarrow> waits_on cs = None \<and> cs \<noteq> []"
  by (induction cs rule: idle_calls.induct) auto

lemma threads_okD:
  assumes "threads_ok k"
  shows "distinct (ready_list k)"
    and "\<And>t. t \<in> set (ready_list k) \<longleftrightarrow> is_thread k t \<and> status_of k t = THREAD_READY \<and> t \<noteq> idle_thread k"
    and "\<And>s. distinct (waiters (semas k s))"
    and "\<And>s t. t \<in> set (waiters (semas k s)) \<longleftrightarrow> is_thread k t \<and> status_of k t = THREAD_BLOCKED \<and> waits_on (kstack k t) = Some s"
    and "\<And>u. distinct (newborns (kstack k u))"
    and "\<And>t u. t \<in> set (newborns (kstack k u)) \<Longrightarrow> is_thread k t \<and> status_of k t = THREAD_BLOCKED \<and> t \<noteq> idle_thread k \<and> kstack k t = []"
    and "\<And>t u u'. t \<in> set (newborns (kstack k u)) \<Longrightarrow> t \<in> set (newborns (kstack k u')) \<Longrightarrow> u' = u"
    and "page_ok k" and "\<And>t. gone k t \<Longrightarrow> kstack k t = []" and "\<And>t. no_loop (tl (kstack k t))"
    and "is_thread k (idle_thread k)" and "idle_calls (kstack k (idle_thread k))" and "\<not> in_external_intr k"
    and "waits_on (kstack k (idle_thread k)) = None"
proof -
  have r: "ready_ok k" "wait_ok k" "newborn_ok k" "page_ok k" "stack_ok k" using assms by (simp_all add: threads_ok_def)
  show "distinct (ready_list k)" "\<And>t. t \<in> set (ready_list k) \<longleftrightarrow> is_thread k t \<and> status_of k t = THREAD_READY \<and> t \<noteq> idle_thread k"
    using r(1) unfolding ready_ok_def by blast+
  show "\<And>s. distinct (waiters (semas k s))" using r(2) unfolding wait_ok_def by blast
  show "\<And>s t. t \<in> set (waiters (semas k s)) \<longleftrightarrow> is_thread k t \<and> status_of k t = THREAD_BLOCKED \<and> waits_on (kstack k t) = Some s"
    using r(2) unfolding wait_ok_def by blast
  show "\<And>u. distinct (newborns (kstack k u))" using r(3) unfolding newborn_ok_def by blast
  show "\<And>t u. t \<in> set (newborns (kstack k u)) \<Longrightarrow> is_thread k t \<and> status_of k t = THREAD_BLOCKED \<and> t \<noteq> idle_thread k \<and> kstack k t = []"
    using r(3) unfolding newborn_ok_def by blast
  show "\<And>t u u'. t \<in> set (newborns (kstack k u)) \<Longrightarrow> t \<in> set (newborns (kstack k u')) \<Longrightarrow> u' = u"
    using r(3) unfolding newborn_ok_def by blast
  show "page_ok k" by (fact r(4))
  show "\<And>t. gone k t \<Longrightarrow> kstack k t = []" "\<And>t. no_loop (tl (kstack k t))" "is_thread k (idle_thread k)"
    "\<not> in_external_intr k" using r(5) unfolding stack_ok_def by blast+
  show "idle_calls (kstack k (idle_thread k))" using r(5) unfolding stack_ok_def by blast
  then show "waits_on (kstack k (idle_thread k)) = None" by (simp add: idle_calls_simps)
qed

lemma threads_okI:
  assumes "distinct (ready_list k)"
    and "\<And>t. t \<in> set (ready_list k) \<longleftrightarrow> is_thread k t \<and> status_of k t = THREAD_READY \<and> t \<noteq> idle_thread k"
    and "\<And>s. distinct (waiters (semas k s))"
    and "\<And>s t. t \<in> set (waiters (semas k s)) \<longleftrightarrow> is_thread k t \<and> status_of k t = THREAD_BLOCKED \<and> waits_on (kstack k t) = Some s"
    and "\<And>u. distinct (newborns (kstack k u))"
    and "\<And>t u. t \<in> set (newborns (kstack k u)) \<Longrightarrow> is_thread k t \<and> status_of k t = THREAD_BLOCKED \<and> t \<noteq> idle_thread k \<and> kstack k t = []"
    and "\<And>t u u'. t \<in> set (newborns (kstack k u)) \<Longrightarrow> t \<in> set (newborns (kstack k u')) \<Longrightarrow> u' = u"
    and "page_ok k" and "\<And>t. gone k t \<Longrightarrow> kstack k t = []" and "\<And>t. no_loop (tl (kstack k t))"
    and "is_thread k (idle_thread k)" and "idle_calls (kstack k (idle_thread k))" and "\<not> in_external_intr k"
  shows "threads_ok k"
proof -
  have "ready_ok k" unfolding ready_ok_def using assms(1,2) by blast
  moreover have "wait_ok k" unfolding wait_ok_def using assms(3,4) by blast
  moreover have "newborn_ok k" unfolding newborn_ok_def using assms(5-7) by blast
  moreover have "stack_ok k" unfolding stack_ok_def using assms(9-13) by blast
  ultimately show ?thesis using assms(8) by (simp add: threads_ok_def)
qed

lemma switched_inv:
  assumes d: "descheduled k" and s: "switched k k'" and p: "page_ok k'" and e: "\<not> in_external_intr k'"
  shows "k_inv k'"
proof -
  have ok: "threads_ok k" and c: "is_thread k (cpu k)" and nr: "\<And>t. is_thread k t \<Longrightarrow> status_of k t \<noteq> THREAD_RUNNING"
    and dy: "status_of k (cpu k) = THREAD_DYING \<Longrightarrow> kstack k (cpu k) = [] \<and> cpu k \<noteq> idle_thread k"
    using d unfolding descheduled_def by blast+
  note o = threads_okD[OF ok]
  have sw: "cpu k' = next_thread k" "ready_list k' = tl (ready_list k)" "semas k' = semas k" "kstack k' = kstack k" "level k' = INTR_OFF"
    "idle_thread k' = idle_thread k" and it: "\<And>t. is_thread k' t \<longleftrightarrow> is_thread k t \<and> \<not> (t = cpu k \<and> status_of k t = THREAD_DYING \<and> t \<noteq> initial_thread k)"
    and st: "\<And>t. status_of k' t = (if t = next_thread k then THREAD_RUNNING else status_of k t)"
    using s unfolding switched_def by blast+
  note n = next_thread_ok[OF d]
  have nx: "next_thread k = idle_thread k \<and> ready_list k = [] \<or> status_of k (next_thread k) = THREAD_READY \<and> next_thread k \<noteq> idle_thread k \<and>
      ready_list k = next_thread k # tl (ready_list k)"
    using o(2)[of "hd (ready_list k)"] by (cases "ready_list k") (auto simp: next_thread_def)
  have nb: "t \<noteq> next_thread k" if "t \<noteq> idle_thread k" "status_of k t = THREAD_BLOCKED" for t using nx that by auto
  have "threads_ok k'"
  proof (rule threads_okI)
    show "distinct (ready_list k')" using o(1) sw(2) by (simp add: distinct_tl)
    have tl: "t \<in> set (tl (ready_list k)) \<longleftrightarrow> t \<in> set (ready_list k) \<and> t \<noteq> next_thread k" for t
      using nx o(1) o(2)[of t] by (cases "ready_list k") (auto simp: next_thread_def)
    show "t \<in> set (ready_list k') \<longleftrightarrow> is_thread k' t \<and> status_of k' t = THREAD_READY \<and> t \<noteq> idle_thread k'" for t
      unfolding sw tl o(2) it st by auto
    show "distinct (waiters (semas k' s))" for s using o(3) sw by simp
    show "t \<in> set (waiters (semas k' s)) \<longleftrightarrow> is_thread k' t \<and> status_of k' t = THREAD_BLOCKED \<and> waits_on (kstack k' t) = Some s" for s t
      unfolding sw o(4) it st using nb[of t] o(14) by (cases "t = idle_thread k") auto
    show "distinct (newborns (kstack k' u))" for u using o(5) sw by simp
    show "is_thread k' t \<and> status_of k' t = THREAD_BLOCKED \<and> t \<noteq> idle_thread k' \<and> kstack k' t = []" if "t \<in> set (newborns (kstack k' u))" for t u
      using o(6)[of t u] that nb[of t] unfolding sw it st by auto
    show "u' = u" if "t \<in> set (newborns (kstack k' u))" "t \<in> set (newborns (kstack k' u'))" for t u u'
      using o(7) that unfolding sw by blast
    show "kstack k' t = []" if "gone k' t" for t using o(9)[of t] dy that unfolding gone_def it sw st by (auto split: if_splits)
    show "no_loop (tl (kstack k' t))" for t using o(10) sw by simp
    show "is_thread k' (idle_thread k')" using o(11) dy unfolding it sw by auto
    show "idle_calls (kstack k' (idle_thread k'))" using o(12) sw by simp
  qed (fact p, fact e)
  moreover have "is_thread k' (cpu k')" using n unfolding it sw by auto
  ultimately show ?thesis unfolding k_inv_def sw st using nr it by auto
qed

lemma schedule_inv:
  assumes "descheduled k"
  obtains k' where "schedule k = Some k'" "switched k k'" "k_inv k'"
  using schedule_switched[OF assms] switched_inv[OF assms] that by blast

section \<open>What each kind of step does to the invariant\<close>

lemma k_invD:
  assumes "k_inv k"
  shows "threads_ok k" "is_thread k (cpu k)" "status_of k (cpu k) = THREAD_RUNNING"
    "\<And>t. is_thread k t \<Longrightarrow> status_of k t = THREAD_RUNNING \<Longrightarrow> t = cpu k"
    "waits_on (kstack k (cpu k)) \<noteq> None \<Longrightarrow> level k = INTR_OFF"
  using assms unfolding k_inv_def by blast+

text \<open>What the steps that keep the running thread leave alone.\<close>

definition same_threads :: "kernel \<Rightarrow> kernel \<Rightarrow> bool" where
  "same_threads k k' \<longleftrightarrow> is_thread k' = is_thread k \<and> status_of k' = status_of k \<and> ready_list k' = ready_list k \<and> cpu k' = cpu k \<and>
     idle_thread k' = idle_thread k \<and> initial_thread k' = initial_thread k \<and> pal k' = pal k \<and> in_external_intr k' = in_external_intr k"

text \<open>A running thread changes its stack.\<close>

definition stack_step :: "kernel \<Rightarrow> call list \<Rightarrow> bool" where
  "stack_step k cs \<longleftrightarrow> waits_on cs = None \<and> no_loop (tl cs) \<and> newborns cs = newborns (kstack k (cpu k)) \<and>
     (cpu k = idle_thread k \<longrightarrow> idle_calls cs)"

lemma quiet_inv:
  assumes inv: "k_inv k" and same: "same_threads k k'" and w: "\<And>s. waiters (semas k' s) = waiters (semas k s)"
    and ks: "kstack k' = (kstack k)(cpu k := cs)" and st: "stack_step k cs"
  shows "k_inv k'"
proof -
  note i = k_invD[OF inv]
  note o = threads_okD[OF i(1)]
  have s: "is_thread k' = is_thread k" "\<And>t. status_of k' t = status_of k t" "ready_list k' = ready_list k" "cpu k' = cpu k"
    "idle_thread k' = idle_thread k" "initial_thread k' = initial_thread k" "pal k' = pal k" "in_external_intr k' = in_external_intr k"
    using same by (simp_all add: same_threads_def fun_eq_iff)
  have c: "waits_on cs = None" "no_loop (tl cs)" "newborns cs = newborns (kstack k (cpu k))" "cpu k = idle_thread k \<Longrightarrow> idle_calls cs"
    using st by (simp_all add: stack_step_def)
  have nb: "newborns (kstack k' u) = newborns (kstack k u)" for u using c(3) ks by simp
  have wo: "waits_on (kstack k' t) = waits_on (kstack k t)" if "t \<noteq> cpu k" for t using ks that by simp
  have "threads_ok k'"
  proof (rule threads_okI)
    show "t \<in> set (waiters (semas k' s)) \<longleftrightarrow> is_thread k' t \<and> status_of k' t = THREAD_BLOCKED \<and> waits_on (kstack k' t) = Some s" for s' t and s
      unfolding w s o(4) using wo[of t] i(3) by (cases "t = cpu k") auto
    show "is_thread k' t \<and> status_of k' t = THREAD_BLOCKED \<and> t \<noteq> idle_thread k' \<and> kstack k' t = []" if "t \<in> set (newborns (kstack k' u))" for t u
      using o(6)[of t u] that i(3) unfolding nb s by (cases "t = cpu k") (auto simp: ks)
    show "page_ok k'" using o(8) unfolding page_ok_def s .
    show "kstack k' t = []" if "gone k' t" for t using o(9)[of t] that i(2,3) unfolding gone_def s by (auto simp: ks)
    show "no_loop (tl (kstack k' t))" for t using o(10)[of t] c(2) by (simp add: ks)
    show "idle_calls (kstack k' (idle_thread k'))" using o(12) c(4) unfolding s by (simp add: ks)
  qed (use o(1-3,5,7,11,13) s w nb in \<open>simp_all\<close>)
  moreover have "waits_on (kstack k' (cpu k)) = None" using c(1) by (simp add: ks)
  ultimately show ?thesis using i(2-4) unfolding k_inv_def s by blast
qed

text \<open>The running thread stops running: it becomes ready, blocked or dying.\<close>

lemma deschedule:
  assumes inv: "k_inv k" and lv: "level k' = INTR_OFF"
    and same: "is_thread k' = is_thread k" "\<And>t. status_of k' t = (if t = cpu k then st else status_of k t)" "cpu k' = cpu k"
      "idle_thread k' = idle_thread k" "initial_thread k' = initial_thread k" "pal k' = pal k" "in_external_intr k' = in_external_intr k"
    and st: "st = THREAD_READY \<or> st = THREAD_BLOCKED \<or> st = THREAD_DYING \<and> cs = [] \<and> cpu k \<noteq> idle_thread k"
    and r: "ready_list k' = (if st = THREAD_READY \<and> cpu k \<noteq> idle_thread k then ready_list k @ [cpu k] else ready_list k)"
    and w: "\<And>s. waiters (semas k' s) = (if st = THREAD_BLOCKED \<and> waits_on cs = Some s then waiters (semas k s) @ [cpu k] else waiters (semas k s))"
    and ks: "kstack k' = (kstack k)(cpu k := cs)" and cs: "no_loop (tl cs)" "set (newborns cs) \<subseteq> set (newborns (kstack k (cpu k)))" "distinct (newborns cs)"
      "cpu k = idle_thread k \<Longrightarrow> idle_calls cs"
  shows "descheduled k'"
proof -
  note i = k_invD[OF inv]
  note o = threads_okD[OF i(1)]
  have nb: "set (newborns (kstack k' u)) \<subseteq> set (newborns (kstack k u))" for u using cs(2) ks by simp
  have ncpu: "cpu k \<notin> set (ready_list k)" "\<And>s. cpu k \<notin> set (waiters (semas k s))" "\<And>u. cpu k \<notin> set (newborns (kstack k u))"
    using o(2)[of "cpu k"] o(4)[of "cpu k"] o(6)[of "cpu k"] i(3) by auto
  have wo: "waits_on (kstack k' t) = waits_on (kstack k t)" if "t \<noteq> cpu k" for t using ks that by simp
  have "threads_ok k'"
  proof (rule threads_okI)
    show "distinct (ready_list k')" using o(1) ncpu(1) r by simp
    show "t \<in> set (ready_list k') \<longleftrightarrow> is_thread k' t \<and> status_of k' t = THREAD_READY \<and> t \<noteq> idle_thread k'" for t
      unfolding same r using o(2)[of t] ncpu(1) i(2) by (cases "t = cpu k") auto
    show "distinct (waiters (semas k' s))" for s using o(3)[of s] ncpu(2)[of s] by (simp add: w)
    show "t \<in> set (waiters (semas k' s)) \<longleftrightarrow> is_thread k' t \<and> status_of k' t = THREAD_BLOCKED \<and> waits_on (kstack k' t) = Some s" for s t
      unfolding same w using o(4)[of t s] ncpu(2)[of s] i(2) by (cases "t = cpu k") (simp_all add: wo ks)
    show "distinct (newborns (kstack k' u))" for u using o(5)[of u] cs(3) by (simp add: ks)
    show "is_thread k' t \<and> status_of k' t = THREAD_BLOCKED \<and> t \<noteq> idle_thread k' \<and> kstack k' t = []" if "t \<in> set (newborns (kstack k' u))" for t u
      using o(6)[of t u] that nb[of u] ncpu(3)[of u] unfolding same by (cases "t = cpu k") (auto simp: ks)
    show "u' = u" if "t \<in> set (newborns (kstack k' u))" "t \<in> set (newborns (kstack k' u'))" for t u u'
      using o(7)[of t u u'] that nb[of u] nb[of u'] by blast
    show "page_ok k'" using o(8) unfolding page_ok_def same .
    show "kstack k' t = []" if "gone k' t" for t using o(9)[of t] that i(2) st unfolding gone_def same by (auto simp: ks split: if_splits)
    show "no_loop (tl (kstack k' t))" for t using o(10)[of t] cs(1) by (simp add: ks)
    show "idle_calls (kstack k' (idle_thread k'))" using o(12) cs(4) unfolding same by (simp add: ks)
  qed (use o(11,13) same in \<open>simp_all\<close>)
  moreover have "kstack k' (cpu k) = [] \<and> cpu k \<noteq> idle_thread k" if "st = THREAD_DYING" using st that by (simp add: ks)
  moreover have "(if t = cpu k then st else status_of k t) \<noteq> THREAD_RUNNING" if "is_thread k t" for t
    using i(4)[OF that] st by (cases "t = cpu k") auto
  ultimately show ?thesis using i(2) lv unfolding descheduled_def same by simp
qed

text \<open>The running thread makes another thread ready: the first waiter of a semaphore, or the thread it has just set up.\<close>

lemma wake_inv:
  assumes inv: "k_inv k" and t: "waiters (semas k s) = t # ts" and it: "is_thread k' = is_thread k"
    and same: "\<And>u. status_of k' u = (if u = t then THREAD_READY else status_of k u)" "cpu k' = cpu k"
      "idle_thread k' = idle_thread k" "initial_thread k' = initial_thread k" "pal k' = pal k" "in_external_intr k' = in_external_intr k"
      "ready_list k' = ready_list k @ [t]" "\<And>s'. waiters (semas k' s') = (if s' = s then ts else waiters (semas k s'))"
    and ks: "kstack k' = (kstack k)(cpu k := cs)" and st: "stack_step k cs"
  shows "k_inv k'"
proof -
  note i = k_invD[OF inv]
  note o = threads_okD[OF i(1)]
  have tt: "is_thread k t" "status_of k t = THREAD_BLOCKED" "waits_on (kstack k t) = Some s" using o(4)[of t s] t by auto
  have ti: "t \<noteq> idle_thread k" "t \<noteq> cpu k" using tt o(14) i(3) by auto
  have tn: "t \<notin> set (newborns (kstack k u))" for u using o(6)[of t u] tt(3) by auto
  have td: "distinct (t # ts)" using o(3)[of s] t by simp
  have c: "waits_on cs = None" "no_loop (tl cs)" "newborns cs = newborns (kstack k (cpu k))" "cpu k = idle_thread k \<Longrightarrow> idle_calls cs"
    using st by (simp_all add: stack_step_def)
  have nb: "newborns (kstack k' u) = newborns (kstack k u)" for u using c(3) ks by simp
  have wo: "waits_on (kstack k' u) = waits_on (kstack k u)" if "u \<noteq> cpu k" for u using ks that by simp
  have "threads_ok k'"
  proof (rule threads_okI)
    show "distinct (ready_list k')" using o(1) o(2)[of t] tt by (simp add: same)
    show "u \<in> set (ready_list k') \<longleftrightarrow> is_thread k' u \<and> status_of k' u = THREAD_READY \<and> u \<noteq> idle_thread k'" for u
      unfolding same it using o(2)[of u] tt(1) ti by auto
    show "distinct (waiters (semas k' s'))" for s' using o(3)[of s'] td by (simp add: same)
    show "u \<in> set (waiters (semas k' s')) \<longleftrightarrow> is_thread k' u \<and> status_of k' u = THREAD_BLOCKED \<and> waits_on (kstack k' u) = Some s'" for s' u
    proof (cases "u = t")
      case True
      have "t \<notin> set (waiters (semas k s'))" if "s' \<noteq> s" using o(4)[of t s'] tt(3) that by simp
      then show ?thesis using True td by (simp add: same)
    next
      case False
      have "u \<in> set (waiters (semas k' s')) \<longleftrightarrow> u \<in> set (waiters (semas k s'))" using False t by (simp add: same)
      then show ?thesis unfolding it using False o(4)[of u s'] wo[of u] i(3) by (cases "u = cpu k") (simp_all add: same ks c(1))
    qed
    show "is_thread k' u \<and> status_of k' u = THREAD_BLOCKED \<and> u \<noteq> idle_thread k' \<and> kstack k' u = []" if "u \<in> set (newborns (kstack k' v))" for u v
      using o(6)[of u v] that i(3) tn[of v] unfolding nb it by (cases "u = cpu k") (auto simp: ks same)
    show "page_ok k'" using o(8) unfolding page_ok_def same it .
    show "kstack k' u = []" if "gone k' u" for u using o(9)[of u] that i(2,3) unfolding gone_def it same by (auto simp: ks split: if_splits)
    show "no_loop (tl (kstack k' u))" for u using o(10)[of u] c(2) by (simp add: ks)
    show "idle_calls (kstack k' (idle_thread k'))" using o(12) c(4) unfolding same by (simp add: ks)
  qed (use o(5,7,11,13) same it nb in \<open>simp_all\<close>)
  moreover have "waits_on (kstack k' (cpu k)) = None" using c(1) by (simp add: ks)
  moreover have "\<forall>u. is_thread k u \<longrightarrow> (if u = t then THREAD_READY else status_of k u) = THREAD_RUNNING \<longrightarrow> u = cpu k"
    using i(4) by auto
  moreover have "(if cpu k = t then THREAD_READY else status_of k (cpu k)) = THREAD_RUNNING" using i(3) ti by simp
  ultimately show ?thesis using i(2) unfolding k_inv_def same it by blast
qed

lemma birth_inv:
  assumes inv: "k_inv k" and top: "kstack k (cpu k) = Push_frames t fn aux # cs" and it: "is_thread k' = is_thread k"
    and same: "\<And>u. status_of k' u = (if u = t then THREAD_READY else status_of k u)" "cpu k' = cpu k"
      "idle_thread k' = idle_thread k" "initial_thread k' = initial_thread k" "pal k' = pal k" "in_external_intr k' = in_external_intr k"
      "ready_list k' = ready_list k @ [t]" "semas k' = semas k"
    and ks: "kstack k' = (kstack k)(t := [Kernel_thread fn aux], cpu k := Init_supplemental t # cs)"
  shows "k_inv k'"
proof -
  note i = k_invD[OF inv]
  note o = threads_okD[OF i(1)]
  have t: "is_thread k t" "status_of k t = THREAD_BLOCKED" "t \<noteq> idle_thread k" "kstack k t = []"
    using o(6)[of t "cpu k"] top by auto
  have tc: "t \<noteq> cpu k" using t(2) i(3) by auto
  have ci: "cpu k \<noteq> idle_thread k" using o(12) top by auto
  have nb: "set (newborns (kstack k' u)) = set (newborns (kstack k u)) - {t}" "distinct (newborns (kstack k' u))" for u
  proof -
    have "t \<notin> set (newborns (kstack k u))" if "u \<noteq> cpu k" using o(7)[of t "cpu k" u] top that by auto
    then show "set (newborns (kstack k' u)) = set (newborns (kstack k u)) - {t}" "distinct (newborns (kstack k' u))"
      using o(5)[of u] top tc by (cases "u = cpu k"; cases "u = t"; simp add: ks t)+
  qed
  have wo: "waits_on (kstack k' u) = waits_on (kstack k u)" for u using t(4) top tc by (auto simp: ks)
  have "threads_ok k'"
  proof (rule threads_okI)
    show "distinct (ready_list k')" using o(1) o(2)[of t] t by (simp add: same)
    show "u \<in> set (ready_list k') \<longleftrightarrow> is_thread k' u \<and> status_of k' u = THREAD_READY \<and> u \<noteq> idle_thread k'" for u
      unfolding same it using o(2)[of u] t by auto
    show "u \<in> set (waiters (semas k' s)) \<longleftrightarrow> is_thread k' u \<and> status_of k' u = THREAD_BLOCKED \<and> waits_on (kstack k' u) = Some s" for s u
      unfolding same it wo o(4) using t(4) by auto
    show "is_thread k' u \<and> status_of k' u = THREAD_BLOCKED \<and> u \<noteq> idle_thread k' \<and> kstack k' u = []" if "u \<in> set (newborns (kstack k' v))" for u v
      using o(6)[of u v] that i(3) unfolding nb it by (auto simp: ks same)
    show "u' = u" if "v \<in> set (newborns (kstack k' u))" "v \<in> set (newborns (kstack k' u'))" for v u u'
      using o(7) that unfolding nb by blast
    show "page_ok k'" using o(8) unfolding page_ok_def same it .
    show "kstack k' u = []" if "gone k' u" for u using o(9)[of u] that i(2,3) t(1) unfolding gone_def it same by (auto simp: ks split: if_splits)
    show "no_loop (tl (kstack k' u))" for u using o(10)[of u] o(10)[of "cpu k"] top by (simp add: ks)
    show "idle_calls (kstack k' (idle_thread k'))" using o(12) ci t(3) unfolding same by (simp add: ks)
  qed (use o(3,11,13) same it nb(2) in \<open>simp_all\<close>)
  moreover have "waits_on (kstack k' (cpu k)) = None" by (simp add: ks)
  moreover have "\<forall>u. is_thread k u \<longrightarrow> (if u = t then THREAD_READY else status_of k u) = THREAD_RUNNING \<longrightarrow> u = cpu k"
    using i(4) by auto
  moreover have "(if cpu k = t then THREAD_READY else status_of k (cpu k)) = THREAD_RUNNING" using i(3) tc by simp
  ultimately show ?thesis using i(2) unfolding k_inv_def same it by blast
qed

lemma conceive_inv:
  assumes inv: "k_inv k" and t: "\<not> is_thread k t" and it: "\<And>u. is_thread k' u \<longleftrightarrow> u = t \<or> is_thread k u" and p: "page_ok k'"
    and same: "\<And>u. status_of k' u = (if u = t then THREAD_BLOCKED else status_of k u)" "cpu k' = cpu k"
      "idle_thread k' = idle_thread k" "in_external_intr k' = in_external_intr k"
      "ready_list k' = ready_list k" "\<And>s. waiters (semas k' s) = waiters (semas k s)"
    and ks: "kstack k' = (kstack k)(cpu k := cs)"
    and cs: "waits_on cs = None" "no_loop (tl cs)" "newborns cs = t # newborns (kstack k (cpu k))" "cpu k \<noteq> idle_thread k"
  shows "k_inv k'"
proof -
  note i = k_invD[OF inv]
  note o = threads_okD[OF i(1)]
  have tk: "kstack k t = []" "t \<noteq> cpu k" "t \<noteq> idle_thread k" using o(9)[of t] o(11) i(2) t by (auto simp: gone_def)
  have tn: "t \<notin> set (newborns (kstack k u))" for u using o(6)[of t u] t by auto
  have nb: "newborns (kstack k' u) = (if u = cpu k then t # newborns (kstack k u) else newborns (kstack k u))" for u
    using cs(3) by (simp add: ks)
  have wo: "waits_on (kstack k' u) = waits_on (kstack k u)" if "u \<noteq> cpu k" for u using that by (simp add: ks)
  have "threads_ok k'"
  proof (rule threads_okI)
    show "u \<in> set (ready_list k') \<longleftrightarrow> is_thread k' u \<and> status_of k' u = THREAD_READY \<and> u \<noteq> idle_thread k'" for u
      unfolding same it using o(2)[of u] t by auto
    show "u \<in> set (waiters (semas k' s)) \<longleftrightarrow> is_thread k' u \<and> status_of k' u = THREAD_BLOCKED \<and> waits_on (kstack k' u) = Some s" for s u
      unfolding same it using o(4)[of u s] t tk wo[of u] i(3) by (cases "u = cpu k") (auto simp: ks)
    show "distinct (newborns (kstack k' u))" for u using o(5)[of u] tn[of u] by (auto simp: nb)
    show "is_thread k' u \<and> status_of k' u = THREAD_BLOCKED \<and> u \<noteq> idle_thread k' \<and> kstack k' u = []" if u: "u \<in> set (newborns (kstack k' v))" for u v
    proof (cases "u = t")
      case False
      then have "u \<in> set (newborns (kstack k v))" using u by (simp add: nb split: if_splits)
      then show ?thesis using o(6)[of u v] i(3) False unfolding it same by (cases "u = cpu k") (auto simp: ks)
    qed (use tk it in \<open>simp add: same ks\<close>)
    show "u' = u" if "v \<in> set (newborns (kstack k' u))" "v \<in> set (newborns (kstack k' u'))" for v u u'
      using o(7)[of v u u'] tn that by (auto simp: nb split: if_splits)
    show "kstack k' u = []" if "gone k' u" for u using o(9)[of u] that i(2,3) unfolding gone_def it same by (auto simp: ks split: if_splits)
    show "no_loop (tl (kstack k' u))" for u using o(10)[of u] cs(2) by (simp add: ks)
    show "idle_calls (kstack k' (idle_thread k'))" using o(12) cs(4) unfolding same by (simp add: ks)
  qed (use o(1,3,11,13) same it p in \<open>simp_all\<close>)
  moreover have "waits_on (kstack k' (cpu k)) = None" by (simp add: ks cs)
  moreover have "\<forall>u. u = t \<or> is_thread k u \<longrightarrow> (if u = t then THREAD_BLOCKED else status_of k u) = THREAD_RUNNING \<longrightarrow> u = cpu k"
    using i(4) by auto
  moreover have "(if cpu k = t then THREAD_BLOCKED else status_of k (cpu k)) = THREAD_RUNNING" using i(3) tk(2) by simp
  ultimately show ?thesis using i(2) unfolding k_inv_def same it by blast
qed

end
