(* ===== verification/Interleaving.thy ===== *)
theory Interleaving
  imports Scheduler
begin

text \<open>
  All interleavings of threads: every call of every thread, and the timer interrupt, keep the invariant of the scheduler, and have an effect
  on the synchronization objects that does not depend on the scheduling. From this view of the calls follow mutual exclusion for locks and that
  semaphores lose no wake-ups; from the scheduler, that a ready thread waits for at most as many switches as there are threads before it.
\<close>

section \<open>Synchronization without scheduling\<close>

text \<open>
  What the calls do to the stacks of the threads, the semaphores, the locks and the condition variables, apart from who runs when:
  \<open>effect c t l nt a\<close> is the state after thread \<open>t\<close> has run the call \<open>c\<close> at interrupt level \<open>l\<close>; \<open>nt\<close> is the page of a new
  thread, or null. The invariants below are proved for this view, which every step of the kernel refines.
\<close>

record sync =
  y_stack :: "ptr \<Rightarrow> call list"
  y_sema :: "ptr \<Rightarrow> semaphore"
  y_holder :: "ptr \<Rightarrow> ptr"
  y_cond :: "ptr \<Rightarrow> ptr list"

definition sync_of :: "kernel \<Rightarrow> sync" where
  "sync_of k = \<lparr>y_stack = kstack k, y_sema = semas k, y_holder = holder k, y_cond = cond_waiters k\<rparr>"

definition y_push :: "ptr \<Rightarrow> call list \<Rightarrow> sync \<Rightarrow> sync" where
  "y_push t cs a = a\<lparr>y_stack := (y_stack a)(t := cs @ y_stack a t)\<rparr>"

definition y_upd :: "ptr \<Rightarrow> semaphore \<Rightarrow> sync \<Rightarrow> sync" where
  "y_upd s x a = a\<lparr>y_sema := (y_sema a)(s := x)\<rparr>"

definition down_effect :: "ptr \<Rightarrow> ptr \<Rightarrow> intr_level \<Rightarrow> sync \<Rightarrow> sync" where
  "down_effect s t l a =
     (if sema_value (y_sema a s) = 0 then y_push t [Sema_down_loop s l] (y_upd s ((y_sema a s)\<lparr>waiters := waiters (y_sema a s) @ [t]\<rparr>) a)
      else y_upd s ((y_sema a s)\<lparr>sema_value := sema_value (y_sema a s) - 1\<rparr>) a)"

definition try_down_effect :: "ptr \<Rightarrow> sync \<Rightarrow> sync" where
  "try_down_effect s a = (if sema_value (y_sema a s) = 0 then a else y_upd s ((y_sema a s)\<lparr>sema_value := sema_value (y_sema a s) - 1\<rparr>) a)"

fun effect :: "call \<Rightarrow> ptr \<Rightarrow> intr_level \<Rightarrow> ptr \<Rightarrow> ptr \<Rightarrow> sync \<Rightarrow> sync" where
  "effect (Sema_down s) t l tk nt a = down_effect s t l a"
| "effect (Sema_down_loop s l') t l tk nt a = down_effect s t l' a"
| "effect (Sema_try_down s) t l tk nt a = try_down_effect s a"
| "effect (Sema_up s) t l tk nt a = y_upd s \<lparr>sema_value = sema_value (y_sema a s) + 1, waiters = List.tl (waiters (y_sema a s))\<rparr> a"
| "effect (Lock_acquire x) t l tk nt a = y_push t [Sema_down (lock_semaphore x), Set_holder x] a"
| "effect (Set_holder x) t l tk nt a = a\<lparr>y_holder := (y_holder a)(x := t)\<rparr>"
| "effect (Lock_try_acquire x) t l tk nt a =
     (if sema_value (y_sema a (lock_semaphore x)) = 0 then a else y_push t [Set_holder x] (try_down_effect (lock_semaphore x) a))"
| "effect (Lock_release x) t l tk nt a = y_push t [Sema_up (lock_semaphore x)] (a\<lparr>y_holder := (y_holder a)(x := NULL)\<rparr>)"
| "effect (Cond_wait c x w) t l tk nt a = y_push t [Lock_release x, Sema_down w, Lock_acquire x]
     (y_upd w \<lparr>sema_value = 0, waiters = []\<rparr> (a\<lparr>y_cond := (y_cond a)(c := y_cond a c @ [w])\<rparr>))"
| "effect (Cond_signal c x) t l tk nt a = (case y_cond a c of [] \<Rightarrow> a | w # ws \<Rightarrow> y_push t [Sema_up w] (a\<lparr>y_cond := (y_cond a)(c := ws)\<rparr>))"
| "effect (Cond_broadcast c x) t l tk nt a = (if y_cond a c = [] then a else y_push t [Cond_signal c x, Cond_broadcast c x] a)"
| "effect Thread_yield t l tk nt a = y_push t [Intr_set_level l] a"
| "effect (Thread_create nm prio fn aux) t l tk nt a = (if nt = NULL then a else
     y_push t [Lock_acquire tk, Take_tid nt, Lock_release tk, Push_frames nt fn aux]
       (y_upd (lock_semaphore (children_lock nt)) \<lparr>sema_value = 1, waiters = []\<rparr> (a\<lparr>y_holder := (y_holder a)(children_lock nt := NULL)\<rparr>)))"
| "effect (Push_frames u fn aux) t l tk nt a = y_push t [Init_supplemental u] (a\<lparr>y_stack := (y_stack a)(u := [Kernel_thread fn aux])\<rparr>)"
| "effect (Init_supplemental u) t l tk nt a = y_upd (page_sema u) \<lparr>sema_value = 1, waiters = []\<rparr> a"
| "effect (Kernel_thread fn aux) t l tk nt a = y_push t [Client, Thread_exit] a"
| "effect Idle_loop t l tk nt a = y_push t [Idle_wake, Idle_loop] a"
| "effect Thread_exit t l tk nt a = a\<lparr>y_stack := (y_stack a)(t := [])\<rparr>"
| "effect _ t l tk nt a = a"

lemma sync_of_simps [simp]:
  "y_stack (sync_of k) = kstack k" "y_sema (sync_of k) = semas k" "y_holder (sync_of k) = holder k" "y_cond (sync_of k) = cond_waiters k"
  by (simp_all add: sync_of_def)

lemma y_push_simps [simp]:
  "y_stack (y_push t cs a) u = (if u = t then cs @ y_stack a t else y_stack a u)" "y_sema (y_push t cs a) = y_sema a"
  "y_holder (y_push t cs a) = y_holder a" "y_cond (y_push t cs a) = y_cond a"
  by (simp_all add: y_push_def)

lemma y_upd_simps [simp]:
  "y_stack (y_upd s x a) = y_stack a" "y_sema (y_upd s x a) u = (if u = s then x else y_sema a u)"
  "y_holder (y_upd s x a) = y_holder a" "y_cond (y_upd s x a) = y_cond a"
  by (simp_all add: y_upd_def)

lemma sync_eqI:
  "y_stack a = y_stack b \<Longrightarrow> y_sema a = y_sema b \<Longrightarrow> y_holder a = y_holder b \<Longrightarrow> y_cond a = y_cond b \<Longrightarrow> (a :: sync) = b"
  by (cases a, cases b) simp

lemma pop_call_simps [simp]:
  "threads (pop_call k) = threads k" "ready_list (pop_call k) = ready_list k" "cpu (pop_call k) = cpu k" "idle_thread (pop_call k) = idle_thread k"
  "initial_thread (pop_call k) = initial_thread k" "level (pop_call k) = level k" "semas (pop_call k) = semas k" "holder (pop_call k) = holder k"
  "pal (pop_call k) = pal k" "kmem (pop_call k) = kmem k" "in_external_intr (pop_call k) = in_external_intr k"
  "cond_waiters (pop_call k) = cond_waiters k" "tid_lock (pop_call k) = tid_lock k" "addr_idle (pop_call k) = addr_idle k"
  "is_thread (pop_call k) = is_thread k" "kstack (pop_call k) = (kstack k)(cpu k := tl (kstack k (cpu k)))"
  by (simp_all add: pop_call_def)

text \<open>
  The objects that clients use: semaphores, locks and the semaphores of waiters of condition variables. They may be on the stack of a thread, as
  those of waiters are, but are not the lock and the semaphore in the first 176 bytes of a page for a thread, which \<open>init_thread\<close> and
  \<open>init_supplemental_pagetable\<close> set up.
\<close>

record objects =
  plain :: "ptr set"
  lks :: "ptr set"
  conds :: "ptr set"
  pages :: "nat set"

definition semas_of :: "objects \<Rightarrow> ptr set" where
  "semas_of ob = plain ob \<union> lock_semaphore ` lks ob \<union> conds ob"

fun call_ok :: "objects \<Rightarrow> ptr \<Rightarrow> call \<Rightarrow> bool" where
  "call_ok ob i (Sema_down s) \<longleftrightarrow> s \<in> semas_of ob"
| "call_ok ob i (Sema_down_loop s l) \<longleftrightarrow> s \<in> semas_of ob"
| "call_ok ob i (Sema_try_down s) \<longleftrightarrow> s \<in> plain ob"
| "call_ok ob i (Sema_up s) \<longleftrightarrow> s \<in> semas_of ob"
| "call_ok ob i (Lock_acquire x) \<longleftrightarrow> x \<in> lks ob"
| "call_ok ob i (Set_holder x) \<longleftrightarrow> x \<in> lks ob"
| "call_ok ob i (Lock_try_acquire x) \<longleftrightarrow> x \<in> lks ob"
| "call_ok ob i (Lock_release x) \<longleftrightarrow> x \<in> lks ob"
| "call_ok ob i (Cond_wait c x w) \<longleftrightarrow> x \<in> lks ob \<and> w \<in> conds ob"
| "call_ok ob i (Thread_create nm prio fn aux) \<longleftrightarrow> fn \<noteq> i"
| "call_ok ob i (Take_tid t) \<longleftrightarrow> pg_ofs t = 0 \<and> unat (pg_no t) \<in> pages ob"
| "call_ok ob i (Push_frames t fn aux) \<longleftrightarrow> fn \<noteq> i \<and> pg_ofs t = 0 \<and> unat (pg_no t) \<in> pages ob"
| "call_ok ob i (Init_supplemental t) \<longleftrightarrow> pg_ofs t = 0 \<and> unat (pg_no t) \<in> pages ob"
| "call_ok ob i (Kernel_thread fn aux) \<longleftrightarrow> fn \<noteq> i"
| "call_ok ob i (Idle s) \<longleftrightarrow> False"
| "call_ok ob i _ \<longleftrightarrow> True"

definition objects_ok :: "objects \<Rightarrow> kernel \<Rightarrow> bool" where
  "objects_ok ob k \<longleftrightarrow> pool_pages (kernel_pool (pal k)) = pages ob \<and> (\<forall>s\<in>semas_of ob. s \<noteq> NULL \<and> (unat (pg_no s) \<in> pages ob \<longrightarrow> 176 \<le> unat (pg_ofs s))) \<and>
     plain ob \<inter> lock_semaphore ` lks ob = {} \<and> conds ob \<inter> (plain ob \<union> lock_semaphore ` lks ob) = {} \<and> tid_lock k \<in> lks ob \<and> NULL \<notin> lks ob"

fun refs :: "call list \<Rightarrow> ptr list" where
  "refs [] = []"
| "refs (Sema_down s # cs) = s # refs cs"
| "refs (Sema_down_loop s _ # cs) = s # refs cs"
| "refs (Cond_wait _ _ w # cs) = w # refs cs"
| "refs (_ # cs) = refs cs"

definition calls_ok :: "objects \<Rightarrow> kernel \<Rightarrow> bool" where
  "calls_ok ob k \<longleftrightarrow> (\<forall>t. \<forall>c\<in>set (kstack k t). call_ok ob (addr_idle k) c) \<and> (\<forall>c. set (cond_waiters k c) \<subseteq> conds ob)"

definition conds_ok :: "objects \<Rightarrow> kernel \<Rightarrow> bool" where
  "conds_ok ob k \<longleftrightarrow> (\<forall>w\<in>conds ob. \<forall>u u'. w \<in> set (refs (kstack k u)) \<longrightarrow> w \<in> set (refs (kstack k u')) \<longrightarrow> u = u')"

definition sync_inv :: "objects \<Rightarrow> kernel \<Rightarrow> bool" where
  "sync_inv ob k \<longleftrightarrow> k_inv k \<and> objects_ok ob k \<and> calls_ok ob k \<and> conds_ok ob k"

section \<open>Every call keeps the invariant and has the effect described\<close>

text \<open>Threads are put at the end of the ready list, and the processor goes to the thread at its head, or to the idle thread.\<close>

definition queue_step :: "kernel \<Rightarrow> kernel \<Rightarrow> bool" where
  "queue_step k k' \<longleftrightarrow> idle_thread k' = idle_thread k \<and> (\<exists>new. cpu k' = cpu k \<and> ready_list k' = ready_list k @ new \<or>
     cpu k' = (case ready_list k @ new of [] \<Rightarrow> idle_thread k | t # _ \<Rightarrow> t) \<and> ready_list k' = tl (ready_list k @ new))"

lemma queue_stay: "idle_thread k' = idle_thread k \<Longrightarrow> cpu k' = cpu k \<Longrightarrow> ready_list k' = ready_list k @ new \<Longrightarrow> queue_step k k'"
  unfolding queue_step_def by blast

definition steps_to :: "kernel \<Rightarrow> call \<Rightarrow> kernel \<Rightarrow> bool" where
  "steps_to k c k' \<longleftrightarrow> k_inv k' \<and> addr_idle k' = addr_idle k \<and> tid_lock k' = tid_lock k \<and>
     pool_pages (kernel_pool (pal k')) = pool_pages (kernel_pool (pal k)) \<and> queue_step k k' \<and>
     (\<exists>nt. sync_of k' = effect c (cpu k) (level k) (tid_lock k) nt (sync_of (pop_call k)) \<and>
       (nt \<noteq> NULL \<longrightarrow> \<not> is_thread k nt \<and> pg_ofs nt = 0 \<and> unat (pg_no nt) \<in> pool_pages (kernel_pool (pal k))))"

lemma no_loop_waits: "no_loop cs \<Longrightarrow> waits_on cs = None \<and> no_loop (tl cs)"
  by (cases cs rule: no_loop.cases) auto

lemma no_loop_append [simp]: "no_loop (cs @ ds) \<longleftrightarrow> no_loop cs \<and> no_loop ds"
  by (induction cs rule: no_loop.induct) auto

lemma newborns_append [simp]: "newborns (cs @ ds) = newborns cs @ newborns ds"
  by (induction cs rule: newborns.induct) auto

text \<open>A call that is not the last one of a thread and does not switch.\<close>

lemma stack_step_call:
  assumes "k_inv k" and "kstack k (cpu k) = c # cs" and "no_loop new" and "newborns new = newborns [c]"
    and "cpu k = idle_thread k \<Longrightarrow> idle_calls (c # cs) \<Longrightarrow> idle_calls (new @ cs)"
  shows "stack_step k (new @ cs)"
proof -
  note o = threads_okD[OF k_invD(1)[OF assms(1)]]
  have "no_loop cs" using o(10)[of "cpu k"] assms(2) by simp
  then have "no_loop (new @ cs)" using assms(3) by simp
  moreover have "newborns (c # cs) = newborns [c] @ newborns cs" using newborns_append[of "[c]" cs] by simp
  moreover have "idle_calls (new @ cs)" if "cpu k = idle_thread k" using assms(5)[OF that] o(12) that assms(2) by simp
  ultimately show ?thesis using assms(2,4) no_loop_waits[of "new @ cs"] unfolding stack_step_def by simp
qed

lemma quiet_step:
  assumes inv: "k_inv k" and top: "kstack k (cpu k) = c # cs" and same: "same_threads k k'" and w: "\<And>s. waiters (semas k' s) = waiters (semas k s)"
    and new: "no_loop new" "newborns new = newborns [c]" "cpu k = idle_thread k \<Longrightarrow> idle_calls (c # cs) \<Longrightarrow> idle_calls (new @ cs)"
    and ks: "kstack k' = (kstack k)(cpu k := new @ cs)" and cn: "addr_idle k' = addr_idle k" "tid_lock k' = tid_lock k"
    and ef: "sync_of k' = effect c (cpu k) (level k) (tid_lock k) NULL (sync_of (pop_call k))"
  shows "steps_to k c k'"
proof -
  have "k_inv k'" by (rule quiet_inv[OF inv same w ks stack_step_call[OF inv top new]])
  moreover have "pal k' = pal k" "queue_step k k'" using same queue_stay[of k' k "[]"] by (simp_all add: same_threads_def)
  ultimately show ?thesis using cn ef unfolding steps_to_def by auto
qed

lemma thread_current_eq: "k_inv k \<Longrightarrow> thread_current k = Some (cpu k)"
  using k_invD(2,3)[of k] by (simp add: thread_current_def running_thread_def)

lemma thread_current_cong: "threads k' = threads k \<Longrightarrow> cpu k' = cpu k \<Longrightarrow> thread_current k' = thread_current k"
  by (simp add: thread_current_def running_thread_def is_thread_def)

text \<open>Setting the interrupt level and saving and restoring it.\<close>

lemma intr_set_level_eq: "\<not> in_external_intr k \<Longrightarrow> intr_set_level l k = Some (k\<lparr>level := l\<rparr>, level k)"
  by (cases l) (simp_all add: intr_set_level_def intr_enable_def intr_disable_def intr_context_def intr_get_level_def)

lemma k_inv_ext: "k_inv k \<Longrightarrow> \<not> in_external_intr k"
  using threads_okD(13)[OF k_invD(1)] .

lemma step_set_level:
  assumes "k_inv k" and "kstack k (cpu k) = Intr_set_level l # cs" and "exec (Intr_set_level l) (pop_call k) = Some k'"
  shows "steps_to k (Intr_set_level l) k'"
proof -
  have k': "k' = (pop_call k)\<lparr>level := l\<rparr>" using assms k_inv_ext[OF assms(1)] by (simp add: intr_set_level_eq)
  show ?thesis
    by (rule quiet_step[OF assms(1,2), where new = "[]"]) (use assms(2) in \<open>auto simp: k' same_threads_def fun_eq_iff sync_of_def\<close>)
qed

lemma step_try_down:
  assumes "k_inv k" and "kstack k (cpu k) = Sema_try_down s # cs" and "exec (Sema_try_down s) (pop_call k) = Some k'"
  shows "steps_to k (Sema_try_down s) k'"
proof -
  have k': "same_threads k k'" "semas k' = y_sema (try_down_effect s (sync_of k))" "kstack k' = (kstack k)(cpu k := cs)"
    "holder k' = holder k" "cond_waiters k' = cond_waiters k" "addr_idle k' = addr_idle k" "tid_lock k' = tid_lock k"
    using assms k_inv_ext[OF assms(1)]
    by (auto simp: Option.bind_eq_Some_conv sema_try_down_def intr_disable_def intr_set_level_eq Let_def upd_sema_def same_threads_def try_down_effect_def fun_eq_iff word_gt_0 split: if_splits)
  show ?thesis
    by (rule quiet_step[OF assms(1,2) k'(1), where new = "[]"])
      (use assms(2) k' in \<open>auto intro!: sync_eqI simp: try_down_effect_def fun_eq_iff\<close>)
qed

lemmas call_defs = Option.bind_eq_Some_conv intr_disable_def intr_set_level_eq Let_def upd_sema_def same_threads_def

lemma held_eq: "k_inv k \<Longrightarrow> lock_held_by_current_thread l (pop_call k) = (if l \<noteq> NULL then Some (holder k l = cpu k) else None)"
  using thread_current_eq[of k] thread_current_cong[of "pop_call k" k]
  by (simp add: lock_held_by_current_thread_def)

lemma step_lock_acquire:
  assumes "k_inv k" and "kstack k (cpu k) = Lock_acquire l # cs" and "exec (Lock_acquire l) (pop_call k) = Some k'"
  shows "steps_to k (Lock_acquire l) k'"
proof -
  have k': "k' = push_calls (cpu k) [Sema_down (lock_semaphore l), Set_holder l] (pop_call k)"
    using assms(3) held_eq[OF assms(1)] by (auto simp: lock_acquire_def Option.bind_eq_Some_conv split: if_splits)
  show ?thesis
    by (rule quiet_step[OF assms(1,2), where new = "[Sema_down (lock_semaphore l), Set_holder l]"])
      (use assms(2) in \<open>auto simp: k' same_threads_def fun_eq_iff intro!: sync_eqI\<close>)
qed

lemma step_set_holder:
  assumes "k_inv k" and "kstack k (cpu k) = Set_holder l # cs" and "exec (Set_holder l) (pop_call k) = Some k'"
  shows "steps_to k (Set_holder l) k'"
proof -
  have k': "k' = (pop_call k)\<lparr>holder := (holder k)(l := cpu k)\<rparr>"
    using assms(3) thread_current_eq[OF assms(1)] thread_current_cong[of "pop_call k" k] by (simp add: set_holder_def)
  show ?thesis
    by (rule quiet_step[OF assms(1,2), where new = "[]"])
      (use assms(2) in \<open>auto simp: k' same_threads_def fun_eq_iff intro!: sync_eqI\<close>)
qed

lemma step_lock_release:
  assumes "k_inv k" and "kstack k (cpu k) = Lock_release l # cs" and "exec (Lock_release l) (pop_call k) = Some k'"
  shows "steps_to k (Lock_release l) k'" and "holder k l = cpu k"
proof -
  have k': "k' = push_calls (cpu k) [Sema_up (lock_semaphore l)] ((pop_call k)\<lparr>holder := (holder k)(l := NULL)\<rparr>)" and "holder k l = cpu k"
    using assms(3) held_eq[OF assms(1)] by (auto simp: lock_release_def Option.bind_eq_Some_conv split: if_splits)
  then show "holder k l = cpu k" by blast
  show "steps_to k (Lock_release l) k'"
    by (rule quiet_step[OF assms(1,2), where new = "[Sema_up (lock_semaphore l)]"])
      (use assms(2) in \<open>auto simp: k' same_threads_def fun_eq_iff intro!: sync_eqI\<close>)
qed

lemma step_lock_try_acquire:
  assumes "k_inv k" and "kstack k (cpu k) = Lock_try_acquire l # cs" and "exec (Lock_try_acquire l) (pop_call k) = Some k'"
  shows "steps_to k (Lock_try_acquire l) k'"
proof -
  let ?s = "lock_semaphore l"
  let ?new = "if sema_value (semas k ?s) = 0 then [] else [Set_holder l]"
  obtain k1 b where k1: "sema_try_down ?s (pop_call k) = Some (k1, b)" "k' = (if b then push_calls (cpu k1) [Set_holder l] k1 else k1)"
  proof (cases "sema_try_down ?s (pop_call k)")
    case None
    then show ?thesis using assms(3) by (auto simp: lock_try_acquire_def Option.bind_eq_Some_conv)
  next
    case (Some r)
    then show ?thesis using assms(3) held_eq[OF assms(1)] that[of "fst r" "snd r"]
      by (cases r) (auto simp: lock_try_acquire_def Option.bind_eq_Some_conv)
  qed
  have s1: "same_threads k k1" "semas k1 = y_sema (try_down_effect ?s (sync_of k))" "kstack k1 = (kstack k)(cpu k := cs)" "cpu k1 = cpu k"
    "holder k1 = holder k" "cond_waiters k1 = cond_waiters k" "addr_idle k1 = addr_idle k" "tid_lock k1 = tid_lock k" "b \<longleftrightarrow> sema_value (semas k ?s) \<noteq> 0"
    using k1(1) assms(2) k_inv_ext[OF assms(1)]
    by (auto simp: Option.bind_eq_Some_conv sema_try_down_def intr_disable_def intr_set_level_eq Let_def upd_sema_def same_threads_def
        try_down_effect_def fun_eq_iff word_gt_0 split: if_splits)
  have same: "same_threads k k'" using s1(1) by (simp add: k1(2) same_threads_def fun_eq_iff)
  show ?thesis
    by (rule quiet_step[OF assms(1,2) same, where new = ?new])
      (use assms(2) s1 in \<open>auto simp: k1(2) try_down_effect_def fun_eq_iff intro!: sync_eqI\<close>)
qed

lemma step_cond_wait:
  assumes "k_inv k" and "kstack k (cpu k) = Cond_wait c l w # cs" and "exec (Cond_wait c l w) (pop_call k) = Some k'" and w: "waiters (semas k w) = []"
  shows "steps_to k (Cond_wait c l w) k'" and "holder k l = cpu k"
proof -
  let ?new = "[Lock_release l, Sema_down w, Lock_acquire l]"
  have k': "k' = push_calls (cpu k) ?new ((pop_call k)\<lparr>semas := (semas k)(w := \<lparr>sema_value = 0, waiters = []\<rparr>),
      cond_waiters := (cond_waiters k)(c := cond_waiters k c @ [w])\<rparr>)" and "holder k l = cpu k"
    using assms(3) held_eq[OF assms(1)] by (auto simp: cond_wait_def sema_init_def Option.bind_eq_Some_conv split: if_splits)
  then show "holder k l = cpu k" by blast
  show "steps_to k (Cond_wait c l w) k'"
    by (rule quiet_step[OF assms(1,2), where new = ?new])
      (use assms(2) w in \<open>auto simp: k' same_threads_def fun_eq_iff intro!: sync_eqI\<close>)
qed

lemma step_cond_signal:
  assumes "k_inv k" and "kstack k (cpu k) = Cond_signal c l # cs" and "exec (Cond_signal c l) (pop_call k) = Some k'"
  shows "steps_to k (Cond_signal c l) k'"
proof (cases "cond_waiters k c")
  case Nil
  then have k': "k' = pop_call k" using assms(3) held_eq[OF assms(1)] by (auto simp: cond_signal_def Option.bind_eq_Some_conv split: if_splits)
  show ?thesis
    by (rule quiet_step[OF assms(1,2), where new = "[]"]) (use assms(2) Nil in \<open>auto simp: k' same_threads_def fun_eq_iff intro!: sync_eqI\<close>)
next
  case (Cons w ws)
  then have k': "k' = push_calls (cpu k) [Sema_up w] ((pop_call k)\<lparr>cond_waiters := (cond_waiters k)(c := ws)\<rparr>)"
    using assms(3) held_eq[OF assms(1)] by (auto simp: cond_signal_def Option.bind_eq_Some_conv split: if_splits)
  show ?thesis
    by (rule quiet_step[OF assms(1,2), where new = "[Sema_up w]"])
      (use assms(2) Cons in \<open>auto simp: k' same_threads_def fun_eq_iff intro!: sync_eqI\<close>)
qed

lemma push_calls_Nil [simp]: "push_calls t [] k = k"
  by (simp add: push_calls_def)

lemma step_cond_broadcast:
  assumes "k_inv k" and "kstack k (cpu k) = Cond_broadcast c l # cs" and "exec (Cond_broadcast c l) (pop_call k) = Some k'"
  shows "steps_to k (Cond_broadcast c l) k'"
proof (cases "cond_waiters k c = []")
  case True
  then have k': "k' = pop_call k" using assms(3) by (simp add: cond_broadcast_def Option.bind_eq_Some_conv)
  show ?thesis
    by (rule quiet_step[OF assms(1,2), where new = "[]"]) (use assms(2) True in \<open>auto simp: k' same_threads_def fun_eq_iff intro!: sync_eqI\<close>)
next
  case False
  then have k': "k' = push_calls (cpu k) [Cond_signal c l, Cond_broadcast c l] (pop_call k)"
    using assms(3) by (simp add: cond_broadcast_def Option.bind_eq_Some_conv)
  show ?thesis
    by (rule quiet_step[OF assms(1,2), where new = "[Cond_signal c l, Cond_broadcast c l]"])
      (use assms(2) False in \<open>auto simp: k' same_threads_def fun_eq_iff intro!: sync_eqI\<close>)
qed

lemma step_take_tid:
  assumes "k_inv k" and "kstack k (cpu k) = Take_tid t # cs" and "exec (Take_tid t) (pop_call k) = Some k'"
  shows "steps_to k (Take_tid t) k'"
proof -
  have k': "k' = allocate_tid t (pop_call k)" using assms(3) by simp
  have same: "same_threads k k'" by (auto simp: k' allocate_tid_def Let_def upd_thread_def same_threads_def is_thread_def fun_eq_iff)
  show ?thesis
    by (rule quiet_step[OF assms(1,2) same, where new = "[]"])
      (use assms(2) in \<open>auto simp: k' allocate_tid_def Let_def upd_thread_def fun_eq_iff intro!: sync_eqI\<close>)
qed

lemma step_init_supplemental:
  assumes "k_inv k" and "kstack k (cpu k) = Init_supplemental t # cs" and "exec (Init_supplemental t) (pop_call k) = Some k'"
    and w: "waiters (semas k (page_sema t)) = []"
  shows "steps_to k (Init_supplemental t) k'"
proof -
  have k': "k' = init_supplemental_sema t (pop_call k)" using assms(3) by simp
  show ?thesis
    by (rule quiet_step[OF assms(1,2), where new = "[]"])
      (use assms(2) w in \<open>auto simp: k' init_supplemental_sema_def same_threads_def fun_eq_iff intro!: sync_eqI\<close>)
qed

lemma step_kernel_thread:
  assumes "k_inv k" and "kstack k (cpu k) = Kernel_thread fn aux # cs" and "exec (Kernel_thread fn aux) (pop_call k) = Some k'" and "fn \<noteq> addr_idle k"
  shows "steps_to k (Kernel_thread fn aux) k'"
proof -
  have k': "k' = push_calls (cpu k) [Client, Thread_exit] ((pop_call k)\<lparr>level := INTR_ON\<rparr>)"
    using assms(3,4) by (auto simp: kernel_thread_def intr_enable_def Option.bind_eq_Some_conv Let_def)
  show ?thesis
    by (rule quiet_step[OF assms(1,2), where new = "[Client, Thread_exit]"])
      (use assms(2) in \<open>auto simp: k' same_threads_def fun_eq_iff intro!: sync_eqI\<close>)
qed

lemma step_idle_wake:
  assumes "k_inv k" and "kstack k (cpu k) = Idle_wake # cs" and "exec Idle_wake (pop_call k) = Some k'"
  shows "steps_to k Idle_wake k'"
proof -
  have k': "k' = (pop_call k)\<lparr>level := INTR_ON\<rparr>" using assms(3) by (simp add: idle_wake_def)
  show ?thesis
    by (rule quiet_step[OF assms(1,2), where new = "[]"])
      (use assms(2) in \<open>auto simp: k' same_threads_def fun_eq_iff intro!: sync_eqI\<close>)
qed

lemma queue_switch:
  assumes "switched k1 k2" and "idle_thread k1 = idle_thread k" and "ready_list k1 = ready_list k @ new"
  shows "queue_step k k2"
proof -
  have "cpu k2 = (case ready_list k @ new of [] \<Rightarrow> idle_thread k | t # _ \<Rightarrow> t)" "ready_list k2 = tl (ready_list k @ new)" "idle_thread k2 = idle_thread k"
    using assms(1) unfolding switched_def next_thread_def assms(2,3) by blast+
  then show ?thesis unfolding queue_step_def by blast
qed

lemma switch_step:
  assumes "descheduled k1" and "schedule k1 = Some k'" and "addr_idle k1 = addr_idle k" "tid_lock k1 = tid_lock k" "pal k1 = pal k"
    and q: "idle_thread k1 = idle_thread k" "ready_list k1 = ready_list k @ new"
    and ef: "sync_of k1 = effect c (cpu k) (level k) (tid_lock k) NULL (sync_of (pop_call k))"
  shows "steps_to k c k'"
proof -
  obtain k2 where k2: "schedule k1 = Some k2" "switched k1 k2" "k_inv k2" by (rule schedule_inv[OF assms(1)])
  have "k' = k2" using k2(1) assms(2) by simp
  moreover have "sync_of k2 = sync_of k1" using k2(2) by (simp add: switched_def sync_of_def)
  moreover have "queue_step k k2" by (rule queue_switch[OF k2(2) q])
  ultimately show ?thesis using k2 assms(3-5) ef unfolding steps_to_def switched_def by auto
qed

text \<open>A thread that finds the value zero gives up the processor.\<close>

lemma down_blocks:
  assumes inv: "k_inv k" and top: "kstack k (cpu k) = c # cs" and c: "newborns [c] = []" "\<And>ds. \<not> idle_calls (c # ds)"
    and k1: "threads k1 = threads k" "ready_list k1 = ready_list k" "cpu k1 = cpu k" "idle_thread k1 = idle_thread k" "initial_thread k1 = initial_thread k"
      "pal k1 = pal k" "in_external_intr k1 = in_external_intr k" "level k1 = INTR_OFF" "semas k1 = semas k" "holder k1 = holder k"
      "cond_waiters k1 = cond_waiters k" "kstack k1 = (kstack k)(cpu k := cs)" "addr_idle k1 = addr_idle k" "tid_lock k1 = tid_lock k"
    and v: "sema_value (semas k s) = 0"
  obtains k2 where "sema_down_loop s l k1 = schedule k2" "descheduled k2" "ready_list k2 = ready_list k" "idle_thread k2 = idle_thread k"
    "addr_idle k2 = addr_idle k" "tid_lock k2 = tid_lock k" "pal k2 = pal k" "sync_of k2 = down_effect s (cpu k) l (sync_of (pop_call k))"
proof -
  note i = k_invD[OF inv]
  note o = threads_okD[OF i(1)]
  define k2 where "k2 = push_calls (cpu k) [Sema_down_loop s l] (upd_sema (\<lambda>x. x\<lparr>waiters := waiters x @ [cpu k]\<rparr>) s k1)"
  have it: "is_thread k1 = is_thread k" "is_thread k2 = is_thread k" using k1(1) by (auto simp: is_thread_def fun_eq_iff k2_def upd_sema_def)
  have tc: "thread_current k1 = Some (cpu k)" using thread_current_eq[OF inv] thread_current_cong[OF k1(1,3)] by simp
  have "thread_current k2 = Some (cpu k)" using tc thread_current_cong[of k2 k1] by (simp add: k2_def upd_sema_def)
  then have sc: "sema_down_loop s l k1 = schedule (set_status (cpu k) THREAD_BLOCKED k2)"
    using v tc k1 o(13)
    by (auto simp: sema_down_loop_def thread_block_def Let_def intr_context_def intr_get_level_def k2_def[symmetric]) (simp_all add: k2_def upd_sema_def)
  have nl: "no_loop cs" using o(10)[of "cpu k"] top by simp
  have "descheduled (set_status (cpu k) THREAD_BLOCKED k2)"
  proof (rule deschedule[OF inv, where st = THREAD_BLOCKED and cs = "Sema_down_loop s l # cs"])
    show "distinct (newborns (Sema_down_loop s l # cs))" "set (newborns (Sema_down_loop s l # cs)) \<subseteq> set (newborns (kstack k (cpu k)))"
      using o(5)[of "cpu k"] newborns_append[of "[c]" cs] top c by simp_all
    show "idle_calls (Sema_down_loop s l # cs)" if "cpu k = idle_thread k" using o(12) that top c(2) by simp
  qed (use k1 nl it in \<open>auto simp: k2_def upd_sema_def fun_eq_iff\<close>)
  then show ?thesis
  proof (rule that[OF sc])
    have "semas k2 = (semas k)(s := (semas k s)\<lparr>waiters := waiters (semas k s) @ [cpu k]\<rparr>)" using k1 by (simp add: k2_def upd_sema_def)
    moreover have "kstack k2 = (kstack k)(cpu k := Sema_down_loop s l # cs)" using k1 by (auto simp: k2_def upd_sema_def fun_eq_iff)
    moreover have "holder k2 = holder k" "cond_waiters k2 = cond_waiters k" using k1 by (simp_all add: k2_def upd_sema_def)
    ultimately show "sync_of (set_status (cpu k) THREAD_BLOCKED k2) = down_effect s (cpu k) l (sync_of (pop_call k))"
      using v top unfolding down_effect_def by (intro sync_eqI) (auto simp: fun_eq_iff)
  qed (use k1 in \<open>simp_all add: k2_def upd_sema_def\<close>)
qed

lemma down_block:
  assumes inv: "k_inv k" and top: "kstack k (cpu k) = c # cs" and c: "newborns [c] = []" "\<And>ds. \<not> idle_calls (c # ds)"
    and k1: "threads k1 = threads k" "ready_list k1 = ready_list k" "cpu k1 = cpu k" "idle_thread k1 = idle_thread k" "initial_thread k1 = initial_thread k"
      "pal k1 = pal k" "in_external_intr k1 = in_external_intr k" "level k1 = INTR_OFF" "semas k1 = semas k" "holder k1 = holder k"
      "cond_waiters k1 = cond_waiters k" "kstack k1 = (kstack k)(cpu k := cs)" "addr_idle k1 = addr_idle k" "tid_lock k1 = tid_lock k"
    and ex: "sema_down_loop s l k1 = Some k'" and v: "sema_value (semas k s) = 0"
    and ef: "effect c (cpu k) (level k) (tid_lock k) NULL (sync_of (pop_call k)) = down_effect s (cpu k) l (sync_of (pop_call k))"
  shows "steps_to k c k'"
proof -
  obtain k2 where k2: "sema_down_loop s l k1 = schedule k2" "descheduled k2" "ready_list k2 = ready_list k" "idle_thread k2 = idle_thread k"
    "addr_idle k2 = addr_idle k" "tid_lock k2 = tid_lock k" "pal k2 = pal k" "sync_of k2 = down_effect s (cpu k) l (sync_of (pop_call k))"
    by (rule down_blocks[OF inv top c k1 v])
  have sc: "schedule k2 = Some k'" using ex k2(1) by simp
  show ?thesis by (rule switch_step[OF k2(2) sc k2(5-7,4), where new = "[]"]) (use k2(3,8) ef in simp_all)
qed

lemma down_take:
  assumes inv: "k_inv k" and top: "kstack k (cpu k) = c # cs" and c: "newborns [c] = []" "\<And>ds. \<not> idle_calls (c # ds)"
    and k1: "threads k1 = threads k" "ready_list k1 = ready_list k" "cpu k1 = cpu k" "idle_thread k1 = idle_thread k" "initial_thread k1 = initial_thread k"
      "pal k1 = pal k" "in_external_intr k1 = in_external_intr k" "level k1 = INTR_OFF" "semas k1 = semas k" "holder k1 = holder k"
      "cond_waiters k1 = cond_waiters k" "kstack k1 = (kstack k)(cpu k := cs)" "addr_idle k1 = addr_idle k" "tid_lock k1 = tid_lock k"
    and ex: "sema_down_loop s l k1 = Some k'" and v: "sema_value (semas k s) \<noteq> 0"
    and ef: "effect c (cpu k) (level k) (tid_lock k) NULL (sync_of (pop_call k)) = down_effect s (cpu k) l (sync_of (pop_call k))"
  shows "steps_to k c k'"
proof -
  have "\<not> in_external_intr k1" using k_inv_ext[OF inv] k1 by simp
  then have k': "k' = (upd_sema (\<lambda>x. x\<lparr>sema_value := sema_value x - 1\<rparr>) s k1)\<lparr>level := l\<rparr>"
    using ex v k1 by (simp add: sema_down_loop_def Let_def intr_set_level_eq upd_sema_def)
  have same: "same_threads k k'" using k1 by (simp add: k' same_threads_def upd_sema_def is_thread_def fun_eq_iff)
  show ?thesis
  proof (rule quiet_step[OF inv top same, where new = "[]"])
    show "sync_of k' = effect c (cpu k) (level k) (tid_lock k) NULL (sync_of (pop_call k))"
      using v k1 top unfolding ef down_effect_def by (intro sync_eqI) (auto simp: k' upd_sema_def fun_eq_iff)
  qed (use k1 c in \<open>auto simp: k' upd_sema_def\<close>)
qed

lemma step_sema_down:
  assumes "k_inv k" and "kstack k (cpu k) = Sema_down s # cs" and "exec (Sema_down s) (pop_call k) = Some k'"
  shows "steps_to k (Sema_down s) k'"
proof -
  have ex: "sema_down_loop s (level k) ((pop_call k)\<lparr>level := INTR_OFF\<rparr>) = Some k'"
    using assms(3) by (simp add: sema_down_def Option.bind_eq_Some_conv intr_disable_def intr_get_level_def)
  show ?thesis
  proof (cases "sema_value (semas k s) = 0")
    case True
    show ?thesis by (rule down_block[OF assms(1,2) _ _ _ _ _ _ _ _ _ _ _ _ _ _ _ _ ex True]) (use assms(2) in simp_all)
  next
    case False
    show ?thesis by (rule down_take[OF assms(1,2) _ _ _ _ _ _ _ _ _ _ _ _ _ _ _ _ ex False]) (use assms(2) in simp_all)
  qed
qed

lemma step_sema_down_loop:
  assumes "k_inv k" and "kstack k (cpu k) = Sema_down_loop s l # cs" and "exec (Sema_down_loop s l) (pop_call k) = Some k'"
  shows "steps_to k (Sema_down_loop s l) k'"
proof -
  have ex: "sema_down_loop s l (pop_call k) = Some k'" using assms(3) by simp
  have lv: "level k = INTR_OFF" using k_invD(5)[OF assms(1)] assms(2) by simp
  show ?thesis
  proof (cases "sema_value (semas k s) = 0")
    case True
    show ?thesis by (rule down_block[OF assms(1,2) _ _ _ _ _ _ _ _ _ _ _ _ _ _ _ _ ex True]) (use assms(2) lv in simp_all)
  next
    case False
    show ?thesis by (rule down_take[OF assms(1,2) _ _ _ _ _ _ _ _ _ _ _ _ _ _ _ _ ex False]) (use assms(2) lv in simp_all)
  qed
qed

lemma thread_unblock_eq:
  assumes "\<not> in_external_intr k"
  shows "thread_unblock t k = (if is_thread k t \<and> status_of k t = THREAD_BLOCKED
    then Some ((set_status t THREAD_READY (k\<lparr>level := INTR_OFF, ready_list := ready_list k @ [t]\<rparr>))\<lparr>level := level k\<rparr>) else None)"
  using assms by (auto simp: thread_unblock_def intr_disable_def intr_get_level_def intr_set_level_eq Let_def)

lemma step_sema_up:
  assumes inv: "k_inv k" and top: "kstack k (cpu k) = Sema_up s # cs" and ex: "exec (Sema_up s) (pop_call k) = Some k'"
  shows "steps_to k (Sema_up s) k'"
proof (cases "waiters (semas k s)")
  case Nil
  have k': "k' = (upd_sema (\<lambda>x. x\<lparr>sema_value := sema_value x + 1\<rparr>) s ((pop_call k)\<lparr>level := INTR_OFF\<rparr>))\<lparr>level := level k\<rparr>"
    using ex Nil k_inv_ext[OF inv]
    by (simp add: sema_up_def Option.bind_eq_Some_conv intr_disable_def intr_get_level_def Let_def upd_sema_def intr_set_level_eq)
  have sv: "(semas k s)\<lparr>sema_value := sema_value (semas k s) + 1\<rparr> = \<lparr>sema_value = sema_value (semas k s) + 1, waiters = []\<rparr>"
    using Nil by (cases "semas k s") simp
  show ?thesis
    by (rule quiet_step[OF inv top, where new = "[]"])
      (use top Nil sv in \<open>auto simp: k' upd_sema_def same_threads_def fun_eq_iff intro!: sync_eqI\<close>)
next
  case (Cons t ts)
  note o = threads_okD[OF k_invD(1)[OF inv]]
  have t: "is_thread k t" "status_of k t = THREAD_BLOCKED" using o(4)[of t s] Cons by auto
  define k1 where "k1 = upd_sema (\<lambda>x. x\<lparr>waiters := ts\<rparr>) s ((pop_call k)\<lparr>level := INTR_OFF\<rparr>)"
  define k2 where "k2 = (set_status t THREAD_READY (k1\<lparr>level := INTR_OFF, ready_list := ready_list k1 @ [t]\<rparr>))\<lparr>level := level k1\<rparr>"
  have k1: "is_thread k1 = is_thread k" "threads k1 = threads k" "\<not> in_external_intr k1" using o(13) by (simp_all add: k1_def upd_sema_def)
  have "thread_unblock t k1 = Some k2" using thread_unblock_eq[OF k1(3), of t] k1 t by (simp add: k2_def)
  then have k': "k' = (upd_sema (\<lambda>x. x\<lparr>sema_value := sema_value x + 1\<rparr>) s k2)\<lparr>level := level k\<rparr>"
    using ex Cons o(13)
    by (simp add: sema_up_def Option.bind_eq_Some_conv intr_disable_def intr_get_level_def Let_def k1_def[symmetric])
      (simp add: intr_set_level_eq k2_def k1_def upd_sema_def)
  have it: "is_thread k' = is_thread k" and ks: "kstack k' = (kstack k)(cpu k := cs)"
    using k1 top by (simp_all add: k' k2_def upd_sema_def k1_def)
  have sk: "semas k' = (semas k)(s := \<lparr>sema_value = sema_value (semas k s) + 1, waiters = ts\<rparr>)"
    by (cases "semas k s") (auto simp: k' k2_def k1_def upd_sema_def fun_eq_iff)
  have "stack_step k ([] @ cs)" by (rule stack_step_call[OF inv top]) simp_all
  then have st: "stack_step k cs" by simp
  have ki: "k_inv k'"
    by (rule wake_inv[OF inv Cons it _ _ _ _ _ _ _ _ ks st]) (auto simp: k' k2_def k1_def upd_sema_def)
  have "sync_of k' = effect (Sema_up s) (cpu k) (level k) (tid_lock k) NULL (sync_of (pop_call k))"
    using Cons sk ks top by (intro sync_eqI) (auto simp: fun_eq_iff k' k2_def k1_def upd_sema_def)
  moreover have "addr_idle k' = addr_idle k" "tid_lock k' = tid_lock k" "pal k' = pal k" by (simp_all add: k' k2_def k1_def upd_sema_def)
  moreover have "queue_step k k'" by (rule queue_stay[where new = "[t]"]) (simp_all add: k' k2_def k1_def upd_sema_def)
  ultimately show ?thesis using ki unfolding steps_to_def by auto
qed

text \<open>A thread yields: also at the end of a timer interrupt, when its stack is \<open>ds\<close>.\<close>

lemma yield_descheduled:
  assumes inv: "k_inv k" and k1: "threads k1 = threads k" "ready_list k1 = ready_list k" "cpu k1 = cpu k" "idle_thread k1 = idle_thread k"
      "initial_thread k1 = initial_thread k" "pal k1 = pal k" "\<not> in_external_intr k1" "semas k1 = semas k" "kstack k1 = (kstack k)(cpu k := ds)"
    and ds: "no_loop ds" "newborns ds = newborns (kstack k (cpu k))" "cpu k = idle_thread k \<Longrightarrow> idle_calls ds"
  obtains k2 where "descheduled k2" "thread_yield k1 = schedule k2" "idle_thread k2 = idle_thread k" "\<exists>new. ready_list k2 = ready_list k @ new" "holder k2 = holder k1" "cond_waiters k2 = cond_waiters k1" "semas k2 = semas k1" "pal k2 = pal k1"
    "kstack k2 = (kstack k)(cpu k := Intr_set_level (level k1) # ds)" "addr_idle k2 = addr_idle k1" "tid_lock k2 = tid_lock k1"
proof -
  note i = k_invD[OF inv]
  note o = threads_okD[OF i(1)]
  define k0 where "k0 = k1\<lparr>level := INTR_OFF\<rparr>"
  define k3 where "k3 = (if cpu k \<noteq> idle_thread k then k0\<lparr>ready_list := ready_list k0 @ [cpu k]\<rparr> else k0)"
  define k2 where "k2 = push_calls (cpu k) [Intr_set_level (level k1)] (set_status (cpu k) THREAD_READY k3)"
  have tc: "thread_current k1 = Some (cpu k)" using thread_current_eq[OF inv] thread_current_cong[OF k1(1,3)] by simp
  have sc: "thread_yield k1 = schedule k2"
    using tc k1 by (simp add: thread_yield_def intr_context_def intr_disable_def intr_get_level_def Let_def k2_def k3_def k0_def)
  have it: "is_thread k1 = is_thread k" using k1(1) by (simp add: is_thread_def fun_eq_iff)
  have k3: "threads k3 = threads k" "cpu k3 = cpu k" "idle_thread k3 = idle_thread k" "initial_thread k3 = initial_thread k" "pal k3 = pal k"
    "in_external_intr k3 = in_external_intr k" "semas k3 = semas k" "kstack k3 = (kstack k)(cpu k := ds)" "level k3 = INTR_OFF" "is_thread k3 = is_thread k"
    "ready_list k3 = (if cpu k \<noteq> idle_thread k then ready_list k @ [cpu k] else ready_list k)" "holder k3 = holder k1" "cond_waiters k3 = cond_waiters k1"
    "addr_idle k3 = addr_idle k1" "tid_lock k3 = tid_lock k1"
    using k1 o(13) it by (simp_all add: k3_def k0_def)
  have "descheduled k2"
    by (rule deschedule[OF inv, where st = THREAD_READY and cs = "Intr_set_level (level k1) # ds"])
      (use k3 k1 ds o(5)[of "cpu k"] in \<open>auto simp: k2_def fun_eq_iff\<close>)
  then show ?thesis
    by (rule that[OF _ sc]) (use k3 k1 in \<open>auto simp: k2_def fun_eq_iff\<close>)
qed

lemma step_thread_yield:
  assumes inv: "k_inv k" and top: "kstack k (cpu k) = Thread_yield # cs" and ex: "exec Thread_yield (pop_call k) = Some k'"
  shows "steps_to k Thread_yield k'"
proof -
  note o = threads_okD[OF k_invD(1)[OF inv]]
  have ex': "thread_yield (pop_call k) = Some k'" using ex by simp
  have nl: "no_loop cs" using o(10)[of "cpu k"] top by simp
  obtain k2 where k2: "descheduled k2" "thread_yield (pop_call k) = schedule k2" "holder k2 = holder (pop_call k)" "cond_waiters k2 = cond_waiters (pop_call k)"
    "semas k2 = semas (pop_call k)" "pal k2 = pal (pop_call k)" "kstack k2 = (kstack k)(cpu k := Intr_set_level (level (pop_call k)) # cs)"
    "addr_idle k2 = addr_idle (pop_call k)" "tid_lock k2 = tid_lock (pop_call k)"
    and q: "idle_thread k2 = idle_thread k" "\<exists>new. ready_list k2 = ready_list k @ new"
    by (rule yield_descheduled[OF inv, where ?k1.0 = "pop_call k" and ds = cs])
      (use top nl o(12,13) newborns_append[of "[Thread_yield]" cs] in auto)
  obtain new where new: "ready_list k2 = ready_list k @ new" using q(2) by blast
  have sc: "schedule k2 = Some k'" using ex' k2(2) by simp
  show ?thesis
    by (rule switch_step[OF k2(1) sc _ _ _ q(1) new]) (use k2 top in \<open>auto simp: fun_eq_iff intro!: sync_eqI\<close>)
qed

lemma step_idle_loop:
  assumes inv: "k_inv k" and top: "kstack k (cpu k) = Idle_loop # cs" and ex: "exec Idle_loop (pop_call k) = Some k'"
  shows "steps_to k Idle_loop k'"
proof -
  note i = k_invD[OF inv]
  note o = threads_okD[OF i(1)]
  define k2 where "k2 = set_status (cpu k) THREAD_BLOCKED (push_calls (cpu k) [Idle_wake, Idle_loop] ((pop_call k)\<lparr>level := INTR_OFF\<rparr>))"
  have sc: "schedule k2 = Some k'"
    using ex thread_current_eq[OF inv] thread_current_cong[of "push_calls (cpu k) [Idle_wake, Idle_loop] ((pop_call k)\<lparr>level := INTR_OFF\<rparr>)" k]
    by (auto simp: idle_loop_def intr_disable_def thread_block_def Option.bind_eq_Some_conv k2_def)
  have nl: "no_loop cs" using o(10)[of "cpu k"] top by simp
  have "descheduled k2"
    by (rule deschedule[OF inv, where st = THREAD_BLOCKED and cs = "[Idle_wake, Idle_loop] @ cs"])
      (use top nl o(5)[of "cpu k"] in \<open>auto simp: k2_def fun_eq_iff\<close>)
  then show ?thesis by (rule switch_step[OF _ sc, where new = "[]"]) (use top in \<open>auto simp: k2_def fun_eq_iff intro!: sync_eqI\<close>)
qed

lemma step_thread_exit:
  assumes inv: "k_inv k" and top: "kstack k (cpu k) = Thread_exit # cs" and ex: "exec Thread_exit (pop_call k) = Some k'"
  shows "steps_to k Thread_exit k'"
proof -
  note i = k_invD[OF inv]
  note o = threads_okD[OF i(1)]
  define k2 where "k2 = set_status (cpu k) THREAD_DYING ((pop_call k)\<lparr>level := INTR_OFF, kstack := (kstack (pop_call k))(cpu k := [])\<rparr>)"
  have sc: "schedule k2 = Some k'"
    using ex thread_current_eq[OF inv] thread_current_cong[of "pop_call k" k]
    by (auto simp: thread_exit_end_def intr_disable_def Option.bind_eq_Some_conv k2_def)
  have "descheduled k2"
    by (rule deschedule[OF inv, where st = THREAD_DYING and cs = "[]"]) (use top o(12) in \<open>auto simp: k2_def fun_eq_iff\<close>)
  then show ?thesis by (rule switch_step[OF _ sc, where new = "[]"]) (use top in \<open>auto simp: k2_def fun_eq_iff intro!: sync_eqI\<close>)
qed

lemma palloc_page_cases:
  assumes wf: "palloc_wf st"
  obtains "palloc_get_page st m PAL_ZERO = Some (st, m, NULL)"
  | st' m' a where "palloc_get_page st m PAL_ZERO = Some (st', m', a)" "palloc_wf st'" "a \<noteq> NULL" "pg_ofs a = 0"
      "unat (pg_no a) \<in> pool_pages (kernel_pool st)" "unat (pg_no a) \<notin> palloc_used st" "palloc_used st' = insert (unat (pg_no a)) (palloc_used st)"
      "pool_pages (kernel_pool st') = pool_pages (kernel_pool st)"
proof (cases "\<exists>i. {i..<i + unat (1 :: size_t)} \<subseteq> pool_pages (pool_of st PAL_ZERO) - pool_used (pool_of st PAL_ZERO)")
  case True
  have po: "pool_of st PAL_ZERO = kernel_pool st" by (simp add: pool_of_def)
  have n: "(1 :: size_t) \<noteq> 0" by simp
  from palloc_get_granted[OF wf n True, of m] obtain st' m' a where
    "palloc_get_multiple st m PAL_ZERO 1 = Some (st', m', a)" "palloc_wf st'" "a \<noteq> NULL" "pg_ofs a = 0"
    "page_range a 1 \<subseteq> pool_pages (pool_of st PAL_ZERO) - pool_used (pool_of st PAL_ZERO)" "palloc_used st' = palloc_used st \<union> page_range a 1"
    "pool_pages (kernel_pool st') = pool_pages (kernel_pool st)" by blast
  then show ?thesis using that(2) kernel_pool_used[OF wf] unfolding palloc_get_page_def po page_range_1 by auto
next
  case False
  let ?p = "pool_of st PAL_ZERO"
  have n: "(1 :: size_t) \<noteq> 0" by simp
  obtain um idx where g: "bitmap_scan_and_flip (used_map ?p) 0 1 False = Some (um, idx)"
    "if idx = BITMAP_ERROR
     then pool_used (?p\<lparr>used_map := um\<rparr>) = pool_used ?p \<and> \<not> (\<exists>i. {i..<i + unat (1 :: size_t)} \<subseteq> pool_pages ?p - pool_used ?p)
     else unat idx + unat (1 :: size_t) \<le> unat (bit_cnt (used_map ?p)) \<and>
       page_range (base ?p + PGSIZE * idx) 1 \<subseteq> pool_pages ?p - pool_used ?p \<and>
       pool_used (?p\<lparr>used_map := um\<rparr>) = pool_used ?p \<union> page_range (base ?p + PGSIZE * idx) 1"
    by (rule pool_get[OF pool_of_wf[OF wf] n])
  have idx: "idx = BITMAP_ERROR"
  proof (rule ccontr)
    assume "idx \<noteq> BITMAP_ERROR"
    then have "page_range (base ?p + PGSIZE * idx) 1 \<subseteq> pool_pages ?p - pool_used ?p" using g(2) by simp
    then show False using False unfolding page_range_def by blast
  qed
  then have "um = used_map ?p" using g(1) by (auto simp: bitmap_scan_and_flip_def Option.bind_eq_Some_conv split: if_splits)
  then have "palloc_get_page st m PAL_ZERO = Some (st, m, NULL)"
    unfolding palloc_get_page_def palloc_get_unfold[OF n g(1)] using idx by (simp add: Let_def set_pool_of_def pool_of_def)
  then show ?thesis by (rule that(1))
qed

lemma step_thread_create:
  assumes inv: "k_inv k" and top: "kstack k (cpu k) = Thread_create nm prio fn aux # cs" and ex: "exec (Thread_create nm prio fn aux) (pop_call k) = Some k'"
    and nw: "\<And>a. unat (pg_no a) \<in> pool_pages (kernel_pool (pal k)) \<Longrightarrow> pg_ofs a = 0 \<Longrightarrow> waiters (semas k (lock_semaphore (children_lock a))) = []"
  shows "steps_to k (Thread_create nm prio fn aux) k'"
proof -
  note i = k_invD[OF inv]
  note o = threads_okD[OF i(1)]
  have wf: "palloc_wf (pal k)" and pg: "\<And>t. is_thread k t \<Longrightarrow> pg_ofs t = 0 \<and> (t = initial_thread k \<or> unat (pg_no t) \<in> palloc_used (pal k))"
    and ini: "unat (pg_no (initial_thread k)) \<notin> pool_pages (kernel_pool (pal k))" using o(8) unfolding page_ok_def by blast+
  have ci: "cpu k \<noteq> idle_thread k" using o(12) top by auto
  show ?thesis
  proof (cases rule: palloc_page_cases[OF wf, where m = "kmem k"])
    case 1
    then have k': "k' = (pop_call k)\<lparr>pal := pal k, kmem := kmem k\<rparr>" using ex by (simp add: mk_thread_def Option.bind_eq_Some_conv)
    show ?thesis
      by (rule quiet_step[OF inv top, where new = "[]"]) (use top in \<open>auto simp: k' same_threads_def fun_eq_iff intro!: sync_eqI\<close>)
  next
    case (2 p m t)
    have fresh: "\<not> is_thread k t" using pg[of t] ini 2(5,6) by auto
    let ?new = "[Lock_acquire (tid_lock k), Take_tid t, Lock_release (tid_lock k), Push_frames t fn aux]"
    define k1 where "k1 = (pop_call k)\<lparr>pal := p, kmem := m\<rparr>"
    obtain k2 where k2: "init_thread t nm prio k1 = Some k2" "k' = push_calls (cpu k) ?new k2"
      using ex 2(1,3) by (auto simp: mk_thread_def Option.bind_eq_Some_conv Let_def k1_def init_thread_def)
    have k2e: "status_of k2 u = (if u = t then THREAD_BLOCKED else status_of k u)" "is_thread k2 u \<longleftrightarrow> u = t \<or> is_thread k u"
      "cpu k2 = cpu k" "idle_thread k2 = idle_thread k" "in_external_intr k2 = in_external_intr k" "ready_list k2 = ready_list k" "kstack k2 = (kstack k)(cpu k := cs)"
      "pal k2 = p" "initial_thread k2 = initial_thread k" "cond_waiters k2 = cond_waiters k" "addr_idle k2 = addr_idle k" "tid_lock k2 = tid_lock k"
      "holder k2 = (holder k)(children_lock t := NULL)" "semas k2 = (semas k)(lock_semaphore (children_lock t) := \<lparr>sema_value = 1, waiters = []\<rparr>)" for u
      using k2(1) 2(3) top by (auto simp: init_thread_def Option.bind_eq_Some_conv Let_def k1_def is_thread_def)
    have "page_ok k'"
      using 2 pg ini o(8) unfolding page_ok_def by (auto simp: k2(2) k2e)
    moreover have "no_loop cs" using o(10)[of "cpu k"] top by simp
    ultimately have ki: "k_inv k'"
      using nw[OF 2(5,4)] top ci newborns_append[of "[Thread_create nm prio fn aux]" cs]
      by (intro conceive_inv[OF inv fresh, where cs = "?new @ cs"]) (auto simp: k2(2) k2e fun_eq_iff)
    have "sync_of k' = effect (Thread_create nm prio fn aux) (cpu k) (level k) (tid_lock k) t (sync_of (pop_call k))"
      using 2(3) top by (intro sync_eqI) (auto simp: k2(2) k2e fun_eq_iff)
    moreover have "queue_step k k'" by (rule queue_stay[where new = "[]"]) (simp_all add: k2(2) k2e)
    ultimately show ?thesis using ki fresh 2 unfolding steps_to_def by (auto simp: k2(2) k2e)
  qed
qed

lemma mk_frames_eq:
  assumes "mk_frames t fn aux k = Some k'"
  shows "status_of k' = status_of k" "is_thread k' = is_thread k" "ready_list k' = ready_list k" "cpu k' = cpu k" "idle_thread k' = idle_thread k"
    "initial_thread k' = initial_thread k" "pal k' = pal k" "in_external_intr k' = in_external_intr k" "semas k' = semas k" "kstack k' = kstack k"
    "holder k' = holder k" "cond_waiters k' = cond_waiters k" "addr_idle k' = addr_idle k" "tid_lock k' = tid_lock k" "level k' = level k"
  using assms by (auto simp: mk_frames_def alloc_frame_def put_word_def upd_thread_def is_thread_def Let_def Option.bind_eq_Some_conv fun_eq_iff split: if_splits)

lemma step_push_frames:
  assumes inv: "k_inv k" and top: "kstack k (cpu k) = Push_frames t fn aux # cs" and ex: "exec (Push_frames t fn aux) (pop_call k) = Some k'"
  shows "steps_to k (Push_frames t fn aux) k'"
proof -
  note i = k_invD[OF inv]
  note o = threads_okD[OF i(1)]
  have t: "is_thread k t" "status_of k t = THREAD_BLOCKED" "kstack k t = []" using o(6)[of t "cpu k"] top by auto
  have tc: "t \<noteq> cpu k" using t(2) i(3) by auto
  obtain k1 where k1: "mk_frames t fn aux (pop_call k) = Some k1"
    using ex by (cases "mk_frames t fn aux (pop_call k)") (auto simp: thread_create_end_def)
  note m = mk_frames_eq[OF k1]
  define k2 where "k2 = k1\<lparr>kstack := (kstack k1)(t := [Kernel_thread fn aux])\<rparr>"
  have ext: "\<not> in_external_intr k2" using m o(13) by (simp add: k2_def)
  define k3 where "k3 = (set_status t THREAD_READY (k2\<lparr>level := INTR_OFF, ready_list := ready_list k2 @ [t]\<rparr>))\<lparr>level := level k2\<rparr>"
  have "thread_unblock t k2 = Some k3"
    using thread_unblock_eq[OF ext, of t] t m fun_cong[OF m(1), of t] by (simp add: k3_def k2_def)
  then have k': "k' = push_calls (cpu k) [Init_supplemental t] k3"
    using ex k1 m by (simp add: thread_create_end_def k2_def[symmetric]) (simp add: k3_def k2_def)
  have ks: "kstack k' = (kstack k)(t := [Kernel_thread fn aux], cpu k := Init_supplemental t # cs)"
    using m top tc by (auto simp: k' k3_def k2_def fun_eq_iff)
  have st: "status_of k' u = (if u = t then THREAD_READY else status_of k u)" for u
    using fun_cong[OF m(1), of u] by (simp add: k' k3_def k2_def)
  have ki: "k_inv k'"
    by (rule birth_inv[OF inv top _ st _ _ _ _ _ _ _ ks]) (use m in \<open>simp_all add: k' k3_def k2_def\<close>)
  have "sync_of k' = effect (Push_frames t fn aux) (cpu k) (level k) (tid_lock k) NULL (sync_of (pop_call k))"
    using ks m top tc t(3) by (intro sync_eqI) (auto simp: fun_eq_iff k' k3_def k2_def)
  moreover have "queue_step k k'" by (rule queue_stay[where new = "[t]"]) (use m in \<open>simp_all add: k' k3_def k2_def\<close>)
  ultimately show ?thesis using ki m unfolding steps_to_def by (auto simp: k' k3_def k2_def)
qed

section \<open>All steps\<close>

lemma aligned_add:
  fixes a b :: nat
  assumes "a mod 4096 = 0" and "a < 2 ^ 32" and "b < 4096"
  shows "a + b < 2 ^ 32" and "(a + b) div 4096 = a div 4096"
proof -
  obtain q where q: "a = 4096 * q" using assms(1) by (metis dvd_def mod_0_imp_dvd)
  then have "q < 1048576" using assms(2) by simp
  then show "a + b < 2 ^ 32" using q assms(3) by simp
  show "(a + b) div 4096 = a div 4096" using q assms(3) by simp
qed

lemma pg_no_inside:
  assumes "pg_ofs t = 0" and "unat x < 4096"
  shows "pg_no (t + x) = pg_no t"
proof -
  have "unat t mod 4096 = 0" using pg_ofs_mod[of t] assms(1) by simp
  note a = aligned_add[OF this unat_lt_2p32 assms(2)]
  have "unat (t + x) = unat t + unat x" using a(1) by (simp add: unat_word_ariths)
  then have "unat (pg_no (t + x)) = unat (pg_no t)" using a(2) by (simp only: pg_no_div)
  then show ?thesis by (simp add: word_unat_eq_iff)
qed

lemma waits_on_call: "waits_on cs = Some s \<Longrightarrow> \<exists>l. Sema_down_loop s l \<in> set cs \<and> s \<in> set (refs cs)"
  by (cases cs rule: waits_on.cases) auto

lemma sync_invD:
  assumes "sync_inv ob k"
  shows "k_inv k" "objects_ok ob k" "calls_ok ob k" "conds_ok ob k"
    "\<And>t c. c \<in> set (kstack k t) \<Longrightarrow> call_ok ob (addr_idle k) c" "\<And>c. set (cond_waiters k c) \<subseteq> conds ob"
    "\<And>w u u'. w \<in> conds ob \<Longrightarrow> w \<in> set (refs (kstack k u)) \<Longrightarrow> w \<in> set (refs (kstack k u')) \<Longrightarrow> u = u'"
  using assms unfolding sync_inv_def calls_ok_def conds_ok_def by blast+

text \<open>Threads wait for the objects of the clients only.\<close>

lemma pg_ofs_inside: "pg_ofs t = 0 \<Longrightarrow> unat x < 4096 \<Longrightarrow> unat (pg_ofs (t + x)) = unat x"
  for t x :: ptr
proof -
  assume "pg_ofs t = 0" "unat x < 4096"
  then have "unat t mod 4096 = 0" using pg_ofs_mod[of t] by simp
  moreover have "unat (t + x) mod 4096 = (unat t + unat x) mod 4096" by (simp add: unat_word_ariths mod_mod_cancel)
  ultimately show ?thesis using \<open>unat x < 4096\<close> pg_ofs_mod[of "t + x"] by (simp add: mod_add_eq [symmetric, of "unat t"])
qed

lemma waiter_sema:
  assumes "sync_inv ob k" and "t \<in> set (waiters (semas k s))"
  shows "s \<in> semas_of ob" and "unat (pg_no s) \<in> pages ob \<Longrightarrow> 176 \<le> unat (pg_ofs s)" and "s \<in> set (refs (kstack k t))" and "status_of k t = THREAD_BLOCKED"
proof -
  note i = sync_invD[OF assms(1)]
  have w: "waits_on (kstack k t) = Some s" "status_of k t = THREAD_BLOCKED" using threads_okD(4)[OF k_invD(1)[OF i(1)], of t s] assms(2) by auto
  then show "status_of k t = THREAD_BLOCKED" by blast
  obtain l where l: "Sema_down_loop s l \<in> set (kstack k t)" "s \<in> set (refs (kstack k t))" using waits_on_call[OF w(1)] by blast
  then show "s \<in> semas_of ob" "s \<in> set (refs (kstack k t))" using i(5) by fastforce+
  then show "unat (pg_no s) \<in> pages ob \<Longrightarrow> 176 \<le> unat (pg_ofs s)" using i(2) unfolding objects_ok_def by blast
qed

lemma no_waiters_in_pages:
  assumes "sync_inv ob k" and "pg_ofs t = 0" and "unat (pg_no t) \<in> pages ob" and "unat x < 176"
  shows "waiters (semas k (t + x)) = []"
proof (rule ccontr)
  assume "waiters (semas k (t + x)) \<noteq> []"
  then obtain u where "u \<in> set (waiters (semas k (t + x)))" by (cases "waiters (semas k (t + x))") auto
  then show False using waiter_sema(2)[OF assms(1)] pg_no_inside[OF assms(2), of x] pg_ofs_inside[OF assms(2), of x] assms(3,4) by fastforce
qed

lemma exec_step:
  assumes inv: "sync_inv ob k" and top: "kstack k (cpu k) = c # cs" and nc: "c \<noteq> Client" and ex: "exec c (pop_call k) = Some k'"
  shows "steps_to k c k'"
proof -
  note i = sync_invD[OF inv]
  have ok: "call_ok ob (addr_idle k) c" using i(5)[of c "cpu k"] top by simp
  have pages: "pool_pages (kernel_pool (pal k)) = pages ob" using i(2) by (simp add: objects_ok_def)
  show ?thesis
  proof (cases c)
    case (Cond_wait c' l w)
    have "waiters (semas k w) = []"
    proof (rule ccontr)
      assume "waiters (semas k w) \<noteq> []"
      then obtain u where u: "u \<in> set (waiters (semas k w))" by (cases "waiters (semas k w)") auto
      have "u = cpu k" using i(7)[of w u "cpu k"] waiter_sema(3)[OF inv u] ok top Cond_wait by simp
      then show False using waiter_sema(4)[OF inv u] k_invD(3)[OF i(1)] by simp
    qed
    then show ?thesis using step_cond_wait(1)[OF i(1)] top ex Cond_wait by blast
  next
    case (Thread_create nm prio fn aux)
    have "waiters (semas k (lock_semaphore (children_lock a))) = []" if "unat (pg_no a) \<in> pool_pages (kernel_pool (pal k))" "pg_ofs a = 0" for a
      using no_waiters_in_pages[OF inv that(2), of 72] that pages by (simp add: lock_semaphore_def children_lock_def add.assoc)
    then show ?thesis using step_thread_create[OF i(1)] top ex Thread_create by blast
  next
    case (Init_supplemental t)
    have "waiters (semas k (page_sema t)) = []" using no_waiters_in_pages[OF inv, of t 156] ok Init_supplemental by (simp add: page_sema_def)
    then show ?thesis using step_init_supplemental[OF i(1)] top ex Init_supplemental by blast
  next
    case (Kernel_thread fn aux)
    then show ?thesis using step_kernel_thread[OF i(1)] top ex ok by simp
  qed (use nc ok top ex i(1) in \<open>auto intro: step_set_level step_sema_down step_sema_down_loop step_try_down step_sema_up step_lock_acquire
      step_set_holder step_lock_try_acquire step_lock_release(1) step_cond_signal step_cond_broadcast step_thread_yield step_take_tid
      step_push_frames step_idle_loop step_idle_wake step_thread_exit simp del: exec.simps\<close>)
qed

lemma refs_append [simp]: "refs (cs @ ds) = refs cs @ refs ds"
  by (induction cs rule: refs.induct) auto

lemma effect_calls:
  assumes "\<And>u x. x \<in> set (y_stack a u) \<Longrightarrow> call_ok ob i x" and "\<And>x. set (y_cond a x) \<subseteq> conds ob" and "call_ok ob i c" and "tk \<in> lks ob"
    and "nt \<noteq> NULL \<Longrightarrow> pg_ofs nt = 0 \<and> unat (pg_no nt) \<in> pages ob"
  shows "x \<in> set (y_stack (effect c t l tk nt a) u) \<Longrightarrow> call_ok ob i x" and "set (y_cond (effect c t l tk nt a) z) \<subseteq> conds ob"
proof -
  have cw: "w \<in> conds ob" if "y_cond a c' = w # ws" for c' w ws using assms(2)[of c'] that by simp
  have cs: "w \<in> conds ob" if "y_cond a c' = v # ws" "w \<in> set ws" for c' v w ws using assms(2)[of c'] that by auto
  show "x \<in> set (y_stack (effect c t l tk nt a) u) \<Longrightarrow> call_ok ob i x"
    using assms(1)[of x u] assms(3-5)
    by (cases c) (auto simp: down_effect_def try_down_effect_def semas_of_def cw split: if_splits list.splits)
  show "set (y_cond (effect c t l tk nt a) z) \<subseteq> conds ob"
    using assms(2)[of z] assms(3) by (cases c) (auto simp: down_effect_def try_down_effect_def cs split: if_splits list.splits)
qed

lemma effect_refs:
  assumes "w \<in> set (refs (y_stack (effect c t l tk nt a) u))" and "call_ok ob i c" and "w \<in> conds ob" and "tk \<in> lks ob"
    and "conds ob \<inter> lock_semaphore ` lks ob = {}"
  shows "w \<in> set (refs (y_stack a u)) \<or> u = t \<and> w \<in> set (refs [c])"
proof -
  have "w \<noteq> lock_semaphore x" if "x \<in> lks ob" for x using assms(3,5) that by blast
  then show ?thesis
    using assms(1,2,4) by (cases c) (auto simp: down_effect_def try_down_effect_def split: if_splits list.splits)
qed

text \<open>A step keeps the whole invariant.\<close>

lemma steps_to_inv:
  assumes inv: "sync_inv ob k" and top: "kstack k (cpu k) = c # cs" and st: "steps_to k c k'"
  shows "sync_inv ob k'"
proof -
  note i = sync_invD[OF inv]
  obtain nt where ki: "k_inv k'" "addr_idle k' = addr_idle k" "tid_lock k' = tid_lock k" "pool_pages (kernel_pool (pal k')) = pool_pages (kernel_pool (pal k))"
    and ef: "sync_of k' = effect c (cpu k) (level k) (tid_lock k) nt (sync_of (pop_call k))"
    and nt: "nt \<noteq> NULL \<Longrightarrow> pg_ofs nt = 0 \<and> unat (pg_no nt) \<in> pool_pages (kernel_pool (pal k))"
    using st unfolding steps_to_def by blast
  have ob: "objects_ok ob k'" using i(2) ki unfolding objects_ok_def by simp
  have tk: "tid_lock k \<in> lks ob" and pg: "pool_pages (kernel_pool (pal k)) = pages ob" and dj: "conds ob \<inter> lock_semaphore ` lks ob = {}"
    using i(2) unfolding objects_ok_def by blast+
  have c: "call_ok ob (addr_idle k) c" using i(5)[of c "cpu k"] top by simp
  have s: "x \<in> set (y_stack (sync_of (pop_call k)) u) \<Longrightarrow> call_ok ob (addr_idle k) x" for u x
    using i(5)[of x u] top by (auto split: if_splits)
  have e: "kstack k' = y_stack (sync_of k')" "cond_waiters k' = y_cond (sync_of k')" by simp_all
  have "calls_ok ob k'"
    unfolding calls_ok_def e ki ef
    using effect_calls[of "sync_of (pop_call k)" ob "addr_idle k" c "tid_lock k" nt, OF s _ c tk nt[unfolded pg]] i(6) by auto
  moreover have "conds_ok ob k'"
    unfolding conds_ok_def
  proof (intro ballI allI impI)
    fix w u u' assume w: "w \<in> conds ob" and u: "w \<in> set (refs (kstack k' u))" "w \<in> set (refs (kstack k' u'))"
    have "w \<in> set (refs (kstack k v))" if "w \<in> set (refs (kstack k' v))" for v
      using effect_refs[OF that[unfolded e ef] c w tk dj] top refs_append[of "[c]" cs] by (auto split: if_splits)
    then show "u = u'" using i(7)[OF w] u by blast
  qed
  ultimately show ?thesis using ki(1) ob unfolding sync_inv_def by blast
qed

text \<open>The calls a client may make. A waiter of a condition variable is a semaphore nobody else uses.\<close>

fun client_ok :: "objects \<Rightarrow> kernel \<Rightarrow> call \<Rightarrow> bool" where
  "client_ok ob k (Intr_set_level l) \<longleftrightarrow> True"
| "client_ok ob k (Sema_down s) \<longleftrightarrow> s \<in> plain ob"
| "client_ok ob k (Sema_try_down s) \<longleftrightarrow> s \<in> plain ob"
| "client_ok ob k (Sema_up s) \<longleftrightarrow> s \<in> plain ob"
| "client_ok ob k (Lock_acquire x) \<longleftrightarrow> x \<in> lks ob"
| "client_ok ob k (Lock_try_acquire x) \<longleftrightarrow> x \<in> lks ob"
| "client_ok ob k (Lock_release x) \<longleftrightarrow> x \<in> lks ob"
| "client_ok ob k (Cond_wait c x w) \<longleftrightarrow> x \<in> lks ob \<and> w \<in> conds ob \<and> (\<forall>u. w \<notin> set (refs (kstack k u)))"
| "client_ok ob k (Cond_signal c x) \<longleftrightarrow> x \<in> lks ob"
| "client_ok ob k (Cond_broadcast c x) \<longleftrightarrow> x \<in> lks ob"
| "client_ok ob k Thread_yield \<longleftrightarrow> True"
| "client_ok ob k (Thread_create nm prio fn aux) \<longleftrightarrow> fn \<noteq> addr_idle k"
| "client_ok ob k Thread_exit \<longleftrightarrow> True"
| "client_ok ob k _ \<longleftrightarrow> False"

lemma client_inv:
  assumes inv: "sync_inv ob k" and top: "kstack k (cpu k) = Client # cs" and c: "client_ok ob k c"
  shows "sync_inv ob (push_calls (cpu k) [c] k)"
proof -
  note i = sync_invD[OF inv]
  note o = threads_okD[OF k_invD(1)[OF i(1)]]
  let ?k = "push_calls (cpu k) [c] k"
  have nl: "no_loop cs" using o(10)[of "cpu k"] top by simp
  have "stack_step k (c # Client # cs)"
    using c nl top o(12) by (cases c) (auto simp: stack_step_def)
  then have ki: "k_inv ?k"
    by (rule quiet_inv[OF i(1), rotated 3]) (use top in \<open>auto simp: same_threads_def fun_eq_iff\<close>)
  have ck: "call_ok ob (addr_idle k) c" using c by (cases c) (auto simp: semas_of_def)
  have dj: "conds ob \<inter> (plain ob \<union> lock_semaphore ` lks ob) = {}" using i(2) unfolding objects_ok_def by blast
  have "u = cpu k \<and> (\<forall>v. w \<notin> set (refs (kstack k v))) \<or> w \<in> set (refs (kstack k u))" if "w \<in> conds ob" "w \<in> set (refs (kstack ?k u))" for w u
    using that c dj by (cases c) (auto split: if_splits)
  then have "conds_ok ob ?k" using i(7) unfolding conds_ok_def by metis
  moreover have "calls_ok ob ?k" using i(5,6) ck unfolding calls_ok_def by (auto split: if_splits)
  moreover have "objects_ok ob ?k" using i(2) unfolding objects_ok_def by simp
  ultimately show ?thesis using ki unfolding sync_inv_def by blast
qed

lemma return_inv:
  assumes inv: "sync_inv ob k" and top: "kstack k (cpu k) = Client # cs"
  shows "sync_inv ob (pop_call k)"
proof -
  have "steps_to k Client (pop_call k)"
    by (rule quiet_step[OF sync_invD(1)[OF inv] top, where new = "[]"]) (use top in \<open>auto simp: same_threads_def fun_eq_iff intro!: sync_eqI\<close>)
  then show ?thesis by (rule steps_to_inv[OF inv top])
qed

text \<open>The timer interrupt.\<close>

lemma thread_tick_eq:
  assumes "thread_tick k = Some k1"
  obtains a b c d y where "k1 = k\<lparr>idle_ticks := a, user_ticks := b, kernel_ticks := c, thread_ticks := d, yield_on_return := y\<rparr>"
proof -
  define k2 where "k2 = (if cpu k = idle_thread k then k\<lparr>idle_ticks := idle_ticks k + 1\<rparr>
    else if t_pagedir (threads k (cpu k)) \<noteq> NULL then k\<lparr>user_ticks := user_ticks k + 1\<rparr> else k\<lparr>kernel_ticks := kernel_ticks k + 1\<rparr>)"
  have k2: "k2 = k\<lparr>idle_ticks := idle_ticks k2, user_ticks := user_ticks k2, kernel_ticks := kernel_ticks k2\<rparr>" by (simp add: k2_def)
  define k3 where "k3 = k2\<lparr>thread_ticks := thread_ticks k2 + 1\<rparr>"
  have "thread_current k = Some (cpu k)" if "thread_current k = Some t" for t
    using that by (auto simp: Option.bind_eq_Some_conv thread_current_def running_thread_def Let_def)
  then have "thread_current k = Some (cpu k)" using assms by (cases "thread_current k") (simp_all add: thread_tick_def)
  then have "(if thread_ticks k3 \<ge> TIME_SLICE then intr_yield_on_return k3 else Some k3) = Some k1"
    using assms unfolding thread_tick_def k3_def k2_def by (simp only: Option.bind.bind_lunit Let_def)
  then have "k1 = k3\<lparr>yield_on_return := yield_on_return k1\<rparr>" by (auto simp: intr_yield_on_return_def Option.bind_eq_Some_conv split: if_splits)
  then have "k1 = k\<lparr>idle_ticks := idle_ticks k2, user_ticks := user_ticks k2, kernel_ticks := kernel_ticks k2,
      thread_ticks := thread_ticks k2 + 1, yield_on_return := yield_on_return k1\<rparr>" unfolding k3_def by (subst (asm) k2) simp
  then show ?thesis by (rule that)
qed

lemma timer_effect:
  assumes inv: "k_inv k" and on: "level k = INTR_ON" and ex: "timer_intr k = Some k'"
  shows "k_inv k' \<and> addr_idle k' = addr_idle k \<and> tid_lock k' = tid_lock k \<and> pool_pages (kernel_pool (pal k')) = pool_pages (kernel_pool (pal k)) \<and>
    semas k' = semas k \<and> holder k' = holder k \<and> cond_waiters k' = cond_waiters k \<and> queue_step k k' \<and>
    (\<exists>new. set new \<subseteq> {Intr_set_level INTR_OFF, Intr_set_level INTR_ON} \<and> kstack k' = (kstack k)(cpu k := new @ kstack k (cpu k)))"
proof -
  note i = k_invD[OF inv]
  note o = threads_okD[OF i(1)]
  let ?ds = "Intr_set_level INTR_ON # kstack k (cpu k)"
  have wn: "waits_on (kstack k (cpu k)) = None" using i(5) on by (cases "waits_on (kstack k (cpu k))") auto
  have nl: "no_loop (kstack k (cpu k))" using o(10)[of "cpu k"] wn by (cases "kstack k (cpu k)" rule: no_loop.cases) auto
  define k0 where "k0 = push_calls (cpu k) [Intr_set_level INTR_ON] (k\<lparr>level := INTR_OFF\<rparr>)\<lparr>in_external_intr := True, yield_on_return := False\<rparr>"
  obtain k1 where k1: "timer_interrupt k0 = Some k1"
    and k': "k' = k1\<lparr>in_external_intr := False\<rparr> \<or> thread_yield (k1\<lparr>in_external_intr := False\<rparr>) = Some k'"
    using ex on by (auto simp: timer_intr_def intr_handler_external_def Let_def Option.bind_eq_Some_conv k0_def split: if_splits)
  have f: "threads k1 = threads k" "ready_list k1 = ready_list k" "cpu k1 = cpu k" "idle_thread k1 = idle_thread k" "initial_thread k1 = initial_thread k"
    "pal k1 = pal k" "semas k1 = semas k" "holder k1 = holder k" "cond_waiters k1 = cond_waiters k" "kstack k1 = (kstack k)(cpu k := ?ds)"
    "addr_idle k1 = addr_idle k" "tid_lock k1 = tid_lock k" "level k1 = INTR_OFF"
    using k1 unfolding timer_interrupt_def by (auto elim!: thread_tick_eq simp: k0_def fun_eq_iff)
  have ds: "no_loop ?ds" "newborns ?ds = newborns (kstack k (cpu k))" "cpu k = idle_thread k \<Longrightarrow> idle_calls ?ds" using nl o(12) by auto
  from k' show ?thesis
  proof
    assume k': "k' = k1\<lparr>in_external_intr := False\<rparr>"
    have "k_inv k'"
      by (rule quiet_inv[OF inv, where cs = ?ds]) (use f ds nl o(13) in \<open>auto simp: k' same_threads_def is_thread_def fun_eq_iff stack_step_def\<close>)
    moreover have "queue_step k k'" by (rule queue_stay[where new = "[]"]) (use f in \<open>simp_all add: k'\<close>)
    ultimately show ?thesis using f by (auto simp: k' intro!: exI[of _ "[Intr_set_level INTR_ON]"])
  next
    assume y: "thread_yield (k1\<lparr>in_external_intr := False\<rparr>) = Some k'"
    let ?k = "k1\<lparr>in_external_intr := False\<rparr>"
    obtain k2 where k2: "descheduled k2" "thread_yield ?k = schedule k2" "holder k2 = holder ?k" "cond_waiters k2 = cond_waiters ?k" "semas k2 = semas ?k"
      "pal k2 = pal ?k" "kstack k2 = (kstack k)(cpu k := Intr_set_level (level ?k) # ?ds)" "addr_idle k2 = addr_idle ?k" "tid_lock k2 = tid_lock ?k"
      and q: "idle_thread k2 = idle_thread k" "\<exists>new. ready_list k2 = ready_list k @ new"
      by (rule yield_descheduled[OF inv, where ?k1.0 = ?k and ds = ?ds, OF _ _ _ _ _ _ _ _ _ ds]) (use f in auto)
    obtain k3 where k3: "schedule k2 = Some k3" "switched k2 k3" "k_inv k3" by (rule schedule_inv[OF k2(1)])
    have "k3 = k'" using k3(1) k2(2) y by simp
    moreover have "queue_step k k3" using q queue_switch[OF k3(2)] by blast
    ultimately show ?thesis using k3(2,3) k2 f unfolding switched_def
      by (auto intro!: exI[of _ "[Intr_set_level INTR_OFF, Intr_set_level INTR_ON]"])
  qed
qed

lemma kstep_inv:
  assumes "sync_inv ob k" and "kstep (client_ok ob) k k'"
  shows "sync_inv ob k'"
  using assms(2)
proof cases
  case (call c cs)
  then show ?thesis using steps_to_inv[OF assms(1)] exec_step[OF assms(1)] by blast
next
  case (client cs c)
  then show ?thesis using client_inv[OF assms(1)] by blast
next
  case (return cs)
  then show ?thesis using return_inv[OF assms(1)] by blast
next
  case timer
  note i = sync_invD[OF assms(1)]
  obtain new where t: "k_inv k'" "addr_idle k' = addr_idle k" "tid_lock k' = tid_lock k"
    "pool_pages (kernel_pool (pal k')) = pool_pages (kernel_pool (pal k))" "cond_waiters k' = cond_waiters k"
    "set new \<subseteq> {Intr_set_level INTR_OFF, Intr_set_level INTR_ON}" "kstack k' = (kstack k)(cpu k := new @ kstack k (cpu k))"
    using timer_effect[OF i(1) timer] by blast
  have "refs new = []" using t(6) by (induction new rule: refs.induct) auto
  then have "conds_ok ob k'" using i(4) t(7) unfolding conds_ok_def by (auto split: if_splits)
  moreover have "calls_ok ob k'" using i(3) t(2,5-7) unfolding calls_ok_def by (auto split: if_splits)
  moreover have "objects_ok ob k'" using i(2) t(3,4) unfolding objects_ok_def by simp
  ultimately show ?thesis using t(1) unfolding sync_inv_def by blast
qed

section \<open>Mutual exclusion\<close>

text \<open>
  A thread is inside a lock from the moment it has taken the lock's semaphore until it has given it back: it is the holder, or it
  has yet to enter itself as the holder, or it has yet to increment the semaphore. \<open>tok\<close> counts the pending calls of the last two kinds.
\<close>

fun is_sema_down :: "ptr \<Rightarrow> call \<Rightarrow> bool" where
  "is_sema_down l (Sema_down s) \<longleftrightarrow> s = lock_semaphore l"
| "is_sema_down l (Sema_down_loop s _) \<longleftrightarrow> s = lock_semaphore l"
| "is_sema_down l _ \<longleftrightarrow> False"

fun tok :: "ptr \<Rightarrow> bool \<Rightarrow> call list \<Rightarrow> nat" where
  "tok l p [] = 0"
| "tok l p (c # cs) = (if c = Set_holder l \<and> \<not> p \<or> c = Sema_up (lock_semaphore l) then 1 else 0) + tok l (is_sema_down l c) cs"

fun paired :: "ptr \<Rightarrow> call list \<Rightarrow> bool" where
  "paired l [] \<longleftrightarrow> True"
| "paired l (c # cs) \<longleftrightarrow> (is_sema_down l c \<longrightarrow> cs \<noteq> [] \<and> hd cs = Set_holder l) \<and> paired l cs"

definition inside :: "kernel \<Rightarrow> ptr \<Rightarrow> ptr \<Rightarrow> bool" where
  "inside k l t \<longleftrightarrow> holder k l = t \<and> t \<noteq> NULL \<or> tok l False (kstack k t) > 0"

definition lock_ok :: "kernel \<Rightarrow> ptr \<Rightarrow> bool" where
  "lock_ok k l \<longleftrightarrow> (\<forall>t. paired l (kstack k t)) \<and>
     (sema_value (semas k (lock_semaphore l)) = 1 \<and> holder k l = NULL \<and> (\<forall>t. tok l False (kstack k t) = 0) \<or>
      sema_value (semas k (lock_semaphore l)) = 0 \<and> (\<exists>t0. \<forall>t. tok l False (kstack k t) \<le> (if t = t0 \<and> holder k l = NULL then 1 else 0)))"

lemma lock_ok_exclusive:
  assumes "lock_ok k l" and "inside k l t" and "inside k l u"
  shows "t = u"
proof -
  consider "holder k l = NULL" "\<forall>v. tok l False (kstack k v) = 0" | t0 where "\<forall>v. tok l False (kstack k v) \<le> (if v = t0 \<and> holder k l = NULL then 1 else 0)"
    using assms(1) unfolding lock_ok_def by blast
  then show ?thesis
  proof cases
    case 1
    then show ?thesis using assms(2,3) by (simp add: inside_def)
  next
    case 2
    have "tok l False (kstack k t) \<le> (if t = t0 \<and> holder k l = NULL then 1 else 0)" "tok l False (kstack k u) \<le> (if u = t0 \<and> holder k l = NULL then 1 else 0)"
      using 2 by blast+
    then show ?thesis using assms(2,3) by (auto simp: inside_def split: if_splits)
  qed
qed

text \<open>Pending calls that have nothing to do with the lock.\<close>

definition neutral :: "ptr \<Rightarrow> call \<Rightarrow> bool" where
  "neutral l c \<longleftrightarrow> \<not> is_sema_down l c \<and> c \<noteq> Set_holder l \<and> c \<noteq> Sema_up (lock_semaphore l)"

lemma neutral_append:
  assumes "\<And>c. c \<in> set new \<Longrightarrow> neutral l c"
  shows "tok l False (new @ cs) = tok l False cs" and "paired l (new @ cs) \<longleftrightarrow> paired l cs"
  using assms by (induction new) (auto simp: neutral_def)

lemma tok_neutral_top: "neutral l c \<Longrightarrow> tok l False (c # cs) = tok l False cs \<and> (paired l (c # cs) \<longleftrightarrow> paired l cs)"
  by (simp add: neutral_def)

text \<open>A step in which neither the semaphore nor the holder of the lock changes.\<close>

lemma lock_ok_frame:
  assumes "lock_ok k l" and "sema_value (semas k' (lock_semaphore l)) = sema_value (semas k (lock_semaphore l))" and "holder k' l = holder k l"
    and "\<And>t. tok l False (kstack k' t) \<le> tok l False (kstack k t)" and "\<And>t. paired l (kstack k t) \<Longrightarrow> paired l (kstack k' t)"
  shows "lock_ok k' l"
proof -
  have p: "\<forall>t. paired l (kstack k' t)" using assms(1,5) unfolding lock_ok_def by blast
  from assms(1) show ?thesis
    unfolding lock_ok_def assms(2,3) using p order_trans[OF assms(4)] assms(4) by (metis le_zero_eq)
qed

lemma lock_semaphore_inj [simp]: "lock_semaphore x = lock_semaphore l \<longleftrightarrow> x = l"
  by (simp add: lock_semaphore_def)

definition special :: "ptr \<Rightarrow> call \<Rightarrow> bool" where
  "special l c \<longleftrightarrow> c = Sema_up (lock_semaphore l) \<or> c = Set_holder l \<or> is_sema_down l c \<or> c = Lock_try_acquire l \<or> c = Lock_release l"

lemma effect_other:
  assumes "\<not> special l c" and "call_ok ob i c" and "l \<in> lks ob" and "lock_semaphore l \<notin> plain ob \<union> conds ob"
    and "\<And>x. set (y_cond a x) \<subseteq> conds ob" and "\<And>u. pg_ofs u = 0 \<Longrightarrow> unat (pg_no u) \<in> pages ob \<Longrightarrow> lock_semaphore l \<noteq> page_sema u \<and> l \<noteq> children_lock u"
    and "nt \<noteq> NULL \<Longrightarrow> pg_ofs nt = 0 \<and> unat (pg_no nt) \<in> pages ob"
  shows "sema_value (y_sema (effect c t v tk nt a) (lock_semaphore l)) = sema_value (y_sema a (lock_semaphore l))" (is ?A)
    and "y_holder (effect c t v tk nt a) l = y_holder a l" (is ?B)
    and "tok l False (y_stack (effect c t v tk nt a) u) \<le> tok l False (if u = t then c # y_stack a t else y_stack a u)" (is ?C)
    and "paired l (if u = t then c # y_stack a t else y_stack a u) \<Longrightarrow> paired l (y_stack (effect c t v tk nt a) u)" (is "_ \<Longrightarrow> ?D")
proof -
  have cw: "w \<noteq> lock_semaphore l" if "y_cond a x = w # ws" for x w ws using assms(4) assms(5)[of x] that by auto
  have sl: "s \<noteq> lock_semaphore l" if "c = Sema_down s \<or> (\<exists>x. c = Sema_down_loop s x) \<or> c = Sema_up s" for s
    using assms(1) that by (auto simp: special_def)
  show ?A
    using assms sl by (cases c) (auto simp: special_def down_effect_def try_down_effect_def split: list.splits)
  show ?B
    using assms by (cases c) (auto simp: special_def down_effect_def try_down_effect_def split: list.splits)
  show ?C
    using assms(1-4) sl cw by (cases c) (auto simp: special_def down_effect_def try_down_effect_def split: list.splits)
  show ?D if "paired l (if u = t then c # y_stack a t else y_stack a u)"
    using assms(1-4) sl cw that by (cases c) (auto simp: special_def down_effect_def try_down_effect_def split: list.splits if_splits)
qed

lemma lock_ok_cases:
  assumes "lock_ok k l"
  obtains "sema_value (semas k (lock_semaphore l)) = 1" "holder k l = NULL" "\<And>t. tok l False (kstack k t) = 0"
  | t0 where "sema_value (semas k (lock_semaphore l)) = 0" "\<And>t. tok l False (kstack k t) \<le> (if t = t0 \<and> holder k l = NULL then 1 else 0)"
  using assms unfolding lock_ok_def by blast

lemma lock_ok_taken:
  assumes "\<And>t. paired l (kstack k t)" and "sema_value (semas k (lock_semaphore l)) = 0"
    and "\<And>t. tok l False (kstack k t) \<le> (if t = owner \<and> holder k l = NULL then 1 else 0)"
  shows "lock_ok k l"
  using assms unfolding lock_ok_def by blast

lemma lock_ok_step:
  assumes inv: "sync_inv ob k" and top: "kstack k (cpu k) = c # cs" and st: "steps_to k c k'" and ok: "lock_ok k l" and l: "l \<in> lks ob"
    and rel: "c = Lock_release l \<Longrightarrow> holder k l = cpu k"
  shows "lock_ok k' l"
proof -
  note i = sync_invD[OF inv]
  let ?a = "sync_of (pop_call k)"
  obtain nt where ef: "sync_of k' = effect c (cpu k) (level k) (tid_lock k) nt ?a"
    and nt: "nt \<noteq> NULL \<Longrightarrow> pg_ofs nt = 0 \<and> unat (pg_no nt) \<in> pages ob"
    using st i(2) unfolding steps_to_def objects_ok_def by auto
  have k': "kstack k' = y_stack (effect c (cpu k) (level k) (tid_lock k) nt ?a)" "semas k' = y_sema (effect c (cpu k) (level k) (tid_lock k) nt ?a)"
    "holder k' = y_holder (effect c (cpu k) (level k) (tid_lock k) nt ?a)" using ef by (metis sync_of_simps(1), metis sync_of_simps(2), metis sync_of_simps(3))
  have c0: "cpu k \<noteq> NULL" using k_invD(2)[OF i(1)] by (simp add: is_thread_def)
  have pr: "paired l (kstack k t)" for t using ok unfolding lock_ok_def by blast
  have pc: "paired l (c # cs)" using pr[of "cpu k"] top by simp
  show ?thesis
  proof (cases "special l c")
    case False
    have ls: "lock_semaphore l \<notin> plain ob \<union> conds ob" "unat (pg_no (lock_semaphore l)) \<in> pages ob \<Longrightarrow> 176 \<le> unat (pg_ofs (lock_semaphore l))"
      using i(2) l unfolding objects_ok_def semas_of_def by blast+
    have pg: "lock_semaphore l \<noteq> page_sema u \<and> l \<noteq> children_lock u" if "pg_ofs u = 0" "unat (pg_no u) \<in> pages ob" for u
    proof (intro conjI notI)
      assume "lock_semaphore l = page_sema u"
      then show False using pg_no_inside[OF that(1), of 156] pg_ofs_inside[OF that(1), of 156] that(2) ls(2) unfolding page_sema_def by simp
    next
      assume "l = children_lock u"
      then have "lock_semaphore l = u + 72" by (simp add: lock_semaphore_def children_lock_def)
      then show False using pg_no_inside[OF that(1), of 72] pg_ofs_inside[OF that(1), of 72] that(2) ls(2) by simp
    qed
    have ck: "call_ok ob (addr_idle k) c" using i(5)[of c "cpu k"] top by simp
    have cw: "set (y_cond ?a x) \<subseteq> conds ob" for x using i(6) by simp
    note e = effect_other[OF False ck l ls(1) cw pg nt, where t = "cpu k" and v = "level k" and tk = "tid_lock k"]
    have s: "(if u = cpu k then c # y_stack ?a (cpu k) else y_stack ?a u) = kstack k u" for u using top by simp
    show ?thesis
      by (rule lock_ok_frame[OF ok]) (use e(1,2) e(3)[unfolded s] e(4)[unfolded s] in \<open>simp_all add: k'\<close>)
  next
    case True
    then consider (up) "c = Sema_up (lock_semaphore l)" | (own) "c = Set_holder l" | (down) "is_sema_down l c" | (attempt) "c = Lock_try_acquire l" | (release) "c = Lock_release l"
      unfolding special_def by blast
    then show ?thesis
    proof cases
      case up
      have tk: "tok l False (kstack k (cpu k)) = Suc (tok l False cs)" using top up by simp
      from ok show ?thesis
      proof (cases rule: lock_ok_cases)
        case 1
        then show ?thesis using tk by simp
      next
        case (2 t0)
        then have t0: "t0 = cpu k" "holder k l = NULL" "tok l False cs = 0" using tk 2(2)[of "cpu k"] by (auto split: if_splits)
        have z: "tok l False (kstack k t) = 0" if "t \<noteq> cpu k" for t using 2(2)[of t] that t0 by simp
        then have "\<forall>t. tok l False (kstack k' t) = 0" using t0 up top by (simp add: k')
        then show ?thesis using 2 t0 up top pr pc unfolding lock_ok_def by (auto simp: k')
      qed
    next
      case own
      have tk: "tok l False (kstack k (cpu k)) = Suc (tok l False cs)" using top own by simp
      from ok show ?thesis
      proof (cases rule: lock_ok_cases)
        case 1
        then show ?thesis using tk by simp
      next
        case (2 t0)
        then have t0: "t0 = cpu k" "tok l False cs = 0" using tk 2(2)[of "cpu k"] by (auto split: if_splits)
        have z: "tok l False (kstack k t) = 0" if "t \<noteq> cpu k" for t using 2(2)[of t] that t0 by simp
        show ?thesis by (rule lock_ok_taken[where owner = "cpu k"]) (use pr pc 2(1) t0 z own top in \<open>auto simp: k'\<close>)
      qed
    next
      case down
      obtain cs' where cs: "cs = Set_holder l # cs'" using pc down by (cases cs) auto
      have tk: "tok l False (kstack k (cpu k)) = tok l False cs'" using top down cs by (cases c) auto
      have e: "effect c (cpu k) (level k) (tid_lock k) nt ?a = down_effect (lock_semaphore l) (cpu k) (case c of Sema_down_loop _ v \<Rightarrow> v | _ \<Rightarrow> level k) ?a"
        using down by (cases c) auto
      from ok show ?thesis
      proof (cases rule: lock_ok_cases)
        case 1
        then have "tok l False cs' = 0" using tk by metis
        then show ?thesis
          by (intro lock_ok_taken[where owner = "cpu k"]) (use pr pc 1 cs top in \<open>auto simp: k' e down_effect_def\<close>)
      next
        case (2 t0)
        show ?thesis
          by (rule lock_ok_frame[OF ok]) (use 2(1) pc cs top tk in \<open>auto simp: k' e down_effect_def\<close>)
      qed
    next
      case attempt
      have tk: "tok l False (kstack k (cpu k)) = tok l False cs" using top attempt by simp
      from ok show ?thesis
      proof (cases rule: lock_ok_cases)
        case 1
        then have "tok l False cs = 0" using tk by metis
        then show ?thesis
          by (intro lock_ok_taken[where owner = "cpu k"]) (use pr pc 1 top attempt in \<open>auto simp: k' try_down_effect_def\<close>)
      next
        case (2 t0)
        show ?thesis by (rule lock_ok_frame[OF ok]) (use 2(1) pc top tk attempt in \<open>auto simp: k'\<close>)
      qed
    next
      case release
      have h: "holder k l = cpu k" by (rule rel[OF release])
      have tk: "tok l False (kstack k (cpu k)) = tok l False cs" using top release by simp
      from ok show ?thesis
      proof (cases rule: lock_ok_cases)
        case 1
        then show ?thesis using h c0 by simp
      next
        case (2 t0)
        have z: "tok l False (kstack k t) = 0" for t using 2(2)[of t] h c0 by simp
        have "tok l False cs = 0" using tk z by metis
        then show ?thesis
          by (intro lock_ok_taken[where owner = "cpu k"]) (use pr pc 2(1) top release z in \<open>auto simp: k'\<close>)
      qed
    qed
  qed
qed

section \<open>No lost wake-ups\<close>

text \<open>The threads that were woken from a semaphore and have yet to look at its value again.\<close>

definition woken :: "kernel \<Rightarrow> ptr \<Rightarrow> ptr set" where
  "woken k s = {t. waits_on (kstack k t) = Some s \<and> t \<notin> set (waiters (semas k s))}"

definition wake_ok :: "kernel \<Rightarrow> ptr \<Rightarrow> bool" where
  "wake_ok k s \<longleftrightarrow> (waiters (semas k s) \<noteq> [] \<longrightarrow> unat (sema_value (semas k s)) \<le> card (woken k s))"

lemma wake_okI: "unat (sema_value (semas k s)) \<le> card (woken k s) \<or> waiters (semas k s) = [] \<or> sema_value (semas k s) = 0 \<Longrightarrow> wake_ok k s"
  by (auto simp: wake_ok_def)

lemma unat_suc_le: "unat ((x :: uint32) + 1) \<le> Suc (unat x)"
  by (metis add.commute le_refl plus_1_eq_Suc unat_1 unat_word_ariths(1) mod_less_eq_dividend)

lemma unat_pred: "(x :: uint32) \<noteq> 0 \<Longrightarrow> unat (x - 1) = unat x - 1"
  by (metis unat_minus_one)

lemma waits_on_stack:
  assumes "no_loop cs" and "\<And>c. c \<in> set new \<Longrightarrow> \<not> (\<exists>s l. c = Sema_down_loop s l)"
  shows "waits_on (new @ cs) = None"
proof -
  have "no_loop new" using assms(2) by (induction new rule: no_loop.induct) auto
  then show ?thesis using assms(1) no_loop_waits[of "new @ cs"] by simp
qed

text \<open>What a step changes of a semaphore, as far as its waiters are concerned.\<close>

lemma effect_wake:
  assumes top: "kstack k (cpu k) = c # cs" and nl: "no_loop cs" and ef: "sync_of k' = effect c (cpu k) v tk nt (sync_of (pop_call k))"
    and nb: "\<And>t fn aux. c = Push_frames t fn aux \<Longrightarrow> kstack k t = [] \<and> t \<noteq> cpu k"
    and t0: "\<And>t. t \<in> set (waiters (semas k s)) \<Longrightarrow> waits_on (kstack k t) = Some s \<and> t \<noteq> cpu k" and d: "distinct (waiters (semas k s))"
    and ok: "wake_ok k s"
  shows "wake_ok k' s"
proof -
  let ?a = "sync_of (pop_call k)"
  have k': "kstack k' = y_stack (effect c (cpu k) v tk nt ?a)" "semas k' = y_sema (effect c (cpu k) v tk nt ?a)"
    using ef by (metis sync_of_simps(1), metis sync_of_simps(2))
  have other: "waits_on (kstack k' t) = waits_on (kstack k t)" if "t \<noteq> cpu k" for t
    using nb that by (cases c) (auto simp: k' down_effect_def try_down_effect_def split: list.splits)
  have me: "waits_on (kstack k' (cpu k)) = None" if "\<not> (\<exists>x. c = Sema_down x) \<and> \<not> (\<exists>x l. c = Sema_down_loop x l)"
    using nl that top nb no_loop_waits[OF nl] by (cases c) (auto simp: k' try_down_effect_def split: list.splits)
  have sub: "woken k s - {cpu k} \<subseteq> woken k' s" if "set (waiters (semas k' s)) \<subseteq> set (waiters (semas k s))"
    using other that unfolding woken_def by auto
  have fin: "finite (woken k s)" "finite (woken k' s)" by simp_all
  have same: "wake_ok k' s" if "waiters (semas k' s) = waiters (semas k s)" "sema_value (semas k' s) \<le> sema_value (semas k s)" "cpu k \<notin> woken k s"
  proof -
    have "woken k s \<subseteq> woken k' s" using sub that by auto
    then have "card (woken k s) \<le> card (woken k' s)" by (rule card_mono[OF fin(2)])
    then show ?thesis using ok that(1,2) unfolding wake_ok_def by (auto simp: word_le_nat_alt)
  qed
  have notw: "cpu k \<notin> woken k s" if "\<not> (\<exists>l. c = Sema_down_loop s l)" using that top by (cases c) (auto simp: woken_def)
  have le: "x - 1 \<le> x" if "x \<noteq> 0" for x :: uint32 using unat_pred[OF that] by (simp add: word_le_nat_alt)
  show ?thesis
  proof (cases "\<exists>l. c = Sema_down_loop s l")
    case True
    then obtain l where c: "c = Sema_down_loop s l" by blast
    show ?thesis
    proof (cases "sema_value (semas k s) = 0")
      case True
      then show ?thesis using c by (intro wake_okI) (simp add: k' down_effect_def)
    next
      case False
      then have s': "semas k' s = (semas k s)\<lparr>sema_value := sema_value (semas k s) - 1\<rparr>" using c by (simp add: k' down_effect_def)
      have "card (woken k s) - 1 \<le> card (woken k s - {cpu k})" by (simp add: card_Diff_singleton_if)
      also have "\<dots> \<le> card (woken k' s)" by (rule card_mono[OF fin(2) sub]) (simp add: s')
      finally show ?thesis using ok False unfolding wake_ok_def s' by (auto simp: unat_pred)
    qed
  next
    case F: False
    show ?thesis
    proof (cases "c = Sema_up s")
      case True
      show ?thesis
      proof (cases "waiters (semas k s)")
        case Nil
        then show ?thesis using True by (intro wake_okI) (simp add: k')
      next
        case (Cons t ts)
        have t: "waits_on (kstack k t) = Some s" "t \<noteq> cpu k" "t \<notin> set ts" using t0[of t] d Cons by auto
        have s': "semas k' s = \<lparr>sema_value = sema_value (semas k s) + 1, waiters = ts\<rparr>" using True Cons by (simp add: k')
        have "x \<in> woken k' s" if "x \<in> woken k s" for x
        proof -
          have "x \<noteq> cpu k" using that notw[OF F] by blast
          then show ?thesis using that other[of x] Cons by (simp add: woken_def s')
        qed
        moreover have "t \<in> woken k' s" using other[of t] t by (simp add: woken_def s')
        ultimately have "insert t (woken k s) \<subseteq> woken k' s" by blast
        then have "card (insert t (woken k s)) \<le> card (woken k' s)" by (rule card_mono[OF fin(2)])
        moreover have "t \<notin> woken k s" using Cons by (simp add: woken_def)
        ultimately have "Suc (card (woken k s)) \<le> card (woken k' s)" by simp
        then show ?thesis using ok unat_suc_le[of "sema_value (semas k s)"] Cons unfolding wake_ok_def s' by auto
      qed
    next
      case False
      have "waiters (semas k' s) = waiters (semas k s) \<and> sema_value (semas k' s) \<le> sema_value (semas k s) \<or> waiters (semas k' s) = [] \<or> sema_value (semas k' s) = 0"
        using F False by (cases c) (auto simp: k' down_effect_def try_down_effect_def le split: list.splits)
      then show ?thesis using same notw[OF F] wake_okI by blast
    qed
  qed
qed

section \<open>Properties of all reachable states\<close>

definition kernel_inv :: "objects \<Rightarrow> kernel \<Rightarrow> bool" where
  "kernel_inv ob k \<longleftrightarrow> sync_inv ob k \<and> (\<forall>l\<in>lks ob. lock_ok k l) \<and> (\<forall>s. wake_ok k s)"

text \<open>A state in which the kernel can start: nobody waits, all locks are free.\<close>

definition started :: "objects \<Rightarrow> kernel \<Rightarrow> bool" where
  "started ob k \<longleftrightarrow> sync_inv ob k \<and> (\<forall>s. waiters (semas k s) = []) \<and>
     (\<forall>l\<in>lks ob. sema_value (semas k (lock_semaphore l)) = 1 \<and> holder k l = NULL \<and> (\<forall>t. \<forall>c\<in>set (kstack k t). neutral l c))"

abbreviation reaches :: "objects \<Rightarrow> kernel \<Rightarrow> kernel \<Rightarrow> bool" where
  "reaches ob \<equiv> (kstep (client_ok ob))\<^sup>*\<^sup>*"

lemma started_inv: "started ob k \<Longrightarrow> kernel_inv ob k"
proof -
  assume s: "started ob k"
  have "lock_ok k l" if "l \<in> lks ob" for l
    using s that neutral_append[of "kstack k t" l "[]" for t] unfolding started_def lock_ok_def by simp
  then show ?thesis using s unfolding started_def kernel_inv_def wake_ok_def by simp
qed

lemma client_neutral: "client_ok ob k c \<Longrightarrow> objects_ok ob k \<Longrightarrow> l \<in> lks ob \<Longrightarrow> neutral l c"
  by (cases c) (auto simp: neutral_def objects_ok_def)

lemma client_no_wait: "client_ok ob k c \<Longrightarrow> waits_on (c # cs) = None"
  by (cases c) auto

lemma kernel_inv_step:
  assumes inv: "kernel_inv ob k" and st: "kstep (client_ok ob) k k'"
  shows "kernel_inv ob k'"
proof -
  have s: "sync_inv ob k" and l: "\<And>l. l \<in> lks ob \<Longrightarrow> lock_ok k l" and w: "\<And>s. wake_ok k s" using inv unfolding kernel_inv_def by blast+
  note i = sync_invD[OF s]
  note o = threads_okD[OF k_invD(1)[OF i(1)]]
  have s': "sync_inv ob k'" by (rule kstep_inv[OF s st])
  have push: "lock_ok k' x" "wake_ok k' y"
    if "\<And>c. c \<in> set new \<Longrightarrow> neutral x c" "kstack k' = (kstack k)(cpu k := new @ kstack k (cpu k))" "semas k' = semas k" "holder k' = holder k"
      "x \<in> lks ob" "waits_on (new @ kstack k (cpu k)) = waits_on (kstack k (cpu k))" for new x y
  proof -
    note n = neutral_append[of new x, OF that(1)]
    show "lock_ok k' x" by (rule lock_ok_frame[OF l[OF that(5)]]) (use that n in auto)
    have "waits_on (kstack k' t) = waits_on (kstack k t)" for t using that(2,6) by simp
    then have "woken k' y = woken k y" using that(3) by (simp add: woken_def)
    then show "wake_ok k' y" using w[of y] that(3) by (simp add: wake_ok_def)
  qed
  from st show ?thesis
  proof cases
    case (call c cs)
    have st: "steps_to k c k'" by (rule exec_step[OF s call])
    obtain nt where ef: "sync_of k' = effect c (cpu k) (level k) (tid_lock k) nt (sync_of (pop_call k))" using st unfolding steps_to_def by blast
    have "lock_ok k' x" if "x \<in> lks ob" for x
      by (rule lock_ok_step[OF s call(1) st l[OF that] that]) (use step_lock_release(2)[OF i(1)] call in blast)
    moreover have "wake_ok k' y" for y
    proof (rule effect_wake[OF call(1) _ ef _ _ o(3) w])
      show "no_loop cs" using o(10)[of "cpu k"] call(1) by simp
      show "kstack k t = [] \<and> t \<noteq> cpu k" if "c = Push_frames t fn aux" for t fn aux
        using o(6)[of t "cpu k"] call(1) that k_invD(3)[OF i(1)] by auto
      show "waits_on (kstack k t) = Some y \<and> t \<noteq> cpu k" if "t \<in> set (waiters (semas k y))" for t
        using o(4)[of t y] that k_invD(3)[OF i(1)] by auto
    qed
    ultimately show ?thesis using s' unfolding kernel_inv_def by blast
  next
    case (client cs c)
    have "waits_on ([c] @ kstack k (cpu k)) = waits_on (kstack k (cpu k))" using client_no_wait[OF client(3)] client(2) by simp
    then have "lock_ok k' x" "wake_ok k' y" if "x \<in> lks ob" for x y
      using push[of "[c]"] that client(1) client_neutral[OF client(3) i(2)] by (auto simp: fun_eq_iff)
    moreover have "tid_lock k \<in> lks ob" using i(2) unfolding objects_ok_def by blast
    ultimately show ?thesis using s' unfolding kernel_inv_def by blast
  next
    case (return cs)
    have nl: "waits_on cs = None" using o(10)[of "cpu k"] return(2) no_loop_waits by auto
    have "lock_ok k' x" if "x \<in> lks ob" for x
      by (rule lock_ok_frame[OF l[OF that]]) (use return in \<open>auto split: if_splits\<close>)
    moreover have "wake_ok k' y" for y
    proof -
      have "woken k' y = woken k y" using return nl by (auto simp: woken_def)
      then show ?thesis using w[of y] return(1) by (simp add: wake_ok_def)
    qed
    ultimately show ?thesis using s' unfolding kernel_inv_def by blast
  next
    case timer
    obtain new where t: "semas k' = semas k" "holder k' = holder k" "set new \<subseteq> {Intr_set_level INTR_OFF, Intr_set_level INTR_ON}"
      "kstack k' = (kstack k)(cpu k := new @ kstack k (cpu k))"
      using timer_effect[OF i(1) timer] by blast
    have wn: "waits_on (kstack k (cpu k)) = None" using k_invD(5)[OF i(1)] timer(1) by (cases "waits_on (kstack k (cpu k))") auto
    then have "waits_on (new @ kstack k (cpu k)) = waits_on (kstack k (cpu k))" using t(3) by (cases new) auto
    moreover have "neutral x c" if "c \<in> set new" for x c using t(3) that by (auto simp: neutral_def)
    ultimately have "lock_ok k' x" "wake_ok k' y" if "x \<in> lks ob" for x y
      using push(1)[of new x] push(2)[of new x y] t that by blast+
    moreover have "tid_lock k \<in> lks ob" using i(2) unfolding objects_ok_def by blast
    ultimately show ?thesis using s' unfolding kernel_inv_def by blast
  qed
qed

lemma reaches_inv: "reaches ob k0 k \<Longrightarrow> kernel_inv ob k0 \<Longrightarrow> kernel_inv ob k"
  by (induction rule: rtranclp_induct) (auto intro: kernel_inv_step)

subsection \<open>The kernel does not panic\<close>

text \<open>Calls that fail an assertion by the fault of the client.\<close>

fun client_error :: "kernel \<Rightarrow> call \<Rightarrow> bool" where
  "client_error k (Lock_acquire l) \<longleftrightarrow> holder k l = cpu k"
| "client_error k (Lock_try_acquire l) \<longleftrightarrow> holder k l = cpu k"
| "client_error k (Lock_release l) \<longleftrightarrow> holder k l \<noteq> cpu k"
| "client_error k (Cond_wait c l w) \<longleftrightarrow> c = NULL \<or> holder k l \<noteq> cpu k"
| "client_error k (Cond_signal c l) \<longleftrightarrow> c = NULL \<or> l = NULL \<or> holder k l \<noteq> cpu k"
| "client_error k (Cond_broadcast c l) \<longleftrightarrow> c = NULL \<or> l = NULL"
| "client_error k (Thread_create nm prio fn aux) \<longleftrightarrow> fn = NULL \<or> \<not> (PRI_MIN \<le> prio \<and> prio \<le> PRI_MAX)"
| "client_error k (Kernel_thread fn aux) \<longleftrightarrow> fn = NULL"
| "client_error k _ \<longleftrightarrow> False"

lemma schedule_Some: "descheduled k \<Longrightarrow> \<exists>k'. schedule k = Some k'"
  using schedule_switched by blast

lemma down_loop_Some:
  assumes inv: "k_inv k" and top: "kstack k (cpu k) = c # cs" and c: "newborns [c] = []" "\<And>ds. \<not> idle_calls (c # ds)"
    and k1: "threads k1 = threads k" "ready_list k1 = ready_list k" "cpu k1 = cpu k" "idle_thread k1 = idle_thread k" "initial_thread k1 = initial_thread k"
      "pal k1 = pal k" "in_external_intr k1 = in_external_intr k" "level k1 = INTR_OFF" "semas k1 = semas k" "holder k1 = holder k"
      "cond_waiters k1 = cond_waiters k" "kstack k1 = (kstack k)(cpu k := cs)" "addr_idle k1 = addr_idle k" "tid_lock k1 = tid_lock k"
  shows "\<exists>k'. sema_down_loop s l k1 = Some k'"
proof (cases "sema_value (semas k s) = 0")
  case True
  obtain k2 where "sema_down_loop s l k1 = schedule k2" "descheduled k2" by (rule down_blocks[OF inv top c k1 True])
  then show ?thesis using schedule_Some by simp
next
  case False
  then show ?thesis using k1 k_inv_ext[OF inv] by (auto simp: sema_down_loop_def Let_def intr_set_level_eq upd_sema_def)
qed

lemma mk_thread_Some:
  assumes inv: "k_inv k" and "fn \<noteq> NULL" and "PRI_MIN \<le> prio \<and> prio \<le> PRI_MAX"
  shows "\<exists>k'. mk_thread nm prio fn aux (pop_call k) = Some k'"
proof -
  have wf: "palloc_wf (pal k)" using threads_okD(8)[OF k_invD(1)[OF inv]] by (simp add: page_ok_def)
  show ?thesis
    by (cases rule: palloc_page_cases[OF wf, where m = "kmem k"]) (use assms(2,3) in \<open>simp_all add: mk_thread_def init_thread_def\<close>)
qed

lemma create_end_Some:
  assumes inv: "k_inv k" and top: "kstack k (cpu k) = Push_frames t fn aux # cs"
  shows "\<exists>k'. thread_create_end t fn aux (pop_call k) = Some k'"
proof -
  note o = threads_okD[OF k_invD(1)[OF inv]]
  have t: "is_thread k t" "status_of k t = THREAD_BLOCKED" using o(6)[of t "cpu k"] top by auto
  obtain k1 where k1: "mk_frames t fn aux (pop_call k) = Some k1"
    using t(1) by (auto simp: mk_frames_def alloc_frame_def is_thread_def upd_thread_def put_word_def Let_def)
  note m = mk_frames_eq[OF k1]
  have "thread_unblock t (k1\<lparr>kstack := (kstack k1)(t := [Kernel_thread fn aux])\<rparr>) \<noteq> None"
    using thread_unblock_eq[of "k1\<lparr>kstack := (kstack k1)(t := [Kernel_thread fn aux])\<rparr>" t] m o(13) t fun_cong[OF m(1), of t] by simp
  then show ?thesis using k1 by (auto simp: thread_create_end_def)
qed

lemma exec_Some:
  assumes inv: "sync_inv ob k" and top: "kstack k (cpu k) = c # cs" and ok: "\<not> client_error k c"
  shows "\<exists>k'. exec c (pop_call k) = Some k'"
proof -
  note i = sync_invD[OF inv]
  note o = threads_okD[OF k_invD(1)[OF i(1)]]
  have tc: "thread_current (pop_call k) = Some (cpu k)" using thread_current_eq[OF i(1)] thread_current_cong[of "pop_call k" k] by simp
  have ck: "call_ok ob (addr_idle k) c" using i(5)[of c "cpu k"] top by simp
  have nn: "\<And>s. s \<in> semas_of ob \<Longrightarrow> s \<noteq> NULL" "NULL \<notin> lks ob" using i(2) unfolding objects_ok_def by blast+
  have pl: "s \<noteq> NULL" if "s \<in> plain ob" for s using nn(1)[of s] that by (simp add: semas_of_def)
  have cn: "w \<noteq> NULL" if "w \<in> conds ob" for w using nn(1)[of w] that by (simp add: semas_of_def)
  have lk: "lock_semaphore x \<noteq> NULL" if "x \<in> lks ob" for x using nn(1)[of "lock_semaphore x"] that by (simp add: semas_of_def)
  note ext = k_inv_ext[OF i(1)]
  note held = held_eq[OF i(1)]
  show ?thesis
  proof (cases c)
    case (Sema_down s)
    have "\<exists>k'. sema_down_loop s (level k) ((pop_call k)\<lparr>level := INTR_OFF\<rparr>) = Some k'"
      by (rule down_loop_Some[OF i(1) top]) (use Sema_down top in simp_all)
    then show ?thesis using Sema_down ck nn(1)[of s] ext by (simp add: sema_down_def intr_context_def intr_disable_def intr_get_level_def)
  next
    case (Sema_down_loop s l)
    have "level k = INTR_OFF" using k_invD(5)[OF i(1)] top Sema_down_loop by simp
    then have "\<exists>k'. sema_down_loop s l (pop_call k) = Some k'" by (intro down_loop_Some[OF i(1) top]) (use Sema_down_loop top in simp_all)
    then show ?thesis using Sema_down_loop by simp
  next
    case (Sema_up s)
    show ?thesis
    proof (cases "waiters (semas k s)")
      case Nil
      then show ?thesis using Sema_up ck nn(1)[of s] ext by (simp add: sema_up_def intr_disable_def intr_set_level_eq Let_def upd_sema_def)
    next
      case (Cons t ts)
      have "is_thread k t" "status_of k t = THREAD_BLOCKED" using o(4)[of t s] Cons by auto
      then show ?thesis using Sema_up Cons ck nn(1)[of s] ext
        by (simp add: sema_up_def intr_disable_def intr_set_level_eq thread_unblock_eq Let_def upd_sema_def)
    qed
  next
    case Thread_yield
    have nl: "no_loop cs" using o(10)[of "cpu k"] top by simp
    obtain k2 where "descheduled k2" "thread_yield (pop_call k) = schedule k2"
      by (rule yield_descheduled[OF i(1), where ?k1.0 = "pop_call k" and ds = cs])
        (use top nl o(12,13) Thread_yield newborns_append[of "[Thread_yield]" cs] in auto)
    then show ?thesis using schedule_Some Thread_yield by simp
  next
    case (Thread_create nm prio fn aux)
    then show ?thesis using mk_thread_Some[OF i(1), of fn prio nm aux] ok by simp
  next
    case (Push_frames t fn aux)
    then show ?thesis using create_end_Some[OF i(1)] top by simp
  next
    case Idle_loop
    define k2 where "k2 = set_status (cpu k) THREAD_BLOCKED (push_calls (cpu k) [Idle_wake, Idle_loop] ((pop_call k)\<lparr>level := INTR_OFF\<rparr>))"
    have nl: "no_loop cs" using o(10)[of "cpu k"] top by simp
    have "descheduled k2"
      by (rule deschedule[OF i(1), where st = THREAD_BLOCKED and cs = "[Idle_wake, Idle_loop] @ cs"])
        (use top nl o(5)[of "cpu k"] Idle_loop in \<open>auto simp: k2_def fun_eq_iff\<close>)
    moreover have "thread_current (push_calls (cpu k) [Idle_wake, Idle_loop] ((pop_call k)\<lparr>level := INTR_OFF\<rparr>)) = Some (cpu k)"
      using tc thread_current_cong[of "push_calls (cpu k) [Idle_wake, Idle_loop] ((pop_call k)\<lparr>level := INTR_OFF\<rparr>)" "pop_call k"] by simp
    ultimately show ?thesis using schedule_Some ext Idle_loop
      by (simp add: idle_loop_def intr_disable_def thread_block_def intr_context_def intr_get_level_def k2_def)
  next
    case Thread_exit
    define k2 where "k2 = set_status (cpu k) THREAD_DYING ((pop_call k)\<lparr>level := INTR_OFF, kstack := (kstack (pop_call k))(cpu k := [])\<rparr>)"
    have "descheduled k2"
      by (rule deschedule[OF i(1), where st = THREAD_DYING and cs = "[]"]) (use top o(12) Thread_exit in \<open>auto simp: k2_def fun_eq_iff\<close>)
    then show ?thesis using schedule_Some tc ext Thread_exit by (simp add: thread_exit_end_def intr_disable_def intr_context_def k2_def)
  qed (use ok ck tc ext held nn pl cn lk in \<open>auto simp: intr_set_level_eq sema_try_down_def lock_acquire_def lock_try_acquire_def lock_release_def set_holder_def
      cond_wait_def cond_signal_def cond_broadcast_def sema_init_def kernel_thread_def intr_enable_def intr_context_def intr_disable_def upd_sema_def Let_def split: list.splits\<close>)
qed

lemma timer_Some:
  assumes inv: "k_inv k" and on: "level k = INTR_ON"
  shows "\<exists>k'. timer_intr k = Some k'"
proof -
  note i = k_invD[OF inv]
  note o = threads_okD[OF i(1)]
  let ?ds = "Intr_set_level INTR_ON # kstack k (cpu k)"
  have wn: "waits_on (kstack k (cpu k)) = None" using i(5) on by (cases "waits_on (kstack k (cpu k))") auto
  have nl: "no_loop (kstack k (cpu k))" using o(10)[of "cpu k"] wn by (cases "kstack k (cpu k)" rule: no_loop.cases) auto
  define k0 where "k0 = (push_calls (cpu k) [Intr_set_level INTR_ON] (k\<lparr>level := INTR_OFF\<rparr>))\<lparr>in_external_intr := True, yield_on_return := False, ticks := ticks k + 1\<rparr>"
  have tc: "thread_current k0 = Some (cpu k)" using thread_current_eq[OF inv] thread_current_cong[of k0 k] by (simp add: k0_def)
  have ic: "in_external_intr k0" by (simp add: k0_def)
  have "thread_tick k0 \<noteq> None" using tc ic by (simp add: thread_tick_def Let_def intr_yield_on_return_def intr_context_def)
  then obtain k1 where k1: "thread_tick k0 = Some k1" by blast
  obtain a b c d y where e: "k1 = k0\<lparr>idle_ticks := a, user_ticks := b, kernel_ticks := c, thread_ticks := d, yield_on_return := y\<rparr>"
    by (rule thread_tick_eq[OF k1])
  let ?k = "k1\<lparr>in_external_intr := False\<rparr>"
  obtain k2 where k2: "descheduled k2" "thread_yield ?k = schedule k2"
    by (rule yield_descheduled[OF inv, where ?k1.0 = ?k and ds = ?ds]) (use nl o(12) in \<open>auto simp: e k0_def fun_eq_iff\<close>)
  have t: "timer_intr k = (if yield_on_return ?k then thread_yield ?k else Some ?k)"
  proof -
    have "timer_interrupt ((push_calls (cpu k) [Intr_set_level (level k)] (k\<lparr>level := INTR_OFF\<rparr>))\<lparr>in_external_intr := True, yield_on_return := False\<rparr>) = Some k1"
      using k1 on by (simp add: timer_interrupt_def k0_def push_calls_def)
    moreover have "level k1 = INTR_OFF" "in_external_intr k1" by (simp_all add: e k0_def)
    ultimately show ?thesis using o(13) by (simp add: timer_intr_def intr_handler_external_def Let_def intr_get_level_def intr_context_def)
  qed
  show ?thesis unfolding t using schedule_Some[OF k2(1)] k2(2) by simp
qed

subsection \<open>Bounded waiting\<close>

text \<open>A run in which thread \<open>t\<close> does not get the processor, with the number of times another thread got it.\<close>

inductive waits_run :: "objects \<Rightarrow> ptr \<Rightarrow> kernel \<Rightarrow> nat \<Rightarrow> kernel \<Rightarrow> bool" for ob t k where
  start: "waits_run ob t k 0 k"
| step: "waits_run ob t k n k1 \<Longrightarrow> kstep (client_ok ob) k1 k2 \<Longrightarrow> cpu k2 \<noteq> t \<Longrightarrow>
    waits_run ob t k (if cpu k2 = cpu k1 then n else Suc n) k2"

lemma kstep_queue:
  assumes "sync_inv ob k" and "kstep (client_ok ob) k k'"
  shows "queue_step k k'"
  using assms(2)
proof cases
  case (call c cs)
  then show ?thesis using exec_step[OF assms(1)] unfolding steps_to_def by blast
next
  case (client cs c)
  then show ?thesis using queue_stay[of k' k "[]"] by simp
next
  case (return cs)
  then show ?thesis using queue_stay[of k' k "[]"] by simp
next
  case timer
  then show ?thesis using timer_effect[OF sync_invD(1)[OF assms(1)]] by blast
qed

lemma waits_run_bound:
  assumes "waits_run ob t k n k'" and "sync_inv ob k" and "ready_list k = us @ t # vs"
  shows "sync_inv ob k' \<and> (\<exists>us' vs'. ready_list k' = us' @ t # vs' \<and> n + length us' \<le> length us)"
  using assms(1)
proof induction
  case start
  then show ?case using assms(2,3) by auto
next
  case (step n k1 k2)
  then obtain us' vs' where r: "ready_list k1 = us' @ t # vs'" "n + length us' \<le> length us" and s: "sync_inv ob k1" by blast
  have s2: "sync_inv ob k2" by (rule kstep_inv[OF s step.hyps(2)])
  obtain new where "cpu k2 = cpu k1 \<and> ready_list k2 = ready_list k1 @ new \<or>
      cpu k2 = (case ready_list k1 @ new of [] \<Rightarrow> idle_thread k1 | t # _ \<Rightarrow> t) \<and> ready_list k2 = tl (ready_list k1 @ new)"
    using kstep_queue[OF s step.hyps(2)] unfolding queue_step_def by blast
  then show ?case
  proof
    assume "cpu k2 = cpu k1 \<and> ready_list k2 = ready_list k1 @ new"
    then show ?thesis using s2 r by auto
  next
    assume q: "cpu k2 = (case ready_list k1 @ new of [] \<Rightarrow> idle_thread k1 | t # _ \<Rightarrow> t) \<and> ready_list k2 = tl (ready_list k1 @ new)"
    obtain u us'' where u: "us' = u # us''" using q r(1) step.hyps(3) by (cases us') auto
    then have "ready_list k2 = us'' @ t # (vs' @ new)" using q r(1) by simp
    then show ?thesis using s2 r(2) u by auto
  qed
qed

subsection \<open>Running a schedule\<close>

text \<open>\<open>play n ops k\<close>: up to \<open>n\<close> steps without interrupts, in which the client code of the running threads makes the calls \<open>ops\<close> one after the other.\<close>

fun play :: "nat \<Rightarrow> call list \<Rightarrow> kernel \<Rightarrow> kernel option" where
  "play 0 ops k = Some k"
| "play (Suc n) ops k = (case kstack k (cpu k) of [] \<Rightarrow> None
     | c # _ \<Rightarrow> if c = Client then (case ops of [] \<Rightarrow> Some k | x # ops' \<Rightarrow> play n ops' (push_calls (cpu k) [x] k))
                else (case exec c (pop_call k) of None \<Rightarrow> None | Some k' \<Rightarrow> play n ops k'))"

lemma play_reaches:
  assumes "play n ops k = Some k'" and "\<And>k c. c \<in> set ops \<Longrightarrow> client_ok ob k c"
  shows "reaches ob k k'"
  using assms
proof (induction n ops k rule: play.induct)
  case (1 ops k)
  then show ?case by simp
next
  case (2 n ops k)
  obtain c cs where s: "kstack k (cpu k) = c # cs" using "2.prems"(1) by (cases "kstack k (cpu k)") auto
  show ?case
  proof (cases "c = Client")
    case True
    show ?thesis
    proof (cases ops)
      case Nil
      then show ?thesis using "2.prems"(1) s True by simp
    next
      case (Cons x ops')
      have "kstep (client_ok ob) k (push_calls (cpu k) [x] k)" by (rule kstep.client) (use s True Cons "2.prems"(2) in simp_all)
      moreover have "reaches ob (push_calls (cpu k) [x] k) k'" using "2.IH"(1)[OF s True Cons] "2.prems" s True Cons by simp
      ultimately show ?thesis by (rule converse_rtranclp_into_rtranclp)
    qed
  next
    case False
    obtain k1 where k1: "exec c (pop_call k) = Some k1" using "2.prems"(1) s False by (auto split: option.splits)
    have "kstep (client_ok ob) k k1" by (rule kstep.call[OF s False k1])
    moreover have "reaches ob k1 k'" using "2.IH"(2)[OF s False k1] "2.prems" s False k1 by simp
    ultimately show ?thesis by (rule converse_rtranclp_into_rtranclp)
  qed
qed

text \<open>A kernel with the initial thread running, the idle thread blocked and two more threads ready.\<close>

definition example_thread :: "thread_status \<Rightarrow> thread" where
  "example_thread st = \<lparr>t_tid = 1, t_status = st, t_exit_code = -1, t_name = [], t_stack = 0, t_priority = 31, t_children = [], t_parent = 0,
     t_pagedir = 0, t_magic = THREAD_MAGIC\<rparr>"

definition example_kernel :: kernel where
  "example_kernel = \<lparr>threads = (\<lambda>_. (example_thread THREAD_DEAD)\<lparr>t_magic := 0\<rparr>)(0xc000e000 := example_thread THREAD_RUNNING,
       0xc0100000 := example_thread THREAD_BLOCKED, 0xc0101000 := example_thread THREAD_READY, 0xc0102000 := example_thread THREAD_READY),
     ready_list = [0xc0101000, 0xc0102000], cpu = 0xc000e000, idle_thread = 0xc0100000, initial_thread = 0xc000e000, level = INTR_ON,
     in_external_intr = False, yield_on_return = False, thread_ticks = 0, idle_ticks = 0, kernel_ticks = 0, user_ticks = 0, ticks = 0, next_tid = 5,
     semas = (\<lambda>_. \<lparr>sema_value = 0, waiters = []\<rparr>)(0xc0001004 := \<lparr>sema_value = 1, waiters = []\<rparr>, 0xc0001044 := \<lparr>sema_value = 1, waiters = []\<rparr>),
     holder = (\<lambda>_. 0), cond_waiters = (\<lambda>_. []),
     pal = example_pools\<lparr>kernel_pool := \<lparr>used_map = \<lparr>bit_cnt = 4, bits = [7]\<rparr>, base = 0xc0100000\<rparr>\<rparr>, kmem = (\<lambda>_. 0),
     kstack = (\<lambda>_. [])(0xc000e000 := [Client, Thread_exit], 0xc0100000 := [Idle_wake, Idle_loop, Thread_exit],
       0xc0101000 := [Client, Thread_exit], 0xc0102000 := [Client, Thread_exit]),
     tid_lock = 0xc0001000, addr_idle = 0xc0007000, addr_kernel_thread = 0xc0007100, addr_switch_entry = 0xc0007200\<rparr>"

definition example_objects :: objects where
  "example_objects = \<lparr>plain = {0xc0001080}, lks = {0xc0001000, 0xc0001040}, conds = {0xc0101f00}, pages = {786688..<786692}\<rparr>"

lemma example_is_thread: "is_thread example_kernel t \<longleftrightarrow> t = 0xc000e000 \<or> t = 0xc0100000 \<or> t = 0xc0101000 \<or> t = 0xc0102000"
  by (auto simp: is_thread_def example_kernel_def example_thread_def)

lemma example_pal: "palloc_wf (pal example_kernel)" "{786688, 786689, 786690} \<subseteq> palloc_used (pal example_kernel)"
  "pool_pages (kernel_pool (pal example_kernel)) = {786688..<786692}"
proof -
  show "palloc_wf (pal example_kernel)"
    by (simp add: example_kernel_def example_pools_def palloc_wf_def pool_wf_def bitmap_wf_def elem_cnt_def DIV_ROUND_UP_def pg_ofs_def
      PGMASK_def BITMASK_def is_kernel_vaddr_def pool_pages_def pg_no_div)
  show "pool_pages (kernel_pool (pal example_kernel)) = {786688..<786692}" by (simp add: example_kernel_def pool_pages_def pg_no_div)
  have "\<exists>i. 786688 + n = 786688 + i \<and> i < 4 \<and> bitmap_abs \<lparr>bit_cnt = 4, bits = [7]\<rparr> ! i" if "n < 3" for n :: nat
  proof -
    have "bitmap_abs \<lparr>bit_cnt = 4, bits = [7]\<rparr> = [True, True, True, False]" by code_simp
    then show ?thesis using that by (intro exI[of _ n]) (auto simp: less_Suc_eq numeral_3_eq_3)
  qed
  from this[of 0] this[of 1] this[of 2] show "{786688, 786689, 786690} \<subseteq> palloc_used (pal example_kernel)"
    by (auto simp: example_kernel_def palloc_used_def pool_used_def pg_no_div)
qed

lemma example_newborns: "newborns (kstack example_kernel u) = []" and example_no_loop: "no_loop (tl (kstack example_kernel u))"
  by (simp_all add: example_kernel_def)

lemma example_threads_ok: "threads_ok example_kernel"
proof (rule threads_okI)
  show "t \<in> set (ready_list example_kernel) \<longleftrightarrow> is_thread example_kernel t \<and> status_of example_kernel t = THREAD_READY \<and> t \<noteq> idle_thread example_kernel" for t
    unfolding example_is_thread by (auto simp: example_kernel_def example_thread_def)
  show "t \<in> set (waiters (semas example_kernel s)) \<longleftrightarrow>
      is_thread example_kernel t \<and> status_of example_kernel t = THREAD_BLOCKED \<and> waits_on (kstack example_kernel t) = Some s" for s t
    unfolding example_is_thread by (auto simp: example_kernel_def example_thread_def)
  show "page_ok example_kernel"
    unfolding page_ok_def example_is_thread using example_pal
    by (auto simp: pg_no_div pg_ofs_def PGMASK_def BITMASK_def) (simp_all add: example_kernel_def pg_no_div)
  show "kstack example_kernel t = []" if "gone example_kernel t" for t
    using that unfolding gone_def example_is_thread by (auto simp: example_kernel_def example_thread_def)
  show "is_thread example_kernel (idle_thread example_kernel)" unfolding example_is_thread by (simp add: example_kernel_def)
  show "distinct (waiters (semas example_kernel s))" for s by (simp add: example_kernel_def)
qed (simp_all add: example_newborns example_no_loop, simp_all add: example_kernel_def)

lemma example_started: "started example_objects example_kernel"
proof -
  have "k_inv example_kernel"
    using example_threads_ok unfolding k_inv_def example_is_thread by (auto simp: example_kernel_def example_thread_def)
  moreover have "objects_ok example_objects example_kernel"
    unfolding objects_ok_def example_pal by (auto simp: example_objects_def semas_of_def lock_semaphore_def pg_no_div) (simp_all add: example_kernel_def pg_ofs_mod)
  moreover have "calls_ok example_objects example_kernel" "conds_ok example_objects example_kernel"
    by (auto simp: calls_ok_def conds_ok_def example_kernel_def example_objects_def)
  ultimately have inv: "sync_inv example_objects example_kernel" unfolding sync_inv_def by blast
  have "neutral l c" if "c \<in> set (kstack example_kernel t)" for l c t
  proof -
    have "set (kstack example_kernel t) \<subseteq> {Client, Thread_exit, Idle_wake, Idle_loop}" by (auto simp: example_kernel_def)
    then show ?thesis using that by (auto simp: neutral_def)
  qed
  moreover have "waiters (semas example_kernel s) = []" for s by (simp add: example_kernel_def)
  moreover have "sema_value (semas example_kernel (lock_semaphore l)) = 1 \<and> holder example_kernel l = NULL" if "l \<in> lks example_objects" for l
    using that by (auto simp: example_objects_def lock_semaphore_def example_kernel_def)
  ultimately show ?thesis using inv unfolding started_def by blast
qed

section \<open>The theorems\<close>

text \<open>
  C3. Whatever calls the threads make and whenever the timer interrupts: exactly one thread is running; the ready list holds exactly
  the ready threads other than the idle thread, each once; and the wait list of a semaphore holds exactly the threads blocked in
  \<open>sema_down\<close> on it, each once. So no list element of a thread is ever in two lists.
\<close>

theorem scheduler_invariant:
  assumes "started ob k0" and "reaches ob k0 k"
  shows "(\<forall>t. is_thread k t \<and> status_of k t = THREAD_RUNNING \<longleftrightarrow> t = cpu k) \<and>
    distinct (ready_list k) \<and> (\<forall>t. t \<in> set (ready_list k) \<longleftrightarrow> is_thread k t \<and> status_of k t = THREAD_READY \<and> t \<noteq> idle_thread k) \<and>
    (\<forall>s. distinct (waiters (semas k s))) \<and>
    (\<forall>s t. t \<in> set (waiters (semas k s)) \<longleftrightarrow> is_thread k t \<and> status_of k t = THREAD_BLOCKED \<and> waits_on (kstack k t) = Some s)"
proof -
  have i: "k_inv k" using reaches_inv[OF assms(2) started_inv[OF assms(1)]] unfolding kernel_inv_def sync_inv_def by blast
  note t = threads_okD[OF k_invD(1)[OF i]]
  have "is_thread k u \<and> status_of k u = THREAD_RUNNING \<longleftrightarrow> u = cpu k" for u using k_invD(2-4)[OF i] by blast
  then show ?thesis using t(1-4) by blast
qed

text \<open>
  C2. Mutual exclusion: in every interleaving of threads that use a lock only through the lock functions, at most one thread is inside
  the lock, from the decrement of its semaphore in \<open>lock_acquire\<close> or \<open>lock_try_acquire\<close> until the increment in \<open>lock_release\<close>,
  including waits on condition variables.
\<close>

theorem lock_mutual_exclusion:
  assumes "started ob k0" and "reaches ob k0 k" and "l \<in> lks ob" and "inside k l t" and "inside k l u"
  shows "t = u"
  using lock_ok_exclusive[OF _ assms(4,5)] reaches_inv[OF assms(2) started_inv[OF assms(1)]] assms(3) unfolding kernel_inv_def by blast

text \<open>
  C8. Semaphores lose no wake-ups: whenever threads wait for a semaphore whose value is positive, some thread that was woken is running or
  ready and will look at the value next.
\<close>

theorem sema_no_lost_wakeup:
  assumes "started ob k0" and "reaches ob k0 k" and "waiters (semas k s) \<noteq> []" and "sema_value (semas k s) \<noteq> 0"
  shows "\<exists>t. waits_on (kstack k t) = Some s \<and> (t = cpu k \<or> t \<in> set (ready_list k))"
proof -
  have inv: "kernel_inv ob k" by (rule reaches_inv[OF assms(2) started_inv[OF assms(1)]])
  then have i: "k_inv k" and w: "wake_ok k s" unfolding kernel_inv_def sync_inv_def by blast+
  note o = threads_okD[OF k_invD(1)[OF i]]
  have "0 < card (woken k s)" using w assms(3,4) unfolding wake_ok_def by (meson gr0I le_0_eq unat_0_iff order_less_le_trans)
  then obtain t where t: "waits_on (kstack k t) = Some s" "t \<notin> set (waiters (semas k s))" by (auto simp: card_gt_0_iff woken_def)
  have "\<not> gone k t" using o(9)[of t] t(1) by auto
  then have "is_thread k t" "status_of k t \<noteq> THREAD_DYING" "status_of k t \<noteq> THREAD_DEAD" by (simp_all add: gone_def)
  moreover have "status_of k t \<noteq> THREAD_BLOCKED" using o(4)[of t s] t calculation(1) by blast
  moreover have "t \<noteq> idle_thread k" using o(14) t(1) by auto
  ultimately have "t = cpu k \<or> t \<in> set (ready_list k)" using o(2)[of t] k_invD(4)[OF i, of t] by (cases "status_of k t") auto
  then show ?thesis using t(1) by blast
qed

text \<open>
  C9. The kernel makes progress: in every reachable state the next call of the running thread returns without a failed assertion,
  unless the client broke the rules for locks, condition variables or thread creation, and a timer interrupt is handled without one. So in particular
  the scheduler always finds a thread to switch to.
\<close>

theorem kernel_progress:
  assumes "started ob k0" and "reaches ob k0 k"
  shows "(\<forall>c cs. kstack k (cpu k) = c # cs \<longrightarrow> \<not> client_error k c \<longrightarrow> (\<exists>k'. exec c (pop_call k) = Some k')) \<and>
    (level k = INTR_ON \<longrightarrow> (\<exists>k'. timer_intr k = Some k'))"
proof -
  have s: "sync_inv ob k" using reaches_inv[OF assms(2) started_inv[OF assms(1)]] unfolding kernel_inv_def by blast
  then have "k_inv k" by (rule sync_invD(1))
  then show ?thesis using exec_Some[OF s] timer_Some by blast
qed

text \<open>
  C10. Round robin scheduling: a ready thread gets the processor after at most as many switches as there are threads before it on the
  ready list.
\<close>

theorem round_robin:
  assumes "started ob k0" and "reaches ob k0 k" and "ready_list k = us @ t # vs" and "waits_run ob t k n k'"
  shows "n \<le> length us \<and> t \<in> set (ready_list k')"
proof -
  have "sync_inv ob k" using reaches_inv[OF assms(2) started_inv[OF assms(1)]] unfolding kernel_inv_def by blast
  from waits_run_bound[OF assms(4) this assms(3)] show ?thesis by auto
qed

subsection \<open>Instances\<close>

abbreviation example_sema :: ptr where "example_sema \<equiv> 0xc0001080"

definition example_blocked :: kernel where
  "example_blocked = the (play 6 [Sema_down example_sema, Sema_down example_sema, Sema_up example_sema] example_kernel)"

lemma example_blocked: "play 6 [Sema_down example_sema, Sema_down example_sema, Sema_up example_sema] example_kernel = Some example_blocked"
proof -
  have "play 6 [Sema_down example_sema, Sema_down example_sema, Sema_up example_sema] example_kernel \<noteq> None" by code_simp
  then show ?thesis by (simp add: example_blocked_def)
qed

lemma example_blocked_facts: "waiters (semas example_blocked example_sema) = [0xc0101000]" "sema_value (semas example_blocked example_sema) = 1"
  "ready_list example_blocked = [0xc000e000]" "cpu example_blocked = 0xc0102000"
  by code_simp+

lemma example_reaches: "reaches example_objects example_kernel example_blocked"
  by (rule play_reaches[OF example_blocked]) (auto simp: example_objects_def)

theorem scheduler_invariant_witness:
  "started example_objects example_kernel \<and> reaches example_objects example_kernel example_blocked \<and>
   {t. is_thread example_blocked t \<and> status_of example_blocked t = THREAD_RUNNING} = {0xc0102000} \<and>
   {t. is_thread example_blocked t \<and> status_of example_blocked t = THREAD_BLOCKED \<and> waits_on (kstack example_blocked t) = Some example_sema} = {0xc0101000}"
proof -
  note s = scheduler_invariant[OF example_started example_reaches]
  have r: "(is_thread example_blocked t \<and> status_of example_blocked t = THREAD_RUNNING) = (t = 0xc0102000)" for t
    using s unfolding example_blocked_facts by blast
  have w: "(is_thread example_blocked t \<and> status_of example_blocked t = THREAD_BLOCKED \<and> waits_on (kstack example_blocked t) = Some example_sema) =
      (t \<in> set (waiters (semas example_blocked example_sema)))" for t
    using s by blast
  show ?thesis using example_started example_reaches unfolding r w example_blocked_facts by auto
qed

text \<open>The initial thread holds a lock, and another thread waits for it.\<close>

abbreviation example_lock :: ptr where "example_lock \<equiv> 0xc0001040"

definition example_locked :: kernel where
  "example_locked = the (play 9 [Lock_acquire example_lock, Thread_yield, Lock_acquire example_lock] example_kernel)"

lemma example_locked: "play 9 [Lock_acquire example_lock, Thread_yield, Lock_acquire example_lock] example_kernel = Some example_locked"
proof -
  have "play 9 [Lock_acquire example_lock, Thread_yield, Lock_acquire example_lock] example_kernel \<noteq> None" by code_simp
  then show ?thesis by (simp add: example_locked_def)
qed

lemma example_locked_facts: "holder example_locked example_lock = 0xc000e000" "waiters (semas example_locked (lock_semaphore example_lock)) = [0xc0101000]"
  "cpu example_locked = 0xc0102000"
  by code_simp+

theorem lock_mutual_exclusion_witness:
  "started example_objects example_kernel \<and> reaches example_objects example_kernel example_locked \<and>
   waiters (semas example_locked (lock_semaphore example_lock)) = [0xc0101000] \<and> {t. inside example_locked example_lock t} = {0xc000e000}"
proof -
  have r: "reaches example_objects example_kernel example_locked"
    by (rule play_reaches[OF example_locked]) (auto simp: example_objects_def)
  have l: "example_lock \<in> lks example_objects" by (simp add: example_objects_def)
  have i: "inside example_locked example_lock 0xc000e000" by (simp add: inside_def example_locked_facts)
  have "t = 0xc000e000" if "inside example_locked example_lock t" for t by (rule lock_mutual_exclusion[OF example_started r l that i])
  then have "{t. inside example_locked example_lock t} = {0xc000e000}" using i by blast
  then show ?thesis using example_started r example_locked_facts(2) by blast
qed

theorem sema_no_lost_wakeup_witness:
  "started example_objects example_kernel \<and> reaches example_objects example_kernel example_blocked \<and>
   waiters (semas example_blocked example_sema) = [0xc0101000] \<and> sema_value (semas example_blocked example_sema) = 1 \<and>
   (\<exists>t. waits_on (kstack example_blocked t) = Some example_sema \<and> (t = 0xc0102000 \<or> t \<in> {0xc000e000}))"
  using sema_no_lost_wakeup[OF example_started example_reaches, of example_sema] example_started example_reaches
  unfolding example_blocked_facts by simp

definition example_yielding :: kernel where
  "example_yielding = push_calls (cpu example_kernel) [Thread_yield] example_kernel"

theorem kernel_progress_witness:
  "started example_objects example_kernel \<and> reaches example_objects example_kernel example_yielding \<and>
   (\<exists>k'. exec Thread_yield (pop_call example_yielding) = Some k') \<and> (\<exists>k'. timer_intr example_yielding = Some k')"
proof -
  have s: "kstack example_kernel (cpu example_kernel) = [Client, Thread_exit]" "level example_kernel = INTR_ON" by (simp_all add: example_kernel_def)
  have "kstep (client_ok example_objects) example_kernel example_yielding"
    unfolding example_yielding_def by (rule kstep.client[OF s(1)]) simp
  then have r: "reaches example_objects example_kernel example_yielding" by (rule r_into_rtranclp)
  have y: "kstack example_yielding (cpu example_yielding) = Thread_yield # [Client, Thread_exit]" "level example_yielding = INTR_ON"
    using s by (simp_all add: example_yielding_def)
  have n: "\<not> client_error example_yielding Thread_yield" by simp
  show ?thesis using kernel_progress[OF example_started r] example_started r y n by blast
qed

theorem round_robin_witness:
  "started example_objects example_kernel \<and> ready_list example_kernel = [0xc0101000] @ 0xc0102000 # [] \<and>
   (\<exists>k'. waits_run example_objects 0xc0102000 example_kernel 1 k' \<and> 0xc0102000 \<in> set (ready_list k'))"
proof -
  define k1 where "k1 = push_calls (cpu example_kernel) [Sema_down example_sema] example_kernel"
  have s: "kstack example_kernel (cpu example_kernel) = [Client, Thread_exit]" "cpu example_kernel = 0xc000e000"
    and r: "ready_list example_kernel = [0xc0101000] @ 0xc0102000 # []" by (simp_all add: example_kernel_def)
  have "kstep (client_ok example_objects) example_kernel k1"
    unfolding k1_def by (rule kstep.client[OF s(1)]) (simp add: example_objects_def)
  from waits_run.step[OF waits_run.start this, of "0xc0102000"] have 1: "waits_run example_objects 0xc0102000 example_kernel 0 k1"
    using s(2) by (simp add: k1_def)
  define k2 where "k2 = the (exec (Sema_down example_sema) (pop_call k1))"
  have e: "exec (Sema_down example_sema) (pop_call k1) \<noteq> None" "cpu k2 = 0xc0101000" unfolding k2_def k1_def by code_simp+
  have "kstep (client_ok example_objects) k1 k2"
  proof (rule kstep.call)
    show "kstack k1 (cpu k1) = Sema_down example_sema # [Client, Thread_exit]" using s by (simp add: k1_def)
    show "exec (Sema_down example_sema) (pop_call k1) = Some k2" using e(1) by (auto simp: k2_def)
  qed simp
  from waits_run.step[OF 1 this] have 2: "waits_run example_objects 0xc0102000 example_kernel 1 k2" using s(2) e(2) by (simp add: k1_def)
  show ?thesis using round_robin[OF example_started rtranclp.rtrancl_refl r 2] example_started r 2 by blast
qed

end
