(* ===== verification/Pagedir.thy ===== *)
theory Pagedir
  imports Palloc
begin

text \<open>
  Page directories and page tables: \<open>src/userprog/pagedir.c\<close>, and \<open>paging_init\<close> of \<open>src/threads/init.c\<close>.

  The state has the page allocator, the memory that the tables are in, the global variables \<open>base_page_dir\<close> and \<open>ram_pages\<close>, the
  register \<open>cr3\<close> and the translation lookaside buffer, a partial map from page numbers to cached entries that is emptied when
  \<open>cr3\<close> is loaded. Tables are words in memory; nothing is assumed of the layout, so that a table written over by something
  else would show in the model.

  The main results: a set of directories behaves as a set of independent maps from user pages to frames; the buffer stays coherent;
  destroying a directory gives back exactly its pages; and the kernel mapping made at startup covers all of memory, with the kernel
  text read-only.
\<close>

section \<open>The code\<close>

record paging =
  pg_pal :: palloc
  pg_mem :: mem
  base_page_dir :: ptr
  ram_pages :: "32 word"
  cr3 :: "32 word"
  tlb :: "32 word \<Rightarrow> 32 word option"

definition rd32 :: "mem \<Rightarrow> ptr \<Rightarrow> 32 word option" where
  "rd32 m p = do { ASSERT (p \<noteq> NULL); Some (word_of_bytes (read_bytes m p 4)) }"

definition wr32 :: "mem \<Rightarrow> ptr \<Rightarrow> 32 word \<Rightarrow> mem option" where
  "wr32 m p w = do { ASSERT (p \<noteq> NULL); Some (write_bytes m p (bytes_of_word w)) }"

definition load32 :: "paging \<Rightarrow> ptr \<Rightarrow> 32 word option" where
  "load32 st p = rd32 (pg_mem st) p"

definition store32 :: "paging \<Rightarrow> ptr \<Rightarrow> 32 word \<Rightarrow> paging option" where
  "store32 st p w = do { m \<leftarrow> wr32 (pg_mem st) p w; Some (st\<lparr>pg_mem := m\<rparr>) }"

definition get_page :: "paging \<Rightarrow> 32 word \<Rightarrow> (paging \<times> ptr) option" where
  "get_page st flags = do {
     (p, m, a) \<leftarrow> palloc_get_page (pg_pal st) (pg_mem st) flags;
     Some (st\<lparr>pg_pal := p, pg_mem := m\<rparr>, a)
   }"

definition free_page :: "paging \<Rightarrow> ptr \<Rightarrow> paging option" where
  "free_page st a = do {
     (p, m) \<leftarrow> palloc_free_page (pg_pal st) (pg_mem st) a;
     Some (st\<lparr>pg_pal := p, pg_mem := m\<rparr>)
   }"

subsection \<open>The page directory register\<close>

text \<open>Loading \<open>cr3\<close> empties the translation lookaside buffer.\<close>

definition pagedir_activate :: "paging \<Rightarrow> ptr \<Rightarrow> paging option" where
  "pagedir_activate st pd = do {
     let pd = (if pd = NULL then base_page_dir st else pd);
     pa \<leftarrow> vtop pd;
     Some (st\<lparr>cr3 := pa, tlb := (\<lambda>_. None)\<rparr>)
   }"

definition active_pd :: "paging \<Rightarrow> ptr option" where
  "active_pd st = ptov (cr3 st)"

definition invalidate_pagedir :: "paging \<Rightarrow> ptr \<Rightarrow> paging option" where
  "invalidate_pagedir st pd = do {
     a \<leftarrow> active_pd st;
     if a = pd then pagedir_activate st pd else Some st
   }"

subsection \<open>Page directories\<close>

definition pagedir_create :: "paging \<Rightarrow> (paging \<times> ptr) option" where
  "pagedir_create st = do {
     (st, pd) \<leftarrow> get_page st 0;
     if pd \<noteq> NULL then do {
       (m, _) \<leftarrow> memcpy (pg_mem st) pd (base_page_dir st) PGSIZE;
       Some (st\<lparr>pg_mem := m\<rparr>, pd)
     } else Some (st, pd)
   }"

text \<open>The entries of a table are numbered; entry \<open>i\<close> of the table at \<open>pt\<close> is at \<open>pt + 4 * i\<close>.\<close>

definition entry_at :: "ptr \<Rightarrow> nat \<Rightarrow> ptr" where
  "entry_at pt i = pt + 4 * of_nat i"

function destroy_pt :: "paging \<Rightarrow> ptr \<Rightarrow> nat \<Rightarrow> paging option" where
  "destroy_pt st pt i =
     (if i < 1024 then do {
        pte \<leftarrow> load32 st (entry_at pt i);
        st \<leftarrow> (if pte AND PTE_P \<noteq> 0 then do { page \<leftarrow> pte_get_page pte; free_page st page } else Some st);
        destroy_pt st pt (Suc i)
      } else Some st)"
  by pat_completeness auto
termination by (relation "measure (\<lambda>(_, _, i). 1024 - i)") auto

function destroy_pd :: "paging \<Rightarrow> ptr \<Rightarrow> nat \<Rightarrow> paging option" where
  "destroy_pd st pd i =
     (if i < unat (pd_no PHYS_BASE) then do {
        pde \<leftarrow> load32 st (entry_at pd i);
        st \<leftarrow> (if pde AND PTE_P \<noteq> 0 then do {
                pt \<leftarrow> pde_get_pt pde;
                st \<leftarrow> destroy_pt st pt 0;
                free_page st pt
              } else Some st);
        destroy_pd st pd (Suc i)
      } else Some st)"
  by pat_completeness auto
termination by (relation "measure (\<lambda>(_, _, i). unat (pd_no PHYS_BASE) - i)") auto

declare destroy_pt.simps [simp del] destroy_pd.simps [simp del]

definition pagedir_destroy :: "paging \<Rightarrow> ptr \<Rightarrow> paging option" where
  "pagedir_destroy st pd =
     (if pd = NULL then Some st
      else do {
        ASSERT (pd \<noteq> base_page_dir st);
        st \<leftarrow> destroy_pd st pd 0;
        free_page st pd
      })"

subsection \<open>Page table entries\<close>

definition lookup_page :: "paging \<Rightarrow> ptr \<Rightarrow> ptr \<Rightarrow> bool \<Rightarrow> (paging \<times> ptr) option" where
  "lookup_page st pd vaddr create = do {
     ASSERT (pd \<noteq> NULL);
     ASSERT (\<not> create \<or> is_user_vaddr vaddr);
     let pde = entry_at pd (unat (pd_no vaddr));
     e \<leftarrow> load32 st pde;
     (st, found) \<leftarrow> (if e = 0 then
         (if create then do {
            (st, pt) \<leftarrow> get_page st PAL_ZERO;
            if pt = NULL then Some (st, False)
            else do {
              e \<leftarrow> pde_create pt;
              st \<leftarrow> store32 st pde e;
              Some (st, True)
            }
          } else Some (st, False))
       else Some (st, True));
     if \<not> found then Some (st, NULL)
     else do {
       e \<leftarrow> load32 st pde;
       pt \<leftarrow> pde_get_pt e;
       Some (st, entry_at pt (unat (pt_no vaddr)))
     }
   }"

text \<open>\<open>kpage\<close> is the page of the frame; the result has the page table entry to be put into the frame.\<close>

definition pagedir_set_page :: "paging \<Rightarrow> ptr \<Rightarrow> ptr \<Rightarrow> ptr \<Rightarrow> bool \<Rightarrow> (paging \<times> ptr \<times> bool) option" where
  "pagedir_set_page st pd upage kpage writable = do {
     ASSERT (pg_ofs upage = 0);
     ASSERT (pg_ofs kpage = 0);
     ASSERT (is_user_vaddr upage);
     pa \<leftarrow> vtop kpage;
     ASSERT (drop_bit 12 pa < ram_pages st);
     ASSERT (pd \<noteq> base_page_dir st);
     (st, pte) \<leftarrow> lookup_page st pd upage True;
     if pte \<noteq> NULL then do {
       e \<leftarrow> load32 st pte;
       ASSERT (e AND PTE_P = 0);
       e \<leftarrow> pte_create_user kpage writable;
       st \<leftarrow> store32 st pte e;
       Some (st, pte, True)
     } else Some (st, pte, False)
   }"

definition pagedir_get_page :: "paging \<Rightarrow> ptr \<Rightarrow> ptr \<Rightarrow> ptr option" where
  "pagedir_get_page st pd uaddr = do {
     ASSERT (is_user_vaddr uaddr);
     (st, pte) \<leftarrow> lookup_page st pd uaddr False;
     if pte \<noteq> NULL then do {
       e \<leftarrow> load32 st pte;
       if e AND PTE_P \<noteq> 0 then do { p \<leftarrow> pte_get_page e; Some (p + pg_ofs uaddr) } else Some NULL
     } else Some NULL
   }"

definition pagedir_clear_page :: "paging \<Rightarrow> ptr \<Rightarrow> ptr \<Rightarrow> paging option" where
  "pagedir_clear_page st pd upage = do {
     ASSERT (pg_ofs upage = 0);
     ASSERT (is_user_vaddr upage);
     (st, pte) \<leftarrow> lookup_page st pd upage False;
     if pte \<noteq> NULL then do {
       e \<leftarrow> load32 st pte;
       if e AND PTE_P \<noteq> 0 then do {
         st \<leftarrow> store32 st pte (e AND NOT PTE_P);
         invalidate_pagedir st pd
       } else Some st
     } else Some st
   }"

text \<open>\<open>pd\<close> is the page directory of the current thread.\<close>

definition install_page :: "paging \<Rightarrow> ptr \<Rightarrow> ptr \<Rightarrow> ptr \<Rightarrow> bool \<Rightarrow> (paging \<times> ptr option \<times> bool) option" where
  "install_page st pd upage kpage writable = do {
     p \<leftarrow> pagedir_get_page st pd upage;
     if p \<noteq> NULL then Some (st, None, False)
     else do {
       (st, pte, ok) \<leftarrow> pagedir_set_page st pd upage kpage writable;
       Some (st, Some pte, ok)
     }
   }"

definition pagedir_is_dirty :: "paging \<Rightarrow> ptr \<Rightarrow> ptr \<Rightarrow> bool option" where
  "pagedir_is_dirty st pd vpage = do {
     (st, pte) \<leftarrow> lookup_page st pd vpage False;
     if pte \<noteq> NULL then do { e \<leftarrow> load32 st pte; Some (e AND PTE_D \<noteq> 0) } else Some False
   }"

definition pagedir_set_dirty :: "paging \<Rightarrow> ptr \<Rightarrow> ptr \<Rightarrow> bool \<Rightarrow> paging option" where
  "pagedir_set_dirty st pd vpage dirty = do {
     (st, pte) \<leftarrow> lookup_page st pd vpage False;
     if pte \<noteq> NULL then do {
       e \<leftarrow> load32 st pte;
       if dirty then store32 st pte (e OR PTE_D)
       else do { st \<leftarrow> store32 st pte (e AND NOT PTE_D); invalidate_pagedir st pd }
     } else Some st
   }"

definition pagedir_is_accessed :: "paging \<Rightarrow> ptr \<Rightarrow> ptr \<Rightarrow> bool option" where
  "pagedir_is_accessed st pd vpage = do {
     (st, pte) \<leftarrow> lookup_page st pd vpage False;
     if pte \<noteq> NULL then do { e \<leftarrow> load32 st pte; Some (e AND PTE_A \<noteq> 0) } else Some False
   }"

definition pagedir_set_accessed :: "paging \<Rightarrow> ptr \<Rightarrow> ptr \<Rightarrow> bool \<Rightarrow> paging option" where
  "pagedir_set_accessed st pd vpage accessed = do {
     (st, pte) \<leftarrow> lookup_page st pd vpage False;
     if pte \<noteq> NULL then do {
       e \<leftarrow> load32 st pte;
       if accessed then store32 st pte (e OR PTE_A)
       else do { st \<leftarrow> store32 st pte (e AND NOT PTE_A); invalidate_pagedir st pd }
     } else Some st
   }"

subsection \<open>The kernel mapping\<close>

text \<open>
  \<open>paging_init\<close> of \<open>src/threads/init.c\<close>: \<open>text_start\<close> and \<open>text_end\<close> are the addresses of the linker symbols \<open>_start\<close> and
  \<open>_end_kernel_text\<close>.
\<close>

definition map_kernel_page :: "ptr \<Rightarrow> ptr \<Rightarrow> paging \<Rightarrow> ptr \<Rightarrow> ptr \<Rightarrow> 32 word \<Rightarrow> (paging \<times> ptr) option" where
  "map_kernel_page text_start text_end st pd pt page = do {
     vaddr \<leftarrow> ptov (page * PGSIZE);
     let pde = entry_at pd (unat (pd_no vaddr));
     let in_kernel_text = (text_start \<le> vaddr \<and> vaddr < text_end);
     e \<leftarrow> load32 st pde;
     (st, pt) \<leftarrow> (if e = 0 then do {
         (st, pt) \<leftarrow> get_page st (PAL_ASSERT OR PAL_ZERO);
         e \<leftarrow> pde_create pt;
         st \<leftarrow> store32 st pde e;
         Some (st, pt)
       } else Some (st, pt));
     e \<leftarrow> pte_create_kernel vaddr (\<not> in_kernel_text);
     st \<leftarrow> store32 st (entry_at pt (unat (pt_no vaddr))) e;
     Some (st, pt)
   }"

function paging_loop :: "ptr \<Rightarrow> ptr \<Rightarrow> 32 word \<Rightarrow> paging \<Rightarrow> ptr \<Rightarrow> ptr \<Rightarrow> 32 word \<Rightarrow> paging option" where
  "paging_loop text_start text_end pages st pd pt page =
     (if page < pages then do {
        (st, pt) \<leftarrow> map_kernel_page text_start text_end st pd pt page;
        paging_loop text_start text_end pages st pd pt (page + 1)
      } else Some st)"
  by pat_completeness auto
termination
  by (relation "measure (\<lambda>(_, _, pages, _, _, _, page). unat pages - unat page)") (auto simp: word_inc_measure)

declare paging_loop.simps [simp del]

definition paging_init :: "ptr \<Rightarrow> ptr \<Rightarrow> paging \<Rightarrow> paging option" where
  "paging_init text_start text_end st = do {
     (st, pd) \<leftarrow> get_page st (PAL_ASSERT OR PAL_ZERO);
     let st = st\<lparr>base_page_dir := pd\<rparr>;
     st \<leftarrow> paging_loop text_start text_end (ram_pages st) st pd NULL 0;
     pa \<leftarrow> vtop (base_page_dir st);
     Some (st\<lparr>cr3 := pa, tlb := (\<lambda>_. None)\<rparr>)
   }"

section \<open>Tables in memory\<close>

definition tab :: "mem \<Rightarrow> ptr \<Rightarrow> nat \<Rightarrow> 32 word" where
  "tab m p i = word_of_bytes (read_bytes m (entry_at p i) 4)"

lemma page_unat:
  assumes "pg_ofs p = 0" and "i < 4096"
  shows "unat (p + of_nat i) = 4096 * unat (pg_no p) + i"
proof -
  have "unat p mod 4096 = 0" using assms(1) pg_ofs_mod[of p] by simp
  then have u: "unat p = 4096 * unat (pg_no p)" by (simp add: pg_no_div mod_eq_0_iff_dvd)
  have "unat (pg_no p) < 1048576" using unat_lt_2p32[of p] by (simp add: pg_no_div less_mult_imp_div_less)
  then have "unat p + i < 2 ^ 32" using assms(2) u by simp
  then show ?thesis using u unat_of_nat32[of i] assms(2) by (simp add: unat_word_ariths)
qed

lemma page_eq_iff: "pg_ofs p = 0 \<Longrightarrow> pg_ofs q = 0 \<Longrightarrow> p = q \<longleftrightarrow> unat (pg_no p) = unat (pg_no q)"
  using page_unat[of p 0] page_unat[of q 0] by (auto simp: word_unat_eq_iff)

lemma page_byte_eq:
  assumes "pg_ofs p = 0" and "pg_ofs q = 0" and "i < 4096" and "j < 4096"
  shows "p + of_nat i = q + of_nat j \<longleftrightarrow> p = q \<and> i = j"
proof
  assume "p + of_nat i = q + of_nat j"
  then have e: "4096 * unat (pg_no p) + i = 4096 * unat (pg_no q) + j"
    using page_unat[OF assms(1,3)] page_unat[OF assms(2,4)] by simp
  have "(4096 * unat (pg_no p) + i) mod 4096 = i" "(4096 * unat (pg_no q) + j) mod 4096 = j" using assms(3,4) by simp_all
  then have "i = j" using e by metis
  then show "p = q \<and> i = j" using e page_eq_iff[OF assms(1,2)] by simp
qed simp

lemma entry_at_byte: "entry_at p i + of_nat k = p + of_nat (4 * i + k)"
  by (simp add: entry_at_def)

lemma entry_at_nonnull: "is_kernel_vaddr p \<Longrightarrow> pg_ofs p = 0 \<Longrightarrow> i < 1024 \<Longrightarrow> entry_at p i \<noteq> NULL"
proof -
  assume p: "is_kernel_vaddr p" "pg_ofs p = 0" and i: "i < 1024"
  have "unat (entry_at p i) = 4096 * unat (pg_no p) + 4 * i" using page_unat[OF p(2), of "4 * i"] i by (simp add: entry_at_def)
  moreover have "unat p = 4096 * unat (pg_no p)" using page_unat[OF p(2), of 0] by simp
  ultimately show "entry_at p i \<noteq> NULL" using p(1) by (auto simp: is_kernel_vaddr_def word_le_nat_alt simp flip: unat_0_iff)
qed

lemma tab_cong: "(\<And>k. k < 4096 \<Longrightarrow> m (p + of_nat k) = m' (p + of_nat k)) \<Longrightarrow> i < 1024 \<Longrightarrow> tab m p i = tab m' p i"
  unfolding tab_def read_bytes_def entry_at_byte by (rule arg_cong[of _ _ word_of_bytes]) (auto simp del: of_nat_add of_nat_mult)

lemma tab_write_other:
  assumes "pg_ofs p = 0" and "pg_ofs q = 0" and "p \<noteq> q" and "k + length bs \<le> 4096" and "i < 1024"
  shows "tab (write_bytes m (p + of_nat k) bs) q i = tab m q i"
proof (rule tab_cong[OF _ assms(5)])
  fix j assume "j < (4096 :: nat)"
  have "p + of_nat k + of_nat n \<noteq> q + of_nat j" if "n < length bs" for n
    using page_byte_eq[OF assms(1,2), of "k + n" j] that assms(3,4) \<open>j < 4096\<close> by (auto simp: add.assoc)
  then show "write_bytes m (p + of_nat k) bs (q + of_nat j) = m (q + of_nat j)" by (intro write_bytes_same) blast
qed

lemma tab_store:
  assumes "pg_ofs p = 0" and "pg_ofs q = 0" and "i < 1024" and "j < 1024"
  shows "tab (write_bytes m (entry_at p i) (bytes_of_word w)) q j = (if p = q \<and> i = j then w else tab m q j)"
proof (cases "p = q \<and> i = j")
  case True
  then show ?thesis using read_write_bytes[of "bytes_of_word w" m "entry_at p i"] by (simp add: tab_def)
next
  case False
  have "entry_at p i + of_nat a \<noteq> entry_at q j + of_nat b" if "a < 4" "b < 4" for a b
  proof -
    have "i \<noteq> j \<Longrightarrow> 4 * i + a \<noteq> 4 * j + b" using \<open>a < 4\<close> \<open>b < 4\<close> by presburger
    then have "p = q \<Longrightarrow> 4 * i + a \<noteq> 4 * j + b" using False by blast
    then show ?thesis unfolding entry_at_byte using page_byte_eq[OF assms(1,2), of "4 * i + a" "4 * j + b"] assms(3,4) that by linarith
  qed
  then have "write_bytes m (entry_at p i) (bytes_of_word w) (entry_at q j + of_nat b) = m (entry_at q j + of_nat b)" if "b < 4" for b
    using that by (intro write_bytes_same) simp
  then have "read_bytes (write_bytes m (entry_at p i) (bytes_of_word w)) (entry_at q j) 4 = read_bytes m (entry_at q j) 4"
    by (simp add: read_bytes_def)
  then show ?thesis using False by (simp add: tab_def del: de_Morgan_conj)
qed

lemma tab_page:
  assumes "pg_ofs p = 0" and "length bs = 4096" and "i < 1024"
  shows "tab (write_bytes m p bs) p i = word_of_bytes (take 4 (drop (4 * i) bs))"
proof -
  have "read_bytes (write_bytes m p bs) p 4096 = bs" using read_write_bytes[of bs m p] assms(2) by simp
  then have b: "write_bytes m p bs (p + of_nat k) = bs ! k" if "k < 4096" for k
    using read_bytes_nth[OF that, of "write_bytes m p bs" p] by simp
  have "read_bytes (write_bytes m p bs) (entry_at p i) 4 = take 4 (drop (4 * i) bs)"
    unfolding read_bytes_def entry_at_byte by (rule nth_equalityI) (use assms b[of "4 * i + _"] in \<open>auto simp del: of_nat_add of_nat_mult\<close>)
  then show ?thesis by (simp add: tab_def)
qed

lemma tab_zero: "pg_ofs p = 0 \<Longrightarrow> i < 1024 \<Longrightarrow> tab (write_bytes m p (replicate 4096 0)) p i = 0"
  by (simp add: tab_page word_of_bytes_def min_def)

lemma tab_copy: "pg_ofs p = 0 \<Longrightarrow> i < 1024 \<Longrightarrow> tab (write_bytes m p (read_bytes m q 4096)) p i = tab m q i"
proof -
  assume p: "pg_ofs p = 0" and i: "i < 1024"
  have "take 4 (drop (4 * i) (read_bytes m q 4096)) = read_bytes m (entry_at q i) 4"
    unfolding read_bytes_def entry_at_byte using i by (auto simp: take_map drop_map intro!: nth_equalityI)
  then show "tab (write_bytes m p (read_bytes m q 4096)) p i = tab m q i" using tab_page[OF p _ i, of "read_bytes m q 4096" m] by (simp add: tab_def)
qed

lemma load32_tab: "is_kernel_vaddr p \<Longrightarrow> pg_ofs p = 0 \<Longrightarrow> i < 1024 \<Longrightarrow> load32 st (entry_at p i) = Some (tab (pg_mem st) p i)"
  using entry_at_nonnull[of p i] by (simp add: load32_def rd32_def tab_def)

lemma store32_tab: "is_kernel_vaddr p \<Longrightarrow> pg_ofs p = 0 \<Longrightarrow> i < 1024 \<Longrightarrow>
   store32 st (entry_at p i) w = Some (st\<lparr>pg_mem := write_bytes (pg_mem st) (entry_at p i) (bytes_of_word w)\<rparr>)"
  using entry_at_nonnull[of p i] by (simp add: store32_def wr32_def)

section \<open>Directories and their tables\<close>

definition table_addr :: "32 word \<Rightarrow> ptr" where
  "table_addr e = (e AND PTE_ADDR) + PHYS_BASE"

lemma kernel_addr_page:
  assumes "a < (0x40000000 :: 32 word)" and "a AND PTE_ADDR = a"
  shows "ptov a = Some (a + PHYS_BASE)" and "is_kernel_vaddr (a + PHYS_BASE)" and "pg_ofs (a + PHYS_BASE) = 0"
proof -
  have u: "unat (a + PHYS_BASE) = unat a + 3221225472" using assms(1) by (simp add: unat_word_ariths word_less_nat_alt)
  show "ptov a = Some (a + PHYS_BASE)" using assms(1) by (simp add: ptov_def word_less_nat_alt)
  show "is_kernel_vaddr (a + PHYS_BASE)" using u by (simp add: is_kernel_vaddr_def word_le_nat_alt)
  have "pg_ofs a = 0" unfolding pg_ofs_def PGMASK_eq using assms(2) unfolding PTE_ADDR_eq
    by (metis and.assoc and.commute and_zero_eq and.right_neutral bit.conj_cancel_right)
  then have "unat a mod 4096 = 0" using pg_ofs_mod[of a] by simp
  moreover have "(unat a + 3221225472) mod 4096 = (unat a mod 4096 + 3221225472) mod 4096" by (simp only: mod_add_left_eq)
  ultimately have "unat (a + PHYS_BASE) mod 4096 = 0" unfolding u by simp
  then show "pg_ofs (a + PHYS_BASE) = 0" using pg_ofs_mod[of "a + PHYS_BASE"] by (metis unat_0_iff)
qed

lemma table_addr_page:
  assumes "e AND PTE_ADDR < 0x40000000"
  shows "ptov (e AND PTE_ADDR) = Some (table_addr e)" "is_kernel_vaddr (table_addr e)" "pg_ofs (table_addr e) = 0"
  using kernel_addr_page[OF assms] by (simp_all add: table_addr_def and.assoc del: and_numerals)

lemma ptov_eq: "ptov pa = Some va \<Longrightarrow> va = pa + PHYS_BASE"
  by (auto simp: ptov_def ASSERT_def split: if_splits)

lemma created_entry:
  assumes "pg_ofs p = 0" and "is_kernel_vaddr p" and "\<And>n. bit f n \<Longrightarrow> n < 12"
  shows "(take_bit 30 p OR f) AND PTE_ADDR < 0x40000000" "table_addr (take_bit 30 p OR f) = p"
proof -
  have a: "(take_bit 30 p OR f) AND PTE_ADDR = take_bit 30 p" by (rule pte_addr_field[OF assms(1,3)])
  have "unat (take_bit 30 p) < 2 ^ 30" by (simp add: take_bit_eq_mod unat_mod)
  then show "(take_bit 30 p OR f) AND PTE_ADDR < 0x40000000" unfolding a by (simp add: word_less_nat_alt)
  show "table_addr (take_bit 30 p OR f) = p"
    using ptov_eq[OF ptov_vtop[OF assms(2) vtop_kernel[OF assms(2)]]] unfolding table_addr_def a by simp
qed

lemma pde_created:
  assumes "pg_ofs p = 0" and "is_kernel_vaddr p"
  obtains e where "pde_create p = Some e" "e \<noteq> 0" "e AND PTE_P \<noteq> 0" "e AND PTE_ADDR < 0x40000000" "table_addr e = p"
proof -
  let ?f = "PTE_U OR PTE_P OR PTE_W"
  have lo: "n < 12" if "bit ?f n" for n using flag_words(3)[of n] that by auto
  have p: "(take_bit 30 p OR ?f) AND PTE_P \<noteq> 0" unfolding entry_flag(1)[OF assms(1)] using flag_words(3)[of 0] by blast
  then have "take_bit 30 p OR ?f \<noteq> 0" by (metis and.commute and_zero_eq)
  then show thesis using that[OF pte_create_eval(3)[OF assms]] p created_entry[OF assms lo] by blast
qed

lemma pte_created:
  assumes "pg_ofs p = 0" and "is_kernel_vaddr p"
  obtains e where "pte_create_user p w = Some e" "e AND PTE_P \<noteq> 0" "e AND PTE_W \<noteq> 0 \<longleftrightarrow> w" "e AND PTE_ADDR < 0x40000000" "table_addr e = p"
    "e AND PTE_A = 0" "e AND PTE_D = 0"
proof -
  let ?f = "PTE_P OR (if w then PTE_W else 0) OR PTE_U"
  have lo: "n < 12" if "bit ?f n" for n using flag_words(1)[of w n] that by auto
  have "(take_bit 30 p OR ?f) AND PTE_P \<noteq> 0" "(take_bit 30 p OR ?f) AND PTE_W \<noteq> 0 \<longleftrightarrow> w"
    "\<not> (take_bit 30 p OR ?f) AND PTE_A \<noteq> 0" "\<not> (take_bit 30 p OR ?f) AND PTE_D \<noteq> 0"
    unfolding entry_flag[OF assms(1)] flag_words(1) by auto
  then show thesis using that[OF pte_create_eval(1)[OF assms]] created_entry[OF assms lo] by blast
qed

lemma pte_created_kernel:
  assumes "pg_ofs p = 0" and "is_kernel_vaddr p"
  obtains e where "pte_create_kernel p w = Some e" "e AND PTE_P \<noteq> 0" "e AND PTE_W \<noteq> 0 \<longleftrightarrow> w" "e AND PTE_U = 0" "e AND PTE_ADDR < 0x40000000"
    "table_addr e = p"
proof -
  let ?f = "PTE_P OR (if w then PTE_W else 0)"
  have lo: "n < 12" if "bit ?f n" for n using flag_words(2)[of w n] that by auto
  have "(take_bit 30 p OR ?f) AND PTE_P \<noteq> 0" "(take_bit 30 p OR ?f) AND PTE_W \<noteq> 0 \<longleftrightarrow> w" "\<not> (take_bit 30 p OR ?f) AND PTE_U \<noteq> 0"
    unfolding entry_flag[OF assms(1)] flag_words(2) by auto
  then show thesis using that[OF pte_create_eval(2)[OF assms]] created_entry[OF assms lo] by blast
qed

text \<open>The page table entry for a virtual address in a directory; zero if there is no page table.\<close>

definition pte_of :: "mem \<Rightarrow> ptr \<Rightarrow> ptr \<Rightarrow> 32 word" where
  "pte_of m pd va = (let e = tab m pd (unat (pd_no va)) in if e = 0 then 0 else tab m (table_addr e) (unat (pt_no va)))"

text \<open>The pages of a set of directories and of their first \<open>n\<close> tables.\<close>

definition dir_pages :: "nat \<Rightarrow> mem \<Rightarrow> ptr set \<Rightarrow> ptr set" where
  "dir_pages n m D = D \<union> {table_addr (tab m pd i) | pd i. pd \<in> D \<and> i < n \<and> tab m pd i \<noteq> 0}"

definition table_page :: "palloc \<Rightarrow> ptr \<Rightarrow> bool" where
  "table_page a p \<longleftrightarrow> pg_ofs p = 0 \<and> is_kernel_vaddr p \<and> unat (pg_no p) \<in> palloc_used a \<and> unat (pg_no p) \<in> pool_pages (kernel_pool a)"

text \<open>
  The directories in \<open>D\<close> are well formed up to entry \<open>n\<close>: directories and tables are pages of the kernel pool in use, no table belongs to
  two entries, and no table is a directory.
\<close>

definition dirs_ok :: "nat \<Rightarrow> paging \<Rightarrow> ptr set \<Rightarrow> bool" where
  "dirs_ok n st D \<longleftrightarrow> n \<le> 1024 \<and> palloc_wf (pg_pal st) \<and> (\<forall>p\<in>dir_pages n (pg_mem st) D. table_page (pg_pal st) p) \<and>
     (\<forall>pd\<in>D. \<forall>i<n. tab (pg_mem st) pd i \<noteq> 0 \<longrightarrow>
        tab (pg_mem st) pd i AND PTE_P \<noteq> 0 \<and> tab (pg_mem st) pd i AND PTE_ADDR < 0x40000000 \<and> table_addr (tab (pg_mem st) pd i) \<notin> D) \<and>
     (\<forall>pd\<in>D. \<forall>pd'\<in>D. \<forall>i<n. \<forall>j<n. tab (pg_mem st) pd i \<noteq> 0 \<longrightarrow> tab (pg_mem st) pd' j \<noteq> 0 \<longrightarrow>
        table_addr (tab (pg_mem st) pd i) = table_addr (tab (pg_mem st) pd' j) \<longrightarrow> pd = pd' \<and> i = j)"

lemma dirs_okD:
  assumes "dirs_ok n st D"
  shows "n \<le> 1024" "palloc_wf (pg_pal st)"
    "\<And>pd. pd \<in> D \<Longrightarrow> pg_ofs pd = 0" "\<And>pd. pd \<in> D \<Longrightarrow> is_kernel_vaddr pd" "\<And>pd. pd \<in> D \<Longrightarrow> table_page (pg_pal st) pd"
    "\<And>pd i. pd \<in> D \<Longrightarrow> i < n \<Longrightarrow> tab (pg_mem st) pd i \<noteq> 0 \<Longrightarrow> tab (pg_mem st) pd i AND PTE_P \<noteq> 0"
    "\<And>pd i. pd \<in> D \<Longrightarrow> i < n \<Longrightarrow> tab (pg_mem st) pd i \<noteq> 0 \<Longrightarrow> tab (pg_mem st) pd i AND PTE_ADDR < 0x40000000"
    "\<And>pd i. pd \<in> D \<Longrightarrow> i < n \<Longrightarrow> tab (pg_mem st) pd i \<noteq> 0 \<Longrightarrow> table_addr (tab (pg_mem st) pd i) \<notin> D"
    "\<And>pd i. pd \<in> D \<Longrightarrow> i < n \<Longrightarrow> tab (pg_mem st) pd i \<noteq> 0 \<Longrightarrow> table_page (pg_pal st) (table_addr (tab (pg_mem st) pd i))"
    "\<And>pd i pd' j. pd \<in> D \<Longrightarrow> i < n \<Longrightarrow> tab (pg_mem st) pd i \<noteq> 0 \<Longrightarrow> pd' \<in> D \<Longrightarrow> j < n \<Longrightarrow> tab (pg_mem st) pd' j \<noteq> 0 \<Longrightarrow>
       table_addr (tab (pg_mem st) pd i) = table_addr (tab (pg_mem st) pd' j) \<longleftrightarrow> pd = pd' \<and> i = j"
proof -
  show "n \<le> 1024" "palloc_wf (pg_pal st)" using assms by (simp_all add: dirs_ok_def)
  have t: "table_page (pg_pal st) p" if "p \<in> dir_pages n (pg_mem st) D" for p using assms that by (simp add: dirs_ok_def)
  show d: "table_page (pg_pal st) pd" if "pd \<in> D" for pd using t that by (simp add: dir_pages_def)
  show "pg_ofs pd = 0" "is_kernel_vaddr pd" if "pd \<in> D" for pd using d[OF that] by (simp_all add: table_page_def)
  show "table_page (pg_pal st) (table_addr (tab (pg_mem st) pd i))" if "pd \<in> D" "i < n" "tab (pg_mem st) pd i \<noteq> 0" for pd i
    using that by (intro t) (auto simp: dir_pages_def)
  show "tab (pg_mem st) pd i AND PTE_P \<noteq> 0" "tab (pg_mem st) pd i AND PTE_ADDR < 0x40000000" "table_addr (tab (pg_mem st) pd i) \<notin> D"
    if "pd \<in> D" "i < n" "tab (pg_mem st) pd i \<noteq> 0" for pd i using assms that unfolding dirs_ok_def by blast+
  show "table_addr (tab (pg_mem st) pd i) = table_addr (tab (pg_mem st) pd' j) \<longleftrightarrow> pd = pd' \<and> i = j"
    if "pd \<in> D" "i < n" "tab (pg_mem st) pd i \<noteq> 0" "pd' \<in> D" "j < n" "tab (pg_mem st) pd' j \<noteq> 0" for pd i pd' j
    using assms that unfolding dirs_ok_def by blast
qed

text \<open>A change of memory outside the tables keeps everything.\<close>

lemma dirs_ok_frame:
  assumes "dirs_ok n st D" and "palloc_wf (pg_pal st')"
    and used: "\<And>p. p \<in> dir_pages n (pg_mem st) D \<Longrightarrow> unat (pg_no p) \<in> palloc_used (pg_pal st')"
    and "pool_pages (kernel_pool (pg_pal st')) = pool_pages (kernel_pool (pg_pal st))"
    and same: "\<And>p i. p \<in> dir_pages n (pg_mem st) D \<Longrightarrow> i < 1024 \<Longrightarrow> tab (pg_mem st') p i = tab (pg_mem st) p i"
  shows "dirs_ok n st' D" and "\<And>pd va. pd \<in> D \<Longrightarrow> unat (pd_no va) < n \<Longrightarrow> pte_of (pg_mem st') pd va = pte_of (pg_mem st) pd va"
    and "dir_pages n (pg_mem st') D = dir_pages n (pg_mem st) D"
proof -
  note d = dirs_okD[OF assms(1)]
  have e: "tab (pg_mem st') pd i = tab (pg_mem st) pd i" if "pd \<in> D" "i < n" for pd i
    using same[of pd i] that d(1) by (auto simp: dir_pages_def)
  then show p: "dir_pages n (pg_mem st') D = dir_pages n (pg_mem st) D" unfolding dir_pages_def by (metis (no_types, lifting))
  have "table_page (pg_pal st') p" if "p \<in> dir_pages n (pg_mem st) D" for p
    using assms(1,4) used[OF that] that unfolding dirs_ok_def table_page_def by auto
  then show "dirs_ok n st' D" using assms(1,2) e p unfolding dirs_ok_def by auto
  show "pte_of (pg_mem st') pd va = pte_of (pg_mem st) pd va" if "pd \<in> D" "unat (pd_no va) < n" for pd va
  proof (cases "tab (pg_mem st) pd (unat (pd_no va)) = 0")
    case False
    then have "table_addr (tab (pg_mem st) pd (unat (pd_no va))) \<in> dir_pages n (pg_mem st) D" using that by (auto simp: dir_pages_def)
    moreover have "unat (pt_no va) < 1024" using vaddr_fields[of va] by (simp add: word_less_nat_alt)
    ultimately show ?thesis using e[OF that] same by (simp add: pte_of_def Let_def)
  qed (use e[OF that] in \<open>simp add: pte_of_def Let_def\<close>)
qed

section \<open>Allocating tables\<close>

lemma pool_page_kernel:
  assumes "pool_wf p" and "unat (pg_no a) \<in> pool_pages p" and "pg_ofs a = 0"
  shows "is_kernel_vaddr a"
proof -
  have "unat a = 4096 * unat (pg_no a)" using page_unat[OF assms(3), of 0] by simp
  moreover have "unat (base p) = 4096 * unat (pg_no (base p))" "3221225472 \<le> unat (base p)"
    using pool_base[OF assms(1)] assms(1) by (simp_all add: pool_wf_def is_kernel_vaddr_def word_le_nat_alt)
  moreover have "unat (pg_no (base p)) \<le> unat (pg_no a)" using assms(2) by (simp add: pool_pages_def)
  ultimately show ?thesis by (simp add: is_kernel_vaddr_def word_le_nat_alt)
qed

lemma get_page_cases:
  assumes "palloc_wf (pg_pal st)" and fl: "flags AND PAL_USER = 0"
  obtains
    (none) p' where "get_page st flags = Some (st\<lparr>pg_pal := p'\<rparr>, NULL)" "flags AND PAL_ASSERT = 0" "palloc_wf p'"
      "palloc_used p' = palloc_used (pg_pal st)" "pool_pages (kernel_pool p') = pool_pages (kernel_pool (pg_pal st))"
      "pool_pages (user_pool p') = pool_pages (user_pool (pg_pal st))" "pool_pages (kernel_pool (pg_pal st)) \<subseteq> palloc_used (pg_pal st)"
  | (panic) "get_page st flags = None" "flags AND PAL_ASSERT \<noteq> 0" "pool_pages (kernel_pool (pg_pal st)) \<subseteq> palloc_used (pg_pal st)"
  | (some) p' m' a where "get_page st flags = Some (st\<lparr>pg_pal := p', pg_mem := m'\<rparr>, a)" "palloc_wf p'"
      "pg_ofs a = 0" "is_kernel_vaddr a" "unat (pg_no a) \<in> pool_pages (kernel_pool (pg_pal st))" "unat (pg_no a) \<notin> palloc_used (pg_pal st)"
      "palloc_used p' = insert (unat (pg_no a)) (palloc_used (pg_pal st))"
      "pool_pages (kernel_pool p') = pool_pages (kernel_pool (pg_pal st))" "pool_pages (user_pool p') = pool_pages (user_pool (pg_pal st))"
      "m' = (if flags AND PAL_ZERO \<noteq> 0 then write_bytes (pg_mem st) a (replicate 4096 0) else pg_mem st)"
proof -
  let ?p = "pool_of (pg_pal st) flags"
  have k: "?p = kernel_pool (pg_pal st)" using fl by (simp add: pool_of_def)
  have one: "page_range a 1 = {unat (pg_no a)}" for a by (auto simp: page_range_def)
  show thesis
  proof (cases "\<exists>i. {i..<i + unat (1 :: 32 word)} \<subseteq> pool_pages ?p - pool_used ?p")
    case True
    obtain st' m' a where g: "palloc_get_multiple (pg_pal st) (pg_mem st) flags 1 = Some (st', m', a)" "palloc_wf st'" "a \<noteq> NULL" "pg_ofs a = 0"
      "page_range a 1 \<subseteq> pool_pages ?p - pool_used ?p" "palloc_used st' = palloc_used (pg_pal st) \<union> page_range a 1"
      "pool_pages (kernel_pool st') = pool_pages (kernel_pool (pg_pal st))" "pool_pages (user_pool st') = pool_pages (user_pool (pg_pal st))"
      "m' = (if flags AND PAL_ZERO \<noteq> 0 then write_bytes (pg_mem st) a (replicate (4096 * unat (1 :: 32 word)) 0) else pg_mem st)"
      using palloc_get_granted[OF assms(1) one_neq_zero True, of "pg_mem st"] by blast
    have u: "unat (pg_no a) \<in> pool_pages (kernel_pool (pg_pal st))" "unat (pg_no a) \<notin> pool_used (kernel_pool (pg_pal st))"
      using g(5) unfolding k one by auto
    then have "unat (pg_no a) \<notin> palloc_used (pg_pal st)"
      using assms(1) pool_used_sub[of "user_pool (pg_pal st)"] by (auto simp: palloc_used_def palloc_wf_def)
    moreover have "is_kernel_vaddr a" using pool_page_kernel[OF _ u(1) g(4)] assms(1) by (simp add: palloc_wf_def)
    ultimately show thesis using some[of m' st' a] g u unfolding one by (simp add: get_page_def palloc_get_page_def)
  next
    case False
    have full: "pool_pages (kernel_pool (pg_pal st)) \<subseteq> palloc_used (pg_pal st)"
    proof
      fix x assume "x \<in> pool_pages (kernel_pool (pg_pal st))"
      then have "x \<in> pool_used (kernel_pool (pg_pal st))" using False unfolding k by (auto simp: subset_iff dest: spec[of _ x])
      then show "x \<in> palloc_used (pg_pal st)" by (simp add: palloc_used_def)
    qed
    show thesis
    proof (cases "flags AND PAL_ASSERT = 0")
      case True
      then show thesis using palloc_get_refused[OF assms(1) one_neq_zero False, of "pg_mem st"] full none
        by (auto simp: get_page_def palloc_get_page_def)
    next
      case panic': False
      then show thesis using palloc_get_refused[OF assms(1) one_neq_zero False, of "pg_mem st"] full panic
        by (simp add: get_page_def palloc_get_page_def)
    qed
  qed
qed

section \<open>Looking up an entry\<close>

lemma pd_no_lt: "unat (pd_no va) < 1024" and pt_no_lt: "unat (pt_no va) < 1024"
  using vaddr_fields[of va] by (simp_all add: word_less_nat_alt)

lemma user_pd_no: "is_user_vaddr va \<longleftrightarrow> unat (pd_no va) < 768"
proof -
  have "unat (pd_no va) = unat va div 4194304" by (simp add: pd_no_def drop_bit_eq_div unat_div)
  then show ?thesis by (auto simp: is_user_vaddr_def word_less_nat_alt div_less_iff_less_mult)
qed

lemma same_page_iff: "pg_no va = pg_no vb \<longleftrightarrow> unat (pd_no va) = unat (pd_no vb) \<and> unat (pt_no va) = unat (pt_no vb)"
proof
  assume e: "pg_no va = pg_no vb"
  have "bit va n = bit vb n" if "12 \<le> n" for n
    using arg_cong[OF e, of "\<lambda>w. bit w (n - 12)"] that by (simp add: pg_no_def bit_simps)
  then have "pd_no va = pd_no vb" "pt_no va = pt_no vb" by (intro bit_word_eqI; simp add: bit_pd_no bit_pt_no)+
  then show "unat (pd_no va) = unat (pd_no vb) \<and> unat (pt_no va) = unat (pt_no vb)" by simp
next
  assume "unat (pd_no va) = unat (pd_no vb) \<and> unat (pt_no va) = unat (pt_no vb)"
  then have "pd_no va = pd_no vb" "pt_no va = pt_no vb" by (simp_all add: word_unat_eq_iff)
  then show "pg_no va = pg_no vb" using vaddr_fields[of va] vaddr_fields[of vb] by metis
qed

lemma lookup_page_found:
  assumes ok: "dirs_ok n st D" and pd: "pd \<in> D" "unat (pd_no va) < n" and nz: "tab (pg_mem st) pd (unat (pd_no va)) \<noteq> 0"
    and c: "\<not> create \<or> is_user_vaddr va"
  shows "lookup_page st pd va create = Some (st, entry_at (table_addr (tab (pg_mem st) pd (unat (pd_no va)))) (unat (pt_no va)))"
proof -
  note d = dirs_okD[OF ok]
  have "load32 st (entry_at pd (unat (pd_no va))) = Some (tab (pg_mem st) pd (unat (pd_no va)))"
    using load32_tab d(3,4)[OF pd(1)] pd_no_lt by blast
  moreover have "pd \<noteq> NULL" using d(4)[OF pd(1)] by (auto simp: is_kernel_vaddr_def)
  moreover have "pde_get_pt (tab (pg_mem st) pd (unat (pd_no va))) = Some (table_addr (tab (pg_mem st) pd (unat (pd_no va))))"
    using d(6,7)[OF pd nz] table_addr_page(1) by (simp add: pde_get_pt_def)
  ultimately show ?thesis using nz c by (simp add: lookup_page_def)
qed

lemma lookup_page_missing:
  assumes ok: "dirs_ok n st D" and pd: "pd \<in> D" and z: "tab (pg_mem st) pd (unat (pd_no va)) = 0"
  shows "lookup_page st pd va False = Some (st, NULL)"
proof -
  note d = dirs_okD[OF ok]
  have "load32 st (entry_at pd (unat (pd_no va))) = Some (tab (pg_mem st) pd (unat (pd_no va)))"
    using load32_tab d(3,4)[OF pd] pd_no_lt by blast
  moreover have "pd \<noteq> NULL" using d(4)[OF pd] by (auto simp: is_kernel_vaddr_def)
  ultimately show ?thesis using z by (simp add: lookup_page_def)
qed

text \<open>Reading and writing the entry that was found.\<close>

lemma load_entry:
  assumes ok: "dirs_ok n st D" and pd: "pd \<in> D" "unat (pd_no va) < n" and nz: "tab (pg_mem st) pd (unat (pd_no va)) \<noteq> 0"
  shows "entry_at (table_addr (tab (pg_mem st) pd (unat (pd_no va)))) (unat (pt_no va)) \<noteq> NULL"
    "load32 st (entry_at (table_addr (tab (pg_mem st) pd (unat (pd_no va)))) (unat (pt_no va))) = Some (pte_of (pg_mem st) pd va)"
proof -
  have t: "is_kernel_vaddr (table_addr (tab (pg_mem st) pd (unat (pd_no va))))" "pg_ofs (table_addr (tab (pg_mem st) pd (unat (pd_no va)))) = 0"
    using dirs_okD(9)[OF ok pd nz] by (simp_all add: table_page_def)
  show "entry_at (table_addr (tab (pg_mem st) pd (unat (pd_no va)))) (unat (pt_no va)) \<noteq> NULL" by (rule entry_at_nonnull[OF t pt_no_lt])
  show "load32 st (entry_at (table_addr (tab (pg_mem st) pd (unat (pd_no va)))) (unat (pt_no va))) = Some (pte_of (pg_mem st) pd va)"
    using load32_tab[OF t pt_no_lt] nz by (simp add: pte_of_def Let_def)
qed

lemma store_entry:
  assumes ok: "dirs_ok n st D" and pd: "pd \<in> D" "unat (pd_no va) < n" and nz: "tab (pg_mem st) pd (unat (pd_no va)) \<noteq> 0"
  obtains m' where "store32 st (entry_at (table_addr (tab (pg_mem st) pd (unat (pd_no va)))) (unat (pt_no va))) w = Some (st\<lparr>pg_mem := m'\<rparr>)"
    "dirs_ok n (st\<lparr>pg_mem := m'\<rparr>) D" "dir_pages n m' D = dir_pages n (pg_mem st) D"
    "\<And>pd' i. pd' \<in> D \<Longrightarrow> i < 1024 \<Longrightarrow> tab m' pd' i = tab (pg_mem st) pd' i"
    "\<And>pd' vb. pd' \<in> D \<Longrightarrow> unat (pd_no vb) < n \<Longrightarrow>
       pte_of m' pd' vb = (if pd' = pd \<and> pg_no vb = pg_no va then w else pte_of (pg_mem st) pd' vb)"
proof -
  note d = dirs_okD[OF ok]
  let ?m = "pg_mem st" and ?t = "table_addr (tab (pg_mem st) pd (unat (pd_no va)))"
  let ?m' = "write_bytes ?m (entry_at ?t (unat (pt_no va))) (bytes_of_word w)"
  have t: "is_kernel_vaddr ?t" "pg_ofs ?t = 0" using d(9)[OF pd nz] by (simp_all add: table_page_def)
  have dir: "tab ?m' pd' i = tab ?m pd' i" if "pd' \<in> D" "i < 1024" for pd' i
    using tab_store[OF t(2) d(3)[OF that(1)] pt_no_lt that(2)] d(8)[OF pd nz] that(1) by auto
  then have dn: "tab ?m' pd' i = tab ?m pd' i" if "pd' \<in> D" "i < n" for pd' i using that d(1) by simp
  then have p: "dir_pages n ?m' D = dir_pages n ?m D" unfolding dir_pages_def by (metis (no_types, lifting))
  have "dirs_ok n (st\<lparr>pg_mem := ?m'\<rparr>) D" using ok dn p unfolding dirs_ok_def by auto
  moreover have "pte_of ?m' pd' vb = (if pd' = pd \<and> pg_no vb = pg_no va then w else pte_of ?m pd' vb)"
    if v: "pd' \<in> D" "unat (pd_no vb) < n" for pd' vb
  proof (cases "tab ?m pd' (unat (pd_no vb)) = 0")
    case True
    then have "\<not> (pd' = pd \<and> pg_no vb = pg_no va)" using nz by (auto simp: same_page_iff)
    then show ?thesis using True dn[OF v] by (simp add: pte_of_def Let_def del: de_Morgan_conj)
  next
    case False
    have o: "pg_ofs (table_addr (tab ?m pd' (unat (pd_no vb)))) = 0" using d(9)[OF v False] by (simp add: table_page_def)
    show ?thesis using False dn[OF v] tab_store[OF t(2) o pt_no_lt pt_no_lt] d(10)[OF pd nz v False] same_page_iff[of vb va]
      by (auto simp: pte_of_def Let_def)
  qed
  ultimately show thesis using that[OF store32_tab[OF t pt_no_lt]] p dir by blast
qed

text \<open>A new page, filled with zeros, as the table of an entry that had none.\<close>

lemma fresh_page:
  assumes "dirs_ok n st D" and "pg_ofs a = 0" and "unat (pg_no a) \<notin> palloc_used (pg_pal st)"
  shows "a \<notin> dir_pages n (pg_mem st) D" "\<And>p. p \<in> dir_pages n (pg_mem st) D \<Longrightarrow> pg_ofs p = 0 \<and> unat (pg_no p) \<in> palloc_used (pg_pal st)"
  using assms unfolding dirs_ok_def table_page_def by blast+

lemma new_table_memory:
  assumes ok: "dirs_ok n st D" and pd: "pd \<in> D" "i < 1024" and a: "pg_ofs a = 0" "unat (pg_no a) \<notin> palloc_used (pg_pal st)"
    and m': "m' = write_bytes (write_bytes (pg_mem st) a (replicate 4096 0)) (entry_at pd i) (bytes_of_word e)"
  shows "\<And>pd' j. pd' \<in> D \<Longrightarrow> j < 1024 \<Longrightarrow> tab m' pd' j = (if pd' = pd \<and> j = i then e else tab (pg_mem st) pd' j)"
    and "\<And>p j. p \<in> dir_pages n (pg_mem st) D \<Longrightarrow> p \<noteq> pd \<Longrightarrow> j < 1024 \<Longrightarrow> tab m' p j = tab (pg_mem st) p j"
    and "\<And>j. j < 1024 \<Longrightarrow> tab m' a j = 0"
proof -
  let ?m1 = "write_bytes (pg_mem st) a (replicate 4096 0)"
  note d = dirs_okD[OF ok] and fr = fresh_page[OF ok a]
  have m1: "tab ?m1 p j = tab (pg_mem st) p j" if "p \<in> dir_pages n (pg_mem st) D" "j < 1024" for p j
    using tab_write_other[of a p 0 "replicate 4096 0" j "pg_mem st"] fr that a(1) by auto
  have m2: "tab m' p j = (if p = pd \<and> j = i then e else tab ?m1 p j)" if "pg_ofs p = 0" "j < 1024" for p j
    using tab_store[OF d(3)[OF pd(1)] that(1) pd(2) that(2), of ?m1 e] unfolding m' by auto
  show "tab m' pd' j = (if pd' = pd \<and> j = i then e else tab (pg_mem st) pd' j)" if "pd' \<in> D" "j < 1024" for pd' j
    using m2[OF d(3)[OF that(1)] that(2)] m1[of pd' j] that by (simp add: dir_pages_def)
  show "tab m' p j = tab (pg_mem st) p j" if "p \<in> dir_pages n (pg_mem st) D" "p \<noteq> pd" "j < 1024" for p j
    using m2[of p j] m1[OF that(1,3)] fr(2)[OF that(1)] that by simp
  show "tab m' a j = 0" if "j < 1024" for j
    using m2[OF a(1) that] tab_zero[OF a(1) that, of "pg_mem st"] fr(1) pd(1) by (auto simp: dir_pages_def)
qed

lemma dirs_ok_new_table:
  assumes ok: "dirs_ok n st D" and pd: "pd \<in> D" "i < n" and z: "tab (pg_mem st) pd i = 0"
    and a: "table_page p' a" "a \<notin> dir_pages n (pg_mem st) D"
    and p': "palloc_wf p'" "palloc_used (pg_pal st) \<subseteq> palloc_used p'" "pool_pages (kernel_pool p') = pool_pages (kernel_pool (pg_pal st))"
    and e: "e \<noteq> 0" "e AND PTE_P \<noteq> 0" "e AND PTE_ADDR < 0x40000000" "table_addr e = a"
    and dir: "\<And>pd' j. pd' \<in> D \<Longrightarrow> j < n \<Longrightarrow> tab m' pd' j = (if pd' = pd \<and> j = i then e else tab (pg_mem st) pd' j)"
  shows "dir_pages n m' D = insert a (dir_pages n (pg_mem st) D)" and "dirs_ok n (st\<lparr>pg_pal := p', pg_mem := m'\<rparr>) D"
proof -
  note d = dirs_okD[OF ok]
  let ?m = "pg_mem st"
  have "(\<exists>pd' j. x = table_addr (tab m' pd' j) \<and> pd' \<in> D \<and> j < n \<and> tab m' pd' j \<noteq> 0) \<longleftrightarrow>
      x = a \<or> (\<exists>pd' j. x = table_addr (tab ?m pd' j) \<and> pd' \<in> D \<and> j < n \<and> tab ?m pd' j \<noteq> 0)" for x
    using dir[OF pd] dir z e(1,4) pd by (metis (no_types, lifting))
  then show pages: "dir_pages n m' D = insert a (dir_pages n ?m D)" unfolding dir_pages_def by blast
  have old: "table_addr (tab ?m pd' j) \<noteq> a" if "pd' \<in> D" "j < n" "tab ?m pd' j \<noteq> 0" for pd' j
    using a(2) that by (auto simp: dir_pages_def)
  have ad: "a \<notin> D" using a(2) by (simp add: dir_pages_def)
  have 1: "table_page p' p" if "p \<in> dir_pages n m' D" for p
    using that a(1) ok p'(2,3) unfolding pages dirs_ok_def table_page_def by auto
  have 2: "tab m' pd' j AND PTE_P \<noteq> 0 \<and> tab m' pd' j AND PTE_ADDR < 0x40000000 \<and> table_addr (tab m' pd' j) \<notin> D"
    if v: "pd' \<in> D" "j < n" "tab m' pd' j \<noteq> 0" for pd' j
    using v dir[OF v(1,2)] e d(6-8)[OF v(1,2)] ad by (auto split: if_splits)
  have 3: "pd' = pd'' \<and> j = k"
    if v: "pd' \<in> D" "j < n" "tab m' pd' j \<noteq> 0" and w: "pd'' \<in> D" "k < n" "tab m' pd'' k \<noteq> 0" "table_addr (tab m' pd' j) = table_addr (tab m' pd'' k)"
    for pd' pd'' j k
    using v(3) w(3,4) dir[OF v(1,2)] dir[OF w(1,2)] e(4) old[OF v(1,2)] old[OF w(1,2)] d(10)[OF v(1,2) _ w(1,2)]
    by (metis (no_types, lifting))
  show "dirs_ok n (st\<lparr>pg_pal := p', pg_mem := m'\<rparr>) D"
    unfolding dirs_ok_def using d(1) p'(1) 1 2 3 by auto
qed

lemma add_table:
  assumes ok: "dirs_ok n st D" and pd: "pd \<in> D" "i < n" and z: "tab (pg_mem st) pd i = 0"
    and a: "pg_ofs a = 0" "is_kernel_vaddr a" "unat (pg_no a) \<in> pool_pages (kernel_pool (pg_pal st))" "unat (pg_no a) \<notin> palloc_used (pg_pal st)"
    and p': "palloc_wf p'" "palloc_used p' = insert (unat (pg_no a)) (palloc_used (pg_pal st))"
      "pool_pages (kernel_pool p') = pool_pages (kernel_pool (pg_pal st))"
  obtains e m' where "pde_create a = Some e"
    "store32 (st\<lparr>pg_pal := p', pg_mem := write_bytes (pg_mem st) a (replicate 4096 0)\<rparr>) (entry_at pd i) e = Some (st\<lparr>pg_pal := p', pg_mem := m'\<rparr>)"
    "dirs_ok n (st\<lparr>pg_pal := p', pg_mem := m'\<rparr>) D" "e \<noteq> 0" "table_addr e = a"
    "\<And>pd' j. pd' \<in> D \<Longrightarrow> j < 1024 \<Longrightarrow> tab m' pd' j = (if pd' = pd \<and> j = i then e else tab (pg_mem st) pd' j)"
    "dir_pages n m' D = insert a (dir_pages n (pg_mem st) D)"
    "\<And>pd' vb. pd' \<in> D \<Longrightarrow> unat (pd_no vb) < n \<Longrightarrow> pte_of m' pd' vb = pte_of (pg_mem st) pd' vb"
proof -
  note d = dirs_okD[OF ok]
  obtain e where e: "pde_create a = Some e" "e \<noteq> 0" "e AND PTE_P \<noteq> 0" "e AND PTE_ADDR < 0x40000000" "table_addr e = a"
    by (rule pde_created[OF a(1,2)])
  define m' where "m' = write_bytes (write_bytes (pg_mem st) a (replicate 4096 0)) (entry_at pd i) (bytes_of_word e)"
  have i: "i < 1024" using pd(2) d(1) by simp
  note mm = new_table_memory[OF ok pd(1) i a(1,4) m'_def]
  have tp: "table_page p' a" using a p' by (simp add: table_page_def)
  have dir: "tab m' pd' j = (if pd' = pd \<and> j = i then e else tab (pg_mem st) pd' j)" if "pd' \<in> D" "j < n" for pd' j
    using mm(1)[of pd' j] that d(1) by simp
  have us: "palloc_used (pg_pal st) \<subseteq> palloc_used p'" using p'(2) by blast
  note nt = dirs_ok_new_table[OF ok pd z tp fresh_page(1)[OF ok a(1,4)] p'(1) us p'(3) e(2-5) dir]
  have "pte_of m' pd' vb = pte_of (pg_mem st) pd' vb" if v: "pd' \<in> D" "unat (pd_no vb) < n" for pd' vb
  proof (cases "pd' = pd \<and> unat (pd_no vb) = i")
    case True
    then show ?thesis using mm(1)[OF pd(1) i] e(5) z mm(3)[OF pt_no_lt] by (simp add: pte_of_def Let_def)
  next
    case False
    then have s: "tab m' pd' (unat (pd_no vb)) = tab (pg_mem st) pd' (unat (pd_no vb))" using dir[OF v] by presburger
    have "tab m' (table_addr (tab (pg_mem st) pd' (unat (pd_no vb)))) (unat (pt_no vb)) =
        tab (pg_mem st) (table_addr (tab (pg_mem st) pd' (unat (pd_no vb)))) (unat (pt_no vb))" if "tab (pg_mem st) pd' (unat (pd_no vb)) \<noteq> 0"
      using mm(2)[OF _ _ pt_no_lt] v that d(8)[OF v that] pd(1) unfolding dir_pages_def by blast
    then show ?thesis using s by (simp add: pte_of_def Let_def)
  qed
  then show thesis using that[OF e(1) _ nt(2) e(2,5) mm(1) nt(1)] store32_tab[OF d(4)[OF pd(1)] d(3)[OF pd(1)] i] by (simp add: m'_def)
qed

lemma lookup_page_create:
  assumes ok: "dirs_ok n st D" and pd: "pd \<in> D" "unat (pd_no va) < n" and u: "is_user_vaddr va"
  obtains (full) p' where "lookup_page st pd va True = Some (st\<lparr>pg_pal := p'\<rparr>, NULL)" "dirs_ok n (st\<lparr>pg_pal := p'\<rparr>) D"
      "palloc_used p' = palloc_used (pg_pal st)" "pool_pages (user_pool p') = pool_pages (user_pool (pg_pal st))"
      "pool_pages (kernel_pool (pg_pal st)) \<subseteq> palloc_used (pg_pal st)"
  | (entry) p' m' where "lookup_page st pd va True =
      Some (st\<lparr>pg_pal := p', pg_mem := m'\<rparr>, entry_at (table_addr (tab m' pd (unat (pd_no va)))) (unat (pt_no va)))"
      "dirs_ok n (st\<lparr>pg_pal := p', pg_mem := m'\<rparr>) D" "tab m' pd (unat (pd_no va)) \<noteq> 0"
      "palloc_used (pg_pal st) \<subseteq> palloc_used p'" "pool_pages (user_pool p') = pool_pages (user_pool (pg_pal st))"
      "\<And>pd' vb. pd' \<in> D \<Longrightarrow> unat (pd_no vb) < n \<Longrightarrow> pte_of m' pd' vb = pte_of (pg_mem st) pd' vb"
proof (cases "tab (pg_mem st) pd (unat (pd_no va)) = 0")
  case False
  then show thesis using entry[of "pg_mem st" "pg_pal st"] lookup_page_found[OF ok pd False, of True] ok u by simp
next
  case True
  note d = dirs_okD[OF ok]
  have pre: "load32 st (entry_at pd (unat (pd_no va))) = Some 0" "pd \<noteq> NULL"
    using load32_tab[OF d(4,3)[OF pd(1)] pd_no_lt] True d(4)[OF pd(1)] by (auto simp: is_kernel_vaddr_def)
  show thesis
  proof (rule get_page_cases[OF d(2), of PAL_ZERO])
    fix p' assume g: "get_page st PAL_ZERO = Some (st\<lparr>pg_pal := p'\<rparr>, NULL)" "palloc_wf p'" "palloc_used p' = palloc_used (pg_pal st)"
      "pool_pages (kernel_pool p') = pool_pages (kernel_pool (pg_pal st))" "pool_pages (user_pool p') = pool_pages (user_pool (pg_pal st))"
      "pool_pages (kernel_pool (pg_pal st)) \<subseteq> palloc_used (pg_pal st)"
    have "dirs_ok n (st\<lparr>pg_pal := p'\<rparr>) D" using ok g(2-4) by (auto simp: dirs_ok_def table_page_def)
    then show thesis using full[of p'] g u pre by (simp add: lookup_page_def)
  next
    fix p' m' a assume g: "get_page st PAL_ZERO = Some (st\<lparr>pg_pal := p', pg_mem := m'\<rparr>, a)" "palloc_wf p'" "pg_ofs a = 0" "is_kernel_vaddr a"
      "unat (pg_no a) \<in> pool_pages (kernel_pool (pg_pal st))" "unat (pg_no a) \<notin> palloc_used (pg_pal st)"
      "palloc_used p' = insert (unat (pg_no a)) (palloc_used (pg_pal st))"
      "pool_pages (kernel_pool p') = pool_pages (kernel_pool (pg_pal st))" "pool_pages (user_pool p') = pool_pages (user_pool (pg_pal st))"
      "m' = (if PAL_ZERO AND PAL_ZERO \<noteq> 0 then write_bytes (pg_mem st) a (replicate 4096 0) else pg_mem st)"
    obtain e m2 where t: "pde_create a = Some e"
      "store32 (st\<lparr>pg_pal := p', pg_mem := write_bytes (pg_mem st) a (replicate 4096 0)\<rparr>) (entry_at pd (unat (pd_no va))) e = Some (st\<lparr>pg_pal := p', pg_mem := m2\<rparr>)"
      "dirs_ok n (st\<lparr>pg_pal := p', pg_mem := m2\<rparr>) D" "e \<noteq> 0" "table_addr e = a"
      "\<And>pd' j. pd' \<in> D \<Longrightarrow> j < 1024 \<Longrightarrow> tab m2 pd' j = (if pd' = pd \<and> j = unat (pd_no va) then e else tab (pg_mem st) pd' j)"
      "\<And>pd' vb. pd' \<in> D \<Longrightarrow> unat (pd_no vb) < n \<Longrightarrow> pte_of m2 pd' vb = pte_of (pg_mem st) pd' vb"
      by (rule add_table[OF ok pd True g(3-6,2,7,8)]) blast
    have nz: "tab m2 pd (unat (pd_no va)) = e" using t(6)[OF pd(1) pd_no_lt] by simp
    let ?st = "st\<lparr>pg_pal := p', pg_mem := m2\<rparr>"
    have "load32 ?st (entry_at pd (unat (pd_no va))) = Some e" using load32_tab[OF d(4,3)[OF pd(1)] pd_no_lt, of ?st va] nz by simp
    moreover have "pde_get_pt e = Some a"
      using dirs_okD(6,7)[OF t(3) pd] nz t(4,5) table_addr_page(1)[of e] by (simp add: pde_get_pt_def)
    moreover have nn: "a \<noteq> NULL" using g(4) by (auto simp: is_kernel_vaddr_def)
    ultimately have "lookup_page st pd va True = Some (?st, entry_at (table_addr (tab m2 pd (unat (pd_no va)))) (unat (pt_no va)))"
      using pre u g(1,10) t(1,2,5) nz nn by (simp add: lookup_page_def Let_def)
    then show thesis using entry[of m2 p'] t(3,4,7) nz g(7,9) by auto
  qed simp_all
qed

section \<open>Address spaces\<close>

text \<open>What a directory maps a user address to: the page, and whether it is writable.\<close>

definition page_map :: "paging \<Rightarrow> ptr \<Rightarrow> ptr \<Rightarrow> (ptr \<times> bool) option" where
  "page_map st pd va = (let e = pte_of (pg_mem st) pd va in if e AND PTE_P \<noteq> 0 then Some (table_addr e, e AND PTE_W \<noteq> 0) else None)"

text \<open>The directories in \<open>D\<close> hold the address spaces of processes: their tables for user addresses are well formed and map kernel addresses of pages.\<close>

definition spaces_ok :: "paging \<Rightarrow> ptr set \<Rightarrow> bool" where
  "spaces_ok st D \<longleftrightarrow> dirs_ok 768 st D \<and>
     (\<forall>pd\<in>D. \<forall>va. is_user_vaddr va \<longrightarrow> pte_of (pg_mem st) pd va AND PTE_P \<noteq> 0 \<longrightarrow> pte_of (pg_mem st) pd va AND PTE_ADDR < 0x40000000)"

lemma spaces_okD:
  "spaces_ok st D \<Longrightarrow> dirs_ok 768 st D"
  "spaces_ok st D \<Longrightarrow> pd \<in> D \<Longrightarrow> is_user_vaddr va \<Longrightarrow> pte_of (pg_mem st) pd va AND PTE_P \<noteq> 0 \<Longrightarrow> pte_of (pg_mem st) pd va AND PTE_ADDR < 0x40000000"
  unfolding spaces_ok_def by blast+

lemma lookup_user:
  assumes ok: "spaces_ok st D" and pd: "pd \<in> D" and u: "is_user_vaddr va"
  obtains (none) "lookup_page st pd va False = Some (st, NULL)" "pte_of (pg_mem st) pd va = 0"
  | (some) p where "lookup_page st pd va False = Some (st, p)" "p \<noteq> NULL" "load32 st p = Some (pte_of (pg_mem st) pd va)"
      "p = entry_at (table_addr (tab (pg_mem st) pd (unat (pd_no va)))) (unat (pt_no va))" "tab (pg_mem st) pd (unat (pd_no va)) \<noteq> 0"
proof (cases "tab (pg_mem st) pd (unat (pd_no va)) = 0")
  case True
  then show thesis using none lookup_page_missing[OF spaces_okD(1)[OF ok] pd True] by (simp add: pte_of_def Let_def)
next
  case False
  have "unat (pd_no va) < 768" using u user_pd_no by blast
  then show thesis using some lookup_page_found[OF spaces_okD(1)[OF ok] pd _ False, of False] load_entry[OF spaces_okD(1)[OF ok] pd _ False] False by blast
qed

text \<open>Writing an entry of one directory changes the mapping of one page.\<close>

lemma store_user:
  assumes ok: "spaces_ok st D" and pd: "pd \<in> D" and u: "is_user_vaddr va" and nz: "tab (pg_mem st) pd (unat (pd_no va)) \<noteq> 0"
    and w: "w AND PTE_P \<noteq> 0 \<Longrightarrow> w AND PTE_ADDR < 0x40000000"
  obtains m' where "store32 st (entry_at (table_addr (tab (pg_mem st) pd (unat (pd_no va)))) (unat (pt_no va))) w = Some (st\<lparr>pg_mem := m'\<rparr>)"
    "spaces_ok (st\<lparr>pg_mem := m'\<rparr>) D"
    "\<And>pd' vb. pd' \<in> D \<Longrightarrow> is_user_vaddr vb \<Longrightarrow> pte_of m' pd' vb = (if pd' = pd \<and> pg_no vb = pg_no va then w else pte_of (pg_mem st) pd' vb)"
proof -
  have lt: "unat (pd_no va) < 768" using u user_pd_no by blast
  show thesis
  proof (rule store_entry[OF spaces_okD(1)[OF ok] pd lt nz, of w])
    fix m' assume m: "store32 st (entry_at (table_addr (tab (pg_mem st) pd (unat (pd_no va)))) (unat (pt_no va))) w = Some (st\<lparr>pg_mem := m'\<rparr>)"
      "dirs_ok 768 (st\<lparr>pg_mem := m'\<rparr>) D" and
      q: "\<And>pd' vb. pd' \<in> D \<Longrightarrow> unat (pd_no vb) < 768 \<Longrightarrow> pte_of m' pd' vb = (if pd' = pd \<and> pg_no vb = pg_no va then w else pte_of (pg_mem st) pd' vb)"
    have p: "pte_of m' pd' vb = (if pd' = pd \<and> pg_no vb = pg_no va then w else pte_of (pg_mem st) pd' vb)" if "pd' \<in> D" "is_user_vaddr vb" for pd' vb
      using q that user_pd_no by blast
    have "spaces_ok (st\<lparr>pg_mem := m'\<rparr>) D" using m(2) ok w unfolding spaces_ok_def by (auto simp: p)
    then show thesis using that[OF m(1)] p by blast
  qed
qed

lemma get_page_map:
  assumes ok: "spaces_ok st D" and pd: "pd \<in> D" and u: "is_user_vaddr va"
  shows "pagedir_get_page st pd va = Some (case page_map st pd va of None \<Rightarrow> NULL | Some (k, _) \<Rightarrow> k + pg_ofs va)"
proof (rule lookup_user[OF assms])
  assume "lookup_page st pd va False = Some (st, NULL)" "pte_of (pg_mem st) pd va = 0"
  then show ?thesis using u by (simp add: pagedir_get_page_def page_map_def)
next
  fix p assume "lookup_page st pd va False = Some (st, p)" "p \<noteq> NULL" "load32 st p = Some (pte_of (pg_mem st) pd va)"
  then show ?thesis using u spaces_okD(2)[OF assms] table_addr_page(1)
    by (simp add: pagedir_get_page_def page_map_def Let_def pte_get_page_def)
qed

lemma set_page_map:
  assumes ok: "spaces_ok st D" and pd: "pd \<in> D" "pd \<noteq> base_page_dir st" and u: "is_user_vaddr upage" "pg_ofs upage = 0"
    and k: "pg_ofs kpage = 0" "is_kernel_vaddr kpage" "drop_bit 12 (kpage - PHYS_BASE) < ram_pages st" and free: "page_map st pd upage = None"
  obtains (full) p' where "pagedir_set_page st pd upage kpage writable = Some (st\<lparr>pg_pal := p'\<rparr>, NULL, False)" "spaces_ok (st\<lparr>pg_pal := p'\<rparr>) D"
      "palloc_used p' = palloc_used (pg_pal st)" "pool_pages (kernel_pool (pg_pal st)) \<subseteq> palloc_used (pg_pal st)"
  | (set) p' m' pte e where "pagedir_set_page st pd upage kpage writable = Some (st\<lparr>pg_pal := p', pg_mem := m'\<rparr>, pte, True)" "pte \<noteq> NULL"
      "spaces_ok (st\<lparr>pg_pal := p', pg_mem := m'\<rparr>) D" "palloc_used (pg_pal st) \<subseteq> palloc_used p'"
      "pool_pages (user_pool p') = pool_pages (user_pool (pg_pal st))" "e AND PTE_P \<noteq> 0" "e AND PTE_W \<noteq> 0 \<longleftrightarrow> writable" "table_addr e = kpage"
      "\<And>pd' vb. pd' \<in> D \<Longrightarrow> is_user_vaddr vb \<Longrightarrow> pte_of m' pd' vb = (if pd' = pd \<and> pg_no vb = pg_no upage then e else pte_of (pg_mem st) pd' vb)"
proof -
  have lt: "unat (pd_no upage) < 768" using u(1) user_pd_no by blast
  have pre: "vtop kpage = Some (kpage - PHYS_BASE)" using k(2) by (simp add: vtop_def)
  show thesis
  proof (rule lookup_page_create[OF spaces_okD(1)[OF ok] pd(1) lt u(1)])
    fix p' assume g: "lookup_page st pd upage True = Some (st\<lparr>pg_pal := p'\<rparr>, NULL)" "dirs_ok 768 (st\<lparr>pg_pal := p'\<rparr>) D"
      "palloc_used p' = palloc_used (pg_pal st)" "pool_pages (kernel_pool (pg_pal st)) \<subseteq> palloc_used (pg_pal st)"
    have "spaces_ok (st\<lparr>pg_pal := p'\<rparr>) D" using ok g(2) by (simp add: spaces_ok_def)
    then show thesis using full[of p'] g u k pre pd by (simp add: pagedir_set_page_def)
  next
    fix p' m' assume g: "lookup_page st pd upage True =
      Some (st\<lparr>pg_pal := p', pg_mem := m'\<rparr>, entry_at (table_addr (tab m' pd (unat (pd_no upage)))) (unat (pt_no upage)))"
      "dirs_ok 768 (st\<lparr>pg_pal := p', pg_mem := m'\<rparr>) D" "tab m' pd (unat (pd_no upage)) \<noteq> 0"
      "palloc_used (pg_pal st) \<subseteq> palloc_used p'" "pool_pages (user_pool p') = pool_pages (user_pool (pg_pal st))"
      "\<And>pd' vb. pd' \<in> D \<Longrightarrow> unat (pd_no vb) < 768 \<Longrightarrow> pte_of m' pd' vb = pte_of (pg_mem st) pd' vb"
    let ?st = "st\<lparr>pg_pal := p', pg_mem := m'\<rparr>" and ?pte = "entry_at (table_addr (tab m' pd (unat (pd_no upage)))) (unat (pt_no upage))"
    have same: "pte_of m' pd' vb = pte_of (pg_mem st) pd' vb" if "pd' \<in> D" "is_user_vaddr vb" for pd' vb using g(6) that user_pd_no by blast
    have ok': "spaces_ok ?st D" using ok g(2) same by (auto simp: spaces_ok_def)
    obtain e where e: "pte_create_user kpage writable = Some e" "e AND PTE_P \<noteq> 0" "e AND PTE_W \<noteq> 0 \<longleftrightarrow> writable" "e AND PTE_ADDR < 0x40000000"
      "table_addr e = kpage" by (rule pte_created[OF k(1,2)]) blast
    have nz: "tab (pg_mem ?st) pd (unat (pd_no upage)) \<noteq> 0" using g(3) by simp
    show thesis
    proof (rule store_user[OF ok' pd(1) u(1) nz e(4)])
      fix m2 assume "store32 ?st (entry_at (table_addr (tab (pg_mem ?st) pd (unat (pd_no upage)))) (unat (pt_no upage))) e = Some (?st\<lparr>pg_mem := m2\<rparr>)"
        and ok2: "spaces_ok (?st\<lparr>pg_mem := m2\<rparr>) D" and q: "\<And>pd' vb. pd' \<in> D \<Longrightarrow> is_user_vaddr vb \<Longrightarrow>
          pte_of m2 pd' vb = (if pd' = pd \<and> pg_no vb = pg_no upage then e else pte_of (pg_mem ?st) pd' vb)"
      then have "store32 ?st ?pte e = Some (st\<lparr>pg_pal := p', pg_mem := m2\<rparr>)" by simp
      moreover have "load32 ?st ?pte = Some (pte_of (pg_mem st) pd upage)" "?pte \<noteq> NULL"
        using load_entry[OF g(2) pd(1) lt nz] same[OF pd(1) u(1)] by simp_all
      moreover have "pte_of (pg_mem st) pd upage AND PTE_P = 0" using free by (simp add: page_map_def Let_def split: if_splits)
      ultimately have r: "pagedir_set_page st pd upage kpage writable = Some (st\<lparr>pg_pal := p', pg_mem := m2\<rparr>, ?pte, True)"
        using g(1) e(1) u k pre pd(2) by (simp add: pagedir_set_page_def)
      show thesis
      proof (rule set[OF r \<open>?pte \<noteq> NULL\<close> _ g(4,5) e(2,3,5)])
        show "spaces_ok (st\<lparr>pg_pal := p', pg_mem := m2\<rparr>) D" using ok2 by simp
        show "pte_of m2 pd' vb = (if pd' = pd \<and> pg_no vb = pg_no upage then e else pte_of (pg_mem st) pd' vb)" if "pd' \<in> D" "is_user_vaddr vb" for pd' vb
          using q[OF that] same[OF that] by simp
      qed
    qed
  qed
qed

lemma mask_off_other: "c AND d = 0 \<Longrightarrow> (e AND NOT d) AND c = e AND (c :: 32 word)"
proof -
  assume cd: "c AND d = 0"
  have "\<not> (bit c n \<and> bit d n)" for n using arg_cong[OF cd, of "\<lambda>w. bit w n"] by (simp add: bit_and_iff)
  then show ?thesis by (intro bit_word_eqI) (auto simp: bit_simps)
qed

lemma mask_on_other: "c AND d = 0 \<Longrightarrow> (e OR d) AND c = e AND (c :: 32 word)"
proof -
  assume cd: "c AND d = 0"
  have "\<not> (bit c n \<and> bit d n)" for n using arg_cong[OF cd, of "\<lambda>w. bit w n"] by (simp add: bit_and_iff)
  then show ?thesis by (intro bit_word_eqI) (auto simp: bit_simps)
qed

lemma mask_off_same: "(e AND NOT d) AND d = (0 :: 32 word)"
  by (rule bit_word_eqI) (simp add: bit_simps)

lemma mask_on_same: "d \<noteq> 0 \<Longrightarrow> (e OR d) AND d \<noteq> (0 :: 32 word)"
proof -
  have "(e OR d) AND d = d" by (rule bit_word_eqI) (auto simp: bit_simps)
  then show "d \<noteq> 0 \<Longrightarrow> (e OR d) AND d \<noteq> 0" by simp
qed

section \<open>The translation lookaside buffer\<close>

text \<open>
  A cached entry agrees with the page table entry if the page is still present, the frame and the permissions are the same, and no accessed
  or dirty bit is cached that is no longer set in memory: the processor does not set a bit again that is set in the cached entry.
\<close>

definition agrees :: "32 word \<Rightarrow> 32 word \<Rightarrow> bool" where
  "agrees c e \<longleftrightarrow> e AND PTE_P \<noteq> 0 \<and> c AND PTE_ADDR = e AND PTE_ADDR \<and> c AND PTE_W = e AND PTE_W \<and> c AND PTE_U = e AND PTE_U \<and>
     (c AND PTE_A \<noteq> 0 \<longrightarrow> e AND PTE_A \<noteq> 0) \<and> (c AND PTE_D \<noteq> 0 \<longrightarrow> e AND PTE_D \<noteq> 0)"

text \<open>The active directory is one of \<open>D\<close>, and the buffer agrees with it.\<close>

definition tlb_ok :: "paging \<Rightarrow> ptr set \<Rightarrow> bool" where
  "tlb_ok st D \<longleftrightarrow> (\<exists>pd\<in>D. vtop pd = Some (cr3 st) \<and>
     (\<forall>va c. is_user_vaddr va \<longrightarrow> tlb st (pg_no va) = Some c \<longrightarrow> agrees c (pte_of (pg_mem st) pd va)))"

lemma vtop_inj: "vtop a = Some x \<Longrightarrow> vtop b = Some x \<Longrightarrow> a = b"
  by (auto simp: vtop_def ASSERT_def split: if_splits)

lemma invalidate_eq:
  assumes "is_kernel_vaddr a" and "vtop a = Some (cr3 st)" and "is_kernel_vaddr pd"
  shows "invalidate_pagedir st pd = Some (if a = pd then st\<lparr>tlb := (\<lambda>_. None)\<rparr> else st)"
proof -
  have "pd \<noteq> NULL" using assms(3) by (auto simp: is_kernel_vaddr_def)
  moreover have "ptov (cr3 st) = Some a" by (rule ptov_vtop[OF assms(1,2)])
  ultimately show ?thesis using assms(2) by (cases st) (auto simp: invalidate_pagedir_def active_pd_def pagedir_activate_def)
qed

text \<open>An operation that replaces the entry of a page and, if \<open>flush\<close>, invalidates the buffer.\<close>

lemma modify_entry:
  assumes ok: "spaces_ok st D" and pd: "pd \<in> D" and u: "is_user_vaddr va" and t: "tlb_ok st D"
    and p: "p = entry_at (table_addr (tab (pg_mem st) pd (unat (pd_no va)))) (unat (pt_no va))" "tab (pg_mem st) pd (unat (pd_no va)) \<noteq> 0"
    and w: "w AND PTE_P \<noteq> 0 \<Longrightarrow> w AND PTE_ADDR < 0x40000000"
    and safe: "flush \<or> (\<forall>c. agrees c (pte_of (pg_mem st) pd va) \<longrightarrow> agrees c w)"
  obtains st' where "do { s \<leftarrow> store32 st p w; if flush then invalidate_pagedir s pd else Some s } = Some st'"
    "spaces_ok st' D" "tlb_ok st' D" "pg_pal st' = pg_pal st" "base_page_dir st' = base_page_dir st" "ram_pages st' = ram_pages st"
    "\<And>pd' vb. pd' \<in> D \<Longrightarrow> is_user_vaddr vb \<Longrightarrow>
       pte_of (pg_mem st') pd' vb = (if pd' = pd \<and> pg_no vb = pg_no va then w else pte_of (pg_mem st) pd' vb)"
proof (rule store_user[OF ok pd u p(2) w])
  fix m' assume s: "store32 st (entry_at (table_addr (tab (pg_mem st) pd (unat (pd_no va)))) (unat (pt_no va))) w = Some (st\<lparr>pg_mem := m'\<rparr>)"
    "spaces_ok (st\<lparr>pg_mem := m'\<rparr>) D" and
    e: "\<And>pd' vb. pd' \<in> D \<Longrightarrow> is_user_vaddr vb \<Longrightarrow> pte_of m' pd' vb = (if pd' = pd \<and> pg_no vb = pg_no va then w else pte_of (pg_mem st) pd' vb)"
  obtain a where a: "a \<in> D" "vtop a = Some (cr3 st)" "\<forall>va c. is_user_vaddr va \<longrightarrow> tlb st (pg_no va) = Some c \<longrightarrow> agrees c (pte_of (pg_mem st) a va)"
    using t unfolding tlb_ok_def by blast
  note kv = dirs_okD(4)[OF spaces_okD(1)[OF ok]]
  define st' where "st' = (if flush \<and> a = pd then st\<lparr>pg_mem := m', tlb := (\<lambda>_. None)\<rparr> else st\<lparr>pg_mem := m'\<rparr>)"
  have inv: "invalidate_pagedir (st\<lparr>pg_mem := m'\<rparr>) pd = Some (if a = pd then st\<lparr>pg_mem := m', tlb := (\<lambda>_. None)\<rparr> else st\<lparr>pg_mem := m'\<rparr>)"
    using invalidate_eq[OF kv[OF a(1)] _ kv[OF pd], of "st\<lparr>pg_mem := m'\<rparr>"] a(2) by simp
  have "do { s \<leftarrow> store32 st p w; if flush then invalidate_pagedir s pd else Some s } = Some st'"
    using s(1) inv p(1) by (simp add: st'_def)
  moreover have "spaces_ok st' D" using s(2) by (auto simp: st'_def spaces_ok_def dirs_ok_def)
  moreover have "tlb_ok st' D"
  proof -
    have "agrees c (pte_of m' a vb)" if v: "is_user_vaddr vb" "tlb st' (pg_no vb) = Some c" for vb c
    proof (cases "a = pd \<and> pg_no vb = pg_no va")
      case True
      then have "\<not> flush" "tlb st (pg_no va) = Some c" using v(2) by (auto simp: st'_def split: if_splits)
      then show ?thesis using safe a(3) u True e[OF a(1) v(1)] by simp
    next
      case False
      then have "tlb st (pg_no vb) = Some c" using v(2) by (simp add: st'_def split: if_splits)
      then show ?thesis using a(3) v(1) e[OF a(1) v(1)] False by presburger
    qed
    then show ?thesis using a(1,2) unfolding tlb_ok_def st'_def by auto
  qed
  moreover have "pg_mem st' = m'" "pg_pal st' = pg_pal st" "base_page_dir st' = base_page_dir st" "ram_pages st' = ram_pages st" by (simp_all add: st'_def)
  ultimately show thesis using that[of st'] e by simp
qed

lemma page_map_cong: "pte_of (pg_mem st') pd' vb = pte_of (pg_mem st) pd vb \<Longrightarrow> page_map st' pd' vb = page_map st pd vb"
  by (simp add: page_map_def)

lemma pte_of_same_page: "pg_no vb = pg_no va \<Longrightarrow> pte_of m pd vb = pte_of m pd va"
  by (simp add: pte_of_def same_page_iff Let_def)

lemma clear_page_ok:
  assumes ok: "spaces_ok st D" "tlb_ok st D" and pd: "pd \<in> D" and u: "is_user_vaddr upage" "pg_ofs upage = 0"
  obtains st' where "pagedir_clear_page st pd upage = Some st'" "spaces_ok st' D" "tlb_ok st' D" "pg_pal st' = pg_pal st"
    "base_page_dir st' = base_page_dir st" "ram_pages st' = ram_pages st"
    "\<And>pd' vb. pd' \<in> D \<Longrightarrow> is_user_vaddr vb \<Longrightarrow>
       page_map st' pd' vb = (if pd' = pd \<and> pg_no vb = pg_no upage then None else page_map st pd' vb)"
    "\<And>pd' vb. pd' \<in> D \<Longrightarrow> is_user_vaddr vb \<Longrightarrow>
       pte_of (pg_mem st') pd' vb = (if pd' = pd \<and> pg_no vb = pg_no upage then pte_of (pg_mem st) pd' vb AND NOT PTE_P else pte_of (pg_mem st) pd' vb)"
proof -
  let ?e = "pte_of (pg_mem st) pd upage"
  have sp: "pte_of (pg_mem st) pd vb = ?e" if "pg_no vb = pg_no upage" for vb by (rule pte_of_same_page[OF that])
  show thesis
  proof (cases "?e AND PTE_P = 0")
    case True
    have e: "?e AND NOT PTE_P = ?e"
    proof (rule bit_word_eqI)
      have "\<not> bit ?e 0" using and_flag[of PTE_P 0 ?e] True by (auto simp: bit_simps)
      then show "bit (?e AND NOT PTE_P) n = bit ?e n" if "n < LENGTH(32)" for n using that by (cases "n = 0") (auto simp: bit_simps)
    qed
    have "pagedir_clear_page st pd upage = Some st"
      by (rule lookup_user[OF ok(1) pd u(1)]) (use u True in \<open>simp_all add: pagedir_clear_page_def\<close>)
    then show thesis
    proof (rule that[OF _ ok refl refl refl])
      fix pd' vb assume "pd' \<in> D" "is_user_vaddr vb"
      show "page_map st pd' vb = (if pd' = pd \<and> pg_no vb = pg_no upage then None else page_map st pd' vb)"
        using sp[of vb] True by (simp add: page_map_def)
      show "pte_of (pg_mem st) pd' vb =
          (if pd' = pd \<and> pg_no vb = pg_no upage then pte_of (pg_mem st) pd' vb AND NOT PTE_P else pte_of (pg_mem st) pd' vb)"
        using sp[of vb] e by simp
    qed
  next
    case False
    show thesis
    proof (rule lookup_user[OF ok(1) pd u(1)])
      fix p assume l: "lookup_page st pd upage False = Some (st, p)" "p \<noteq> NULL" "load32 st p = Some ?e"
        and p: "p = entry_at (table_addr (tab (pg_mem st) pd (unat (pd_no upage)))) (unat (pt_no upage))" "tab (pg_mem st) pd (unat (pd_no upage)) \<noteq> 0"
      have w: "(?e AND NOT PTE_P) AND PTE_P \<noteq> 0 \<Longrightarrow> (?e AND NOT PTE_P) AND PTE_ADDR < 0x40000000" using mask_off_same by blast
      show thesis
      proof (rule modify_entry[OF ok(1) pd u(1) ok(2) p w, of True])
        fix st' assume s: "do { s \<leftarrow> store32 st p (?e AND NOT PTE_P); if True then invalidate_pagedir s pd else Some s } = Some st'"
          "spaces_ok st' D" "tlb_ok st' D" "pg_pal st' = pg_pal st" "base_page_dir st' = base_page_dir st" "ram_pages st' = ram_pages st" and
          e: "\<And>pd' vb. pd' \<in> D \<Longrightarrow> is_user_vaddr vb \<Longrightarrow>
            pte_of (pg_mem st') pd' vb = (if pd' = pd \<and> pg_no vb = pg_no upage then ?e AND NOT PTE_P else pte_of (pg_mem st) pd' vb)"
        have "pagedir_clear_page st pd upage = Some st'" using s(1) l u False by (simp add: pagedir_clear_page_def)
        then show thesis
        proof (rule that[OF _ s(2-6)])
          fix pd' vb assume v: "pd' \<in> D" "is_user_vaddr vb"
          show "page_map st' pd' vb = (if pd' = pd \<and> pg_no vb = pg_no upage then None else page_map st pd' vb)"
            using e[OF v] mask_off_same[of ?e PTE_P] by (simp add: page_map_def Let_def)
          show "pte_of (pg_mem st') pd' vb =
              (if pd' = pd \<and> pg_no vb = pg_no upage then pte_of (pg_mem st) pd' vb AND NOT PTE_P else pte_of (pg_mem st) pd' vb)"
            using e[OF v] sp[of vb] by simp
        qed
      qed simp_all
    qed (use False in simp_all)
  qed
qed

text \<open>The accessed and dirty bits; \<open>f\<close> is the bit.\<close>

definition set_flag :: "paging \<Rightarrow> ptr \<Rightarrow> ptr \<Rightarrow> 32 word \<Rightarrow> bool \<Rightarrow> paging option" where
  "set_flag st pd vpage f b = do {
     (st, pte) \<leftarrow> lookup_page st pd vpage False;
     if pte \<noteq> NULL then do {
       e \<leftarrow> load32 st pte;
       if b then store32 st pte (e OR f) else do { st \<leftarrow> store32 st pte (e AND NOT f); invalidate_pagedir st pd }
     } else Some st
   }"

lemma set_flag_eq: "pagedir_set_dirty st pd va b = set_flag st pd va PTE_D b" "pagedir_set_accessed st pd va b = set_flag st pd va PTE_A b"
  by (simp_all add: set_flag_def pagedir_set_dirty_def pagedir_set_accessed_def)

lemma flag_agrees:
  assumes f: "f = PTE_A \<or> f = PTE_D" and "agrees c e"
  shows "agrees c (e OR f)"
proof -
  have "(e OR f) AND g = e AND g" if "g \<in> {PTE_P, PTE_ADDR, PTE_W, PTE_U}" for g using f that by (auto simp: mask_on_other)
  moreover have "e AND PTE_A \<noteq> 0 \<Longrightarrow> (e OR f) AND PTE_A \<noteq> 0" "e AND PTE_D \<noteq> 0 \<Longrightarrow> (e OR f) AND PTE_D \<noteq> 0"
    using f mask_on_same[of PTE_A e] mask_on_same[of PTE_D e] mask_on_other[of PTE_A PTE_D e] mask_on_other[of PTE_D PTE_A e] by auto
  ultimately show ?thesis using assms(2) by (simp add: agrees_def)
qed

lemma set_flag_ok:
  assumes f: "f = PTE_A \<or> f = PTE_D" and ok: "spaces_ok st D" "tlb_ok st D" and pd: "pd \<in> D" and u: "is_user_vaddr va"
  obtains st' where "set_flag st pd va f b = Some st'" "spaces_ok st' D" "tlb_ok st' D" "pg_pal st' = pg_pal st"
    "base_page_dir st' = base_page_dir st" "ram_pages st' = ram_pages st"
    "\<And>pd' vb. pd' \<in> D \<Longrightarrow> is_user_vaddr vb \<Longrightarrow> pte_of (pg_mem st') pd' vb =
       (if pd' = pd \<and> pg_no vb = pg_no va \<and> tab (pg_mem st) pd (unat (pd_no va)) \<noteq> 0
        then (if b then pte_of (pg_mem st) pd' vb OR f else pte_of (pg_mem st) pd' vb AND NOT f) else pte_of (pg_mem st) pd' vb)"
proof (cases "tab (pg_mem st) pd (unat (pd_no va)) = 0")
  case True
  then have "set_flag st pd va f b = Some st" using lookup_page_missing[OF spaces_okD(1)[OF ok(1)] pd True] by (simp add: set_flag_def)
  then show thesis using that[of st] ok True by simp
next
  case False
  let ?e = "pte_of (pg_mem st) pd va" and ?w = "if b then pte_of (pg_mem st) pd va OR f else pte_of (pg_mem st) pd va AND NOT f"
  have sp: "pte_of (pg_mem st) pd vb = ?e" if "pg_no vb = pg_no va" for vb by (rule pte_of_same_page[OF that])
  have other: "?w AND g = ?e AND g" if "g = PTE_P \<or> g = PTE_ADDR" for g
  proof -
    have "g AND f = 0" using f that by auto
    then show ?thesis using mask_on_other[of g f ?e] mask_off_other[of g f ?e] by simp
  qed
  show thesis
  proof (rule lookup_user[OF ok(1) pd u])
    fix p assume l: "lookup_page st pd va False = Some (st, p)" "p \<noteq> NULL" "load32 st p = Some ?e"
      and p: "p = entry_at (table_addr (tab (pg_mem st) pd (unat (pd_no va)))) (unat (pt_no va))" "tab (pg_mem st) pd (unat (pd_no va)) \<noteq> 0"
    have w: "?w AND PTE_P \<noteq> 0 \<Longrightarrow> ?w AND PTE_ADDR < 0x40000000" using other spaces_okD(2)[OF ok(1) pd u] by metis
    show thesis
    proof (rule modify_entry[OF ok(1) pd u ok(2) p w, of "\<not> b"])
      fix st' assume s: "do { s \<leftarrow> store32 st p ?w; if \<not> b then invalidate_pagedir s pd else Some s } = Some st'"
        "spaces_ok st' D" "tlb_ok st' D" "pg_pal st' = pg_pal st" "base_page_dir st' = base_page_dir st" "ram_pages st' = ram_pages st" and
        e: "\<And>pd' vb. pd' \<in> D \<Longrightarrow> is_user_vaddr vb \<Longrightarrow>
          pte_of (pg_mem st') pd' vb = (if pd' = pd \<and> pg_no vb = pg_no va then ?w else pte_of (pg_mem st) pd' vb)"
      have "set_flag st pd va f b = Some st'" using s(1) l by (cases b) (simp_all add: set_flag_def)
      then show thesis
      proof (rule that[OF _ s(2-6)])
        fix pd' vb assume v: "pd' \<in> D" "is_user_vaddr vb"
        show "pte_of (pg_mem st') pd' vb = (if pd' = pd \<and> pg_no vb = pg_no va \<and> tab (pg_mem st) pd (unat (pd_no va)) \<noteq> 0
            then (if b then pte_of (pg_mem st) pd' vb OR f else pte_of (pg_mem st) pd' vb AND NOT f) else pte_of (pg_mem st) pd' vb)"
          using e[OF v] sp[of vb] p(2) by simp
      qed
    next
      show "\<not> b \<or> (\<forall>c. agrees c ?e \<longrightarrow> agrees c ?w)" using flag_agrees[OF f] by simp
    qed
  next
    assume "lookup_page st pd va False = Some (st, NULL)"
    then show thesis using lookup_page_found[OF spaces_okD(1)[OF ok(1)] pd _ False, of False] load_entry(1)[OF spaces_okD(1)[OF ok(1)] pd _ False]
      u user_pd_no[of va] by auto
  qed
qed

lemma is_flag_eq:
  assumes "spaces_ok st D" and "pd \<in> D" and "is_user_vaddr va"
  shows "pagedir_is_dirty st pd va = Some (pte_of (pg_mem st) pd va AND PTE_D \<noteq> 0)"
    "pagedir_is_accessed st pd va = Some (pte_of (pg_mem st) pd va AND PTE_A \<noteq> 0)"
  by (rule lookup_user[OF assms]; simp add: pagedir_is_dirty_def pagedir_is_accessed_def)+

section \<open>Creating a directory\<close>

lemma kernel_page_nonnull:
  assumes "pg_ofs p = 0" and "is_kernel_vaddr p"
  shows "nonnull p 4096"
proof (rule nonnull_of_range)
  show "p \<noteq> NULL" using assms(2) by (auto simp: is_kernel_vaddr_def)
  have "unat (p + of_nat 4095) = unat p + 4095" using page_unat[OF assms(1), of 4095] page_unat[OF assms(1), of 0] by simp
  then show "unat p + 4096 \<le> 2 ^ 32" using unat_lt_2p32[of "p + of_nat 4095"] by linarith
qed

lemma memcpy_page:
  assumes "pg_ofs p = 0" "is_kernel_vaddr p" "pg_ofs q = 0" "is_kernel_vaddr q" "p \<noteq> q"
  shows "memcpy m p q PGSIZE = Some (write_bytes m p (read_bytes m q 4096), p)"
proof -
  have "memcpy m p q PGSIZE = Some (write_bytes m p (read_bytes m q (unat PGSIZE)), p)"
  proof (rule memcpy_correct)
    show "nonnull p (unat PGSIZE)" "nonnull q (unat PGSIZE)" using kernel_page_nonnull assms by simp_all
  qed (use page_byte_eq[OF assms(1,3)] assms(5) in auto)
  then show ?thesis by simp
qed

lemma dirs_ok_insert:
  assumes ok: "dirs_ok n st D" and pd: "pd \<notin> dir_pages n (pg_mem st) D" "table_page (pg_pal st) pd" and z: "\<And>i. i < n \<Longrightarrow> tab (pg_mem st) pd i = 0"
  shows "dirs_ok n st (insert pd D)"
proof -
  note d = dirs_okD[OF ok]
  have 1: "table_page (pg_pal st) p" if "p \<in> dir_pages n (pg_mem st) (insert pd D)" for p
  proof -
    have "p = pd \<or> p \<in> dir_pages n (pg_mem st) D" using that z unfolding dir_pages_def by auto
    then show ?thesis using ok pd(2) by (auto simp: dirs_ok_def)
  qed
  have nz: "pd' \<in> D" if "pd' \<in> insert pd D" "i < n" "tab (pg_mem st) pd' i \<noteq> 0" for pd' i using that z by blast
  have "table_addr (tab (pg_mem st) pd' i) \<noteq> pd" if "pd' \<in> D" "i < n" "tab (pg_mem st) pd' i \<noteq> 0" for pd' i
    using pd(1) that by (auto simp: dir_pages_def)
  then have 2: "tab (pg_mem st) pd' i AND PTE_P \<noteq> 0 \<and> tab (pg_mem st) pd' i AND PTE_ADDR < 0x40000000 \<and> table_addr (tab (pg_mem st) pd' i) \<notin> insert pd D"
    if "pd' \<in> insert pd D" "i < n" "tab (pg_mem st) pd' i \<noteq> 0" for pd' i
    using d(6-8)[OF nz[OF that] that(2,3)] nz[OF that] that by blast
  have 3: "pd' = pd'' \<and> i = j" if v: "pd' \<in> insert pd D" "i < n" "tab (pg_mem st) pd' i \<noteq> 0" and w: "pd'' \<in> insert pd D" "j < n" "tab (pg_mem st) pd'' j \<noteq> 0"
    and "table_addr (tab (pg_mem st) pd' i) = table_addr (tab (pg_mem st) pd'' j)" for pd' pd'' i j
    using d(10)[OF nz[OF v] v(2,3) nz[OF w] w(2,3)] that(7) by blast
  show ?thesis using d(1,2) 1 2 3 unfolding dirs_ok_def by (intro conjI ballI allI impI) blast+
qed

lemma pagedir_create_ok:
  assumes ok: "spaces_ok st D" and b: "base_page_dir st \<in> D" "\<forall>i<768. tab (pg_mem st) (base_page_dir st) i = 0"
  obtains (full) p' where "pagedir_create st = Some (st\<lparr>pg_pal := p'\<rparr>, NULL)" "spaces_ok (st\<lparr>pg_pal := p'\<rparr>) D"
      "palloc_used p' = palloc_used (pg_pal st)" "pool_pages (kernel_pool (pg_pal st)) \<subseteq> palloc_used (pg_pal st)"
  | (created) p' m' pd where "pagedir_create st = Some (st\<lparr>pg_pal := p', pg_mem := m'\<rparr>, pd)" "pd \<noteq> NULL" "pd \<notin> D"
      "spaces_ok (st\<lparr>pg_pal := p', pg_mem := m'\<rparr>) (insert pd D)"
      "\<And>i. i < 1024 \<Longrightarrow> tab m' pd i = tab (pg_mem st) (base_page_dir st) i"
      "\<And>q i. q \<in> dir_pages 768 (pg_mem st) D \<Longrightarrow> i < 1024 \<Longrightarrow> tab m' q i = tab (pg_mem st) q i"
      "palloc_used p' = insert (unat (pg_no pd)) (palloc_used (pg_pal st))"
proof -
  note dk = spaces_okD(1)[OF ok]
  note d = dirs_okD[OF dk]
  show thesis
  proof (rule get_page_cases[OF d(2), of 0])
    fix p' assume g: "get_page st 0 = Some (st\<lparr>pg_pal := p'\<rparr>, NULL)" "palloc_wf p'" "palloc_used p' = palloc_used (pg_pal st)"
      "pool_pages (kernel_pool p') = pool_pages (kernel_pool (pg_pal st))" "pool_pages (kernel_pool (pg_pal st)) \<subseteq> palloc_used (pg_pal st)"
    have "spaces_ok (st\<lparr>pg_pal := p'\<rparr>) D" using ok g(2-4) by (auto simp: spaces_ok_def dirs_ok_def table_page_def)
    then show thesis using full[of p'] g by (simp add: pagedir_create_def)
  next
    fix p' m' pd assume g: "get_page st 0 = Some (st\<lparr>pg_pal := p', pg_mem := m'\<rparr>, pd)" "palloc_wf p'" "pg_ofs pd = 0" "is_kernel_vaddr pd"
      "unat (pg_no pd) \<in> pool_pages (kernel_pool (pg_pal st))" "unat (pg_no pd) \<notin> palloc_used (pg_pal st)"
      "palloc_used p' = insert (unat (pg_no pd)) (palloc_used (pg_pal st))"
      "pool_pages (kernel_pool p') = pool_pages (kernel_pool (pg_pal st))"
      "m' = (if 0 AND PAL_ZERO \<noteq> 0 then write_bytes (pg_mem st) pd (replicate 4096 0) else pg_mem st)"
    note fr = fresh_page[OF dk g(3,6)]
    have m': "m' = pg_mem st" using g(9) by simp
    have pdD: "pd \<notin> D" using fr(1) by (simp add: dir_pages_def)
    let ?m = "write_bytes (pg_mem st) pd (read_bytes (pg_mem st) (base_page_dir st) 4096)"
    let ?st = "st\<lparr>pg_pal := p', pg_mem := ?m\<rparr>"
    have nn: "pd \<noteq> NULL" using g(4) by (auto simp: is_kernel_vaddr_def)
    have "pd \<noteq> base_page_dir st" using pdD b(1) by blast
    then have c: "pagedir_create st = Some (?st, pd)"
      using g(1) nn memcpy_page[OF g(3,4) d(3,4)[OF b(1)], of "pg_mem st"] m' by (simp add: pagedir_create_def)
    have new: "tab ?m pd i = tab (pg_mem st) (base_page_dir st) i" if "i < 1024" for i by (rule tab_copy[OF g(3) that])
    have old: "tab ?m q i = tab (pg_mem st) q i" if "q \<in> dir_pages 768 (pg_mem st) D" "i < 1024" for q i
      using tab_write_other[of pd q 0 "read_bytes (pg_mem st) (base_page_dir st) 4096" i "pg_mem st"] fr that g(3) by auto
    have fx: "dirs_ok 768 ?st D" "\<And>pd va. pd \<in> D \<Longrightarrow> unat (pd_no va) < 768 \<Longrightarrow> pte_of ?m pd va = pte_of (pg_mem st) pd va"
      "dir_pages 768 ?m D = dir_pages 768 (pg_mem st) D"
      using dirs_ok_frame[OF dk, of ?st] g(2,7,8) fr(2) old by auto
    have z: "tab ?m pd i = 0" if "i < 768" for i using new[of i] b(2) that by simp
    have "dirs_ok 768 ?st (insert pd D)"
      by (rule dirs_ok_insert[OF fx(1)]) (use z g(3-5,7,8) fr(1) fx(3) in \<open>simp_all add: table_page_def\<close>)
    moreover have "pte_of ?m pd va = 0" if "is_user_vaddr va" for va using z that user_pd_no[of va] by (simp add: pte_of_def)
    ultimately have "spaces_ok ?st (insert pd D)"
      using ok fx(2) user_pd_no by (auto simp: spaces_ok_def)
    then show thesis using created[OF c nn pdD _ new old g(7)] by blast
  qed simp_all
qed

section \<open>The kernel mapping\<close>

definition kva :: "nat \<Rightarrow> ptr" where
  "kva q = PHYS_BASE + 4096 * of_nat q"

lemma pt_no_mod: "unat (pt_no va) = unat (pg_no va) mod 1024"
proof -
  have "pt_no va = take_bit 10 (pg_no va)" by (rule bit_word_eqI) (auto simp: pg_no_def bit_simps bit_pt_no)
  then show ?thesis by (simp add: take_bit_eq_mod unat_mod)
qed

lemma pd_no_div: "unat (pd_no va) = unat (pg_no va) div 1024"
  by (simp add: pd_no_def pg_no_def drop_bit_eq_div unat_div flip: div_mult2_eq)

lemma kva_facts:
  assumes "q < 262144"
  shows "unat (kva q) = 3221225472 + 4096 * q" "unat (pg_no (kva q)) = 786432 + q" "pg_ofs (kva q) = 0" "is_kernel_vaddr (kva q)"
    "unat (pd_no (kva q)) = 768 + q div 1024" "unat (pt_no (kva q)) = q mod 1024"
proof -
  show u: "unat (kva q) = 3221225472 + 4096 * q" using assms unat_of_nat32[of q] by (simp add: kva_def unat_word_ariths)
  show n: "unat (pg_no (kva q)) = 786432 + q" unfolding pg_no_div u by simp
  have "unat (pg_ofs (kva q)) = 0" unfolding pg_ofs_mod u by simp
  then show "pg_ofs (kva q) = 0" by (simp add: unat_0_iff)
  show "is_kernel_vaddr (kva q)" using u by (simp add: is_kernel_vaddr_def word_le_nat_alt)
  have "(786432 + q) div 1024 = 768 + q div 1024" "(786432 + q) mod 1024 = q mod 1024"
    using div_mult_self1[of 1024 q 768] mod_mult_self1[of q 768 1024] by (simp_all add: add.commute)
  then show "unat (pd_no (kva q)) = 768 + q div 1024" "unat (pt_no (kva q)) = q mod 1024" unfolding pd_no_div pt_no_mod n by simp_all
qed

lemma ptov_page: "unat page < 262144 \<Longrightarrow> ptov (page * PGSIZE) = Some (kva (unat page))"
proof -
  assume p: "unat page < 262144"
  have "unat (page * 4096) = 4096 * unat page" using p by (simp add: unat_word_ariths)
  then have "page * 4096 < PHYS_BASE" using p by (simp add: word_less_nat_alt)
  then show "ptov (page * PGSIZE) = Some (kva (unat page))" by (simp add: ptov_def kva_def ac_simps)
qed

text \<open>The number of free pages of the kernel pool.\<close>

definition free_pages :: "palloc \<Rightarrow> nat" where
  "free_pages p = card (pool_pages (kernel_pool p) - palloc_used p)"

lemma free_pages_take:
  assumes "a \<in> pool_pages (kernel_pool p)" and "a \<notin> palloc_used p" and "palloc_used p' = insert a (palloc_used p)"
    and "pool_pages (kernel_pool p') = pool_pages (kernel_pool p)"
  shows "free_pages p = Suc (free_pages p')"
proof -
  have "pool_pages (kernel_pool p') - palloc_used p' = (pool_pages (kernel_pool p) - palloc_used p) - {a}" using assms(3,4) by blast
  moreover have "finite (pool_pages (kernel_pool p) - palloc_used p)" by (simp add: pool_pages_def)
  moreover have "a \<in> pool_pages (kernel_pool p) - palloc_used p" using assms(1,2) by blast
  ultimately show ?thesis unfolding free_pages_def using card_Suc_Diff1 by metis
qed

text \<open>The entry that maps page \<open>q\<close> of memory.\<close>

definition kernel_entry :: "ptr \<Rightarrow> ptr \<Rightarrow> nat \<Rightarrow> 32 word \<Rightarrow> bool" where
  "kernel_entry text_start text_end q e \<longleftrightarrow> e AND PTE_P \<noteq> 0 \<and> table_addr e = kva q \<and> e AND PTE_U = 0 \<and>
     (e AND PTE_W \<noteq> 0 \<longleftrightarrow> \<not> (text_start \<le> kva q \<and> kva q < text_end))"

text \<open>The loop has mapped the pages below \<open>q\<close>; \<open>pt\<close> is the table of the last one.\<close>

definition mapped_to :: "ptr \<Rightarrow> ptr \<Rightarrow> paging \<Rightarrow> ptr \<Rightarrow> ptr \<Rightarrow> nat \<Rightarrow> bool" where
  "mapped_to text_start text_end st pd pt q \<longleftrightarrow> dirs_ok 1024 st {pd} \<and>
     (\<forall>i<1024. tab (pg_mem st) pd i \<noteq> 0 \<longleftrightarrow> 768 \<le> i \<and> i < 768 + (q + 1023) div 1024) \<and>
     (q \<noteq> 0 \<longrightarrow> pt = table_addr (tab (pg_mem st) pd (768 + (q - 1) div 1024))) \<and>
     (\<forall>r<q. kernel_entry text_start text_end r (pte_of (pg_mem st) pd (kva r)))"

lemma kernel_index:
  assumes "q < 262144"
  shows "768 + q div 1024 < 1024" "q mod 1024 \<noteq> 0 \<Longrightarrow> (q - 1) div 1024 = q div 1024" "q mod 1024 \<noteq> 0 \<Longrightarrow> (q + 1023) div 1024 = Suc (q div 1024)"
    "q mod 1024 = 0 \<Longrightarrow> (q + 1023) div 1024 = q div 1024" "(Suc q + 1023) div 1024 = Suc (q div 1024)"
proof -
  show "768 + q div 1024 < 1024" using assms by (simp add: less_mult_imp_div_less)
  define d r where "d = q div 1024" and "r = q mod 1024"
  have e: "q = 1024 * d + r" "r < 1024" by (simp_all add: d_def r_def)
  have "(1024 * d + r - 1) div 1024 = d" if "r \<noteq> 0" using that e(2) by (intro div_nat_eqI) simp_all
  moreover have "(1024 * d + r + 1023) div 1024 = Suc d" if "r \<noteq> 0" using that e(2) by (intro div_nat_eqI) simp_all
  moreover have "(1024 * d + r + 1023) div 1024 = d" if "r = 0" using that by (intro div_nat_eqI) simp_all
  moreover have "(Suc (1024 * d + r) + 1023) div 1024 = Suc d" using e(2) by (intro div_nat_eqI) simp_all
  ultimately show "q mod 1024 \<noteq> 0 \<Longrightarrow> (q - 1) div 1024 = q div 1024" "q mod 1024 \<noteq> 0 \<Longrightarrow> (q + 1023) div 1024 = Suc (q div 1024)"
    "q mod 1024 = 0 \<Longrightarrow> (q + 1023) div 1024 = q div 1024" "(Suc q + 1023) div 1024 = Suc (q div 1024)"
    unfolding d_def[symmetric] r_def[symmetric] e(1)[symmetric] by blast+
qed

text \<open>The table for a page, which is created for the first page of each group of 1024.\<close>

lemma kernel_table:
  assumes inv: "mapped_to ts te st pd pt q" and q: "q < 262144" and free: "q mod 1024 = 0 \<Longrightarrow> 0 < free_pages (pg_pal st)"
  obtains st' pt' where "do {
      e \<leftarrow> load32 st (entry_at pd (unat (pd_no (kva q))));
      if e = 0 then do {
        (st, pt) \<leftarrow> get_page st (PAL_ASSERT OR PAL_ZERO); e \<leftarrow> pde_create pt;
        st \<leftarrow> store32 st (entry_at pd (unat (pd_no (kva q)))) e; Some (st, pt)
      } else Some (st, pt) } = Some (st', pt')"
    "dirs_ok 1024 st' {pd}" "\<And>i. i < 1024 \<Longrightarrow> tab (pg_mem st') pd i \<noteq> 0 \<longleftrightarrow> 768 \<le> i \<and> i < 768 + Suc (q div 1024)"
    "pt' = table_addr (tab (pg_mem st') pd (768 + q div 1024))" "\<And>va. pte_of (pg_mem st') pd va = pte_of (pg_mem st) pd va"
    "free_pages (pg_pal st) = (if q mod 1024 = 0 then 1 else 0) + free_pages (pg_pal st')" "ram_pages st' = ram_pages st"
    "base_page_dir st' = base_page_dir st"
proof -
  have ok: "dirs_ok 1024 st {pd}" and ts: "\<And>i. i < 1024 \<Longrightarrow> tab (pg_mem st) pd i \<noteq> 0 \<longleftrightarrow> 768 \<le> i \<and> i < 768 + (q + 1023) div 1024"
    and pt: "q \<noteq> 0 \<Longrightarrow> pt = table_addr (tab (pg_mem st) pd (768 + (q - 1) div 1024))" using inv by (simp_all add: mapped_to_def)
  note d = dirs_okD[OF ok] and ix = kernel_index[OF q]
  have pd: "pd \<in> {pd}" by simp
  have l: "load32 st (entry_at pd (unat (pd_no (kva q)))) = Some (tab (pg_mem st) pd (768 + q div 1024))"
    using load32_tab[OF d(4,3)[OF pd] ix(1), of st] kva_facts(5)[OF q] by simp
  show thesis
  proof (cases "q mod 1024 = 0")
    case False
    then have "q \<noteq> 0" by auto
    then show thesis using that[of st pt] l ts[OF ix(1)] pt ix(2,3)[OF False] False ok ts by simp
  next
    case True
    have z: "tab (pg_mem st) pd (768 + q div 1024) = 0" using ts[OF ix(1)] ix(4)[OF True] by simp
    have nf: "\<not> pool_pages (kernel_pool (pg_pal st)) \<subseteq> palloc_used (pg_pal st)"
      using free[OF True] by (auto simp: free_pages_def Diff_eq_empty_iff[THEN iffD2])
    show thesis
    proof (rule get_page_cases[OF d(2), of "PAL_ASSERT OR PAL_ZERO"])
      fix p' m' a assume g: "get_page st (PAL_ASSERT OR PAL_ZERO) = Some (st\<lparr>pg_pal := p', pg_mem := m'\<rparr>, a)" "palloc_wf p'" "pg_ofs a = 0" "is_kernel_vaddr a"
        "unat (pg_no a) \<in> pool_pages (kernel_pool (pg_pal st))" "unat (pg_no a) \<notin> palloc_used (pg_pal st)"
        "palloc_used p' = insert (unat (pg_no a)) (palloc_used (pg_pal st))" "pool_pages (kernel_pool p') = pool_pages (kernel_pool (pg_pal st))"
        "m' = (if (PAL_ASSERT OR PAL_ZERO) AND PAL_ZERO \<noteq> 0 then write_bytes (pg_mem st) a (replicate 4096 0) else pg_mem st)"
      show thesis
      proof (rule add_table[OF ok pd ix(1) z g(3-6,2,7,8)])
        fix e m2 assume t: "pde_create a = Some e"
          "store32 (st\<lparr>pg_pal := p', pg_mem := write_bytes (pg_mem st) a (replicate 4096 0)\<rparr>) (entry_at pd (768 + q div 1024)) e =
             Some (st\<lparr>pg_pal := p', pg_mem := m2\<rparr>)"
          "dirs_ok 1024 (st\<lparr>pg_pal := p', pg_mem := m2\<rparr>) {pd}" "e \<noteq> 0" "table_addr e = a" and
          tb: "\<And>pd' j. pd' \<in> {pd} \<Longrightarrow> j < 1024 \<Longrightarrow> tab m2 pd' j = (if pd' = pd \<and> j = 768 + q div 1024 then e else tab (pg_mem st) pd' j)" and
          pe: "\<And>pd' vb. pd' \<in> {pd} \<Longrightarrow> unat (pd_no vb) < 1024 \<Longrightarrow> pte_of m2 pd' vb = pte_of (pg_mem st) pd' vb"
        show thesis
        proof (rule that[of "st\<lparr>pg_pal := p', pg_mem := m2\<rparr>" a])
          show "tab (pg_mem (st\<lparr>pg_pal := p', pg_mem := m2\<rparr>)) pd i \<noteq> 0 \<longleftrightarrow> 768 \<le> i \<and> i < 768 + Suc (q div 1024)" if "i < 1024" for i
            using tb[OF pd that] ts[OF that] ix(4)[OF True] t(4) by auto
        qed (use l z g(1,9) t kva_facts(5)[OF q] tb[OF pd ix(1)] pe[OF pd pd_no_lt] free_pages_take[OF g(5-8)] True in simp_all)
      qed
    qed (use nf in simp_all)
  qed
qed

lemma map_kernel_page_ok:
  assumes inv: "mapped_to ts te st pd pt (unat page)" and q: "unat page < 262144" and free: "unat page mod 1024 = 0 \<Longrightarrow> 0 < free_pages (pg_pal st)"
  obtains st' pt' where "map_kernel_page ts te st pd pt page = Some (st', pt')" "mapped_to ts te st' pd pt' (Suc (unat page))"
    "free_pages (pg_pal st) = (if unat page mod 1024 = 0 then 1 else 0) + free_pages (pg_pal st')" "base_page_dir st' = base_page_dir st"
proof (rule kernel_table[OF inv q free])
  let ?q = "unat page"
  let ?va = "kva ?q"
  fix st1 pt' assume b: "do {
      e \<leftarrow> load32 st (entry_at pd (unat (pd_no ?va)));
      if e = 0 then do {
        (st, pt) \<leftarrow> get_page st (PAL_ASSERT OR PAL_ZERO); e \<leftarrow> pde_create pt;
        st \<leftarrow> store32 st (entry_at pd (unat (pd_no ?va))) e; Some (st, pt)
      } else Some (st, pt) } = Some (st1, pt')"
    and ok: "dirs_ok 1024 st1 {pd}" and tb: "\<And>i. i < 1024 \<Longrightarrow> tab (pg_mem st1) pd i \<noteq> 0 \<longleftrightarrow> 768 \<le> i \<and> i < 768 + Suc (?q div 1024)"
    and pt: "pt' = table_addr (tab (pg_mem st1) pd (768 + ?q div 1024))" and pe: "\<And>va. pte_of (pg_mem st1) pd va = pte_of (pg_mem st) pd va"
    and fr: "free_pages (pg_pal st) = (if ?q mod 1024 = 0 then 1 else 0) + free_pages (pg_pal st1)" "base_page_dir st1 = base_page_dir st"
  note kf = kva_facts[OF q] and ix = kernel_index[OF q]
  have nz: "tab (pg_mem st1) pd (unat (pd_no ?va)) \<noteq> 0" using tb[OF ix(1)] kf(5) by simp
  obtain w where w: "pte_create_kernel ?va (\<not> (ts \<le> ?va \<and> ?va < te)) = Some w" "w AND PTE_P \<noteq> 0"
    "w AND PTE_W \<noteq> 0 \<longleftrightarrow> \<not> (ts \<le> ?va \<and> ?va < te)" "w AND PTE_U = 0" "table_addr w = ?va" by (rule pte_created_kernel[OF kf(3,4)])
  show thesis
  proof (rule store_entry[OF ok _ _ nz, of w])
    fix m' assume s: "store32 st1 (entry_at (table_addr (tab (pg_mem st1) pd (unat (pd_no ?va)))) (unat (pt_no ?va))) w = Some (st1\<lparr>pg_mem := m'\<rparr>)"
      "dirs_ok 1024 (st1\<lparr>pg_mem := m'\<rparr>) {pd}" and
      t2: "\<And>pd' i. pd' \<in> {pd} \<Longrightarrow> i < 1024 \<Longrightarrow> tab m' pd' i = tab (pg_mem st1) pd' i" and
      p2: "\<And>pd' vb. pd' \<in> {pd} \<Longrightarrow> unat (pd_no vb) < 1024 \<Longrightarrow>
        pte_of m' pd' vb = (if pd' = pd \<and> pg_no vb = pg_no ?va then w else pte_of (pg_mem st1) pd' vb)"
    let ?st = "st1\<lparr>pg_mem := m'\<rparr>"
    have pde: "table_addr (tab (pg_mem st1) pd (unat (pd_no ?va))) = pt'" using pt kf(5) by simp
    have "map_kernel_page ts te st pd pt page = do {
        (st, pt) \<leftarrow> do {
          e \<leftarrow> load32 st (entry_at pd (unat (pd_no ?va)));
          if e = 0 then do {
            (st, pt) \<leftarrow> get_page st (PAL_ASSERT OR PAL_ZERO); e \<leftarrow> pde_create pt;
            st \<leftarrow> store32 st (entry_at pd (unat (pd_no ?va))) e; Some (st, pt)
          } else Some (st, pt) };
        e \<leftarrow> pte_create_kernel ?va (\<not> (ts \<le> ?va \<and> ?va < te));
        st \<leftarrow> store32 st (entry_at pt (unat (pt_no ?va))) e;
        Some (st, pt) }"
      unfolding map_kernel_page_def ptov_page[OF q] by (simp add: Let_def)
    then have r: "map_kernel_page ts te st pd pt page = Some (?st, pt')" using b w(1) s(1) pde by simp
    have ent: "kernel_entry ts te r (pte_of m' pd (kva r))" if "r < Suc ?q" for r
    proof (cases "r = ?q")
      case True
      then show ?thesis using p2[of pd ?va] pd_no_lt w(2-5) by (simp add: kernel_entry_def)
    next
      case False
      then have r: "r < ?q" "r < 262144" using that q by simp_all
      have "pg_no (kva r) \<noteq> pg_no ?va" using kva_facts(2)[OF r(2)] kf(2) r(1) by (auto dest: arg_cong[of _ _ unat])
      then show ?thesis using p2[of pd "kva r"] pd_no_lt pe inv r(1) by (simp add: mapped_to_def)
    qed
    have "mapped_to ts te ?st pd pt' (Suc ?q)"
      unfolding mapped_to_def using s(2) t2[of pd] tb ent pt ix(1,5) by simp
    then show thesis using that[OF r] fr by simp
  qed (use pd_no_lt in simp_all)
qed

lemma paging_loop_ok:
  "unat pages - unat page = n \<Longrightarrow> unat page \<le> unat pages \<Longrightarrow> unat pages \<le> 262144 \<Longrightarrow> mapped_to ts te st pd pt (unat page) \<Longrightarrow>
   (unat pages + 1023) div 1024 \<le> (unat page + 1023) div 1024 + free_pages (pg_pal st) \<Longrightarrow>
   \<exists>st' pt'. paging_loop ts te pages st pd pt page = Some st' \<and> mapped_to ts te st' pd pt' (unat pages) \<and> base_page_dir st' = base_page_dir st"
proof (induction n arbitrary: page st pt)
  case 0
  then show ?case by (subst paging_loop.simps) (auto simp: word_less_nat_alt)
next
  case (Suc n)
  have lt: "page < pages" using Suc.prems(1) by (simp add: word_less_nat_alt)
  then have q: "unat page < 262144" "unat page < unat pages" using Suc.prems(3) by (simp_all add: word_less_nat_alt)
  note ix = kernel_index[OF q(1)]
  have mono: "Suc (unat page div 1024) \<le> (unat pages + 1023) div 1024"
    using div_le_mono[of "Suc (unat page) + 1023" "unat pages + 1023" 1024] q(2) ix(5) by simp
  have free: "0 < free_pages (pg_pal st)" if "unat page mod 1024 = 0" using Suc.prems(5) ix(4)[OF that] mono by linarith
  obtain st' pt' where m: "map_kernel_page ts te st pd pt page = Some (st', pt')" "mapped_to ts te st' pd pt' (Suc (unat page))"
    "free_pages (pg_pal st) = (if unat page mod 1024 = 0 then 1 else 0) + free_pages (pg_pal st')" "base_page_dir st' = base_page_dir st"
    by (rule map_kernel_page_ok[OF Suc.prems(4) q(1) free])
  have u: "unat (page + 1) = Suc (unat page)" by (rule unat_inc[OF lt])
  have "(unat pages + 1023) div 1024 \<le> (unat (page + 1) + 1023) div 1024 + free_pages (pg_pal st')"
    using Suc.prems(5) m(3) ix(3,4) ix(5) unfolding u by (cases "unat page mod 1024 = 0") simp_all
  then have "\<exists>st'' pt''. paging_loop ts te pages st' pd pt' (page + 1) = Some st'' \<and> mapped_to ts te st'' pd pt'' (unat pages) \<and> base_page_dir st'' = base_page_dir st'"
    using Suc.IH[of "page + 1" st' pt'] Suc.prems(1,3) q(2) m(2) u by simp
  then show ?case using lt m(1,4) by (subst paging_loop.simps) simp
qed

lemma mapped_to_start:
  assumes "palloc_wf p" "pg_ofs pd = 0" "is_kernel_vaddr pd" "unat (pg_no pd) \<in> palloc_used p" "unat (pg_no pd) \<in> pool_pages (kernel_pool p)"
    and "pg_pal st = p" and "pg_mem st = write_bytes m pd (replicate 4096 0)"
  shows "mapped_to ts te st pd NULL 0"
proof -
  have z: "tab (pg_mem st) pd i = 0" if "i < 1024" for i using tab_zero[OF assms(2) that] assms(7) by simp
  then have "dir_pages 1024 (pg_mem st) {pd} = {pd}" by (auto simp: dir_pages_def)
  then have "dirs_ok 1024 st {pd}" using z assms by (simp add: dirs_ok_def table_page_def)
  then show ?thesis using z by (simp add: mapped_to_def)
qed

section \<open>Destroying a directory\<close>

lemma free_page_ok:
  assumes wf: "palloc_wf (pg_pal st)" and k: "pg_ofs k = 0" "is_kernel_vaddr k" and used: "unat (pg_no k) \<in> palloc_used (pg_pal st)"
  obtains p' where "free_page st k = Some (st\<lparr>pg_pal := p', pg_mem := write_bytes (pg_mem st) k (replicate 4096 0xcc)\<rparr>)" "palloc_wf p'"
    "palloc_used p' = palloc_used (pg_pal st) - {unat (pg_no k)}" "pool_pages (kernel_pool p') = pool_pages (kernel_pool (pg_pal st))"
    "pool_pages (user_pool p') = pool_pages (user_pool (pg_pal st))"
proof -
  define flags where "flags = (if unat (pg_no k) \<in> pool_used (user_pool (pg_pal st)) then PAL_USER else 0)"
  have one: "page_range k 1 = {unat (pg_no k)}" by (auto simp: page_range_def)
  have "page_range k 1 \<subseteq> pool_used (pool_of (pg_pal st) flags)" using used by (auto simp: one pool_of_def palloc_used_def flags_def)
  moreover have "k \<noteq> NULL" using k(2) by (auto simp: is_kernel_vaddr_def)
  ultimately show thesis
    using palloc_free_ok[OF wf k(1) _ one_neq_zero, of flags "pg_mem st"] that unfolding one by (auto simp: free_page_def palloc_free_page_def)
qed

text \<open>
  The loops free pages one after the other. \<open>freed st st' F\<close>: the pages in \<open>F\<close> are free afterwards, and tables outside of \<open>F\<close> are unchanged.
\<close>

definition freed :: "paging \<Rightarrow> paging \<Rightarrow> ptr set \<Rightarrow> bool" where
  "freed st st' F \<longleftrightarrow> palloc_wf (pg_pal st') \<and> palloc_used (pg_pal st') = palloc_used (pg_pal st) - (\<lambda>p. unat (pg_no p)) ` F \<and>
     pool_pages (kernel_pool (pg_pal st')) = pool_pages (kernel_pool (pg_pal st)) \<and>
     pool_pages (user_pool (pg_pal st')) = pool_pages (user_pool (pg_pal st)) \<and>
     (\<forall>q i. pg_ofs q = 0 \<longrightarrow> q \<notin> F \<longrightarrow> i < 1024 \<longrightarrow> tab (pg_mem st') q i = tab (pg_mem st) q i) \<and>
     base_page_dir st' = base_page_dir st \<and> ram_pages st' = ram_pages st \<and> cr3 st' = cr3 st \<and> tlb st' = tlb st"

lemma freed_refl: "palloc_wf (pg_pal st) \<Longrightarrow> freed st st {}"
  by (simp add: freed_def)

lemma freed_trans: "freed st st1 F \<Longrightarrow> freed st1 st2 G \<Longrightarrow> freed st st2 (F \<union> G)"
  by (auto simp: freed_def image_Un)

lemma freed_page:
  assumes "palloc_wf (pg_pal st)" "pg_ofs k = 0" "is_kernel_vaddr k" "unat (pg_no k) \<in> palloc_used (pg_pal st)"
  obtains st' where "free_page st k = Some st'" "freed st st' {k}"
proof (rule free_page_ok[OF assms])
  fix p' assume p: "free_page st k = Some (st\<lparr>pg_pal := p', pg_mem := write_bytes (pg_mem st) k (replicate 4096 0xcc)\<rparr>)" "palloc_wf p'"
    "palloc_used p' = palloc_used (pg_pal st) - {unat (pg_no k)}" "pool_pages (kernel_pool p') = pool_pages (kernel_pool (pg_pal st))"
    "pool_pages (user_pool p') = pool_pages (user_pool (pg_pal st))"
  have "tab (write_bytes (pg_mem st) k (replicate 4096 0xcc)) q i = tab (pg_mem st) q i" if "pg_ofs q = 0" "q \<noteq> k" "i < 1024" for q i
    using tab_write_other[of k q 0 "replicate 4096 0xcc" i "pg_mem st"] that assms(2) by simp
  then show thesis using that[OF p(1)] p(2-5) by (simp add: freed_def)
qed

text \<open>The frames that a page table maps from entry \<open>j\<close> on.\<close>

definition frames_of :: "mem \<Rightarrow> ptr \<Rightarrow> nat \<Rightarrow> ptr set" where
  "frames_of m pt j = {table_addr (tab m pt i) | i. j \<le> i \<and> i < 1024 \<and> tab m pt i AND PTE_P \<noteq> 0}"

definition used_page :: "paging \<Rightarrow> ptr \<Rightarrow> bool" where
  "used_page st p \<longleftrightarrow> pg_ofs p = 0 \<and> is_kernel_vaddr p \<and> unat (pg_no p) \<in> palloc_used (pg_pal st)"

definition pt_ok :: "mem \<Rightarrow> ptr \<Rightarrow> bool" where
  "pt_ok m pt \<longleftrightarrow> pg_ofs pt = 0 \<and> is_kernel_vaddr pt \<and> pt \<notin> frames_of m pt 0 \<and>
     (\<forall>i<1024. tab m pt i AND PTE_P \<noteq> 0 \<longrightarrow> tab m pt i AND PTE_ADDR < 0x40000000) \<and>
     (\<forall>i<1024. \<forall>j<1024. tab m pt i AND PTE_P \<noteq> 0 \<longrightarrow> tab m pt j AND PTE_P \<noteq> 0 \<longrightarrow> table_addr (tab m pt i) = table_addr (tab m pt j) \<longrightarrow> i = j)"

lemma frames_of_Suc:
  assumes "j < 1024"
  shows "frames_of m pt j = (if tab m pt j AND PTE_P \<noteq> 0 then insert (table_addr (tab m pt j)) (frames_of m pt (Suc j)) else frames_of m pt (Suc j))"
proof -
  have "j \<le> i \<longleftrightarrow> i = j \<or> Suc j \<le> i" for i by auto
  then show ?thesis using assms unfolding frames_of_def by auto
qed

lemma frames_of_mono: "frames_of m pt j \<subseteq> frames_of m pt 0"
  unfolding frames_of_def by auto

lemma used_page_freed:
  assumes "freed st st' F" and "used_page st p" and "p \<notin> F" and "\<And>q. q \<in> F \<Longrightarrow> pg_ofs q = 0"
  shows "used_page st' p"
proof -
  have "unat (pg_no p) \<noteq> unat (pg_no q)" if "q \<in> F" for q using page_eq_iff[of p q] assms that by (auto simp: used_page_def)
  then show ?thesis using assms(1,2) by (auto simp: used_page_def freed_def)
qed

lemma destroy_pt_ok:
  "1024 - j = n \<Longrightarrow> j \<le> 1024 \<Longrightarrow> palloc_wf (pg_pal st) \<Longrightarrow> pt_ok m pt \<Longrightarrow> (\<And>i. i < 1024 \<Longrightarrow> tab (pg_mem st) pt i = tab m pt i) \<Longrightarrow>
   (\<And>p. p \<in> frames_of m pt j \<Longrightarrow> used_page st p) \<Longrightarrow> \<exists>st'. destroy_pt st pt j = Some st' \<and> freed st st' (frames_of m pt j)"
proof (induction n arbitrary: j st)
  case 0
  then have "frames_of m pt j = {}" by (auto simp: frames_of_def)
  then show ?case using 0 freed_refl by (subst destroy_pt.simps) simp
next
  case (Suc n)
  have j: "j < 1024" using Suc.prems(1) by simp
  have po: "pg_ofs pt = 0" "is_kernel_vaddr pt" "pt \<notin> frames_of m pt 0" "tab m pt j AND PTE_P \<noteq> 0 \<Longrightarrow> tab m pt j AND PTE_ADDR < 0x40000000"
    using Suc.prems(4) j by (simp_all add: pt_ok_def)
  have l: "load32 st (entry_at pt j) = Some (tab m pt j)" using load32_tab[OF po(2,1) j] Suc.prems(5)[OF j] by simp
  show ?case
  proof (cases "tab m pt j AND PTE_P = 0")
    case True
    have "\<exists>st'. destroy_pt st pt (Suc j) = Some st' \<and> freed st st' (frames_of m pt (Suc j))"
      using Suc.IH[of "Suc j" st] Suc.prems frames_of_Suc[OF j, of m pt] True j by simp
    then show ?thesis using l j True frames_of_Suc[OF j, of m pt] by (subst destroy_pt.simps) simp
  next
    case False
    let ?k = "table_addr (tab m pt j)"
    have fo: "frames_of m pt j = insert ?k (frames_of m pt (Suc j))" using frames_of_Suc[OF j, of m pt] False by simp
    have k: "used_page st ?k" using Suc.prems(6) fo by blast
    obtain st1 where s1: "free_page st ?k = Some st1" "freed st st1 {?k}"
      using k freed_page[OF Suc.prems(3)] unfolding used_page_def by blast
    have notin: "?k \<notin> frames_of m pt (Suc j)" using Suc.prems(4) j False by (force simp: frames_of_def pt_ok_def)
    have "?k \<noteq> pt" using po(3) fo frames_of_mono[of m pt j] by auto
    then have t1: "tab (pg_mem st1) pt i = tab m pt i" if "i < 1024" for i
      using s1(2) Suc.prems(5)[OF that] po(1) that unfolding freed_def by simp
    have pk: "used_page st1 p" if "p \<in> frames_of m pt (Suc j)" for p
      using used_page_freed[OF s1(2) Suc.prems(6)] that notin fo k by (auto simp: used_page_def)
    have n: "1024 - Suc j = n" "Suc j \<le> 1024" "palloc_wf (pg_pal st1)" using Suc.prems(1) j s1(2) by (simp_all add: freed_def)
    obtain st' where s': "destroy_pt st1 pt (Suc j) = Some st'" "freed st1 st' (frames_of m pt (Suc j))"
      using Suc.IH[OF n Suc.prems(4) t1 pk] by blast
    have "pte_get_page (tab m pt j) = Some ?k" using po(4) False table_addr_page(1) by (simp add: pte_get_page_def)
    then show ?thesis using l j False s1(1) s' freed_trans[OF s1(2) s'(2)] fo by (subst destroy_pt.simps) simp
  qed
qed

definition table_own :: "mem \<Rightarrow> ptr \<Rightarrow> ptr set" where
  "table_own m pt = insert pt (frames_of m pt 0)"

text \<open>The tables and frames of the user part of a directory from entry \<open>j\<close> on.\<close>

definition owned :: "mem \<Rightarrow> ptr \<Rightarrow> nat \<Rightarrow> ptr set" where
  "owned m pd j = (\<Union>i\<in>{i. j \<le> i \<and> i < 768 \<and> tab m pd i \<noteq> 0}. table_own m (table_addr (tab m pd i)))"

definition pd_ok :: "mem \<Rightarrow> ptr \<Rightarrow> bool" where
  "pd_ok m pd \<longleftrightarrow> pg_ofs pd = 0 \<and> is_kernel_vaddr pd \<and> pd \<notin> owned m pd 0 \<and>
     (\<forall>i<768. tab m pd i \<noteq> 0 \<longrightarrow> tab m pd i AND PTE_P \<noteq> 0 \<and> tab m pd i AND PTE_ADDR < 0x40000000 \<and> pt_ok m (table_addr (tab m pd i))) \<and>
     (\<forall>i<768. \<forall>j<768. tab m pd i \<noteq> 0 \<longrightarrow> tab m pd j \<noteq> 0 \<longrightarrow> i \<noteq> j \<longrightarrow>
        table_own m (table_addr (tab m pd i)) \<inter> table_own m (table_addr (tab m pd j)) = {})"

lemma owned_Suc:
  assumes "j < 768"
  shows "owned m pd j = (if tab m pd j \<noteq> 0 then table_own m (table_addr (tab m pd j)) \<union> owned m pd (Suc j) else owned m pd (Suc j))"
proof -
  have "{i. j \<le> i \<and> i < 768 \<and> tab m pd i \<noteq> 0} = (if tab m pd j \<noteq> 0 then insert j {i. Suc j \<le> i \<and> i < 768 \<and> tab m pd i \<noteq> 0}
      else {i. Suc j \<le> i \<and> i < 768 \<and> tab m pd i \<noteq> 0})" using assms by (auto simp: Suc_le_eq order_le_less)
  then show ?thesis by (simp add: owned_def)
qed

lemma owned_mono: "owned m pd j \<subseteq> owned m pd 0"
  unfolding owned_def by auto

lemma destroy_table_ok:
  assumes wf: "palloc_wf (pg_pal st)" and po: "pt_ok m pt" and t: "\<And>i. i < 1024 \<Longrightarrow> tab (pg_mem st) pt i = tab m pt i"
    and pk: "\<And>p. p \<in> table_own m pt \<Longrightarrow> used_page st p"
  obtains st' where "do { st \<leftarrow> destroy_pt st pt 0; free_page st pt } = Some st'" "freed st st' (table_own m pt)"
proof -
  obtain st1 where s1: "destroy_pt st pt 0 = Some st1" "freed st st1 (frames_of m pt 0)"
    using destroy_pt_ok[OF refl _ wf po t, of 0] pk by (auto simp: table_own_def)
  have "used_page st1 pt" using used_page_freed[OF s1(2) pk] po pk by (auto simp: table_own_def pt_ok_def used_page_def)
  then obtain st2 where s2: "free_page st1 pt = Some st2" "freed st1 st2 {pt}"
    using freed_page[of st1 pt] s1(2) unfolding used_page_def freed_def by blast
  have "frames_of m pt 0 \<union> {pt} = table_own m pt" by (auto simp: table_own_def)
  then show thesis using that[of st2] s1(1) s2 freed_trans[OF s1(2) s2(2)] by simp
qed

lemma destroy_pd_ok:
  "768 - j = n \<Longrightarrow> j \<le> 768 \<Longrightarrow> palloc_wf (pg_pal st) \<Longrightarrow> pd_ok m pd \<Longrightarrow> (\<And>i. i < 1024 \<Longrightarrow> tab (pg_mem st) pd i = tab m pd i) \<Longrightarrow>
   (\<And>i k. j \<le> i \<Longrightarrow> i < 768 \<Longrightarrow> tab m pd i \<noteq> 0 \<Longrightarrow> k < 1024 \<Longrightarrow> tab (pg_mem st) (table_addr (tab m pd i)) k = tab m (table_addr (tab m pd i)) k) \<Longrightarrow>
   (\<And>p. p \<in> owned m pd j \<Longrightarrow> used_page st p) \<Longrightarrow> \<exists>st'. destroy_pd st pd j = Some st' \<and> freed st st' (owned m pd j)"
proof (induction n arbitrary: j st)
  case 0
  then have "owned m pd j = {}" by (auto simp: owned_def)
  then show ?case using 0 freed_refl by (subst destroy_pd.simps) (simp add: pd_no_def)
next
  case (Suc n)
  have j: "j < 768" "j < unat (pd_no PHYS_BASE)" using Suc.prems(1) by (simp_all add: pd_no_def)
  have pd: "pg_ofs pd = 0" "is_kernel_vaddr pd" "pd \<notin> owned m pd 0" using Suc.prems(4) by (simp_all add: pd_ok_def)
  have l: "load32 st (entry_at pd j) = Some (tab m pd j)" using load32_tab[OF pd(2,1)] j Suc.prems(5)[of j] by simp
  show ?case
  proof (cases "tab m pd j = 0")
    case True
    have "\<exists>st'. destroy_pd st pd (Suc j) = Some st' \<and> freed st st' (owned m pd (Suc j))"
    proof (rule Suc.IH[OF _ _ Suc.prems(3-5)])
      show "used_page st p" if "p \<in> owned m pd (Suc j)" for p using Suc.prems(7)[of p] that owned_Suc[OF j(1), of m pd] True by simp
    qed (use Suc.prems(1,6) j in auto)
    then show ?thesis using l j(2) True owned_Suc[OF j(1), of m pd] by (subst destroy_pd.simps) simp
  next
    case False
    let ?pt = "table_addr (tab m pd j)"
    have ow: "owned m pd j = table_own m ?pt \<union> owned m pd (Suc j)" using owned_Suc[OF j(1), of m pd] False by simp
    have pde: "tab m pd j AND PTE_P \<noteq> 0" "tab m pd j AND PTE_ADDR < 0x40000000" "pt_ok m ?pt" using Suc.prems(4) j(1) False by (simp_all add: pd_ok_def)
    have pk: "used_page st p" if "p \<in> table_own m ?pt" for p using Suc.prems(7) ow that by blast
    obtain st1 where s1: "do { st \<leftarrow> destroy_pt st ?pt 0; free_page st ?pt } = Some st1" "freed st st1 (table_own m ?pt)"
      using destroy_table_ok[OF Suc.prems(3) pde(3) Suc.prems(6)[OF order_refl j(1) False] pk] by blast
    have disj: "table_own m ?pt \<inter> table_own m (table_addr (tab m pd i)) = {}" if "Suc j \<le> i" "i < 768" "tab m pd i \<noteq> 0" for i
      using Suc.prems(4) j(1) False that by (simp add: pd_ok_def)
    then have disj': "table_own m ?pt \<inter> owned m pd (Suc j) = {}" unfolding owned_def by blast
    have al: "pg_ofs q = 0" if "q \<in> table_own m ?pt" for q using pk[OF that] by (simp add: used_page_def)
    have "pd \<notin> table_own m ?pt" using pd(3) ow owned_mono[of m pd j] by blast
    then have t1: "tab (pg_mem st1) pd i = tab m pd i" if "i < 1024" for i
      using s1(2) Suc.prems(5)[OF that] pd(1) that unfolding freed_def by simp
    have t2: "tab (pg_mem st1) (table_addr (tab m pd i)) k = tab m (table_addr (tab m pd i)) k" if v: "Suc j \<le> i" "i < 768" "tab m pd i \<noteq> 0" "k < 1024" for i k
    proof -
      have "table_addr (tab m pd i) \<notin> table_own m ?pt" using disj[OF v(1-3)] by (auto simp: table_own_def)
      moreover have "pg_ofs (table_addr (tab m pd i)) = 0" using Suc.prems(4) v by (simp add: pd_ok_def pt_ok_def)
      ultimately show ?thesis using s1(2) Suc.prems(6)[of i k] v unfolding freed_def by simp
    qed
    have pk1: "used_page st1 p" if "p \<in> owned m pd (Suc j)" for p
      using used_page_freed[OF s1(2) Suc.prems(7)] that disj' ow al by blast
    have n: "768 - Suc j = n" "Suc j \<le> 768" "palloc_wf (pg_pal st1)" using Suc.prems(1) j s1(2) by (simp_all add: freed_def)
    obtain st' where s': "destroy_pd st1 pd (Suc j) = Some st'" "freed st1 st' (owned m pd (Suc j))"
      using Suc.IH[OF n Suc.prems(4) t1 t2 pk1] by blast
    have "pde_get_pt (tab m pd j) = Some ?pt" using pde table_addr_page(1) by (simp add: pde_get_pt_def)
    then have "destroy_pd st pd j = destroy_pd st1 pd (Suc j)"
      using l j(2) pde(1) s1(1) by (subst destroy_pd.simps) simp
    then show ?thesis using s' freed_trans[OF s1(2) s'(2)] ow by simp
  qed
qed

lemma pagedir_destroy_ok:
  assumes wf: "palloc_wf (pg_pal st)" and pd: "pd_ok (pg_mem st) pd" "pd \<noteq> base_page_dir st" and pk: "\<And>p. p \<in> insert pd (owned (pg_mem st) pd 0) \<Longrightarrow> used_page st p"
  obtains st' where "pagedir_destroy st pd = Some st'" "freed st st' (insert pd (owned (pg_mem st) pd 0))"
proof -
  obtain st1 where s1: "destroy_pd st pd 0 = Some st1" "freed st st1 (owned (pg_mem st) pd 0)"
    using destroy_pd_ok[OF refl _ wf pd(1) refl, of 0] pk by auto
  have p: "pg_ofs pd = 0" "is_kernel_vaddr pd" "pd \<notin> owned (pg_mem st) pd 0" using pd(1) by (simp_all add: pd_ok_def)
  have "used_page st1 pd" using used_page_freed[OF s1(2) pk] p pk by (auto simp: used_page_def)
  then obtain st2 where s2: "free_page st1 pd = Some st2" "freed st1 st2 {pd}"
    using freed_page[of st1 pd] s1(2) unfolding used_page_def freed_def by blast
  have "pd \<noteq> NULL" using p(2) by (auto simp: is_kernel_vaddr_def)
  then have "pagedir_destroy st pd = Some st2" using pd(2) s1(1) s2(1) by (simp add: pagedir_destroy_def)
  moreover have "owned (pg_mem st) pd 0 \<union> {pd} = insert pd (owned (pg_mem st) pd 0)" by blast
  ultimately show thesis using that freed_trans[OF s1(2) s2(2)] by simp
qed

text \<open>The frames that the address spaces map are pages of the user pool in use, and no frame is mapped twice.\<close>

definition frames_ok :: "paging \<Rightarrow> ptr set \<Rightarrow> bool" where
  "frames_ok st D \<longleftrightarrow>
     (\<forall>pd\<in>D. \<forall>va k w. is_user_vaddr va \<longrightarrow> page_map st pd va = Some (k, w) \<longrightarrow>
        unat (pg_no k) \<in> palloc_used (pg_pal st) \<and> unat (pg_no k) \<in> pool_pages (user_pool (pg_pal st))) \<and>
     (\<forall>pd\<in>D. \<forall>pd'\<in>D. \<forall>va va' k w w'. is_user_vaddr va \<longrightarrow> is_user_vaddr va' \<longrightarrow>
        page_map st pd va = Some (k, w) \<longrightarrow> page_map st pd' va' = Some (k, w') \<longrightarrow> pd = pd' \<and> pg_no va = pg_no va')"

definition user_va :: "nat \<Rightarrow> nat \<Rightarrow> ptr" where
  "user_va i k = of_nat (4096 * (1024 * i + k))"

lemma user_va_fields:
  assumes "i < 768" and "k < 1024"
  shows "unat (pd_no (user_va i k)) = i" "unat (pt_no (user_va i k)) = k" "is_user_vaddr (user_va i k)"
proof -
  have "4096 * (1024 * i + k) < 2 ^ 32" using assms by simp
  then have "unat (user_va i k) = 4096 * (1024 * i + k)" unfolding user_va_def by (rule unat_of_nat32)
  then have n: "unat (pg_no (user_va i k)) = 1024 * i + k" by (simp add: pg_no_div)
  show "unat (pd_no (user_va i k)) = i" "unat (pt_no (user_va i k)) = k" unfolding pd_no_div pt_no_mod n using assms(2) by simp_all
  then show "is_user_vaddr (user_va i k)" using assms(1) by (simp add: user_pd_no)
qed

text \<open>An entry of a table as the mapping of an address.\<close>

lemma page_map_entry:
  assumes "i < 768" "k < 1024" "tab (pg_mem st) pd i \<noteq> 0" "tab (pg_mem st) (table_addr (tab (pg_mem st) pd i)) k AND PTE_P \<noteq> 0"
  shows "\<exists>w. page_map st pd (user_va i k) = Some (table_addr (tab (pg_mem st) (table_addr (tab (pg_mem st) pd i)) k), w)"
    "pte_of (pg_mem st) pd (user_va i k) = tab (pg_mem st) (table_addr (tab (pg_mem st) pd i)) k"
  using assms user_va_fields[OF assms(1,2)] by (simp_all add: page_map_def pte_of_def Let_def)

lemma frame_entry:
  assumes ok: "spaces_ok st D" "frames_ok st D" and pd: "pd \<in> D" and i: "i < 768" "tab (pg_mem st) pd i \<noteq> 0"
    and k: "k < 1024" "tab (pg_mem st) (table_addr (tab (pg_mem st) pd i)) k AND PTE_P \<noteq> 0"
  shows "tab (pg_mem st) (table_addr (tab (pg_mem st) pd i)) k AND PTE_ADDR < 0x40000000"
    "used_page st (table_addr (tab (pg_mem st) (table_addr (tab (pg_mem st) pd i)) k))"
    "unat (pg_no (table_addr (tab (pg_mem st) (table_addr (tab (pg_mem st) pd i)) k))) \<in> pool_pages (user_pool (pg_pal st))"
proof -
  note e = page_map_entry[OF i(1) k(1) i(2) k(2)] and u = user_va_fields(3)[OF i(1) k(1)]
  show a: "tab (pg_mem st) (table_addr (tab (pg_mem st) pd i)) k AND PTE_ADDR < 0x40000000"
    using spaces_okD(2)[OF ok(1) pd u] e(2) k(2) by simp
  obtain w where "page_map st pd (user_va i k) = Some (table_addr (tab (pg_mem st) (table_addr (tab (pg_mem st) pd i)) k), w)" using e(1) by blast
  then have "unat (pg_no (table_addr (tab (pg_mem st) (table_addr (tab (pg_mem st) pd i)) k))) \<in> palloc_used (pg_pal st)"
    and "unat (pg_no (table_addr (tab (pg_mem st) (table_addr (tab (pg_mem st) pd i)) k))) \<in> pool_pages (user_pool (pg_pal st))"
    using ok(2) pd u unfolding frames_ok_def by blast+
  then show "used_page st (table_addr (tab (pg_mem st) (table_addr (tab (pg_mem st) pd i)) k))"
    "unat (pg_no (table_addr (tab (pg_mem st) (table_addr (tab (pg_mem st) pd i)) k))) \<in> pool_pages (user_pool (pg_pal st))"
    using table_addr_page(2,3)[OF a] by (simp_all add: used_page_def)
qed

lemma frame_unique:
  assumes ok: "frames_ok st D" and pd: "pd \<in> D" "pd' \<in> D" and i: "i < 768" "tab (pg_mem st) pd i \<noteq> 0" and i': "i' < 768" "tab (pg_mem st) pd' i' \<noteq> 0"
    and k: "k < 1024" "tab (pg_mem st) (table_addr (tab (pg_mem st) pd i)) k AND PTE_P \<noteq> 0"
    and k': "k' < 1024" "tab (pg_mem st) (table_addr (tab (pg_mem st) pd' i')) k' AND PTE_P \<noteq> 0"
    and eq: "table_addr (tab (pg_mem st) (table_addr (tab (pg_mem st) pd i)) k) = table_addr (tab (pg_mem st) (table_addr (tab (pg_mem st) pd' i')) k')"
  shows "pd = pd' \<and> i = i' \<and> k = k'"
proof -
  obtain w w' f where "page_map st pd (user_va i k) = Some (f, w)" "page_map st pd' (user_va i' k') = Some (f, w')"
    using page_map_entry(1)[OF i(1) k(1) i(2) k(2)] page_map_entry(1)[OF i'(1) k'(1) i'(2) k'(2)] eq by auto
  then have "pd = pd'" "pg_no (user_va i k) = pg_no (user_va i' k')"
    using ok pd user_va_fields(3)[OF i(1) k(1)] user_va_fields(3)[OF i'(1) k'(1)] unfolding frames_ok_def by blast+
  then show ?thesis using same_page_iff[of "user_va i k" "user_va i' k'"] user_va_fields(1,2)[OF i(1) k(1)] user_va_fields(1,2)[OF i'(1) k'(1)] by simp
qed

text \<open>What belongs to one directory is disjoint from the pages of the others.\<close>

lemma owned_cases:
  assumes "p \<in> owned m pd 0"
  obtains (table) i where "i < 768" "tab m pd i \<noteq> 0" "p = table_addr (tab m pd i)"
  | (frame) i k where "i < 768" "tab m pd i \<noteq> 0" "k < 1024" "tab m (table_addr (tab m pd i)) k AND PTE_P \<noteq> 0" "p = table_addr (tab m (table_addr (tab m pd i)) k)"
  using assms unfolding owned_def table_own_def frames_of_def by blast

lemma kernel_not_user: "palloc_wf p \<Longrightarrow> x \<in> pool_pages (kernel_pool p) \<Longrightarrow> x \<notin> pool_pages (user_pool p)"
  by (auto simp: palloc_wf_def)

lemma dir_page_not_frame:
  assumes ok: "spaces_ok st D" "frames_ok st D" and pd: "pd \<in> D" and i: "i < 768" "tab (pg_mem st) pd i \<noteq> 0"
    and k: "k < 1024" "tab (pg_mem st) (table_addr (tab (pg_mem st) pd i)) k AND PTE_P \<noteq> 0" and p: "p \<in> dir_pages 768 (pg_mem st) D"
  shows "p \<noteq> table_addr (tab (pg_mem st) (table_addr (tab (pg_mem st) pd i)) k)"
proof -
  have "unat (pg_no p) \<in> pool_pages (kernel_pool (pg_pal st))" using spaces_okD(1)[OF ok(1)] p by (simp add: dirs_ok_def table_page_def)
  then show ?thesis using frame_entry(3)[OF ok pd i k] kernel_not_user[OF dirs_okD(2)[OF spaces_okD(1)[OF ok(1)]]] by blast
qed

lemma spaces_pd_ok:
  assumes ok: "spaces_ok st D" "frames_ok st D" and pd: "pd \<in> D"
  shows "pd_ok (pg_mem st) pd" and "\<And>p. p \<in> insert pd (owned (pg_mem st) pd 0) \<Longrightarrow> used_page st p"
proof -
  let ?m = "pg_mem st"
  note d = dirs_okD[OF spaces_okD(1)[OF ok(1)]]
  have dp: "pd \<in> dir_pages 768 ?m D" "i < 768 \<Longrightarrow> tab ?m pd i \<noteq> 0 \<Longrightarrow> table_addr (tab ?m pd i) \<in> dir_pages 768 ?m D" for i
    using pd by (auto simp: dir_pages_def)
  have fr: "f \<in> frames_of ?m (table_addr (tab ?m pd i)) 0 \<Longrightarrow> \<exists>k<1024. tab ?m (table_addr (tab ?m pd i)) k AND PTE_P \<noteq> 0 \<and> f = table_addr (tab ?m (table_addr (tab ?m pd i)) k)" for f i
    by (auto simp: frames_of_def)
  have 1: "pt_ok ?m (table_addr (tab ?m pd i))" if "i < 768" "tab ?m pd i \<noteq> 0" for i
    unfolding pt_ok_def
  proof (intro conjI allI impI)
    show "pg_ofs (table_addr (tab ?m pd i)) = 0" "is_kernel_vaddr (table_addr (tab ?m pd i))" using d(9)[OF pd that] by (simp_all add: table_page_def)
    show "table_addr (tab ?m pd i) \<notin> frames_of ?m (table_addr (tab ?m pd i)) 0" using fr[of _ i] dir_page_not_frame[OF ok pd that _ _ dp(2)[OF that]] by metis
  next
    fix k assume k: "k < 1024" "tab ?m (table_addr (tab ?m pd i)) k AND PTE_P \<noteq> 0"
    show "tab ?m (table_addr (tab ?m pd i)) k AND PTE_ADDR < 0x40000000" by (rule frame_entry(1)[OF ok pd that k])
    fix k' assume "k' < 1024" "tab ?m (table_addr (tab ?m pd i)) k' AND PTE_P \<noteq> 0"
      "table_addr (tab ?m (table_addr (tab ?m pd i)) k) = table_addr (tab ?m (table_addr (tab ?m pd i)) k')"
    then show "k = k'" using frame_unique[OF ok(2) pd pd that that k] by blast
  qed
  have 2: "table_own ?m (table_addr (tab ?m pd i)) \<inter> table_own ?m (table_addr (tab ?m pd j)) = {}"
    if i: "i < 768" "tab ?m pd i \<noteq> 0" and j: "j < 768" "tab ?m pd j \<noteq> 0" and ij: "i \<noteq> j" for i j
  proof -
    have "table_addr (tab ?m pd i) \<noteq> table_addr (tab ?m pd j)" using d(10)[OF pd i pd j] ij by blast
    moreover have "table_addr (tab ?m pd i) \<notin> frames_of ?m (table_addr (tab ?m pd j)) 0" using fr[of _ j] dir_page_not_frame[OF ok pd j _ _ dp(2)[OF i]] by metis
    moreover have "table_addr (tab ?m pd j) \<notin> frames_of ?m (table_addr (tab ?m pd i)) 0" using fr[of _ i] dir_page_not_frame[OF ok pd i _ _ dp(2)[OF j]] by metis
    moreover have "f \<notin> frames_of ?m (table_addr (tab ?m pd j)) 0" if "f \<in> frames_of ?m (table_addr (tab ?m pd i)) 0" for f
      using fr[OF that] fr[of f j] frame_unique[OF ok(2) pd pd i j] ij by metis
    ultimately show ?thesis unfolding table_own_def by blast
  qed
  have 3: "pd \<notin> owned ?m pd 0"
  proof
    assume "pd \<in> owned ?m pd 0"
    then show False by (cases rule: owned_cases) (use d(8)[OF pd] pd dir_page_not_frame[OF ok pd _ _ _ _ dp(1)] in metis)+
  qed
  show "pd_ok ?m pd" using 1 2 3 d(3,4,6,7) pd by (simp add: pd_ok_def)
  show "used_page st p" if "p \<in> insert pd (owned ?m pd 0)" for p
  proof (cases "p = pd")
    case False
    then have "p \<in> owned ?m pd 0" using that by blast
    then show ?thesis
    proof (cases rule: owned_cases)
      case (table i)
      then show ?thesis using d(9)[OF pd table(1,2)] by (simp add: used_page_def table_page_def)
    qed (use frame_entry(2)[OF ok pd] in blast)
  qed (use d(5)[OF pd] in \<open>simp add: used_page_def table_page_def\<close>)
qed

lemma spaces_ok_subset:
  assumes "spaces_ok st D" and "D' \<subseteq> D"
  shows "spaces_ok st D'"
proof -
  have "dir_pages 768 (pg_mem st) D' \<subseteq> dir_pages 768 (pg_mem st) D" using assms(2) by (auto simp: dir_pages_def)
  then show ?thesis using assms unfolding spaces_ok_def dirs_ok_def by (meson subsetD)
qed

text \<open>Freeing the pages of one directory leaves the others alone.\<close>

lemma freed_spaces:
  assumes ok: "spaces_ok st D" "frames_ok st D" and pd: "pd \<in> D" and fr: "freed st st' (insert pd (owned (pg_mem st) pd 0))"
  shows "spaces_ok st' (D - {pd})" "frames_ok st' (D - {pd})"
    "\<And>pd' va. pd' \<in> D - {pd} \<Longrightarrow> is_user_vaddr va \<Longrightarrow> page_map st' pd' va = page_map st pd' va"
proof -
  let ?m = "pg_mem st" and ?D = "D - {pd}" and ?F = "insert pd (owned (pg_mem st) pd 0)"
  have ok': "spaces_ok st ?D" by (rule spaces_ok_subset[OF ok(1)]) blast
  note d = dirs_okD[OF spaces_okD(1)[OF ok(1)]] and pk = spaces_pd_ok(2)[OF ok pd]
  have sub: "p \<in> dir_pages 768 ?m D" if "p \<in> dir_pages 768 ?m ?D" for p using that by (auto simp: dir_pages_def)
  have out: "p \<notin> ?F" if p: "p \<in> dir_pages 768 ?m ?D" for p
  proof
    assume "p \<in> ?F"
    moreover have "p \<noteq> pd" using p d(8) pd unfolding dir_pages_def by blast
    ultimately have "p \<in> owned ?m pd 0" by blast
    then show False
    proof (cases rule: owned_cases)
      case (table i)
      have "table_addr (tab ?m pd i) \<notin> D" by (rule d(8)[OF pd table(1,2)])
      moreover have "table_addr (tab ?m pd i) \<noteq> table_addr (tab ?m pd' j)" if "pd' \<in> ?D" "j < 768" "tab ?m pd' j \<noteq> 0" for pd' j
        using d(10)[OF pd table(1,2) _ that(2,3)] that(1) by blast
      ultimately show False using p table(3) unfolding dir_pages_def by auto
    next
      case (frame i k)
      then show False using dir_page_not_frame[OF ok pd frame(1-4) sub[OF p]] by blast
    qed
  qed
  have al: "pg_ofs p = 0 \<and> unat (pg_no p) \<in> palloc_used (pg_pal st)" if "p \<in> dir_pages 768 ?m ?D" for p
    using spaces_okD(1)[OF ok'] that by (simp add: dirs_ok_def table_page_def)
  have pno: "unat (pg_no p) \<notin> (\<lambda>p. unat (pg_no p)) ` ?F" if "pg_ofs p = 0" "p \<notin> ?F" for p
    using page_eq_iff[OF that(1)] pk that(2) unfolding used_page_def by blast
  have fx: "dirs_ok 768 st' ?D" "\<And>pd' va. pd' \<in> ?D \<Longrightarrow> unat (pd_no va) < 768 \<Longrightarrow> pte_of (pg_mem st') pd' va = pte_of ?m pd' va"
  proof -
    have u: "unat (pg_no p) \<in> palloc_used (pg_pal st')" if "p \<in> dir_pages 768 ?m ?D" for p
      using fr al[OF that] pno[OF _ out[OF that]] by (simp add: freed_def)
    have t: "tab (pg_mem st') p i = tab ?m p i" if "p \<in> dir_pages 768 ?m ?D" "i < 1024" for p i
      using fr al[OF that(1)] out[OF that(1)] that(2) unfolding freed_def by blast
    have w: "palloc_wf (pg_pal st')" "pool_pages (kernel_pool (pg_pal st')) = pool_pages (kernel_pool (pg_pal st))" using fr by (simp_all add: freed_def)
    note f = dirs_ok_frame[OF spaces_okD(1)[OF ok'] w(1) u w(2) t]
    show "dirs_ok 768 st' ?D" "\<And>pd' va. pd' \<in> ?D \<Longrightarrow> unat (pd_no va) < 768 \<Longrightarrow> pte_of (pg_mem st') pd' va = pte_of ?m pd' va"
      using f(1,2) by blast+
  qed
  have pe: "pte_of (pg_mem st') pd' va = pte_of ?m pd' va" if "pd' \<in> ?D" "is_user_vaddr va" for pd' va using fx(2) that user_pd_no by blast
  then show pm: "page_map st' pd' va = page_map st pd' va" if "pd' \<in> ?D" "is_user_vaddr va" for pd' va using that by (simp add: page_map_def)
  show "spaces_ok st' ?D" using fx(1) ok' pe by (simp add: spaces_ok_def)
  have "unat (pg_no k) \<in> palloc_used (pg_pal st') \<and> unat (pg_no k) \<in> pool_pages (user_pool (pg_pal st'))"
    if v: "pd' \<in> ?D" "is_user_vaddr va" "page_map st pd' va = Some (k, w)" for pd' va k w
  proof -
    have u: "unat (pg_no k) \<in> palloc_used (pg_pal st)" "unat (pg_no k) \<in> pool_pages (user_pool (pg_pal st))"
      using ok(2) v unfolding frames_ok_def by blast+
    have a: "pg_ofs k = 0" using v(3) table_addr_page(3)[OF spaces_okD(2)[OF ok' v(1,2)]] by (auto simp: page_map_def Let_def split: if_splits)
    have "k \<notin> ?F"
    proof
      assume "k \<in> ?F"
      moreover have "unat (pg_no k) \<notin> pool_pages (kernel_pool (pg_pal st))" using u(2) kernel_not_user[OF d(2)] by blast
      then have "\<not> table_page (pg_pal st) k" by (simp add: table_page_def)
      ultimately have "k \<in> owned ?m pd 0" "\<not> table_page (pg_pal st) k" using d(5)[OF pd] by blast+
      then show False
      proof (cases rule: owned_cases)
        case (frame i j)
        obtain w' where "page_map st pd (user_va i j) = Some (k, w')" using page_map_entry(1)[OF frame(1,3,2,4)] frame(5) by blast
        then show False using ok(2) v pd user_va_fields(3)[OF frame(1,3)] unfolding frames_ok_def by blast
      qed (use d(9)[OF pd] in blast)
    qed
    then show ?thesis using fr u pno[OF a] by (simp add: freed_def)
  qed
  then show "frames_ok st' ?D" using ok(2) pm unfolding frames_ok_def by (metis (no_types, lifting) Diff_iff)
qed

section \<open>The theorems\<close>

text \<open>
  C5. Page directories implement maps: \<open>pagedir_get_page\<close> returns what a directory maps an address to, \<open>pagedir_clear_page\<close> removes
  exactly one page, and \<open>pagedir_set_page\<close> adds exactly one page, with the requested permission, or fails because the kernel
  pool is exhausted and changes no mapping. No operation changes another address space, and the translation lookaside buffer stays coherent.
\<close>

theorem pagedir_refines_map:
  assumes "spaces_ok st D" and "tlb_ok st D" and "pd \<in> D" and "is_user_vaddr upage" and "pg_ofs upage = 0"
  shows "(\<forall>va. is_user_vaddr va \<longrightarrow> pagedir_get_page st pd va = Some (case page_map st pd va of None \<Rightarrow> NULL | Some (k, _) \<Rightarrow> k + pg_ofs va)) \<and>
    (\<exists>st'. pagedir_clear_page st pd upage = Some st' \<and> spaces_ok st' D \<and> tlb_ok st' D \<and>
       (\<forall>pd'\<in>D. \<forall>va. is_user_vaddr va \<longrightarrow> page_map st' pd' va = (if pd' = pd \<and> pg_no va = pg_no upage then None else page_map st pd' va))) \<and>
    (page_map st pd upage = None \<longrightarrow> pd \<noteq> base_page_dir st \<longrightarrow> pg_ofs kpage = 0 \<longrightarrow> is_kernel_vaddr kpage \<longrightarrow>
       drop_bit 12 (kpage - PHYS_BASE) < ram_pages st \<longrightarrow>
       (\<exists>st' pte ok. pagedir_set_page st pd upage kpage w = Some (st', pte, ok) \<and> spaces_ok st' D \<and> tlb_ok st' D \<and>
          (if ok then \<forall>pd'\<in>D. \<forall>va. is_user_vaddr va \<longrightarrow>
             page_map st' pd' va = (if pd' = pd \<and> pg_no va = pg_no upage then Some (kpage, w) else page_map st pd' va)
           else pool_pages (kernel_pool (pg_pal st)) \<subseteq> palloc_used (pg_pal st) \<and>
             (\<forall>pd'\<in>D. \<forall>va. is_user_vaddr va \<longrightarrow> page_map st' pd' va = page_map st pd' va))))"
proof (intro conjI impI allI)
  show "pagedir_get_page st pd va = Some (case page_map st pd va of None \<Rightarrow> NULL | Some (k, _) \<Rightarrow> k + pg_ofs va)" if "is_user_vaddr va" for va
    by (rule get_page_map[OF assms(1,3) that])
  show "\<exists>st'. pagedir_clear_page st pd upage = Some st' \<and> spaces_ok st' D \<and> tlb_ok st' D \<and>
      (\<forall>pd'\<in>D. \<forall>va. is_user_vaddr va \<longrightarrow> page_map st' pd' va = (if pd' = pd \<and> pg_no va = pg_no upage then None else page_map st pd' va))"
    by (rule clear_page_ok[OF assms]) blast
next
  assume h: "page_map st pd upage = None" "pd \<noteq> base_page_dir st" "pg_ofs kpage = 0" "is_kernel_vaddr kpage" "drop_bit 12 (kpage - PHYS_BASE) < ram_pages st"
  show "\<exists>st' pte ok. pagedir_set_page st pd upage kpage w = Some (st', pte, ok) \<and> spaces_ok st' D \<and> tlb_ok st' D \<and>
          (if ok then \<forall>pd'\<in>D. \<forall>va. is_user_vaddr va \<longrightarrow>
             page_map st' pd' va = (if pd' = pd \<and> pg_no va = pg_no upage then Some (kpage, w) else page_map st pd' va)
           else pool_pages (kernel_pool (pg_pal st)) \<subseteq> palloc_used (pg_pal st) \<and>
             (\<forall>pd'\<in>D. \<forall>va. is_user_vaddr va \<longrightarrow> page_map st' pd' va = page_map st pd' va))"
  proof (rule set_page_map[OF assms(1,3) h(2) assms(4,5) h(3-5,1), of w])
    fix p' assume "pagedir_set_page st pd upage kpage w = Some (st\<lparr>pg_pal := p'\<rparr>, NULL, False)" "spaces_ok (st\<lparr>pg_pal := p'\<rparr>) D"
      "pool_pages (kernel_pool (pg_pal st)) \<subseteq> palloc_used (pg_pal st)"
    moreover have "tlb_ok (st\<lparr>pg_pal := p'\<rparr>) D" using assms(2) by (simp add: tlb_ok_def)
    ultimately show ?thesis by (intro exI[of _ "st\<lparr>pg_pal := p'\<rparr>"] exI[of _ NULL] exI[of _ False]) (simp add: page_map_def)
  next
    fix p' m' pte e assume s: "pagedir_set_page st pd upage kpage w = Some (st\<lparr>pg_pal := p', pg_mem := m'\<rparr>, pte, True)"
      "spaces_ok (st\<lparr>pg_pal := p', pg_mem := m'\<rparr>) D" "e AND PTE_P \<noteq> 0" "e AND PTE_W \<noteq> 0 \<longleftrightarrow> w" "table_addr e = kpage" and
      pe: "\<And>pd' vb. pd' \<in> D \<Longrightarrow> is_user_vaddr vb \<Longrightarrow> pte_of m' pd' vb = (if pd' = pd \<and> pg_no vb = pg_no upage then e else pte_of (pg_mem st) pd' vb)"
    let ?st = "st\<lparr>pg_pal := p', pg_mem := m'\<rparr>"
    have "pte_of (pg_mem st) pd upage AND PTE_P = 0" using h(1) by (simp add: page_map_def Let_def split: if_splits)
    then have na: "\<not> agrees c (pte_of (pg_mem st) pd va)" if "pg_no va = pg_no upage" for c va
      using pte_of_same_page[OF that, of "pg_mem st" pd] by (simp add: agrees_def)
    have "tlb_ok ?st D"
    proof -
      obtain a where a: "a \<in> D" "vtop a = Some (cr3 st)" "\<And>va c. is_user_vaddr va \<Longrightarrow> tlb st (pg_no va) = Some c \<Longrightarrow> agrees c (pte_of (pg_mem st) a va)"
        using assms(2) unfolding tlb_ok_def by blast
      have "agrees c (pte_of m' a va)" if "is_user_vaddr va" "tlb st (pg_no va) = Some c" for va c
        using a(3)[OF that] na[of va c] pe[OF a(1) that(1)] by auto
      then show ?thesis using a(1,2) unfolding tlb_ok_def by auto
    qed
    moreover have "page_map ?st pd' va = (if pd' = pd \<and> pg_no va = pg_no upage then Some (kpage, w) else page_map st pd' va)"
      if "pd' \<in> D" "is_user_vaddr va" for pd' va using pe[OF that] s(3-5) by (simp add: page_map_def Let_def)
    ultimately show ?thesis using s(1,2) by (intro exI[of _ ?st] exI[of _ pte] exI[of _ True]) simp
  qed
qed

lemma set_flag_view:
  assumes f: "f = PTE_A \<or> f = PTE_D" and ok: "spaces_ok st D" "tlb_ok st D" "pd \<in> D" "is_user_vaddr va" and "page_map st pd va \<noteq> None"
  obtains st' where "set_flag st pd va f b = Some st'" "spaces_ok st' D" "tlb_ok st' D"
    "\<And>pd' vb. pd' \<in> D \<Longrightarrow> is_user_vaddr vb \<Longrightarrow> page_map st' pd' vb = page_map st pd' vb"
    "\<And>pd' vb g. pd' \<in> D \<Longrightarrow> is_user_vaddr vb \<Longrightarrow> g = PTE_A \<or> g = PTE_D \<Longrightarrow> pte_of (pg_mem st') pd' vb AND g \<noteq> 0 \<longleftrightarrow>
       (if pd' = pd \<and> pg_no vb = pg_no va \<and> g = f then b else pte_of (pg_mem st) pd' vb AND g \<noteq> 0)"
proof (rule set_flag_ok[OF f ok, of b])
  fix st' assume s: "set_flag st pd va f b = Some st'" "spaces_ok st' D" "tlb_ok st' D" and
    pe: "\<And>pd' vb. pd' \<in> D \<Longrightarrow> is_user_vaddr vb \<Longrightarrow> pte_of (pg_mem st') pd' vb =
     (if pd' = pd \<and> pg_no vb = pg_no va \<and> tab (pg_mem st) pd (unat (pd_no va)) \<noteq> 0
      then (if b then pte_of (pg_mem st) pd' vb OR f else pte_of (pg_mem st) pd' vb AND NOT f) else pte_of (pg_mem st) pd' vb)"
  have nz: "tab (pg_mem st) pd (unat (pd_no va)) \<noteq> 0" using assms(6) by (auto simp: page_map_def pte_of_def Let_def)
  have other: "pte_of (pg_mem st') pd' vb AND g = pte_of (pg_mem st) pd' vb AND g" if "pd' \<in> D" "is_user_vaddr vb" "g AND f = 0" for pd' vb g
    using pe[OF that(1,2)] mask_on_other[OF that(3)] mask_off_other[OF that(3)] by simp
  show thesis
  proof (rule that[OF s])
    fix pd' vb assume v: "pd' \<in> D" "is_user_vaddr vb"
    have "PTE_P AND f = 0" "PTE_W AND f = 0" "PTE_ADDR AND f = 0" using f by auto
    then show "page_map st' pd' vb = page_map st pd' vb" using other[OF v] by (simp add: page_map_def Let_def table_addr_def)
    fix g assume g: "g = PTE_A \<or> g = PTE_D"
    show "pte_of (pg_mem st') pd' vb AND g \<noteq> 0 \<longleftrightarrow> (if pd' = pd \<and> pg_no vb = pg_no va \<and> g = f then b else pte_of (pg_mem st) pd' vb AND g \<noteq> 0)"
    proof (cases "g = f")
      case True
      then show ?thesis using pe[OF v] nz f mask_on_same[of f "pte_of (pg_mem st) pd' vb"] mask_off_same[of "pte_of (pg_mem st) pd' vb" f] by auto
    next
      case False
      then have "g AND f = 0" using f g by auto
      then show ?thesis using other[OF v] False by simp
    qed
  qed
qed

text \<open>
  C40. The dirty and accessed bits of a mapped page: setting one of them is seen by the corresponding query, the other bit, all mappings
  and all other pages stay as they were, and no stale bit remains in the translation lookaside buffer.
\<close>

theorem pagedir_flags_correct:
  assumes "spaces_ok st D" and "tlb_ok st D" and "pd \<in> D" and "is_user_vaddr va" and "page_map st pd va \<noteq> None"
  shows "(\<exists>st'. pagedir_set_dirty st pd va b = Some st' \<and> spaces_ok st' D \<and> tlb_ok st' D \<and>
       (\<forall>pd'\<in>D. \<forall>vb. is_user_vaddr vb \<longrightarrow> page_map st' pd' vb = page_map st pd' vb \<and> pagedir_is_accessed st' pd' vb = pagedir_is_accessed st pd' vb \<and>
          pagedir_is_dirty st' pd' vb = (if pd' = pd \<and> pg_no vb = pg_no va then Some b else pagedir_is_dirty st pd' vb))) \<and>
    (\<exists>st'. pagedir_set_accessed st pd va b = Some st' \<and> spaces_ok st' D \<and> tlb_ok st' D \<and>
       (\<forall>pd'\<in>D. \<forall>vb. is_user_vaddr vb \<longrightarrow> page_map st' pd' vb = page_map st pd' vb \<and> pagedir_is_dirty st' pd' vb = pagedir_is_dirty st pd' vb \<and>
          pagedir_is_accessed st' pd' vb = (if pd' = pd \<and> pg_no vb = pg_no va then Some b else pagedir_is_accessed st pd' vb)))"
proof -
  note fl = set_flag_view[OF _ assms, of _ b]
  have 1: "\<exists>st'. pagedir_set_dirty st pd va b = Some st' \<and> spaces_ok st' D \<and> tlb_ok st' D \<and>
       (\<forall>pd'\<in>D. \<forall>vb. is_user_vaddr vb \<longrightarrow> page_map st' pd' vb = page_map st pd' vb \<and> pagedir_is_accessed st' pd' vb = pagedir_is_accessed st pd' vb \<and>
          pagedir_is_dirty st' pd' vb = (if pd' = pd \<and> pg_no vb = pg_no va then Some b else pagedir_is_dirty st pd' vb))"
    by (rule fl[of PTE_D]) (auto simp: set_flag_eq is_flag_eq[OF _ _ _, of _ D] assms(1))
  have 2: "\<exists>st'. pagedir_set_accessed st pd va b = Some st' \<and> spaces_ok st' D \<and> tlb_ok st' D \<and>
       (\<forall>pd'\<in>D. \<forall>vb. is_user_vaddr vb \<longrightarrow> page_map st' pd' vb = page_map st pd' vb \<and> pagedir_is_dirty st' pd' vb = pagedir_is_dirty st pd' vb \<and>
          pagedir_is_accessed st' pd' vb = (if pd' = pd \<and> pg_no vb = pg_no va then Some b else pagedir_is_accessed st pd' vb))"
    by (rule fl[of PTE_A]) (auto simp: set_flag_eq is_flag_eq[OF _ _ _, of _ D] assms(1))
  show ?thesis using 1 2 by blast
qed

text \<open>
  C14. Destroying a directory gives back exactly its pages: the directory, its page tables for user addresses and the frames they map. All
  other address spaces keep their mappings and stay well formed.
\<close>

theorem pagedir_destroy_correct:
  assumes "spaces_ok st D" and "frames_ok st D" and "pd \<in> D" and "pd \<noteq> base_page_dir st"
  shows "\<exists>st'. pagedir_destroy st pd = Some st' \<and>
    palloc_used (pg_pal st') = palloc_used (pg_pal st) - (\<lambda>p. unat (pg_no p)) ` insert pd (owned (pg_mem st) pd 0) \<and>
    spaces_ok st' (D - {pd}) \<and> frames_ok st' (D - {pd}) \<and>
    (\<forall>pd'\<in>D - {pd}. \<forall>va. is_user_vaddr va \<longrightarrow> page_map st' pd' va = page_map st pd' va)"
proof -
  note po = spaces_pd_ok[OF assms(1-3)]
  obtain st' where s: "pagedir_destroy st pd = Some st'" "freed st st' (insert pd (owned (pg_mem st) pd 0))"
    by (rule pagedir_destroy_ok[OF dirs_okD(2)[OF spaces_okD(1)[OF assms(1)]] po(1) assms(4) po(2)])
  show ?thesis using s freed_spaces[OF assms(1-3) s(2)] by (intro exI[of _ st']) (simp add: freed_def)
qed

text \<open>
  C15. \<open>paging_init\<close> maps all of physical memory at \<open>PHYS_BASE\<close>, for the kernel only, with the kernel text read-only and everything else
  writable; no user address is mapped. It does not panic if the kernel pool has a page for the directory and one for each 4 MB of memory.
\<close>

theorem paging_init_correct:
  assumes "palloc_wf (pg_pal st)" and "unat (ram_pages st) \<le> 262144" and "(unat (ram_pages st) + 1023) div 1024 < free_pages (pg_pal st)"
  shows "\<exists>st'. paging_init ts te st = Some st' \<and> vtop (base_page_dir st') = Some (cr3 st') \<and>
    (\<forall>q<unat (ram_pages st). kernel_entry ts te q (pte_of (pg_mem st') (base_page_dir st') (kva q))) \<and>
    (\<forall>va. is_user_vaddr va \<longrightarrow> pte_of (pg_mem st') (base_page_dir st') va = 0) \<and> dirs_ok 1024 st' {base_page_dir st'} \<and> tlb_ok st' {base_page_dir st'}"
proof -
  have nf: "\<not> pool_pages (kernel_pool (pg_pal st)) \<subseteq> palloc_used (pg_pal st)"
    using assms(3) by (auto simp: free_pages_def Diff_eq_empty_iff[THEN iffD2])
  show ?thesis
  proof (rule get_page_cases[OF assms(1), of "PAL_ASSERT OR PAL_ZERO"])
    fix p' m' pd assume g: "get_page st (PAL_ASSERT OR PAL_ZERO) = Some (st\<lparr>pg_pal := p', pg_mem := m'\<rparr>, pd)" "palloc_wf p'" "pg_ofs pd = 0" "is_kernel_vaddr pd"
      "unat (pg_no pd) \<in> pool_pages (kernel_pool (pg_pal st))" "unat (pg_no pd) \<notin> palloc_used (pg_pal st)"
      "palloc_used p' = insert (unat (pg_no pd)) (palloc_used (pg_pal st))" "pool_pages (kernel_pool p') = pool_pages (kernel_pool (pg_pal st))"
      "m' = (if (PAL_ASSERT OR PAL_ZERO) AND PAL_ZERO \<noteq> 0 then write_bytes (pg_mem st) pd (replicate 4096 0) else pg_mem st)"
    let ?st = "st\<lparr>pg_pal := p', pg_mem := m', base_page_dir := pd\<rparr>"
    have "mapped_to ts te ?st pd NULL (unat (0 :: 32 word))"
      using mapped_to_start[OF g(2-4), of ?st "pg_mem st" ts te] g(5,7-9) by simp
    moreover have "(unat (ram_pages st) + 1023) div 1024 \<le> free_pages p'" using free_pages_take[OF g(5-8)] assms(3) by simp
    ultimately obtain st1 pt' where l: "paging_loop ts te (ram_pages st) ?st pd NULL 0 = Some st1" "mapped_to ts te st1 pd pt' (unat (ram_pages st))" "base_page_dir st1 = pd"
      using paging_loop_ok[OF refl _ assms(2), of 0 ts te ?st pd NULL] by auto
    let ?st' = "st1\<lparr>cr3 := take_bit 30 pd, tlb := (\<lambda>_. None)\<rparr>"
    have r: "paging_init ts te st = Some ?st'" using g(1) l(1,3) vtop_kernel[OF g(4)] by (simp add: paging_init_def)
    have m: "dirs_ok 1024 st1 {pd}" "\<forall>i<1024. tab (pg_mem st1) pd i \<noteq> 0 \<longrightarrow> 768 \<le> i" "\<forall>q<unat (ram_pages st). kernel_entry ts te q (pte_of (pg_mem st1) pd (kva q))"
      using l(2) unfolding mapped_to_def by blast+
    have u: "pte_of (pg_mem st1) pd va = 0" if "is_user_vaddr va" for va
    proof -
      have "unat (pd_no va) < 768" using that user_pd_no by blast
      then have "tab (pg_mem st1) pd (unat (pd_no va)) = 0" using m(2) pd_no_lt[of va] by (meson not_le)
      then show ?thesis by (simp add: pte_of_def)
    qed
    have "dirs_ok 1024 ?st' {pd}" using m(1) by (simp add: dirs_ok_def)
    then show ?thesis using r l(3) vtop_kernel[OF g(4)] m(3) u by (intro exI[of _ ?st']) (simp add: tlb_ok_def)
  qed (use nf in simp_all)
qed

subsection \<open>Instances\<close>

text \<open>A process with one page: its directory at \<open>0xc0101000\<close> has a table at \<open>0xc0102000\<close>, which maps address \<open>0x8048000\<close> to the frame at \<open>0xc0104000\<close>.\<close>

definition example_frames :: palloc where
  "example_frames = \<lparr>kernel_pool = \<lparr>used_map = \<lparr>bit_cnt = 4, bits = [7]\<rparr>, base = 0xc0100000\<rparr>,
     user_pool = \<lparr>used_map = \<lparr>bit_cnt = 4, bits = [3]\<rparr>, base = 0xc0104000\<rparr>\<rparr>"

definition example_tables :: mem where
  "example_tables = write_bytes (write_bytes (\<lambda>_. 0) (entry_at 0xc0101000 32) (bytes_of_word 0x00102007)) (entry_at 0xc0102000 72) (bytes_of_word 0x00104007)"

definition example_paging :: paging where
  "example_paging = \<lparr>pg_pal = example_frames, pg_mem = example_tables, base_page_dir = 0xc0100000, ram_pages = 1024, cr3 = 0x100000, tlb = (\<lambda>_. None)\<rparr>"

abbreviation example_dirs :: "ptr set" where "example_dirs \<equiv> {0xc0100000, 0xc0101000}"

lemma example_frames_facts: "palloc_wf example_frames" "pool_pages (kernel_pool example_frames) = {786688..<786692}"
  "pool_pages (user_pool example_frames) = {786692..<786696}" "palloc_used example_frames = {786688, 786689, 786690, 786692, 786693}"
proof -
  show "palloc_wf example_frames"
    by (simp add: example_frames_def palloc_wf_def pool_wf_def bitmap_wf_def elem_cnt_def DIV_ROUND_UP_def pg_ofs_def PGMASK_def BITMASK_def
        is_kernel_vaddr_def pool_pages_def pg_no_div)
  show "pool_pages (kernel_pool example_frames) = {786688..<786692}" "pool_pages (user_pool example_frames) = {786692..<786696}"
    by (simp_all add: example_frames_def pool_pages_def pg_no_div)
  have b: "bitmap_abs \<lparr>bit_cnt = 4, bits = [7]\<rparr> = [True, True, True, False]" "bitmap_abs \<lparr>bit_cnt = 4, bits = [3]\<rparr> = [True, True, False, False]" by code_simp+
  have four: "i < 4 \<longleftrightarrow> i = 0 \<or> i = 1 \<or> i = 2 \<or> i = (3 :: nat)" for i by auto
  have l: "{c + i |i. i < 4 \<and> [True, True, True, False] ! i} = {c, c + 1, c + 2}" "{c + i |i. i < 4 \<and> [True, True, False, False] ! i} = {c, c + 1}" for c :: nat
    unfolding four by auto
  show "palloc_used example_frames = {786688, 786689, 786690, 786692, 786693}"
    unfolding palloc_used_def pool_used_def by (simp add: example_frames_def pg_no_div b l) auto
qed

lemma example_addresses: "is_user_vaddr 0x8049000" "pg_ofs 0x8049000 = 0" "pg_ofs 0xc0105000 = 0" "is_kernel_vaddr 0xc0105000"
  "is_user_vaddr 0x8048000" "pg_ofs 0xc0100000 = 0" "pg_ofs 0xc0101000 = 0" "pg_ofs 0xc0102000 = 0" "pg_ofs 0xc0104000 = 0"
  "unat (pd_no 0x8048000) = 32" "unat (pt_no 0x8048000) = 72" "unat (pd_no 0x8049000) = 32" "unat (pt_no 0x8049000) = 73"
  by (simp_all add: is_user_vaddr_def is_kernel_vaddr_def pg_ofs_def PGMASK_def BITMASK_def pd_no_def pt_no_def PTMASK_def)

lemma tab_empty: "tab (\<lambda>_. 0) p i = 0"
  by (simp add: tab_def read_bytes_def word_of_bytes_def upt_conv_Cons)

lemma example_tab: "pg_ofs p = 0 \<Longrightarrow> i < 1024 \<Longrightarrow> tab example_tables p i =
   (if p = 0xc0102000 \<and> i = 72 then 0x00104007 else if p = 0xc0101000 \<and> i = 32 then 0x00102007 else 0)"
  using tab_store[OF example_addresses(8), of p 72 i] tab_store[OF example_addresses(7), of p 32 i]
  by (auto simp: example_tables_def tab_empty)

lemma example_table_addr: "table_addr 0x00102007 = 0xc0102000" "table_addr 0x00104007 = 0xc0104000"
  by (simp_all add: table_addr_def)

lemma example_pte: "pd \<in> example_dirs \<Longrightarrow> pte_of example_tables pd va = (if pd = 0xc0101000 \<and> pg_no va = pg_no 0x8048000 then 0x00104007 else 0)"
  using example_tab[of pd "unat (pd_no va)"] pd_no_lt[of va] example_tab[OF example_addresses(8) pt_no_lt, of va] example_addresses(6,7,10,11)
  by (auto simp: pte_of_def Let_def same_page_iff example_table_addr)

lemma example_map: "pd \<in> example_dirs \<Longrightarrow> page_map example_paging pd va = (if pd = 0xc0101000 \<and> pg_no va = pg_no 0x8048000 then Some (0xc0104000, True) else None)"
  by (simp add: page_map_def example_paging_def example_pte example_table_addr)

lemma example_spaces: "spaces_ok example_paging example_dirs" "tlb_ok example_paging example_dirs" "frames_ok example_paging example_dirs"
proof -
  have t: "tab example_tables 0xc0100000 i = 0" "tab example_tables 0xc0101000 i = (if i = 32 then 0x00102007 else 0)" if "i < 768" for i
    using that example_tab[of _ i] example_addresses(6,7) by simp_all
  have "p \<in> {0xc0100000, 0xc0101000, 0xc0102000}" if "p \<in> dir_pages 768 example_tables example_dirs" for p
    using that t by (auto simp: dir_pages_def example_table_addr)
  moreover have "table_page example_frames p" if "p \<in> {0xc0100000, 0xc0101000, 0xc0102000}" for p
    using that example_addresses(6-8) by (auto simp: table_page_def example_frames_facts pg_no_div is_kernel_vaddr_def)
  ultimately have "dirs_ok 768 example_paging example_dirs"
    by (simp add: dirs_ok_def example_paging_def example_frames_facts(1) t example_table_addr)
  then show "spaces_ok example_paging example_dirs" unfolding spaces_ok_def by (simp add: example_pte example_paging_def)
  have pp: "pg_pal example_paging = example_frames" by (simp add: example_paging_def)
  show "frames_ok example_paging example_dirs"
    unfolding frames_ok_def using example_frames_facts(3,4) by (auto simp: example_map pg_no_div pp split: if_splits)
  show "tlb_ok example_paging example_dirs" by (simp add: tlb_ok_def example_paging_def vtop_def is_kernel_vaddr_def)
qed

theorem pagedir_refines_map_witness:
  "spaces_ok example_paging example_dirs \<and> pagedir_get_page example_paging 0xc0101000 0x8048123 = Some 0xc0104123 \<and>
   (\<exists>st' pte. pagedir_set_page example_paging 0xc0101000 0x8049000 0xc0105000 True = Some (st', pte, True) \<and>
      spaces_ok st' example_dirs \<and> page_map st' 0xc0101000 0x8049000 = Some (0xc0105000, True))"
proof -
  let ?st = example_paging and ?pd = "0xc0101000 :: ptr"
  have pd: "?pd \<in> example_dirs" by simp
  note t = pagedir_refines_map[OF example_spaces(1,2) pd example_addresses(1,2), of "0xc0105000" True]
  have "page_map ?st ?pd 0x8049000 = None" using example_map[OF pd, of "0x8049000"] by (simp add: pg_no_def)
  moreover have "?pd \<noteq> base_page_dir ?st" "drop_bit 12 (0xc0105000 - PHYS_BASE) < ram_pages ?st" by (simp_all add: example_paging_def)
  ultimately obtain st' pte ok where s: "pagedir_set_page ?st ?pd 0x8049000 0xc0105000 True = Some (st', pte, ok)" "spaces_ok st' example_dirs"
    "if ok then \<forall>pd'\<in>example_dirs. \<forall>va. is_user_vaddr va \<longrightarrow>
       page_map st' pd' va = (if pd' = ?pd \<and> pg_no va = pg_no 0x8049000 then Some (0xc0105000, True) else page_map ?st pd' va)
     else pool_pages (kernel_pool (pg_pal ?st)) \<subseteq> palloc_used (pg_pal ?st) \<and>
       (\<forall>pd'\<in>example_dirs. \<forall>va. is_user_vaddr va \<longrightarrow> page_map st' pd' va = page_map ?st pd' va)"
    using t example_addresses(3,4) by blast
  have "786691 \<in> pool_pages (kernel_pool example_frames)" "786691 \<notin> palloc_used example_frames" by (simp_all add: example_frames_facts)
  then have "\<not> pool_pages (kernel_pool (pg_pal ?st)) \<subseteq> palloc_used (pg_pal ?st)" by (auto simp: example_paging_def)
  then have ok by (rule contrapos_np) (use s(3) in simp)
  moreover have "is_user_vaddr 0x8048123" by (simp add: is_user_vaddr_def)
  then have "pagedir_get_page ?st ?pd 0x8048123 = Some (0xc0104000 + pg_ofs 0x8048123)"
    using t example_map[OF pd, of "0x8048123"] by (simp add: pg_no_def)
  ultimately show ?thesis using s example_addresses(1) example_spaces(1) by (auto simp: pg_ofs_def PGMASK_def BITMASK_def)
qed

theorem pagedir_flags_correct_witness:
  "page_map example_paging 0xc0101000 0x8048000 \<noteq> None \<and>
   (\<exists>st'. pagedir_set_dirty example_paging 0xc0101000 0x8048000 True = Some st' \<and> pagedir_is_dirty st' 0xc0101000 0x8048000 = Some True)"
proof -
  have pd: "(0xc0101000 :: ptr) \<in> example_dirs" by simp
  have m: "page_map example_paging 0xc0101000 0x8048000 \<noteq> None" using example_map[OF pd] by simp
  show ?thesis using m pagedir_flags_correct[OF example_spaces(1,2) pd example_addresses(5) m, of True] example_addresses(5) by auto
qed

theorem pagedir_destroy_correct_witness:
  "frames_ok example_paging example_dirs \<and> (\<exists>st'. pagedir_destroy example_paging 0xc0101000 = Some st' \<and> palloc_used (pg_pal st') = {786688, 786693})"
proof -
  have pd: "(0xc0101000 :: ptr) \<in> example_dirs" "(0xc0101000 :: ptr) \<noteq> base_page_dir example_paging" by (simp_all add: example_paging_def)
  have t: "tab example_tables 0xc0101000 i = (if i = 32 then 0x00102007 else 0)" if "i < 768" for i
    using that example_tab[of _ i] example_addresses(7) by simp
  have f: "frames_of example_tables 0xc0102000 0 = {0xc0104000}"
    unfolding frames_of_def using example_tab[OF example_addresses(8)] by (auto simp: example_table_addr intro!: exI[of _ 72] split: if_splits)
  have s: "{i. i < 768 \<and> tab example_tables 0xc0101000 i \<noteq> 0} = {32}" using t by (auto split: if_splits)
  have "owned example_tables 0xc0101000 0 = {0xc0102000, 0xc0104000}" by (simp add: owned_def s t example_table_addr table_own_def f)
  then show ?thesis
    using pagedir_destroy_correct[OF example_spaces(1,3) pd] example_spaces(3) by (auto simp: example_paging_def example_frames_facts pg_no_div)
qed

theorem paging_init_correct_witness:
  "(unat (1024 :: 32 word) + 1023) div 1024 < free_pages example_pools \<and>
   (\<exists>st'. paging_init 0xc0010000 0xc0020000 (example_paging\<lparr>pg_pal := example_pools\<rparr>) = Some st' \<and>
      pte_of (pg_mem st') (base_page_dir st') (kva 300) AND PTE_P \<noteq> 0 \<and> pte_of (pg_mem st') (base_page_dir st') (kva 300) AND PTE_W \<noteq> 0)"
proof -
  have b: "bitmap_abs \<lparr>bit_cnt = 4, bits = [1]\<rparr> = [True, False, False, False]" by code_simp
  have four: "i < 4 \<longleftrightarrow> i = 0 \<or> i = 1 \<or> i = 2 \<or> i = (3 :: nat)" for i by auto
  have "786689 \<notin> palloc_used example_pools" "786690 \<notin> palloc_used example_pools" "786691 \<notin> palloc_used example_pools"
    by (auto simp: palloc_used_def pool_used_def example_pools_def pg_no_div b four)
  moreover have "pool_pages (kernel_pool example_pools) = {786688..<786692}" by (simp add: example_pools_def pool_pages_def pg_no_div)
  ultimately have "{786689, 786690, 786691} \<subseteq> pool_pages (kernel_pool example_pools) - palloc_used example_pools" by auto
  then have "card {786689 :: nat, 786690, 786691} \<le> free_pages example_pools" unfolding free_pages_def by (rule card_mono[rotated]) (simp add: pool_pages_def)
  then have fr: "(unat (1024 :: 32 word) + 1023) div 1024 < free_pages example_pools" by simp
  have k: "\<not> (0xc0010000 \<le> kva 300 \<and> kva 300 < 0xc0020000)" by (simp add: kva_def)
  show ?thesis
    using paging_init_correct[of "example_paging\<lparr>pg_pal := example_pools\<rparr>" "0xc0010000" "0xc0020000"] fr example_pools_wf k
    by (auto simp: example_paging_def kernel_entry_def)
qed

end
