(* ===== verification/Ata.thy ===== *)
theory Ata
  imports Disk
begin

text \<open>
  The ATA driver: the transfers of \<open>src/devices/disk.c\<close> at the level of the ports of a channel. The machine's ports are
  a parameter, \<open>'h io_ports\<close>, over a state of the hardware that is left open: reading and writing a port (\<open>src/threads/io.h\<close>), letting
  time pass (\<open>timer_usleep\<close> and its relatives) and the arrival of the next interrupt. A channel has its base port, the flag
  \<open>expecting_interrupt\<close>, the value of its semaphore and whether its lock is held. An interrupt is taken when the
  code waits for the semaphore. Messages to the console are left out.

  What the driver relies on is what the ATA-3 standard says of a channel with one command at a time; it is stated as the
  hypothesis \<open>ata_conforms\<close>, by a view of the hardware as registers, a phase of the protocol and the contents
  of the two devices. The theorem is that the driver implements the service of the theory \<open>Disk\<close>.
\<close>

section \<open>The code\<close>

record 'h io_ports =
  io_inb :: "16 word \<Rightarrow> 'h \<Rightarrow> uint8 \<times> 'h"
  io_outb :: "16 word \<Rightarrow> uint8 \<Rightarrow> 'h \<Rightarrow> 'h"
  io_inw :: "16 word \<Rightarrow> 'h \<Rightarrow> 16 word \<times> 'h"
  io_outw :: "16 word \<Rightarrow> 16 word \<Rightarrow> 'h \<Rightarrow> 'h"
  io_sleep :: "nat \<Rightarrow> 'h \<Rightarrow> 'h"
  io_irq :: "'h \<Rightarrow> 'h option"

text \<open>\<open>struct disk\<close> without its name and \<open>is_ata\<close>, which the transfers do not read; the contents are in the hardware.\<close>

record ata_disk =
  ad_dev_no :: int
  ad_capacity :: disk_sector_t
  ad_read_cnt :: "64 word"
  ad_write_cnt :: "64 word"

record channel =
  reg_base :: "16 word"
  ch_lock :: bool
  expecting_interrupt :: bool
  completion_wait :: nat

abbreviation (input) reg_data :: "channel \<Rightarrow> 16 word" where "reg_data c \<equiv> reg_base c + 0"
abbreviation (input) reg_nsect :: "channel \<Rightarrow> 16 word" where "reg_nsect c \<equiv> reg_base c + 2"
abbreviation (input) reg_lbal :: "channel \<Rightarrow> 16 word" where "reg_lbal c \<equiv> reg_base c + 3"
abbreviation (input) reg_lbam :: "channel \<Rightarrow> 16 word" where "reg_lbam c \<equiv> reg_base c + 4"
abbreviation (input) reg_lbah :: "channel \<Rightarrow> 16 word" where "reg_lbah c \<equiv> reg_base c + 5"
abbreviation (input) reg_device :: "channel \<Rightarrow> 16 word" where "reg_device c \<equiv> reg_base c + 6"
abbreviation (input) reg_status :: "channel \<Rightarrow> 16 word" where "reg_status c \<equiv> reg_base c + 7"
abbreviation (input) reg_command :: "channel \<Rightarrow> 16 word" where "reg_command c \<equiv> reg_base c + 7"
abbreviation (input) reg_alt_status :: "channel \<Rightarrow> 16 word" where "reg_alt_status c \<equiv> reg_base c + 0x206"

abbreviation (input) STA_BSY :: uint8 where "STA_BSY \<equiv> 0x80"
abbreviation (input) STA_DRQ :: uint8 where "STA_DRQ \<equiv> 0x08"
abbreviation (input) DEV_MBS :: "32 word" where "DEV_MBS \<equiv> 0xa0"
abbreviation (input) DEV_LBA :: "32 word" where "DEV_LBA \<equiv> 0x40"
abbreviation (input) DEV_DEV :: "32 word" where "DEV_DEV \<equiv> 0x10"
abbreviation (input) CMD_READ_SECTOR_RETRY :: uint8 where "CMD_READ_SECTOR_RETRY \<equiv> 0x20"
abbreviation (input) CMD_WRITE_SECTOR_RETRY :: uint8 where "CMD_WRITE_SECTOR_RETRY \<equiv> 0x30"

text \<open>The loop of an \<open>insw\<close> or \<open>outsw\<close> instruction: 16-bit units, the low byte at the lower address.\<close>

fun insw :: "'h io_ports \<Rightarrow> 16 word \<Rightarrow> mem \<Rightarrow> ptr \<Rightarrow> nat \<Rightarrow> 'h \<Rightarrow> mem \<times> 'h" where
  "insw P port m addr 0 h = (m, h)"
| "insw P port m addr (Suc cnt) h =
     (let (w, h) = io_inw P port h
      in insw P port (m(addr := ucast w, addr + 1 := ucast (drop_bit 8 w))) (addr + 2) cnt h)"

fun outsw :: "'h io_ports \<Rightarrow> 16 word \<Rightarrow> mem \<Rightarrow> ptr \<Rightarrow> nat \<Rightarrow> 'h \<Rightarrow> 'h" where
  "outsw P port m addr 0 h = h"
| "outsw P port m addr (Suc cnt) h =
     outsw P port m (addr + 2) cnt (io_outw P port (push_bit 8 (ucast (m (addr + 1))) OR ucast (m addr)) h)"

definition input_sector :: "'h io_ports \<Rightarrow> channel \<Rightarrow> mem \<Rightarrow> ptr \<Rightarrow> 'h \<Rightarrow> mem \<times> 'h" where
  "input_sector P c m sec h = insw P (reg_data c) m sec (512 div 2) h"

definition output_sector :: "'h io_ports \<Rightarrow> channel \<Rightarrow> mem \<Rightarrow> ptr \<Rightarrow> 'h \<Rightarrow> 'h" where
  "output_sector P c m sec h = outsw P (reg_data c) m sec (512 div 2) h"

text \<open>The polling loops count down the polls that are left.\<close>

fun wait_until_idle_loop :: "'h io_ports \<Rightarrow> channel \<Rightarrow> nat \<Rightarrow> 'h \<Rightarrow> 'h" where
  "wait_until_idle_loop P c 0 h = h"
| "wait_until_idle_loop P c (Suc i) h =
     (let (s, h) = io_inb P (reg_status c) h
      in if s AND (STA_BSY OR STA_DRQ) = 0 then h else wait_until_idle_loop P c i (io_sleep P 10000 h))"

definition wait_until_idle :: "'h io_ports \<Rightarrow> channel \<Rightarrow> 'h \<Rightarrow> 'h" where
  "wait_until_idle P c h = wait_until_idle_loop P c 1000 h"

fun wait_while_busy_loop :: "'h io_ports \<Rightarrow> channel \<Rightarrow> nat \<Rightarrow> 'h \<Rightarrow> bool \<times> 'h" where
  "wait_while_busy_loop P c 0 h = (False, h)"
| "wait_while_busy_loop P c (Suc i) h =
     (let (s, h) = io_inb P (reg_alt_status c) h
      in if s AND STA_BSY = 0 then (let (s, h) = io_inb P (reg_alt_status c) h in (s AND STA_DRQ \<noteq> 0, h))
         else wait_while_busy_loop P c i (io_sleep P 10000000 h))"

definition wait_while_busy :: "'h io_ports \<Rightarrow> channel \<Rightarrow> 'h \<Rightarrow> bool \<times> 'h" where
  "wait_while_busy P c h = wait_while_busy_loop P c 3000 h"

definition select_device :: "'h io_ports \<Rightarrow> channel \<Rightarrow> ata_disk \<Rightarrow> 'h \<Rightarrow> 'h" where
  "select_device P c d h =
     (let dev = ucast (if ad_dev_no d = 1 then DEV_MBS OR DEV_DEV else DEV_MBS);
          h = io_outb P (reg_device c) dev h;
          (_, h) = io_inb P (reg_alt_status c) h
      in io_sleep P 400 h)"

definition select_device_wait :: "'h io_ports \<Rightarrow> channel \<Rightarrow> ata_disk \<Rightarrow> 'h \<Rightarrow> 'h" where
  "select_device_wait P c d h = wait_until_idle P c (select_device P c d (wait_until_idle P c h))"

definition select_sector :: "'h io_ports \<Rightarrow> channel \<Rightarrow> ata_disk \<Rightarrow> disk_sector_t \<Rightarrow> 'h \<Rightarrow> 'h option" where
  "select_sector P c d sec_no h = do {
     ASSERT (sec_no < ad_capacity d);
     ASSERT (sec_no < push_bit 28 1);
     let h = select_device_wait P c d h;
     let h = io_outb P (reg_nsect c) 1 h;
     let h = io_outb P (reg_lbal c) (ucast sec_no) h;
     let h = io_outb P (reg_lbam c) (ucast (drop_bit 8 sec_no)) h;
     let h = io_outb P (reg_lbah c) (ucast (drop_bit 16 sec_no)) h;
     Some (io_outb P (reg_device c)
       (ucast (DEV_MBS OR DEV_LBA OR (if ad_dev_no d = 1 then DEV_DEV else 0) OR drop_bit 24 sec_no)) h)
   }"

definition issue_pio_command :: "'h io_ports \<Rightarrow> bool \<Rightarrow> channel \<Rightarrow> uint8 \<Rightarrow> 'h \<Rightarrow> (channel \<times> 'h) option" where
  "issue_pio_command P intr_on c command h = do {
     ASSERT intr_on;
     Some (c\<lparr>expecting_interrupt := True\<rparr>, io_outb P (reg_command c) command h)
   }"

text \<open>The interrupt handler, for an interrupt of this channel.\<close>

definition interrupt_handler :: "'h io_ports \<Rightarrow> channel \<Rightarrow> 'h \<Rightarrow> channel \<times> 'h" where
  "interrupt_handler P c h =
     (if expecting_interrupt c then
        (let (_, h) = io_inb P (reg_status c) h in (c\<lparr>completion_wait := completion_wait c + 1\<rparr>, h))
      else (c, h))"

text \<open>
  \<open>sema_down\<close> on the semaphore of the channel, which only the holder of the lock waits for: while its value is
  zero, the thread sleeps until an interrupt has been handled.
\<close>

partial_function (option) completion_down :: "'h io_ports \<Rightarrow> channel \<Rightarrow> 'h \<Rightarrow> (channel \<times> 'h) option" where
  "completion_down P c h =
     (if completion_wait c > 0 then Some (c\<lparr>completion_wait := completion_wait c - 1\<rparr>, h)
      else do {
        h \<leftarrow> io_irq P h;
        let (c, h) = interrupt_handler P c h;
        completion_down P c h
      })"

declare completion_down.simps [code]

text \<open>The lock of the channel is waited for until it is free; a caller that holds it already would panic.\<close>

definition channel_acquire :: "channel \<Rightarrow> channel option" where
  "channel_acquire c = do { ASSERT (\<not> ch_lock c); Some (c\<lparr>ch_lock := True\<rparr>) }"

definition channel_release :: "channel \<Rightarrow> channel option" where
  "channel_release c = do { ASSERT (ch_lock c); Some (c\<lparr>ch_lock := False\<rparr>) }"

definition disk_read_pio :: "'h io_ports \<Rightarrow> bool \<Rightarrow> channel \<Rightarrow> ata_disk \<Rightarrow> mem \<Rightarrow> disk_sector_t \<Rightarrow> ptr \<Rightarrow> 'h \<Rightarrow> (channel \<times> ata_disk \<times> mem \<times> 'h) option" where
  "disk_read_pio P intr_on c d m sec_no buffer h = do {
     ASSERT (buffer \<noteq> NULL);
     c \<leftarrow> channel_acquire c;
     h \<leftarrow> select_sector P c d sec_no h;
     (c, h) \<leftarrow> issue_pio_command P intr_on c CMD_READ_SECTOR_RETRY h;
     (c, h) \<leftarrow> completion_down P c h;
     let (ok, h) = wait_while_busy P c h;
     ASSERT ok;
     let (m, h) = input_sector P c m buffer h;
     let d = d\<lparr>ad_read_cnt := ad_read_cnt d + 1\<rparr>;
     c \<leftarrow> channel_release c;
     Some (c, d, m, h)
   }"

definition disk_write_pio :: "'h io_ports \<Rightarrow> bool \<Rightarrow> channel \<Rightarrow> ata_disk \<Rightarrow> mem \<Rightarrow> disk_sector_t \<Rightarrow> ptr \<Rightarrow> 'h \<Rightarrow> (channel \<times> ata_disk \<times> 'h) option" where
  "disk_write_pio P intr_on c d m sec_no buffer h = do {
     ASSERT (buffer \<noteq> NULL);
     c \<leftarrow> channel_acquire c;
     h \<leftarrow> select_sector P c d sec_no h;
     (c, h) \<leftarrow> issue_pio_command P intr_on c CMD_WRITE_SECTOR_RETRY h;
     let (ok, h) = wait_while_busy P c h;
     ASSERT ok;
     let h = output_sector P c m buffer h;
     (c, h) \<leftarrow> completion_down P c h;
     let d = d\<lparr>ad_write_cnt := ad_write_cnt d + 1\<rparr>;
     c \<leftarrow> channel_release c;
     Some (c, d, h)
   }"

section \<open>What the ATA standard promises\<close>

text \<open>
  A view of the hardware of a channel: the registers of the command block, the phase of the protocol, and the sectors of the
  two devices. \<open>Fetching\<close> and \<open>Storing\<close> end with an interrupt; \<open>Accepting k\<close> is busy with a write
  command for \<open>k + 1\<close> more polls; in \<open>DataIn\<close> and \<open>DataOut\<close> the bytes still to be read, or written so far, are listed.
\<close>

record ata_regs =
  nsect :: uint8
  lbal :: uint8
  lbam :: uint8
  lbah :: uint8
  device :: uint8

datatype phase = Ready | Fetching | DataIn "uint8 list" | Accepting nat | DataOut "uint8 list" | Storing "uint8 list"

record ata_view =
  regs :: ata_regs
  phase :: phase
  store :: "bool \<Rightarrow> disk_sector_t \<Rightarrow> uint8 list"

text \<open>The device selected, and the sector addressed in LBA mode: the low four bits of the device register and the three address registers.\<close>

definition unit_of :: "ata_regs \<Rightarrow> bool" where
  "unit_of r = bit (device r) 4"

definition lba_of :: "ata_regs \<Rightarrow> disk_sector_t" where
  "lba_of r = push_bit 24 (ucast (take_bit 4 (device r))) OR push_bit 16 (ucast (lbah r)) OR push_bit 8 (ucast (lbam r)) OR ucast (lbal r)"

text \<open>A command addresses one sector of a device, in LBA mode.\<close>

definition addressed :: "ata_view \<Rightarrow> bool" where
  "addressed v \<longleftrightarrow> phase v = Ready \<and> nsect (regs v) = 1 \<and> bit (device (regs v)) 6"

text \<open>The registers of an idle channel can be written, and time changes nothing.\<close>

definition obeys_registers :: "'h io_ports \<Rightarrow> ('h \<Rightarrow> ata_view) \<Rightarrow> 16 word \<Rightarrow> bool" where
  "obeys_registers P view b \<longleftrightarrow> (\<forall>h v n. phase (view h) = Ready \<longrightarrow>
     view (io_outb P (b + 2) v h) = (view h)\<lparr>regs := (regs (view h))\<lparr>nsect := v\<rparr>\<rparr> \<and>
     view (io_outb P (b + 3) v h) = (view h)\<lparr>regs := (regs (view h))\<lparr>lbal := v\<rparr>\<rparr> \<and>
     view (io_outb P (b + 4) v h) = (view h)\<lparr>regs := (regs (view h))\<lparr>lbam := v\<rparr>\<rparr> \<and>
     view (io_outb P (b + 5) v h) = (view h)\<lparr>regs := (regs (view h))\<lparr>lbah := v\<rparr>\<rparr> \<and>
     view (io_outb P (b + 6) v h) = (view h)\<lparr>regs := (regs (view h))\<lparr>device := v\<rparr>\<rparr> \<and>
     view (io_sleep P n h) = view h)"

text \<open>The status, and the alternate status: the bits \<open>BSY\<close> and \<open>DRQ\<close> follow the phase, and reading them changes no phase.\<close>

definition obeys_status :: "'h io_ports \<Rightarrow> ('h \<Rightarrow> ata_view) \<Rightarrow> 16 word \<Rightarrow> bool" where
  "obeys_status P view b \<longleftrightarrow> (\<forall>h p s h'. p = b + 7 \<or> p = b + 0x206 \<longrightarrow> io_inb P p h = (s, h') \<longrightarrow>
     view h' = view h \<and>
     (case phase (view h) of
        Ready \<Rightarrow> s AND STA_BSY = 0 \<and> s AND STA_DRQ = 0
      | DataIn _ \<Rightarrow> s AND STA_BSY = 0 \<and> s AND STA_DRQ \<noteq> 0
      | DataOut _ \<Rightarrow> s AND STA_BSY = 0 \<and> s AND STA_DRQ \<noteq> 0
      | _ \<Rightarrow> s AND STA_BSY \<noteq> 0))"

text \<open>\<open>READ SECTOR\<close>: after an interrupt, the sector can be read as 256 units.\<close>

definition obeys_read :: "'h io_ports \<Rightarrow> ('h \<Rightarrow> ata_view) \<Rightarrow> 16 word \<Rightarrow> bool" where
  "obeys_read P view b \<longleftrightarrow> (\<forall>h.
     (addressed (view h) \<longrightarrow> view (io_outb P (b + 7) CMD_READ_SECTOR_RETRY h) = (view h)\<lparr>phase := Fetching\<rparr>) \<and>
     (phase (view h) = Fetching \<longrightarrow> (\<exists>h'. io_irq P h = Some h' \<and>
        view h' = (view h)\<lparr>phase := DataIn (store (view h) (unit_of (regs (view h))) (lba_of (regs (view h))))\<rparr>)) \<and>
     (\<forall>x y bs. phase (view h) = DataIn (x # y # bs) \<longrightarrow> (\<exists>h'. io_inw P b h = (push_bit 8 (ucast y) OR ucast x, h') \<and>
        view h' = (view h)\<lparr>phase := (if bs = [] then Ready else DataIn bs)\<rparr>)))"

text \<open>
  \<open>WRITE SECTOR\<close>: the device is ready for the data within 30 seconds; after 256 units it stores the sector and
  raises an interrupt.
\<close>

definition obeys_write :: "'h io_ports \<Rightarrow> ('h \<Rightarrow> ata_view) \<Rightarrow> 16 word \<Rightarrow> bool" where
  "obeys_write P view b \<longleftrightarrow> (\<forall>h.
     (addressed (view h) \<longrightarrow> (\<exists>ph. view (io_outb P (b + 7) CMD_WRITE_SECTOR_RETRY h) = (view h)\<lparr>phase := ph\<rparr> \<and>
        (ph = DataOut [] \<or> (\<exists>k<2999. ph = Accepting k)))) \<and>
     (\<forall>k. phase (view h) = Accepting k \<longrightarrow>
        view (io_sleep P 10000000 h) = (view h)\<lparr>phase := (case k of 0 \<Rightarrow> DataOut [] | Suc j \<Rightarrow> Accepting j)\<rparr>) \<and>
     (\<forall>bs w. phase (view h) = DataOut bs \<longrightarrow> (let bs' = bs @ [ucast w, ucast (drop_bit 8 w)] in
        view (io_outw P b w h) = (view h)\<lparr>phase := (if length bs' < 512 then DataOut bs' else Storing bs')\<rparr>)) \<and>
     (\<forall>bs. phase (view h) = Storing bs \<longrightarrow> (\<exists>h'. io_irq P h = Some h' \<and>
        (let u = unit_of (regs (view h)); s = lba_of (regs (view h))
         in view h' = (view h)\<lparr>phase := Ready, store := (store (view h))(u := (store (view h) u)(s := bs))\<rparr>))))"

definition ata_conforms :: "'h io_ports \<Rightarrow> ('h \<Rightarrow> ata_view) \<Rightarrow> 16 word \<Rightarrow> bool" where
  "ata_conforms P view b \<longleftrightarrow> obeys_registers P view b \<and> obeys_status P view b \<and> obeys_read P view b \<and> obeys_write P view b"

text \<open>
  The hardware and the driver's data represent a disk: the channel is idle and free, the device holds its sectors, and
  the structure has its numbers.
\<close>

definition represents :: "('h \<Rightarrow> ata_view) \<Rightarrow> channel \<Rightarrow> ata_disk \<Rightarrow> 'h \<Rightarrow> disk \<Rightarrow> bool" where
  "represents view c a h d \<longleftrightarrow> phase (view h) = Ready \<and> \<not> ch_lock c \<and> completion_wait c = 0 \<and> disk_ok d \<and>
     store (view h) (dev_no d = 1) = sectors d \<and> ad_dev_no a = dev_no d \<and> ad_capacity a = capacity d \<and>
     ad_read_cnt a = read_cnt d \<and> ad_write_cnt a = write_cnt d"

section \<open>Addresses and units of data\<close>

lemma bit_dev_flags:
  "k < 4 \<Longrightarrow> bit (DEV_MBS OR DEV_LBA OR (if c then DEV_DEV else 0) OR x) k \<longleftrightarrow> bit x k"
proof -
  assume k: "k < 4"
  then have "k = 0 \<or> k = 1 \<or> k = 2 \<or> k = 3" by auto
  then show ?thesis by (auto simp: bit_or_iff)
qed

lemma high_bits: "(w :: 32 word) < push_bit 28 1 \<Longrightarrow> 28 \<le> k \<Longrightarrow> \<not> bit w k"
proof -
  assume w: "w < push_bit 28 1" and k: "28 \<le> k"
  have "unat w < 2 ^ 28" using w by (simp add: word_less_nat_alt)
  then have "take_bit 28 w = w" by (simp add: word_unat_eq_iff take_bit_eq_mod unat_mod)
  then have "bit w k \<longleftrightarrow> k < 28 \<and> bit w k" by (metis bit_take_bit_iff)
  with k show ?thesis by simp
qed

text \<open>The values \<open>select_sector\<close> writes address the sector, in LBA mode, on the device.\<close>

definition sector_regs :: "bool \<Rightarrow> disk_sector_t \<Rightarrow> ata_regs" where
  "sector_regs u sec_no = \<lparr>nsect = 1, lbal = ucast sec_no, lbam = ucast (drop_bit 8 sec_no), lbah = ucast (drop_bit 16 sec_no),
     device = ucast (DEV_MBS OR DEV_LBA OR (if u then DEV_DEV else 0) OR drop_bit 24 sec_no)\<rparr>"

lemma lba_of_sector_regs:
  assumes "sec_no < push_bit 28 1"
  shows "lba_of (sector_regs u sec_no) = sec_no"
proof -
  define dv where "dv = (DEV_MBS OR DEV_LBA OR (if u then DEV_DEV else 0) OR drop_bit 24 sec_no)"
  have r: "sector_regs u sec_no = \<lparr>nsect = 1, lbal = ucast sec_no, lbam = ucast (drop_bit 8 sec_no),
      lbah = ucast (drop_bit 16 sec_no), device = ucast dv\<rparr>" by (simp only: sector_regs_def dv_def)
  have dv: "bit dv j \<longleftrightarrow> bit sec_no (24 + j)" if "j < 4" for j
    unfolding dv_def bit_dev_flags[OF that] by (simp add: bit_drop_bit_eq)
  note hi = high_bits[OF assms]
  show ?thesis
  proof (rule bit_word_eqI)
    fix k assume k: "k < LENGTH(32)"
    consider "k < 8" | "8 \<le> k" "k < 16" | "16 \<le> k" "k < 24" | "24 \<le> k" "k < 28" | "28 \<le> k" by linarith
    then show "bit (lba_of (sector_regs u sec_no)) k = bit sec_no k"
    proof cases
      case 4
      then have "k - 24 < 4" "24 + (k - 24) = k" by auto
      with 4 k show ?thesis
        unfolding r lba_of_def by (simp add: bit_or_iff bit_push_bit_iff bit_ucast_iff bit_take_bit_iff dv bit_drop_bit_eq) auto
    next
      case 5
      then have "\<not> k - 24 < 4" by simp
      with 5 k hi show ?thesis
        unfolding r lba_of_def by (simp add: bit_or_iff bit_push_bit_iff bit_ucast_iff bit_take_bit_iff bit_drop_bit_eq)
    qed (use k in \<open>auto simp: r lba_of_def bit_or_iff bit_push_bit_iff bit_ucast_iff bit_take_bit_iff bit_drop_bit_eq\<close>)
  qed
qed

lemma sector_regs_flags:
  assumes "sec_no < push_bit 28 1"
  shows "unit_of (sector_regs u sec_no) = u" and "bit (device (sector_regs u sec_no)) 6" and "nsect (sector_regs u sec_no) = 1"
proof -
  have "\<not> bit sec_no 28" "\<not> bit sec_no 30" using high_bits[OF assms] by simp_all
  then show "unit_of (sector_regs u sec_no) = u" "bit (device (sector_regs u sec_no)) 6" "nsect (sector_regs u sec_no) = 1"
    by (cases u; simp add: unit_of_def sector_regs_def bit_ucast_iff bit_or_iff bit_drop_bit_eq)+
qed

lemma unit_halves:
  fixes x y :: uint8
  shows "ucast (push_bit 8 (ucast y) OR ucast x :: 16 word) = x" and "ucast (drop_bit 8 (push_bit 8 (ucast y) OR ucast x :: 16 word)) = y"
proof -
  show "ucast (push_bit 8 (ucast y) OR ucast x :: 16 word) = x"
    by (rule bit_word_eqI) (simp add: bit_ucast_iff bit_or_iff bit_push_bit_iff)
  show "ucast (drop_bit 8 (push_bit 8 (ucast y) OR ucast x :: 16 word)) = y"
    using bit_imp_le_length[of x "8 + n" for n]
    by (intro bit_word_eqI) (auto simp: bit_ucast_iff bit_or_iff bit_push_bit_iff bit_drop_bit_eq)
qed

section \<open>The driver on a conforming channel\<close>

lemma insw_eval:
  assumes "obeys_read P view b" and "phase (view h) = DataIn bs" and "length bs = 2 * n" and "n \<noteq> 0"
  shows "\<exists>h'. insw P b m addr n h = (write_bytes m addr bs, h') \<and> view h' = (view h)\<lparr>phase := Ready\<rparr>"
  using assms(2-4)
proof (induction n arbitrary: h bs m addr)
  case (Suc n)
  then obtain x y bs' where bs: "bs = x # y # bs'" "length bs' = 2 * n"
    by (cases bs; cases "tl bs") auto
  let ?m = "m(addr := x, addr + 1 := y)"
  from assms(1) Suc.prems(1) bs(1) obtain h1 where h1: "io_inw P b h = (push_bit 8 (ucast y) OR ucast x, h1)"
    "view h1 = (view h)\<lparr>phase := (if bs' = [] then Ready else DataIn bs')\<rparr>"
    unfolding obeys_read_def by blast
  have st: "insw P b m addr (Suc n) h = insw P b ?m (addr + 2) n h1" by (simp only: insw.simps h1(1) Let_def prod.case unit_halves)
  have m: "write_bytes m addr bs = write_bytes ?m (addr + 2) bs'" by (simp add: bs(1) add.assoc)
  show ?case
  proof (cases "n = 0")
    case True
    then have "insw P b m addr (Suc n) h = (write_bytes m addr bs, h1)" "bs' = []" unfolding st m using bs(2) by simp_all
    then show ?thesis using h1(2) by (intro exI[of _ h1]) simp
  next
    case False
    then have ph: "phase (view h1) = DataIn bs'" using h1(2) bs(2) by auto
    obtain h' where "insw P b ?m (addr + 2) n h1 = (write_bytes ?m (addr + 2) bs', h')" "view h' = (view h1)\<lparr>phase := Ready\<rparr>"
      using Suc.IH[OF ph bs(2) False, of ?m "addr + 2"] by blast
    then show ?thesis unfolding st m using h1(2) by (intro exI[of _ h']) simp
  qed
qed simp

lemma obeys_writeD:
  assumes "obeys_write P view b"
  shows "addressed (view h) \<Longrightarrow> \<exists>ph. view (io_outb P (b + 7) CMD_WRITE_SECTOR_RETRY h) = (view h)\<lparr>phase := ph\<rparr> \<and>
      (ph = DataOut [] \<or> (\<exists>k<2999. ph = Accepting k))"
    and "phase (view h) = Accepting k \<Longrightarrow> view (io_sleep P 10000000 h) = (view h)\<lparr>phase := (case k of 0 \<Rightarrow> DataOut [] | Suc j \<Rightarrow> Accepting j)\<rparr>"
    and "phase (view h) = DataOut bs \<Longrightarrow> view (io_outw P b w h) = (view h)\<lparr>phase :=
      (if length bs + 2 < 512 then DataOut (bs @ [ucast w, ucast (drop_bit 8 w)]) else Storing (bs @ [ucast w, ucast (drop_bit 8 w)]))\<rparr>"
    and "phase (view h) = Storing bs \<Longrightarrow> \<exists>h'. io_irq P h = Some h' \<and> view h' = (view h)\<lparr>phase := Ready,
      store := (store (view h))(unit_of (regs (view h)) := (store (view h) (unit_of (regs (view h))))(lba_of (regs (view h)) := bs))\<rparr>"
  using assms by (simp_all add: obeys_write_def Let_def)

lemma read_bytes_2: "read_bytes m p (Suc (Suc n)) = m p # m (p + 1) # read_bytes m (p + 2) n"
  by (simp add: read_bytes_Suc add.assoc)

lemma outsw_eval:
  assumes "obeys_write P view b" and "phase (view h) = DataOut bs" and "length bs + 2 * n = 512" and "n \<noteq> 0"
  shows "view (outsw P b m addr n h) = (view h)\<lparr>phase := Storing (bs @ read_bytes m addr (2 * n))\<rparr>"
  using assms(2-4)
proof (induction n arbitrary: h bs addr)
  case (Suc n)
  let ?w = "push_bit 8 (ucast (m (addr + 1))) OR ucast (m addr) :: 16 word" and ?bs = "bs @ [m addr, m (addr + 1)]"
  have v: "view (io_outw P b ?w h) = (view h)\<lparr>phase := (if length bs + 2 < 512 then DataOut ?bs else Storing ?bs)\<rparr>"
    using obeys_writeD(3)[OF assms(1) Suc.prems(1), of ?w] unfolding unit_halves .
  have r: "bs @ read_bytes m addr (2 * Suc n) = ?bs @ read_bytes m (addr + 2) (2 * n)" by (simp add: read_bytes_2)
  show ?case
  proof (cases "n = 0")
    case True
    then show ?thesis using v Suc.prems(2) unfolding r by simp
  next
    case False
    then have ph: "phase (view (io_outw P b ?w h)) = DataOut ?bs" using v Suc.prems(2) by simp
    show ?thesis using Suc.IH[OF ph _ False, of "addr + 2"] v Suc.prems(2) unfolding r by simp
  qed
qed simp

lemma obeys_statusD:
  assumes "obeys_status P view b" and "p = b + 7 \<or> p = b + 0x206"
  obtains s h' where "io_inb P p h = (s, h')" "view h' = view h"
    "phase (view h) = Ready \<Longrightarrow> s AND STA_BSY = 0 \<and> s AND STA_DRQ = 0"
    "phase (view h) = DataIn bs \<Longrightarrow> s AND STA_BSY = 0 \<and> s AND STA_DRQ \<noteq> 0"
    "phase (view h) = DataOut bs \<Longrightarrow> s AND STA_BSY = 0 \<and> s AND STA_DRQ \<noteq> 0"
    "phase (view h) = Accepting k \<Longrightarrow> s AND STA_BSY \<noteq> 0"
proof -
  obtain s h' where i: "io_inb P p h = (s, h')" by (cases "io_inb P p h")
  then have law: "view h' = view h" "case phase (view h) of
        Ready \<Rightarrow> s AND STA_BSY = 0 \<and> s AND STA_DRQ = 0
      | DataIn _ \<Rightarrow> s AND STA_BSY = 0 \<and> s AND STA_DRQ \<noteq> 0
      | DataOut _ \<Rightarrow> s AND STA_BSY = 0 \<and> s AND STA_DRQ \<noteq> 0
      | _ \<Rightarrow> s AND STA_BSY \<noteq> 0"
    using assms unfolding obeys_status_def by blast+
  show ?thesis by (rule that[OF i law(1)]) (use law(2) in simp_all)
qed

lemma wait_until_idle_eval:
  assumes "obeys_status P view (reg_base c)" and "phase (view h) = Ready"
  shows "view (wait_until_idle P c h) = view h"
proof -
  obtain s h' where s: "io_inb P (reg_base c + 7) h = (s, h')" "view h' = view h" "s AND STA_BSY = 0 \<and> s AND STA_DRQ = 0"
    using obeys_statusD[OF assms(1), of "reg_base c + 7" h] assms(2) by blast
  have "s AND (STA_BSY OR STA_DRQ) = 0" using s(3) by (simp only: bit.conj_disj_distrib or.right_neutral)
  then have "view (wait_until_idle_loop P c (Suc n) h) = view h" for n using s(1,2) by simp
  moreover have "(1000 :: nat) = Suc 999" by simp
  ultimately show ?thesis unfolding wait_until_idle_def by (simp only:)
qed

lemma wait_while_busy_data:
  assumes "obeys_status P view (reg_base c)" and "phase (view h) = DataIn bs \<or> phase (view h) = DataOut bs"
  shows "\<exists>h'. wait_while_busy_loop P c (Suc n) h = (True, h') \<and> view h' = view h"
proof -
  obtain s h1 where s: "io_inb P (reg_base c + 0x206) h = (s, h1)" "view h1 = view h" "s AND STA_BSY = 0 \<and> s AND STA_DRQ \<noteq> 0"
    using obeys_statusD[OF assms(1), of "reg_base c + 0x206" h bs] assms(2) by blast
  obtain s' h2 where s': "io_inb P (reg_base c + 0x206) h1 = (s', h2)" "view h2 = view h1" "s' AND STA_BSY = 0 \<and> s' AND STA_DRQ \<noteq> 0"
    using obeys_statusD[OF assms(1), of "reg_base c + 0x206" h1 bs] assms(2) s(2) by metis
  show ?thesis using s s' by simp
qed

lemma wait_while_busy_ready:
  assumes "obeys_status P view (reg_base c)" and "phase (view h) = DataIn bs \<or> phase (view h) = DataOut bs"
  shows "\<exists>h'. wait_while_busy P c h = (True, h') \<and> view h' = view h"
proof -
  have n: "(3000 :: nat) = Suc 2999" by simp
  show ?thesis unfolding wait_while_busy_def n by (rule wait_while_busy_data[OF assms])
qed

lemma wait_while_busy_accepting:
  assumes "obeys_status P view (reg_base c)" and "obeys_write P view (reg_base c)" and "phase (view h) = Accepting k" and "k + 1 < n"
  shows "\<exists>h'. wait_while_busy_loop P c n h = (True, h') \<and> view h' = (view h)\<lparr>phase := DataOut []\<rparr>"
  using assms(3,4)
proof (induction k arbitrary: h n)
  case (0 h n)
  have n: "n = Suc (Suc (n - 2))" using 0(2) by simp
  define j where "j = n - 2"
  obtain s h1 where s: "io_inb P (reg_base c + 0x206) h = (s, h1)" "view h1 = view h" "s AND STA_BSY \<noteq> 0"
    using obeys_statusD[OF assms(1), of "reg_base c + 0x206" h "[]" 0] 0(1) by blast
  have v: "view (io_sleep P 10000000 h1) = (view h)\<lparr>phase := DataOut []\<rparr>"
    using obeys_writeD(2)[OF assms(2), of h1 0] 0(1) s(2) by simp
  then obtain h' where "wait_while_busy_loop P c (Suc j) (io_sleep P 10000000 h1) = (True, h')" "view h' = view (io_sleep P 10000000 h1)"
    using wait_while_busy_data[OF assms(1), of "io_sleep P 10000000 h1" "[]" j] by auto
  then show ?case using s v by (subst n, fold j_def) (simp del: wait_while_busy_loop.simps add: wait_while_busy_loop.simps(2)[of P c "Suc j"])
next
  case (Suc k h n)
  obtain j where n: "n = Suc j" "k + 1 < j" using Suc.prems(2) by (cases n) auto
  obtain s h1 where s: "io_inb P (reg_base c + 0x206) h = (s, h1)" "view h1 = view h" "s AND STA_BSY \<noteq> 0"
    using obeys_statusD[OF assms(1), of "reg_base c + 0x206" h "[]" "Suc k"] Suc.prems(1) by blast
  have v: "view (io_sleep P 10000000 h1) = (view h)\<lparr>phase := Accepting k\<rparr>"
    using obeys_writeD(2)[OF assms(2), of h1 "Suc k"] Suc.prems(1) s(2) by simp
  then show ?case using Suc.IH[of "io_sleep P 10000000 h1" j] s n by simp
qed

lemma obeys_registersD:
  assumes "obeys_registers P view b" and "phase (view h) = Ready"
  shows "view (io_outb P (b + 2) v h) = (view h)\<lparr>regs := (regs (view h))\<lparr>nsect := v\<rparr>\<rparr>"
    and "view (io_outb P (b + 3) v h) = (view h)\<lparr>regs := (regs (view h))\<lparr>lbal := v\<rparr>\<rparr>"
    and "view (io_outb P (b + 4) v h) = (view h)\<lparr>regs := (regs (view h))\<lparr>lbam := v\<rparr>\<rparr>"
    and "view (io_outb P (b + 5) v h) = (view h)\<lparr>regs := (regs (view h))\<lparr>lbah := v\<rparr>\<rparr>"
    and "view (io_outb P (b + 6) v h) = (view h)\<lparr>regs := (regs (view h))\<lparr>device := v\<rparr>\<rparr>"
    and "view (io_sleep P n h) = view h"
  using assms by (simp_all add: obeys_registers_def)

lemma select_device_eval:
  assumes "obeys_registers P view (reg_base c)" and "obeys_status P view (reg_base c)" and "phase (view h) = Ready"
  shows "\<exists>v. view (select_device_wait P c d h) = (view h)\<lparr>regs := (regs (view h))\<lparr>device := v\<rparr>\<rparr>"
proof -
  define h1 where "h1 = wait_until_idle P c h"
  have h1: "view h1 = view h" unfolding h1_def by (rule wait_until_idle_eval[OF assms(2,3)])
  let ?dev = "ucast (if ad_dev_no d = 1 then DEV_MBS OR DEV_DEV else DEV_MBS) :: uint8"
  define h2 where "h2 = io_outb P (reg_base c + 6) ?dev h1"
  have h2: "view h2 = (view h)\<lparr>regs := (regs (view h))\<lparr>device := ?dev\<rparr>\<rparr>"
    unfolding h2_def using obeys_registersD(5)[OF assms(1), of h1 ?dev] assms(3) h1 by simp
  obtain s h3 where h3: "io_inb P (reg_base c + 0x206) h2 = (s, h3)" "view h3 = view h2"
    using obeys_statusD[OF assms(2), of "reg_base c + 0x206" h2] by blast
  have h4: "view (io_sleep P 400 h3) = view h2" using obeys_registersD(6)[OF assms(1), of h3] assms(3) h2 h3(2) by simp
  have "select_device P c d h1 = io_sleep P 400 h3" unfolding select_device_def Let_def h2_def[symmetric] h3(1) by simp
  moreover have "view (wait_until_idle P c (io_sleep P 400 h3)) = view (io_sleep P 400 h3)"
    by (rule wait_until_idle_eval[OF assms(2)]) (use h4 h2 assms(3) in simp)
  ultimately show ?thesis unfolding select_device_wait_def h1_def[symmetric] using h4 h2 by auto
qed

lemma select_sector_eval:
  assumes "obeys_registers P view (reg_base c)" and "obeys_status P view (reg_base c)" and "phase (view h) = Ready"
    and "sec_no < ad_capacity a" and "sec_no < push_bit 28 1"
  shows "\<exists>h'. select_sector P c a sec_no h = Some h' \<and> view h' = (view h)\<lparr>regs := sector_regs (ad_dev_no a = 1) sec_no\<rparr>"
proof -
  let ?dv = "ucast (DEV_MBS OR DEV_LBA OR (if ad_dev_no a = 1 then DEV_DEV else 0) OR drop_bit 24 sec_no) :: uint8"
  obtain v where v: "view (select_device_wait P c a h) = (view h)\<lparr>regs := (regs (view h))\<lparr>device := v\<rparr>\<rparr>"
    using select_device_eval[OF assms(1-3)] by blast
  define h0 where "h0 = select_device_wait P c a h"
  define h1 where "h1 = io_outb P (reg_base c + 2) 1 h0"
  define h2 where "h2 = io_outb P (reg_base c + 3) (ucast sec_no) h1"
  define h3 where "h3 = io_outb P (reg_base c + 4) (ucast (drop_bit 8 sec_no)) h2"
  define h4 where "h4 = io_outb P (reg_base c + 5) (ucast (drop_bit 16 sec_no)) h3"
  define h5 where "h5 = io_outb P (reg_base c + 6) ?dv h4"
  note D = obeys_registersD[OF assms(1)]
  have p0: "phase (view h0) = Ready" unfolding h0_def v using assms(3) by simp
  then have p1: "phase (view h1) = Ready" unfolding h1_def by (simp add: D(1))
  then have p2: "phase (view h2) = Ready" unfolding h2_def by (simp add: D(2))
  then have p3: "phase (view h3) = Ready" unfolding h3_def by (simp add: D(3))
  then have p4: "phase (view h4) = Ready" unfolding h4_def by (simp add: D(4))
  have "view h5 = (view h)\<lparr>regs := sector_regs (ad_dev_no a = 1) sec_no\<rparr>"
    unfolding h5_def D(5)[OF p4] unfolding h4_def D(4)[OF p3] unfolding h3_def D(3)[OF p2] unfolding h2_def D(2)[OF p1]
    unfolding h1_def D(1)[OF p0] unfolding h0_def v sector_regs_def
    by simp
  moreover have "select_sector P c a sec_no h = Some h5"
    unfolding select_sector_def h0_def[symmetric] Let_def h1_def[symmetric] h2_def[symmetric] h3_def[symmetric] h4_def[symmetric] h5_def[symmetric]
    using assms(4,5) by simp
  ultimately show ?thesis by blast
qed

lemma completion_down_eval:
  assumes "obeys_status P view (reg_base c)" and "completion_wait c = 0" and "expecting_interrupt c" and "io_irq P h = Some h1"
  shows "\<exists>h'. completion_down P c h = Some (c, h') \<and> view h' = view h1"
proof -
  obtain s h2 where h2: "io_inb P (reg_base c + 7) h1 = (s, h2)" "view h2 = view h1"
    using obeys_statusD[OF assms(1), of "reg_base c + 7" h1] by blast
  let ?c = "c\<lparr>completion_wait := 1\<rparr>"
  have "completion_down P c h = completion_down P ?c h2"
    using assms(2-4) h2(1) by (subst completion_down.simps) (simp add: interrupt_handler_def)
  also have "\<dots> = Some (?c\<lparr>completion_wait := 0\<rparr>, h2)" by (subst completion_down.simps) simp
  also have "?c\<lparr>completion_wait := 0\<rparr> = c" using assms(2) by (cases c) simp
  finally show ?thesis using h2(2) by blast
qed

section \<open>The driver implements the service\<close>

lemma disk_read_pio_eval:
  assumes "ata_conforms P view (reg_base c)" and "represents view c a h d" and "sec < capacity d" and "buf \<noteq> NULL"
  shows "\<exists>c' a' h'. disk_read_pio P True c a m sec buf h = Some (c', a', write_bytes m buf (sectors d sec), h') \<and>
    represents view c' a' h' (d\<lparr>read_cnt := read_cnt d + 1\<rparr>) \<and> reg_base c' = reg_base c \<and> store (view h') = store (view h)"
proof -
  note cf = assms(1)[unfolded ata_conforms_def]
  have rd: "obeys_read P view (reg_base c)" and st: "obeys_status P view (reg_base c)" and rg: "obeys_registers P view (reg_base c)" using cf by auto
  have r: "phase (view h) = Ready" "\<not> ch_lock c" "completion_wait c = 0" "disk_ok d" "store (view h) (dev_no d = 1) = sectors d"
    "ad_dev_no a = dev_no d" "ad_capacity a = capacity d" "ad_read_cnt a = read_cnt d" "ad_write_cnt a = write_cnt d"
    using assms(2) by (simp_all add: represents_def)
  have "capacity d \<le> push_bit 28 1" using r(4) by (simp add: disk_ok_def)
  then have sec: "sec < push_bit 28 1" by (rule order.strict_trans2[OF assms(3)])
  let ?c = "c\<lparr>ch_lock := True, expecting_interrupt := True\<rparr>" and ?r = "sector_regs (dev_no d = 1) sec"
  note fl = lba_of_sector_regs[OF sec, of "dev_no d = 1"] sector_regs_flags[OF sec, of "dev_no d = 1"]
  obtain h1 where h1: "select_sector P (c\<lparr>ch_lock := True\<rparr>) a sec h = Some h1" "view h1 = (view h)\<lparr>regs := ?r\<rparr>"
    using select_sector_eval[of P view "c\<lparr>ch_lock := True\<rparr>" h sec a] rg st r sec assms(3) by auto
  define h2 where "h2 = io_outb P (reg_base c + 7) CMD_READ_SECTOR_RETRY h1"
  have "addressed (view h1)" using h1(2) r(1) fl by (simp add: addressed_def)
  then have h2: "view h2 = (view h1)\<lparr>phase := Fetching\<rparr>" using rd unfolding h2_def obeys_read_def by blast
  then have "phase (view h2) = Fetching" by simp
  then obtain h3 where h3: "io_irq P h2 = Some h3" "view h3 = (view h2)\<lparr>phase := DataIn (store (view h2) (unit_of (regs (view h2))) (lba_of (regs (view h2))))\<rparr>"
    using rd unfolding obeys_read_def by blast
  have v3: "view h3 = (view h)\<lparr>regs := ?r, phase := DataIn (sectors d sec)\<rparr>" using h3(2) h2 h1(2) fl r(5) by simp
  obtain h4 where h4: "completion_down P ?c h2 = Some (?c, h4)" "view h4 = view h3"
    using completion_down_eval[of P view ?c h2 h3] st r(3) h3(1) by auto
  obtain h5 where h5: "wait_while_busy P ?c h4 = (True, h5)" "view h5 = view h4"
    using wait_while_busy_ready[of P view ?c h4 "sectors d sec"] st v3 h4(2) by auto
  have "\<exists>h6. insw P (reg_base c) m buf 256 h5 = (write_bytes m buf (sectors d sec), h6) \<and> view h6 = (view h5)\<lparr>phase := Ready\<rparr>"
    using r(4) v3 h4(2) h5(2) by (intro insw_eval[OF rd]) (simp_all add: disk_ok_def)
  then obtain h6 where h6: "insw P (reg_base c) m buf 256 h5 = (write_bytes m buf (sectors d sec), h6)" "view h6 = (view h5)\<lparr>phase := Ready\<rparr>" by blast
  have e: "disk_read_pio P True c a m sec buf h = Some (?c\<lparr>ch_lock := False\<rparr>, a\<lparr>ad_read_cnt := ad_read_cnt a + 1\<rparr>, write_bytes m buf (sectors d sec), h6)"
    using assms(4) r(2) h1(1) h4(1) h5(1) h6(1)
    by (simp add: disk_read_pio_def channel_acquire_def channel_release_def issue_pio_command_def h2_def[symmetric] input_sector_def)
  have v6: "view h6 = (view h)\<lparr>regs := ?r, phase := Ready\<rparr>" using h6(2) h5(2) h4(2) v3 by simp
  have "represents view (?c\<lparr>ch_lock := False\<rparr>) (a\<lparr>ad_read_cnt := ad_read_cnt a + 1\<rparr>) h6 (d\<lparr>read_cnt := read_cnt d + 1\<rparr>)"
    unfolding represents_def v6 using r by (simp add: disk_ok_def)
  then show ?thesis using e v6 by (intro exI[of _ "?c\<lparr>ch_lock := False\<rparr>"] exI[of _ "a\<lparr>ad_read_cnt := ad_read_cnt a + 1\<rparr>"] exI[of _ h6]) simp
qed

lemma disk_write_pio_eval:
  assumes "ata_conforms P view (reg_base c)" and "represents view c a h d" and "sec < capacity d" and "buf \<noteq> NULL"
  shows "\<exists>c' a' h'. disk_write_pio P True c a m sec buf h = Some (c', a', h') \<and>
    represents view c' a' h' (d\<lparr>sectors := (sectors d)(sec := read_bytes m buf 512), write_cnt := write_cnt d + 1\<rparr>) \<and>
    reg_base c' = reg_base c \<and> store (view h') (dev_no d \<noteq> 1) = store (view h) (dev_no d \<noteq> 1)"
proof -
  note cf = assms(1)[unfolded ata_conforms_def]
  have wr: "obeys_write P view (reg_base c)" and st: "obeys_status P view (reg_base c)" and rg: "obeys_registers P view (reg_base c)" using cf by auto
  have r: "phase (view h) = Ready" "\<not> ch_lock c" "completion_wait c = 0" "disk_ok d" "store (view h) (dev_no d = 1) = sectors d"
    "ad_dev_no a = dev_no d" "ad_capacity a = capacity d" "ad_read_cnt a = read_cnt d" "ad_write_cnt a = write_cnt d"
    using assms(2) by (simp_all add: represents_def)
  have "capacity d \<le> push_bit 28 1" using r(4) by (simp add: disk_ok_def)
  then have sec: "sec < push_bit 28 1" by (rule order.strict_trans2[OF assms(3)])
  let ?c = "c\<lparr>ch_lock := True, expecting_interrupt := True\<rparr>" and ?r = "sector_regs (dev_no d = 1) sec" and ?bs = "read_bytes m buf 512"
  note fl = lba_of_sector_regs[OF sec, of "dev_no d = 1"] sector_regs_flags[OF sec, of "dev_no d = 1"]
  obtain h1 where h1: "select_sector P (c\<lparr>ch_lock := True\<rparr>) a sec h = Some h1" "view h1 = (view h)\<lparr>regs := ?r\<rparr>"
    using select_sector_eval[of P view "c\<lparr>ch_lock := True\<rparr>" h sec a] rg st r sec assms(3) by auto
  define h2 where "h2 = io_outb P (reg_base c + 7) CMD_WRITE_SECTOR_RETRY h1"
  have "addressed (view h1)" using h1(2) r(1) fl by (simp add: addressed_def)
  then obtain ph where ph: "view h2 = (view h1)\<lparr>phase := ph\<rparr>" "ph = DataOut [] \<or> (\<exists>k<2999. ph = Accepting k)"
    using obeys_writeD(1)[OF wr] unfolding h2_def by blast
  have "\<exists>h'. wait_while_busy P ?c h2 = (True, h') \<and> view h' = (view h2)\<lparr>phase := DataOut []\<rparr>"
  proof (cases "ph = DataOut []")
    case True
    then have "\<exists>h'. wait_while_busy P ?c h2 = (True, h') \<and> view h' = view h2"
      using ph(1) st by (intro wait_while_busy_ready[where bs = "[]"]) simp_all
    moreover have "view h2 = (view h2)\<lparr>phase := DataOut []\<rparr>" using ph(1) True by simp
    ultimately show ?thesis by metis
  next
    case False
    then obtain k where "k < 2999" "phase (view h2) = Accepting k" using ph by auto
    then show ?thesis unfolding wait_while_busy_def using st wr by (intro wait_while_busy_accepting) simp_all
  qed
  then obtain h3 where h3: "wait_while_busy P ?c h2 = (True, h3)" "view h3 = (view h2)\<lparr>phase := DataOut []\<rparr>" by blast
  define h4 where "h4 = outsw P (reg_base c) m buf 256 h3"
  have "view h4 = (view h3)\<lparr>phase := Storing ([] @ read_bytes m buf (2 * 256))\<rparr>"
    unfolding h4_def using h3(2) by (intro outsw_eval[OF wr]) simp_all
  then have v4: "view h4 = (view h)\<lparr>regs := ?r, phase := Storing ?bs\<rparr>" using h3(2) ph(1) h1(2) by simp
  then have "phase (view h4) = Storing ?bs" by simp
  from obeys_writeD(4)[OF wr this] obtain h5 where h5: "io_irq P h4 = Some h5"
    "view h5 = (view h)\<lparr>regs := ?r, phase := Ready, store := (store (view h))(dev_no d = 1 := (sectors d)(sec := ?bs))\<rparr>"
    unfolding v4 using fl r(5) by auto
  obtain h6 where h6: "completion_down P ?c h4 = Some (?c, h6)" "view h6 = view h5"
    using completion_down_eval[of P view ?c h4 h5] st r(3) h5(1) by auto
  have e: "disk_write_pio P True c a m sec buf h = Some (?c\<lparr>ch_lock := False\<rparr>, a\<lparr>ad_write_cnt := ad_write_cnt a + 1\<rparr>, h6)"
    using assms(4) r(2) h1(1) h3(1) h6(1)
    by (simp add: disk_write_pio_def channel_acquire_def channel_release_def issue_pio_command_def h2_def[symmetric] output_sector_def h4_def[symmetric])
  have "represents view (?c\<lparr>ch_lock := False\<rparr>) (a\<lparr>ad_write_cnt := ad_write_cnt a + 1\<rparr>) h6
      (d\<lparr>sectors := (sectors d)(sec := ?bs), write_cnt := write_cnt d + 1\<rparr>)"
    unfolding represents_def h6(2) h5(2) using r by (simp add: disk_ok_def)
  then show ?thesis using e h6(2) h5(2)
    by (intro exI[of _ "?c\<lparr>ch_lock := False\<rparr>"] exI[of _ "a\<lparr>ad_write_cnt := ad_write_cnt a + 1\<rparr>"] exI[of _ h6]) simp
qed

text \<open>
  C11. The ATA driver implements an array of sectors. On a channel that behaves as the ATA standard says and holds a given
  disk, \<open>disk_read\<close> and \<open>disk_write\<close>, which program the registers, issue the command, wait for the interrupt and the status and
  move 256 units of data through the port, do exactly what reading or writing a sector of the array does: they panic on
  the same arguments, and otherwise transfer the same bytes to or from memory, and afterwards the channel is idle and free
  again and holds the resulting disk, so that the next transfer can follow. The other device of the channel is unchanged.
\<close>

theorem disk_pio_refines:
  assumes "ata_conforms P view (reg_base c)" and "represents view c a h d"
  shows "(case disk_read d m sec buf of
       None \<Rightarrow> disk_read_pio P True c a m sec buf h = None
     | Some (d', m') \<Rightarrow> \<exists>c' a' h'. disk_read_pio P True c a m sec buf h = Some (c', a', m', h') \<and> represents view c' a' h' d' \<and>
         reg_base c' = reg_base c \<and> store (view h') (dev_no d \<noteq> 1) = store (view h) (dev_no d \<noteq> 1)) \<and>
   (case disk_write d m sec buf of
       None \<Rightarrow> disk_write_pio P True c a m sec buf h = None
     | Some d' \<Rightarrow> \<exists>c' a' h'. disk_write_pio P True c a m sec buf h = Some (c', a', h') \<and> represents view c' a' h' d' \<and>
         reg_base c' = reg_base c \<and> store (view h') (dev_no d \<noteq> 1) = store (view h) (dev_no d \<noteq> 1))"
proof (cases "sec < capacity d \<and> buf \<noteq> NULL")
  case True
  have d: "capacity d \<le> 0x10000000" "answers d" using assms(2) by (simp_all add: represents_def disk_ok_def)
  show ?thesis
    using disk_read_pio_eval[OF assms, of sec buf m] disk_write_pio_eval[OF assms, of sec buf m] True
    unfolding disk_read_eval[OF conjunct1[OF True] d conjunct2[OF True]] disk_write_eval[OF conjunct1[OF True] d conjunct2[OF True]]
    by auto
next
  case False
  have "select_sector P c' a sec h = None" if "\<not> sec < capacity d" for c'
    using that assms(2) by (simp add: select_sector_def represents_def)
  with False show ?thesis
    by (cases "buf = NULL")
      (auto simp: disk_read_def disk_write_def read_sector_def write_sector_def disk_read_pio_def disk_write_pio_def channel_acquire_def bind_eq_None_conv)
qed

text \<open>A channel that behaves as required: the secondary channel of a PC, whose devices take three polls to accept a write.\<close>

definition example_ports :: "ata_view io_ports" where
  "example_ports = \<lparr>
     io_inb = (\<lambda>p v. (case phase v of Ready \<Rightarrow> 0x50 | DataIn _ \<Rightarrow> 0x58 | DataOut _ \<Rightarrow> 0x58 | _ \<Rightarrow> 0xd0, v)),
     io_outb = (\<lambda>p x v. if p = 0x172 then v\<lparr>regs := (regs v)\<lparr>nsect := x\<rparr>\<rparr>
       else if p = 0x173 then v\<lparr>regs := (regs v)\<lparr>lbal := x\<rparr>\<rparr>
       else if p = 0x174 then v\<lparr>regs := (regs v)\<lparr>lbam := x\<rparr>\<rparr>
       else if p = 0x175 then v\<lparr>regs := (regs v)\<lparr>lbah := x\<rparr>\<rparr>
       else if p = 0x176 then v\<lparr>regs := (regs v)\<lparr>device := x\<rparr>\<rparr>
       else if x = 0x20 then v\<lparr>phase := Fetching\<rparr>
       else v\<lparr>phase := Accepting 2\<rparr>),
     io_inw = (\<lambda>p v. case phase v of
         DataIn (x # y # bs) \<Rightarrow> (push_bit 8 (ucast y) OR ucast x, v\<lparr>phase := (if bs = [] then Ready else DataIn bs)\<rparr>)
       | _ \<Rightarrow> (0, v)),
     io_outw = (\<lambda>p w v. case phase v of
         DataOut bs \<Rightarrow> (let bs' = bs @ [ucast w, ucast (drop_bit 8 w)] in v\<lparr>phase := (if length bs' < 512 then DataOut bs' else Storing bs')\<rparr>)
       | _ \<Rightarrow> v),
     io_sleep = (\<lambda>n v. case phase v of
         Accepting k \<Rightarrow> v\<lparr>phase := (case k of 0 \<Rightarrow> DataOut [] | Suc j \<Rightarrow> Accepting j)\<rparr>
       | _ \<Rightarrow> v),
     io_irq = (\<lambda>v. let u = unit_of (regs v); s = lba_of (regs v) in case phase v of
         Fetching \<Rightarrow> Some (v\<lparr>phase := DataIn (store v u s)\<rparr>)
       | Storing bs \<Rightarrow> Some (v\<lparr>phase := Ready, store := (store v)(u := (store v u)(s := bs))\<rparr>)
       | _ \<Rightarrow> None)\<rparr>"

lemma example_ports_conform: "ata_conforms example_ports (\<lambda>v. v) 0x170"
proof -
  have "obeys_registers example_ports (\<lambda>v. v) 0x170" by (simp add: obeys_registers_def example_ports_def)
  moreover have "obeys_status example_ports (\<lambda>v. v) 0x170"
    by (auto simp: obeys_status_def example_ports_def split: phase.splits)
  moreover have "obeys_read example_ports (\<lambda>v. v) 0x170" by (simp add: obeys_read_def example_ports_def)
  moreover have "obeys_write example_ports (\<lambda>v. v) 0x170"
    unfolding obeys_write_def
    by (simp add: example_ports_def Let_def) (auto intro!: exI[of _ "Accepting 2"])
  ultimately show ?thesis by (simp add: ata_conforms_def)
qed

definition example_view :: ata_view where
  "example_view = \<lparr>regs = \<lparr>nsect = 0, lbal = 0, lbam = 0, lbah = 0, device = 0\<rparr>, phase = Ready, store = \<lambda>_ _. replicate 512 0\<rparr>"

theorem disk_pio_refines_witness:
  "\<exists>c' a' h'. disk_write_pio example_ports True \<lparr>reg_base = 0x170, ch_lock = False, expecting_interrupt = False, completion_wait = 0\<rparr>
     \<lparr>ad_dev_no = 1, ad_capacity = 100, ad_read_cnt = 0, ad_write_cnt = 0\<rparr> (\<lambda>_. 7) 42 1000 example_view = Some (c', a', h') \<and>
     store h' True 42 = replicate 512 7 \<and> store h' False 42 = replicate 512 0"
proof -
  let ?c = "\<lparr>reg_base = 0x170, ch_lock = False, expecting_interrupt = False, completion_wait = 0\<rparr>"
  let ?a = "\<lparr>ad_dev_no = 1, ad_capacity = 100, ad_read_cnt = 0, ad_write_cnt = 0\<rparr>"
  let ?d = "\<lparr>dev_no = 1, capacity = 100, sectors = \<lambda>_. replicate 512 0, read_cnt = 0, write_cnt = 0, answers = True\<rparr>"
  have r: "represents (\<lambda>v. v) ?c ?a example_view ?d" by (simp add: represents_def example_view_def disk_ok_def)
  have w: "disk_write ?d (\<lambda>_. 7) 42 1000 = Some (?d\<lparr>sectors := (sectors ?d)(42 := read_bytes (\<lambda>_. 7) 1000 512), write_cnt := 1\<rparr>)"
    by (subst disk_write_eval) simp_all
  have b: "read_bytes (\<lambda>_. 7) 1000 512 = replicate 512 7" by (simp add: read_bytes_def map_replicate_const)
  show ?thesis
    using disk_pio_refines[of example_ports "\<lambda>v. v" ?c ?a example_view ?d "\<lambda>_. 7" 42 1000] example_ports_conform r w b
    by (auto simp: represents_def example_view_def)
qed

end
