(* ===== verification/Page.thy ===== *)
theory Page
  imports Hash
begin

text \<open>
  The supplemental page table: \<open>src/vm/page.c\<close>. A process has a hash table of the pages that are not in its page
  directory yet, keyed by the address of the page; an element says where the contents come from. Elements are values with their address.
  A semaphore protects the table: the operations here run without another thread in between, so one that finds it taken never returns
  (\<open>None\<close>); semaphores under interleaving are in the theory \<open>Interleaving\<close>. What \<open>expire_page\<close> and
  \<open>destroy_supplemental_pagetable\<close> write back and free is not modelled.

  The contract of hash tables is interpreted on the hash and comparison functions of page tables; from its facts it follows
  that the table is a map from pages to elements.
\<close>

section \<open>The code\<close>

datatype special_page =
    EXEC (elf_file: ptr) (e_offset: size_t) (e_zero_after: size_t) (writable: bool)
  | FILE (source_file: ptr) (f_offset: size_t) (f_zero_after: size_t)
  | SWAP (slot: ptr) (dirty: bool) (evicted_page: ptr)
  | ZERO

record special_page_elem =
  sp_addr :: ptr
  virtual_page :: "32 word"
  sp_type :: special_page

type_synonym sup_pagetable = "special_page_elem hash"

text \<open>The two fields of \<open>struct thread\<close> that the table consists of; of the semaphore only its value.\<close>

record sup_pages =
  sup_pagetable :: sup_pagetable
  page_sema_value :: "32 word"

text \<open>\<open>hash_bytes\<close> of the four bytes of the field.\<close>

definition page_hash :: "special_page_elem \<Rightarrow> 32 word" where
  "page_hash page = word_hash (virtual_page page)"

definition page_key_less :: "special_page_elem \<Rightarrow> special_page_elem \<Rightarrow> bool" where
  "page_key_less pa pb \<longleftrightarrow> virtual_page pa < virtual_page pb"

definition page_sema_down :: "sup_pages \<Rightarrow> sup_pages option" where
  "page_sema_down t = (if page_sema_value t = 0 then None else Some (t\<lparr>page_sema_value := page_sema_value t - 1\<rparr>))"

definition page_sema_up :: "sup_pages \<Rightarrow> sup_pages" where
  "page_sema_up t = t\<lparr>page_sema_value := page_sema_value t + 1\<rparr>"

text \<open>The result of \<open>hash_init\<close> is ignored.\<close>

definition init_supplemental_pagetable :: "bool \<Rightarrow> sup_pages option" where
  "init_supplemental_pagetable malloc_ok = do {
     (h, _) \<leftarrow> hash_init malloc_ok page_hash page_key_less;
     Some \<lparr>sup_pagetable = h, page_sema_value = 1\<rparr>
   }"

definition add_lazy_page_unsafe :: "bool \<Rightarrow> sup_pages \<Rightarrow> special_page_elem \<Rightarrow> (sup_pages \<times> special_page_elem option) option" where
  "add_lazy_page_unsafe malloc_ok t page = do {
     ASSERT (sp_addr page AND 0xfffff000 \<noteq> 0xccccc000);
     (h, elem) \<leftarrow> hash_insert malloc_ok (sup_pagetable t) page;
     Some (t\<lparr>sup_pagetable := h\<rparr>, elem)
   }"

definition add_lazy_page :: "bool \<Rightarrow> sup_pages \<Rightarrow> special_page_elem \<Rightarrow> (sup_pages \<times> special_page_elem option) option" where
  "add_lazy_page malloc_ok t page = do {
     ASSERT (sp_addr page \<noteq> 0xdddddddd);
     t \<leftarrow> page_sema_down t;
     (t, results) \<leftarrow> add_lazy_page_unsafe malloc_ok t page;
     Some (page_sema_up t, results)
   }"

text \<open>The constructors; \<open>p\<close> is what \<open>malloc\<close> returns, which they do not check.\<close>

definition new_zero_page :: "ptr \<Rightarrow> 32 word \<Rightarrow> special_page_elem option" where
  "new_zero_page p vp = do {
     ASSERT (p \<noteq> NULL);
     Some \<lparr>sp_addr = p, virtual_page = vp, sp_type = ZERO\<rparr>
   }"

definition new_exec_page :: "ptr \<Rightarrow> 32 word \<Rightarrow> ptr \<Rightarrow> size_t \<Rightarrow> size_t \<Rightarrow> bool \<Rightarrow> special_page_elem option" where
  "new_exec_page p vp file offset zero_after w = do {
     ASSERT (p \<noteq> NULL);
     Some \<lparr>sp_addr = p, virtual_page = vp, sp_type = EXEC file offset zero_after w\<rparr>
   }"

definition new_swap_page :: "ptr \<Rightarrow> 32 word \<Rightarrow> ptr \<Rightarrow> bool \<Rightarrow> ptr \<Rightarrow> special_page_elem option" where
  "new_swap_page p vp sl dty evicted = do {
     ASSERT (p \<noteq> NULL);
     Some \<lparr>sp_addr = p, virtual_page = vp, sp_type = SWAP sl dty evicted\<rparr>
   }"

definition new_file_page :: "ptr \<Rightarrow> 32 word \<Rightarrow> ptr \<Rightarrow> size_t \<Rightarrow> size_t \<Rightarrow> special_page_elem option" where
  "new_file_page p vp file offset zero_after = do {
     ASSERT (p \<noteq> NULL);
     Some \<lparr>sp_addr = p, virtual_page = vp, sp_type = FILE file offset zero_after\<rparr>
   }"

text \<open>\<open>needle\<close> is a local variable of which only the key is set; the other fields are not read.\<close>

definition find_lazy_page_unsafe :: "sup_pages \<Rightarrow> 32 word \<Rightarrow> special_page_elem option option" where
  "find_lazy_page_unsafe t p = do {
     ASSERT (p AND 0xfffff000 \<noteq> 0xccccc000);
     hash_find (sup_pagetable t) \<lparr>sp_addr = 0, virtual_page = 0xfffff000 AND p, sp_type = ZERO\<rparr>
   }"

definition find_lazy_page :: "sup_pages \<Rightarrow> 32 word \<Rightarrow> (sup_pages \<times> special_page_elem option) option" where
  "find_lazy_page t p = do {
     t \<leftarrow> page_sema_down t;
     result \<leftarrow> find_lazy_page_unsafe t p;
     Some (page_sema_up t, result)
   }"

fun validate_free_loop :: "sup_pages \<Rightarrow> 32 word \<Rightarrow> nat \<Rightarrow> (sup_pages \<times> bool) option" where
  "validate_free_loop t p 0 = Some (t, True)"
| "validate_free_loop t p (Suc n) = do {
     (t, spe) \<leftarrow> find_lazy_page t p;
     if spe \<noteq> None then Some (t, False) else validate_free_loop t (p + 4096) n
   }"

definition validate_free_page :: "sup_pages \<Rightarrow> 32 word \<Rightarrow> 32 word \<Rightarrow> (sup_pages \<times> bool) option" where
  "validate_free_page t upage cnt =
     (let num_of_pages = cnt div 4096; num_of_pages = (if cnt mod 4096 \<noteq> 0 then num_of_pages + 1 else num_of_pages)
      in validate_free_loop t upage (unat num_of_pages))"

section \<open>The table is a map\<close>

interpretation page_table: hash_funcs page_key_less page_hash
  by unfold_locales (auto simp: page_key_less_def page_hash_def)

text \<open>The invariant between operations: a well-formed table, and the semaphore free.\<close>

definition lazy_pages :: "sup_pages \<Rightarrow> special_page_elem multiset" where
  "lazy_pages t = hash_elems (sup_pagetable t)"

definition pagetable_ok :: "sup_pages \<Rightarrow> bool" where
  "pagetable_ok t \<longleftrightarrow> hash_wf page_hash page_key_less (sup_pagetable t) \<and> page_sema_value t = 1"

lemma page_eqv: "page_table.eqv a b \<longleftrightarrow> virtual_page a = virtual_page b"
  by (auto simp: page_table.eqv_def page_key_less_def)

lemma find_lazy_page_eval:
  assumes "pagetable_ok t" and "p AND 0xfffff000 \<noteq> 0xccccc000"
  shows "\<exists>r. find_lazy_page t p = Some (t, r) \<and> find_lazy_page_unsafe t p = Some r"
proof -
  obtain r where "hash_find (sup_pagetable t) \<lparr>sp_addr = 0, virtual_page = 0xfffff000 AND p, sp_type = ZERO\<rparr> = Some r"
    using page_table.hash_find_total[of "sup_pagetable t"] assms(1) by (auto simp: pagetable_ok_def)
  moreover have "t\<lparr>page_sema_value := 1\<rparr> = t" using assms(1) by (simp add: pagetable_ok_def)
  ultimately show ?thesis using assms
    by (simp add: find_lazy_page_def find_lazy_page_unsafe_def page_sema_down_def page_sema_up_def pagetable_ok_def)
qed

lemma find_lazy_page_Some:
  assumes "pagetable_ok t" and "p AND 0xfffff000 \<noteq> 0xccccc000"
  shows "find_lazy_page t p = Some (t, Some x) \<longleftrightarrow> x \<in># lazy_pages t \<and> virtual_page x = p AND 0xfffff000"
proof -
  have "find_lazy_page t p = Some (t, Some x) \<longleftrightarrow> find_lazy_page_unsafe t p = Some (Some x)" using find_lazy_page_eval[OF assms] by auto
  then show ?thesis using page_table.hash_find_Some[of "sup_pagetable t"] assms
    by (simp add: find_lazy_page_unsafe_def page_eqv and.commute pagetable_ok_def lazy_pages_def)
qed

lemma find_lazy_page_None:
  assumes "pagetable_ok t" and "p AND 0xfffff000 \<noteq> 0xccccc000"
  shows "find_lazy_page t p = Some (t, None) \<longleftrightarrow> (\<forall>x\<in>#lazy_pages t. virtual_page x \<noteq> p AND 0xfffff000)"
proof -
  have "find_lazy_page t p = Some (t, None) \<longleftrightarrow> find_lazy_page_unsafe t p = Some None" using find_lazy_page_eval[OF assms] by auto
  then show ?thesis using page_table.hash_find_None[of "sup_pagetable t"] assms
    by (simp add: find_lazy_page_unsafe_def page_eqv and.commute pagetable_ok_def lazy_pages_def)
qed

text \<open>A new table is empty; a page that is added is found by every later lookup of an address in it, and no other lookup changes.\<close>

lemma init_supplemental_pagetable_ok:
  "\<exists>t. init_supplemental_pagetable True = Some t \<and> pagetable_ok t \<and> lazy_pages t = {#}"
  using page_table.hash_init_law by (auto simp: init_supplemental_pagetable_def pagetable_ok_def lazy_pages_def)

lemma add_lazy_page_correct:
  assumes ok: "pagetable_ok t" and "size (lazy_pages t) < 2 ^ 32 - 1"
    and a: "sp_addr page AND 0xfffff000 \<noteq> 0xccccc000" "sp_addr page \<noteq> 0xdddddddd"
  shows "\<exists>t' old. add_lazy_page m t page = Some (t', old) \<and> pagetable_ok t' \<and>
    (old = None \<longleftrightarrow> (\<forall>x\<in>#lazy_pages t. virtual_page x \<noteq> virtual_page page)) \<and>
    (\<forall>p. p AND 0xfffff000 \<noteq> 0xccccc000 \<longrightarrow> find_lazy_page_unsafe t' p =
       (if old = None \<and> p AND 0xfffff000 = virtual_page page then Some (Some page) else find_lazy_page_unsafe t p))"
proof -
  have wf: "hash_wf page_hash page_key_less (sup_pagetable t)" using ok by (simp add: pagetable_ok_def)
  have sz: "size (hash_elems (sup_pagetable t)) < 2 ^ 32 - 1" using assms(2) by (simp add: lazy_pages_def)
  obtain h old where i: "hash_insert m (sup_pagetable t) page = Some (h, old)" "hash_wf page_hash page_key_less h"
    "hash_find (sup_pagetable t) page = Some old"
    "\<And>x. hash_find h x = (if page_table.eqv page x \<and> old = None then Some (Some page) else hash_find (sup_pagetable t) x)"
    using page_table.hash_insert_law[OF wf sz, of m page] by blast
  have "old = None \<longleftrightarrow> (\<forall>x\<in>#lazy_pages t. virtual_page x \<noteq> virtual_page page)"
    using page_table.hash_find_None[OF wf, of page] i(3) by (simp add: page_eqv lazy_pages_def)
  moreover have "find_lazy_page_unsafe (t\<lparr>sup_pagetable := h\<rparr>) p =
      (if old = None \<and> p AND 0xfffff000 = virtual_page page then Some (Some page) else find_lazy_page_unsafe t p)"
    if "p AND 0xfffff000 \<noteq> 0xccccc000" for p
    using i(4) that by (auto simp: find_lazy_page_unsafe_def page_eqv and.commute)
  moreover have "add_lazy_page m t page = Some (t\<lparr>sup_pagetable := h\<rparr>, old)"
    using i(1) a ok by (simp add: add_lazy_page_def add_lazy_page_unsafe_def page_sema_down_def page_sema_up_def pagetable_ok_def)
  ultimately show ?thesis using i(2) ok by (auto simp: pagetable_ok_def)
qed

text \<open>\<open>validate_free_page\<close> says whether none of the pages of a range is in the table.\<close>

lemma validate_free_loop_eval:
  assumes ok: "pagetable_ok t" and "\<And>k. k < n \<Longrightarrow> (p + 4096 * of_nat k) AND 0xfffff000 \<noteq> 0xccccc000"
  shows "validate_free_loop t p n = Some (t, \<forall>k<n. \<forall>x\<in>#lazy_pages t. virtual_page x \<noteq> (p + 4096 * of_nat k) AND 0xfffff000)"
  using assms(2)
proof (induction n arbitrary: p)
  case (Suc n)
  have 0: "p AND 0xfffff000 \<noteq> 0xccccc000" using Suc.prems[of 0] by simp
  have sh: "p + 4096 + 4096 * of_nat k = p + 4096 * of_nat (Suc k)" for k by (simp add: algebra_simps)
  have ih: "validate_free_loop t (p + 4096) n =
      Some (t, \<forall>k<n. \<forall>x\<in>#lazy_pages t. virtual_page x \<noteq> (p + 4096 + 4096 * of_nat k) AND 0xfffff000)"
  proof (rule Suc.IH)
    fix k assume "k < n"
    then show "(p + 4096 + 4096 * of_nat k) AND 0xfffff000 \<noteq> 0xccccc000" using Suc.prems[of "Suc k"] unfolding sh by simp
  qed
  obtain r where r: "find_lazy_page t p = Some (t, r)" using find_lazy_page_eval[OF ok 0] by blast
  show ?case
  proof (cases r)
    case None
    then show ?thesis using r ih find_lazy_page_None[OF ok 0] unfolding sh by (simp add: All_less_Suc2 del: of_nat_Suc)
  next
    case (Some x)
    then have "\<exists>x\<in>#lazy_pages t. virtual_page x = p AND 0xfffff000" using r find_lazy_page_Some[OF ok 0, of x] by auto
    then show ?thesis using r Some by (auto intro!: exI[of _ 0])
  qed
qed simp

end
