(* ===== verification/Spec2Isabelle.thy ===== *)
theory Spec2Isabelle
  imports Swap Hash Filesys Arith Stdlib Interleaving Pagedir Ata Page
begin

text \<open>
  Verification of the tiny-os kernel, a derivative of Pintos for the 80x86: the library it is built on, its memory management, its file
  system, and its threads.

  \<^bold>\<open>Conventions.\<close> A C function is an Isabelle function from its arguments and the part of the state it works on. A result of type
  \<open>option\<close> is \<open>None\<close> if the function panics (a failed \<open>ASSERT\<close>, \<open>PANIC\<close>, \<open>NOT_REACHED\<close>), goes through a null pointer, or does not return; so
  \<open>f x = Some y\<close> says that the call returns. Machine integers are words of their width wherever an operation could wrap. Loops are recursive
  functions with a termination proof; where a loop could run forever in a bad state (a cyclic list, a string without end), it is a
  \<open>partial_function\<close> and the theorems prove that it returns. Code outside of \<open>src/\<close>, the hardware behind the ports,
  and the results of \<open>malloc\<close>, are arguments. Where an object the code reaches through a pointer is a value, its assertion that the
  pointer is not null has no counterpart.

  \<^bold>\<open>The library.\<close> \<open>Prelude\<close> has the \<open>ASSERT\<close> macro and the contract of comparison functions (locale \<open>strict_weak_order\<close>).
  \<open>Klist\<close> and \<open>Klist_Order\<close> model \<open>src/lib/kernel/list.c\<close> at the level of the links of a heap of list elements; every operation is shown to
  change the sequence of elements as documented, and the natural merge sort to sort stably; \<open>fifo_queue\<close> is the contract of a queue.
  \<open>Bitmap\<close> is \<open>src/lib/kernel/bitmap.c\<close> on arrays of words, \<open>Hash\<close> is \<open>src/lib/kernel/hash.c\<close> with resizing (locale \<open>hash_funcs\<close> has what the
  hash and comparison functions must satisfy; it is interpreted for page tables in \<open>Page\<close>), \<open>Strings\<close> is \<open>src/lib/string.c\<close> on a byte-addressed memory, \<open>Arith\<close> is the 64-bit
  division of \<open>src/lib/arithmetic.c\<close>, and \<open>Stdlib\<close> is the sorting, searching and number parsing of \<open>src/lib/stdlib.c\<close> and \<open>src/lib/ctype.h\<close>.

  \<^bold>\<open>Memory.\<close> \<open>Vaddr\<close> has addresses and page table entries (\<open>src/threads/vaddr.h\<close>, \<open>src/threads/pte.h\<close>). \<open>Extents\<close> states the contract of an
  allocator of ranges (locale \<open>extent_allocator\<close>), from which it follows that live ranges never overlap; it is interpreted for the pages of
  \<open>Palloc\<close> (\<open>src/threads/palloc.c\<close>), for the swap slots of \<open>Swap\<close> (\<open>src/vm/swap.c\<close>) and for the sectors of the free map in \<open>Files\<close>.
  \<open>Page\<close> has the supplemental page tables (\<open>src/vm/page.c\<close>), shown to be maps from pages.
  \<open>Pagedir\<close> has the page directories of processes (\<open>src/userprog/pagedir.c\<close>) as tables in memory, with the translation lookaside buffer, and the
  kernel mapping of \<open>src/threads/init.c\<close>.

  \<^bold>\<open>The file system.\<close> \<open>Disk\<close> states the service of a disk, reading and writing sectors, on which the rest is built. \<open>Ata\<close> has the
  driver (\<open>src/devices/disk.c\<close>) at the level of the ports of the controller, and shows that it implements the service, with its
  polling and its interrupt, on every controller that behaves as the hypothesis \<open>ata_conforms\<close> says. \<open>Inode\<close> has the byte transfers of \<open>src/filesys/inode.c\<close>, \<open>Files\<close> the
  open inodes, files and the free map (\<open>src/filesys/inode.c\<close>, \<open>src/filesys/file.c\<close>, \<open>src/filesys/free-map.c\<close>), \<open>Directory\<close> the directories
  (\<open>src/filesys/directory.c\<close>), and \<open>Filesys\<close> the interface (\<open>src/filesys/filesys.c\<close>) with the invariant of the whole file system.
  A transfer of bytes can fail for want of memory for its bounce buffer: the state lists the outcome for each of the following transfers, and what
  such failures leave behind is part of the results on transfers and on the free map; directories and the whole file system assume there are none.

  \<^bold>\<open>Threads.\<close> \<open>Thread\<close> has the scheduler, interrupt levels, thread creation and the timer interrupt (\<open>src/threads/thread.c\<close>,
  \<open>src/threads/interrupt.c\<close>, \<open>src/devices/timer.c\<close>), \<open>Synch\<close> semaphores, locks and condition variables (\<open>src/threads/synch.c\<close>). Each thread
  has a stack of pending calls; a function is cut at the points where it can lose the processor, and the step relation \<open>kstep\<close> interleaves
  the calls of the running thread, arbitrary client code, and timer interrupts whenever they are enabled. \<open>Scheduler\<close> proves the invariant of the
  scheduler for each operation; \<open>Interleaving\<close> relates every step to an abstract view of the synchronization objects and proves mutual exclusion,
  the absence of lost wake-ups, progress and round robin scheduling for all interleavings.

  \<^bold>\<open>Bounds.\<close> No result depends on a fuel bound. The hypotheses on sizes are those of a 32-bit machine: blocks of memory do not wrap around the
  address space, lists and arrays are shorter than \<open>2\<^sup>3\<^sup>2\<close>, and physical memory is at most 1 GB.

  \<^bold>\<open>Not modelled.\<close> Detection, reset and identification of disks and the other device drivers, formatted output, user processes and system calls, which work through
  inline assembly and hardware ports; the user library and example programs.
\<close>

end
